(* ===== verification/Memory.thy ===== *)
theory Memory
  imports Main "HOL-Library.Word"
begin

text \<open>
  The machine memory every component of the kernel works on, and the errors a kernel
  routine can end in. It holds
  \<^item> the fixed-width integer types of \<^verbatim>\<open>libc/stdint.hpp\<close>;
  \<^item> byte-addressed memory, little-endian loads and stores of one, two, four and eight
    bytes (the accessors of \<^verbatim>\<open>cpu/mmio.h\<close>; an ordinary C++ lvalue access is the same);
  \<^item> the bit macros of \<^verbatim>\<open>kutils/bits.hpp\<close> and packed bit-fields;
  \<^item> kernel errors: a failed \<^verbatim>\<open>ASSERT\<close>, a dereferenced null pointer, a buffer overrun, a
    loop that does not end;
  \<^item> the locale \<open>cell_store\<close> of a typed cell in byte memory, interpreted for each width.
\<close>

unbundle bit_operations_syntax

named_theorems mem_simps "reads after writes in byte memory"

section \<open>Integer types and errors\<close>

type_synonym u8 = "8 word"
type_synonym u16 = "16 word"
type_synonym u32 = "32 word"
type_synonym u64 = "64 word"

type_synonym mem = "u64 \<Rightarrow> u8"

datatype kerror =
    Assert string      \<comment> \<open>\<^verbatim>\<open>ASSERT(expr)\<close> failed: the kernel panics and halts\<close>
  | NullDeref          \<comment> \<open>a member of a null pointer is read or written\<close>
  | DivByZero
  | PageFault u64      \<comment> \<open>an access to an address that is not mapped\<close>
  | BufferOverflow     \<comment> \<open>an array of the source is written past its end\<close>
  | BadVarArg          \<comment> \<open>\<^verbatim>\<open>va_arg\<close> with no argument left or one of another type\<close>
  | Diverges           \<comment> \<open>a loop of the source that never ends\<close>

type_synonym 'a res = "kerror + 'a"

definition bind_res :: "'a res \<Rightarrow> ('a \<Rightarrow> 'b res) \<Rightarrow> 'b res" where
  "bind_res r f = (case r of Inl e \<Rightarrow> Inl e | Inr x \<Rightarrow> f x)"

lemma bind_res_simps [simp]:
  "bind_res (Inl e) f = Inl e"
  "bind_res (Inr x) f = f x"
  by (simp_all add: bind_res_def)

lemma bind_res_Inr_iff:
  "bind_res r f = Inr y \<longleftrightarrow> (\<exists>x. r = Inr x \<and> f x = Inr y)"
  by (cases r) auto

definition ASSERT :: "string \<Rightarrow> bool \<Rightarrow> unit res" where
  "ASSERT expr b = (if b then Inr () else Inl (Assert expr))"

lemma ASSERT_simps [simp]:
  "ASSERT e True = Inr ()"
  "ASSERT e False = Inl (Assert e)"
  by (simp_all add: ASSERT_def)

lemma ASSERT_Inr_iff [simp]: "ASSERT e b = Inr u \<longleftrightarrow> b"
  by (simp add: ASSERT_def)

section \<open>Bit macros and bit-fields\<close>

text \<open>
  In \<^verbatim>\<open>1 << pos\<close> the \<^verbatim>\<open>1\<close> is a 32-bit \<^verbatim>\<open>int\<close>; the result is converted, with its sign,
  to the type of the other operand.
\<close>

definition set_bit_m :: "'a::len word \<Rightarrow> nat \<Rightarrow> 'a word" where
  "set_bit_m var pos = var OR scast (push_bit pos (1 :: 32 word))"

definition clear_bit_m :: "'a::len word \<Rightarrow> nat \<Rightarrow> 'a word" where
  "clear_bit_m var pos = var AND scast (NOT (push_bit pos (1 :: 32 word)))"

definition test_bit_m :: "'a::len word \<Rightarrow> nat \<Rightarrow> 'a word" where
  "test_bit_m var pos = var AND scast (push_bit pos (1 :: 32 word))"

text \<open>A bit-field of \<open>w\<close> bits at bit \<open>lo\<close> of a packed structure of 64 bits.\<close>

definition bf_get :: "nat \<Rightarrow> nat \<Rightarrow> u64 \<Rightarrow> u64" where
  "bf_get lo w e = take_bit w (drop_bit lo e)"

definition bf_set :: "nat \<Rightarrow> nat \<Rightarrow> u64 \<Rightarrow> u64 \<Rightarrow> u64" where
  "bf_set lo w v e = (e AND NOT (push_bit lo (mask w))) OR push_bit lo (take_bit w v)"

lemma bit_set_bit_m:
  assumes "pos < 31"
  shows "bit (set_bit_m var pos :: 'a::len word) k \<longleftrightarrow>
           (k < LENGTH('a) \<and> (bit var k \<or> k = pos))"
  using assms
  by (auto simp: set_bit_m_def bit_simps min_def not_le dest: bit_imp_le_length)

lemma bit_clear_bit_m:
  assumes "pos < 31"
  shows "bit (clear_bit_m var pos :: 'a::len word) k \<longleftrightarrow> bit var k \<and> k \<noteq> pos"
  using assms
  by (auto simp: clear_bit_m_def bit_simps min_def not_le dest: bit_imp_le_length)

lemma test_bit_m_nonzero:
  assumes "pos < 31" and "pos < LENGTH('a)"
  shows "(test_bit_m (var :: 'a::len word) pos \<noteq> 0) = bit var pos"
proof -
  have "bit (test_bit_m var pos) k \<longleftrightarrow> k = pos \<and> bit var k" for k
    using assms
    by (auto simp: test_bit_m_def bit_simps min_def not_le dest: bit_imp_le_length)
  then show ?thesis
    by (metis bit_0_eq bit_eq_iff bot_apply bot_bool_def)
qed

lemma bit_bf_get:
  "bit (bf_get lo w e) k \<longleftrightarrow> k < w \<and> bit e (lo + k)"
  by (auto simp: bf_get_def bit_simps)

lemma bit_bf_set:
  "bit (bf_set lo w v e) k \<longleftrightarrow>
     k < 64 \<and> (if lo \<le> k \<and> k < lo + w then bit v (k - lo) else bit e k)"
  by (auto simp: bf_set_def bit_simps dest: bit_imp_le_length)

lemma bf_get_set [simp]:
  assumes "lo + w \<le> 64"
  shows "bf_get lo w (bf_set lo w v e) = take_bit w v"
  using assms by (intro bit_word_eqI) (auto simp: bit_bf_get bit_bf_set bit_simps)

lemma bf_get_set_other:
  assumes "lo + w \<le> 64" and "lo + w \<le> lo' \<or> lo' + w' \<le> lo"
  shows "bf_get lo w (bf_set lo' w' v e) = bf_get lo w e"
  using assms by (intro bit_word_eqI) (auto simp: bit_bf_get bit_bf_set bit_simps)

section \<open>Byte memory\<close>

primrec load :: "nat \<Rightarrow> mem \<Rightarrow> u64 \<Rightarrow> 'a::len word" where
  "load 0 m a = 0"
| "load (Suc n) m a = ucast (m a) OR push_bit 8 (load n m (a + 1))"

primrec store :: "nat \<Rightarrow> mem \<Rightarrow> u64 \<Rightarrow> 'a::len word \<Rightarrow> mem" where
  "store 0 m a v = m"
| "store (Suc n) m a v = (store n m (a + 1) (drop_bit 8 v))(a := ucast v)"

definition read8 :: "mem \<Rightarrow> u64 \<Rightarrow> u8" where "read8 m p = m p"
definition write8 :: "mem \<Rightarrow> u64 \<Rightarrow> u8 \<Rightarrow> mem" where "write8 m p d = m(p := d)"
definition read16 :: "mem \<Rightarrow> u64 \<Rightarrow> u16" where "read16 m p = load 2 m p"
definition write16 :: "mem \<Rightarrow> u64 \<Rightarrow> u16 \<Rightarrow> mem" where "write16 m p d = store 2 m p d"
definition read32 :: "mem \<Rightarrow> u64 \<Rightarrow> u32" where "read32 m p = load 4 m p"
definition write32 :: "mem \<Rightarrow> u64 \<Rightarrow> u32 \<Rightarrow> mem" where "write32 m p d = store 4 m p d"
definition read64 :: "mem \<Rightarrow> u64 \<Rightarrow> u64" where "read64 m p = load 8 m p"
definition write64 :: "mem \<Rightarrow> u64 \<Rightarrow> u64 \<Rightarrow> mem" where "write64 m p d = store 8 m p d"

text \<open>\<^verbatim>\<open>mmio::readn\<close>: a byte is read only after the one before it has been written.\<close>

function readn :: "mem \<Rightarrow> u64 \<Rightarrow> u64 \<Rightarrow> u64 \<Rightarrow> mem" where
  "readn m dst src bytes = (if bytes > 0 then readn (m(dst := m src)) (dst + 1) (src + 1) (bytes - 1) else m)"
  by pat_completeness auto
termination
  by (relation "measure (\<lambda>(m, dst, src, bytes). unat bytes)") (auto simp: unat_minus_one unat_gt_0 word_neq_0_conv [symmetric])

declare readn.simps [simp del]

text \<open>\<open>span a n\<close> is the set of the \<open>n\<close> addresses from \<open>a\<close> on, modulo \<open>2 ^ 64\<close>.\<close>

definition span :: "u64 \<Rightarrow> nat \<Rightarrow> u64 set" where
  "span a n = {x. unat (x - a) < n}"

definition apart :: "u64 \<Rightarrow> nat \<Rightarrow> u64 \<Rightarrow> nat \<Rightarrow> bool" where
  "apart a n b k \<longleftrightarrow> n \<le> unat (b - a) \<and> k \<le> unat (a - b)"


subsection \<open>Spans\<close>

lemma span_iff: "x \<in> span a n \<longleftrightarrow> unat (x - a) < n"
  by (simp add: span_def)

lemma apart_sym: "apart a n b k \<longleftrightarrow> apart b k a n"
  by (auto simp: apart_def)

lemma span_mono: "n \<le> k \<Longrightarrow> span a n \<subseteq> span a k"
  by (auto simp: span_iff)

lemma u64_bound: "unat (x::u64) < 2 ^ 64"
  using unsigned_less [of x] by simp

lemma unat_minus_le: "(b::u64) \<le> a \<Longrightarrow> unat (a - b) = unat a - unat b"
  by (simp add: unat_sub)

lemma unat_minus_gt: "(a::u64) < b \<Longrightarrow> unat (a - b) = 2 ^ 64 - (unat b - unat a)"
  using u64_bound [of b]
  by (auto simp: unat_sub_if_size word_less_nat_alt word_size)

lemma span_disjoint:
  assumes "apart a n b k"
  shows "span a n \<inter> span b k = {}"
proof (rule equals0I)
  fix x assume "x \<in> span a n \<inter> span b k"
  then have n: "unat (x - a) < n" and k: "unat (x - b) < k" by (auto simp: span_iff)
  have ba: "b - a = (x - a) - (x - b)" and ab: "a - b = (x - b) - (x - a)" by simp_all
  show False
  proof (cases "x - b \<le> x - a")
    case True
    then have "unat (b - a) = unat (x - a) - unat (x - b)"
      by (subst ba) (rule unat_minus_le)
    with n assms show False unfolding apart_def by linarith
  next
    case False
    then have "x - a \<le> x - b" by simp
    then have "unat (a - b) = unat (x - b) - unat (x - a)"
      by (subst ab) (rule unat_minus_le)
    with k assms show False unfolding apart_def by linarith
  qed
qed

lemma disjoint_apart:
  assumes "span a n \<inter> span b k = {}" and "0 < n" and "0 < k"
  shows "apart a n b k"
proof -
  have "b \<notin> span a n" "a \<notin> span b k" using assms by (auto simp: span_iff disjoint_iff)
  then show ?thesis by (simp add: span_iff apart_def not_less)
qed

lemma apartI:
  assumes "unat a + n \<le> unat b" and "unat b + k \<le> 2 ^ 64" and "0 < n"
  shows "apart a n b k" and "apart b k a n"
proof -
  have "a < b" using assms(1,3) by (simp add: word_less_nat_alt)
  then show "apart a n b k"
    using assms by (auto simp: apart_def unat_minus_le unat_minus_gt)
  then show "apart b k a n" by (simp add: apart_sym)
qed

lemma apart_off:
  assumes "i + n \<le> j" and "j + k \<le> 2 ^ 64" and "0 < n" and "0 < k"
  shows "apart (a + of_nat i) n (a + of_nat j) k"
proof -
  have "unat (of_nat i :: u64) = i" and "unat (of_nat j :: u64) = j"
    using assms by (simp_all add: unat_of_nat)
  then have "apart (of_nat i) n (of_nat j) k"
    using assms by (intro apartI(1)) auto
  then show ?thesis by (simp add: apart_def)
qed

lemma span_bounds:
  assumes "x \<in> span a n" and "unat a + n \<le> 2 ^ 64"
  shows "unat a \<le> unat x" and "unat x < unat a + n"
proof -
  have "unat (a + (x - a)) = unat a + unat (x - a)" using assms by (intro unat_add_lem [THEN iffD1]) (simp add: span_iff)
  then show "unat a \<le> unat x" "unat x < unat a + n" using assms(1) by (simp_all add: span_iff)
qed

subsection \<open>Loads and stores\<close>

lemma unat_minus_Suc:
  assumes "x \<noteq> a"
  shows "unat (x - (a + 1) :: u64) = unat (x - a) - 1"
proof -
  have "x - a \<noteq> 0" using assms by simp
  then have "unat (x - a - 1) = unat (x - a) - 1" by (rule unat_minus_one)
  then show ?thesis by (simp add: diff_diff_eq)
qed

lemma store_apply:
  "n < 2 ^ 64 \<Longrightarrow> store n m a v x =
     (if unat (x - a) < n then ucast (drop_bit (8 * unat (x - a)) v) else m x)"
proof (induction n arbitrary: a v)
  case (Suc n)
  show ?case
  proof (cases "x = a")
    case False
    then have "unat (x - a) \<noteq> 0" by (simp add: unat_eq_zero)
    then obtain d where d: "unat (x - a) = Suc d" by (cases "unat (x - a)") auto
    then have "unat (x - (a + 1)) = d" using False by (simp add: unat_minus_Suc)
    with Suc False d show ?thesis by (simp add: add.commute)
  qed simp
qed simp

lemma load_shift:
  "(\<And>i. i < n \<Longrightarrow> m (a + of_nat i) = m' (b + of_nat i)) \<Longrightarrow>
     (load n m a :: 'a::len word) = load n m' b"
proof (induction n arbitrary: a b)
  case (Suc n)
  have "(load n m (a + 1) :: 'a word) = load n m' (b + 1)"
  proof (rule Suc.IH)
    fix i assume "i < n"
    then show "m (a + 1 + of_nat i) = m' (b + 1 + of_nat i)"
      using Suc.prems [of "Suc i"] by (simp add: add.assoc)
  qed
  with Suc.prems [of 0] show ?case by simp
qed simp

lemmas load_cong = load_shift [where a = a and b = a for a]

lemma load_cong_span:
  assumes "n < 2 ^ 64" and "\<And>x. x \<in> span a n \<Longrightarrow> m x = m' x"
  shows "load n m a = load n m' a"
  using assms by (intro load_cong) (simp add: span_iff unat_of_nat)

lemma load_store:
  "n < 2 ^ 64 \<Longrightarrow> load n (store n m a v) a = take_bit (8 * n) v"
proof (induction n arbitrary: a v)
  case (Suc n)
  have "load n ((store n m (a + 1) (drop_bit 8 v))(a := ucast v)) (a + 1)
      = load n (store n m (a + 1) (drop_bit 8 v)) (a + 1)"
  proof (rule load_cong)
    fix i assume "i < n"
    then have "(of_nat (Suc i) :: u64) \<noteq> 0"
      using Suc.prems by (auto simp: word_of_nat_eq_0_iff dest: dvd_imp_le simp del: of_nat_Suc)
    then show "((store n m (a + 1) (drop_bit 8 v))(a := ucast v)) (a + 1 + of_nat i)
        = store n m (a + 1) (drop_bit 8 v) (a + 1 + of_nat i)"
      by (simp add: add.assoc)
  qed
  also have "\<dots> = take_bit (8 * n) (drop_bit 8 v)" using Suc by simp
  finally have rest: "load n ((store n m (a + 1) (drop_bit 8 v))(a := ucast v)) (a + 1)
      = take_bit (8 * n) (drop_bit 8 v)" .
  show ?case
    unfolding load.simps store.simps rest
    by (rule bit_word_eqI) (auto simp: bit_simps)
qed simp

text \<open>Loads of concrete memories, unrolled.\<close>

lemma load_steps:
  "load 4 m a = ucast (m a) OR push_bit 8 (ucast (m (a + 1)) OR push_bit 8 (ucast (m (a + 2)) OR
     push_bit 8 (ucast (m (a + 3)))))"
  "load 8 m a = ucast (m a) OR push_bit 8 (ucast (m (a + 1)) OR push_bit 8 (ucast (m (a + 2)) OR
     push_bit 8 (ucast (m (a + 3)) OR push_bit 8 (ucast (m (a + 4)) OR push_bit 8 (ucast (m (a + 5)) OR
     push_bit 8 (ucast (m (a + 6)) OR push_bit 8 (ucast (m (a + 7)))))))))"
  by (simp_all add: eval_nat_numeral add.assoc)

lemma load_two: "load 2 m a = ucast (m a) OR push_bit 8 (ucast (m (a + 1)))"
  by (simp add: numeral_2_eq_2)

lemma take_bit_full [simp]:
  "take_bit 16 (v :: u16) = v" "take_bit 32 (w :: u32) = w" "take_bit 64 (x :: u64) = x"
  by (auto simp: bit_simps intro!: bit_word_eqI)

subsection \<open>Typed cells\<close>

text \<open>
  A cell of a fixed width at an address: reading it back gives what was written, writing
  it changes nothing outside its span, and its value depends on its span only.
\<close>

locale cell_store =
  fixes rd :: "mem \<Rightarrow> u64 \<Rightarrow> 'v" and wr :: "mem \<Rightarrow> u64 \<Rightarrow> 'v \<Rightarrow> mem" and width :: nat
  assumes rd_wr: "rd (wr m a v) a = v"
    and wr_outside: "x \<notin> span a width \<Longrightarrow> wr m a v x = m x"
    and rd_cong: "(\<And>x. x \<in> span a width \<Longrightarrow> m x = m' x) \<Longrightarrow> rd m a = rd m' a"
begin

lemma rd_outside:
  assumes "\<And>x. x \<notin> S \<Longrightarrow> m' x = m x" and "span a width \<inter> S = {}"
  shows "rd m' a = rd m a"
  using assms by (intro rd_cong) auto

lemma rd_wr_apart: "apart a width b width \<Longrightarrow> rd (wr m b v) a = rd m a"
  using span_disjoint [of a width b width] wr_outside
  by (intro rd_outside [where S = "span b width"]) auto

lemma wr_wr_other_cell:
  "apart a width b width \<Longrightarrow> rd (wr (wr m a v) b w) a = v"
  by (simp add: rd_wr_apart rd_wr)

end

interpretation c8: cell_store read8 write8 1
  by unfold_locales (auto simp: read8_def write8_def span_iff)

interpretation c16: cell_store read16 write16 2
  by unfold_locales
    (auto simp: read16_def write16_def load_store store_apply span_iff intro!: load_cong_span)

interpretation c32: cell_store read32 write32 4
  by unfold_locales
    (auto simp: read32_def write32_def load_store store_apply span_iff intro!: load_cong_span)

interpretation c64: cell_store read64 write64 8
  by unfold_locales
    (auto simp: read64_def write64_def load_store store_apply span_iff intro!: load_cong_span)

lemmas cell_rd_wr [simp] = c8.rd_wr c16.rd_wr c32.rd_wr c64.rd_wr

lemma write64_again: "write64 (write64 m a v) a w = write64 m a w"
  by (rule ext) (simp add: write64_def store_apply)

subsection \<open>Runs of bytes\<close>

primrec put_bytes :: "mem \<Rightarrow> u64 \<Rightarrow> u8 list \<Rightarrow> mem" where
  "put_bytes m a [] = m"
| "put_bytes m a (x # xs) = put_bytes (m(a := x)) (a + 1) xs"

definition get_bytes :: "mem \<Rightarrow> u64 \<Rightarrow> nat \<Rightarrow> u8 list" where
  "get_bytes m a n = map (\<lambda>i. m (a + of_nat i)) [0..<n]"

lemma length_get_bytes [simp]: "length (get_bytes m a n) = n"
  by (simp add: get_bytes_def)

lemma nth_get_bytes [simp]: "i < n \<Longrightarrow> get_bytes m a n ! i = m (a + of_nat i)"
  by (simp add: get_bytes_def)

lemma get_bytes_Suc: "get_bytes m a (Suc n) = get_bytes m a n @ [m (a + of_nat n)]"
  by (simp add: get_bytes_def)

lemma get_bytes_eq_iff:
  "get_bytes m a n = xs \<longleftrightarrow> length xs = n \<and> (\<forall>i < n. m (a + of_nat i) = xs ! i)"
  by (auto simp: list_eq_iff_nth_eq)

lemma unat_ucast_up:
  "LENGTH('a) \<le> LENGTH('b) \<Longrightarrow> unat (ucast (x :: 'a::len word) :: 'b::len word) = unat x"
  by (metis unsigned_ucast_eq unsigned_take_bit_eq take_bit_length_eq take_bit_tightened_less_eq_nat
      take_bit_nat_eq_self unsigned_less order_less_le_trans power_increasing one_le_numeral)

lemma unat_u16_bound: "unat (v :: u16) < 65536"
  using unsigned_less [of v] by simp

lemma unat_u8_bound: "unat (v :: u8) < 256"
  using unsigned_less [of v] by simp

lemma unat_of_nat_u64 [simp]: "n < 2 ^ 64 \<Longrightarrow> unat (of_nat n :: u64) = n"
  by (simp add: unat_of_nat)

lemma off_eq_iff:
  assumes "k < 2 ^ 64"
  shows "x = p + of_nat k \<longleftrightarrow> unat (x - p :: u64) = k"
proof
  assume "unat (x - p) = k"
  then have "of_nat k = x - p" using word_unat_eq_iff [of "of_nat k" "x - p"] assms by simp
  then show "x = p + of_nat k" by simp
qed (use assms in simp)

lemma off_inj:
  assumes "i < 2 ^ 64" and "k < 2 ^ 64"
  shows "p + of_nat i = p + (of_nat k :: u64) \<longleftrightarrow> i = k"
  using off_eq_iff [OF assms(2), of "p + of_nat i" p] assms by simp

lemma unat_Suc_u64: "count + 1 \<noteq> (0::u64) \<Longrightarrow> unat (count + 1) = Suc (unat count)"
  using unatSuc [of count] by (simp add: add.commute)

lemma less_imp_Suc_nonzero:
  assumes "i < (n::u64)"
  shows "i + 1 \<noteq> 0"
proof
  assume "i + 1 = 0"
  with inc_le [OF assms] have "i = - 1" by (simp add: eq_neg_iff_add_eq_0)
  with assms show False by simp
qed

lemma unat_Suc_less: "i < (n::u64) \<Longrightarrow> unat (i + 1) = Suc (unat i)"
  by (simp add: unat_Suc_u64 less_imp_Suc_nonzero)

lemma measure_up:
  assumes "count + 1 \<noteq> (0::u64)"
  shows "2 ^ 64 - unat (count + 1) < 2 ^ 64 - unat count"
  unfolding unat_Suc_u64 [OF assms] using u64_bound [of count] by linarith

lemma measure_up_less: "i < (n::u64) \<Longrightarrow> 2 ^ 64 - unat (i + 1) < 2 ^ 64 - unat i"
  by (rule measure_up, rule less_imp_Suc_nonzero)

lemma self_notin_span_Suc:
  assumes "n < 2 ^ 64"
  shows "a \<notin> span (a + 1) n"
proof -
  have "unat (- 1 :: u64) = 2 ^ 64 - 1" 
    by (simp add: unsigned_minus_1_eq_mask mask_eq_exp_minus_1)
  then show ?thesis using assms by (simp add: span_iff)
qed

lemma put_bytes_outside:
  "x \<notin> span a (length xs) \<Longrightarrow> length xs \<le> 2 ^ 64 \<Longrightarrow> put_bytes m a xs x = m x"
proof (induction xs arbitrary: m a)
  case (Cons y ys)
  have ne: "x \<noteq> a" using Cons.prems by (auto simp: span_iff)
  then have "x \<notin> span (a + 1) (length ys)"
    using Cons.prems by (auto simp: span_iff unat_minus_Suc)
  with Cons ne show ?case by simp
qed simp

lemma put_bytes_inside:
  "i < length xs \<Longrightarrow> length xs \<le> 2 ^ 64 \<Longrightarrow> put_bytes m a xs (a + of_nat i) = xs ! i"
proof (induction xs arbitrary: m a i)
  case (Cons y ys)
  show ?case
  proof (cases i)
    case 0
    have "a \<notin> span (a + 1) (length ys)" using Cons.prems by (intro self_notin_span_Suc) simp
    with 0 Cons.prems show ?thesis by (simp add: put_bytes_outside)
  next
    case (Suc j)
    have "put_bytes (m(a := y)) (a + 1) ys (a + 1 + of_nat j) = ys ! j"
      using Cons.prems Suc by (intro Cons.IH) auto
    then show ?thesis using Suc by (simp add: add.assoc)
  qed
qed simp

lemma put_bytes_apply:
  assumes "length xs \<le> 2 ^ 64"
  shows "put_bytes m a xs x = (if unat (x - a) < length xs then xs ! unat (x - a) else m x)"
proof (cases "unat (x - a) < length xs")
  case True
  have "put_bytes m a xs (a + of_nat (unat (x - a))) = xs ! unat (x - a)"
    by (rule put_bytes_inside [OF True assms])
  then show ?thesis using True by simp
next
  case False
  then show ?thesis using assms by (simp add: put_bytes_outside span_iff)
qed

lemma put_bytes_append:
  "put_bytes m a (xs @ ys) = put_bytes (put_bytes m a xs) (a + of_nat (length xs)) ys"
  by (induction xs arbitrary: m a) (simp_all add: add.assoc)

lemma get_put_bytes [simp]:
  "length xs \<le> 2 ^ 64 \<Longrightarrow> n = length xs \<Longrightarrow> get_bytes (put_bytes m a xs) a n = xs"
  by (rule nth_equalityI) (simp_all add: put_bytes_inside)

text \<open>A part of a range of addresses.\<close>

lemma span_add_subset: "k + n \<le> N \<Longrightarrow> N < 2 ^ 64 \<Longrightarrow> span (p + of_nat k) n \<subseteq> span p N"
proof
  fix x assume k: "k + n \<le> N" "N < 2 ^ 64" and "x \<in> span (p + of_nat k) n"
  then have x: "unat (x - p - of_nat k) < n" by (simp add: span_iff diff_diff_eq)
  have "unat (x - p) = unat (x - p - of_nat k + of_nat k)" by simp
  also have "\<dots> = unat (x - p - of_nat k) + unat (of_nat k :: u64)"
    using x k by (subst unat_plus_if') simp
  finally show "x \<in> span p N" using x k by (simp add: span_iff)
qed

subsection \<open>Members of structures\<close>

text \<open>Cells at fixed distances from a base address.\<close>

lemma apart_offsets:
  "apart (p + a) n (p + b) k = apart a n b k" "apart p n (p + b) k = apart 0 n b k" "apart (p + a) n p k = apart a n 0 k"
  by (simp_all add: apart_def)


lemma cells_apart:
  "apart a 8 b 8 \<Longrightarrow> read64 (write64 m b v) a = read64 m a"
  "apart a 8 b 2 \<Longrightarrow> read64 (write16 m b w) a = read64 m a"
  "apart a 8 b 1 \<Longrightarrow> read64 (m(b := x)) a = read64 m a"
  "apart a 2 b 8 \<Longrightarrow> read16 (write64 m b v) a = read16 m a"
  "apart a 2 b 2 \<Longrightarrow> read16 (write16 m b w) a = read16 m a"
  "apart a 2 b 1 \<Longrightarrow> read16 (m(b := x)) a = read16 m a"
  "apart a 1 b 8 \<Longrightarrow> write64 m b v a = m a"
  "apart a 1 b 2 \<Longrightarrow> write16 m b w a = m a"
proof -
  have b: "(m(b := x)) y = m y" if "y \<notin> span b 1" for y using that by (auto simp: span_iff)
  show "apart a 8 b 8 \<Longrightarrow> read64 (write64 m b v) a = read64 m a" "apart a 2 b 2 \<Longrightarrow> read16 (write16 m b w) a = read16 m a"
    by (simp_all add: c64.rd_wr_apart c16.rd_wr_apart)
  show "apart a 8 b 2 \<Longrightarrow> read64 (write16 m b w) a = read64 m a"
    by (rule c64.rd_outside [OF c16.wr_outside span_disjoint])
  show "apart a 8 b 1 \<Longrightarrow> read64 (m(b := x)) a = read64 m a" by (rule c64.rd_outside [OF b span_disjoint])
  show "apart a 2 b 8 \<Longrightarrow> read16 (write64 m b v) a = read16 m a"
    by (rule c16.rd_outside [OF c64.wr_outside span_disjoint])
  show "apart a 2 b 1 \<Longrightarrow> read16 (m(b := x)) a = read16 m a" by (rule c16.rd_outside [OF b span_disjoint])
  show "apart a 1 b 8 \<Longrightarrow> write64 m b v a = m a" "apart a 1 b 2 \<Longrightarrow> write16 m b w a = m a"
    using span_disjoint [of a 1 b] by (auto intro!: c64.wr_outside c16.wr_outside simp: span_iff disjoint_iff)
qed
lemmas struct_simps = cells_apart apart_offsets apart_def

lemma span_field:
  "x \<notin> span p N \<Longrightarrow> unat k + n \<le> N \<Longrightarrow> N < 2 ^ 64 \<Longrightarrow> x \<notin> span (p + k) n"
  "x \<notin> span p N \<Longrightarrow> n \<le> N \<Longrightarrow> x \<notin> span p n"
  "x \<notin> span p N \<Longrightarrow> unat k < N \<Longrightarrow> x \<noteq> p + k"
proof -
  show "x \<notin> span p N \<Longrightarrow> unat k + n \<le> N \<Longrightarrow> N < 2 ^ 64 \<Longrightarrow> x \<notin> span (p + k) n"
    using span_add_subset [of "unat k" n N p] by auto
qed (auto simp: span_iff)

section \<open>Counting loops\<close>

text \<open>
  \<^verbatim>\<open>for (size i = a; i < bound; i++) body\<close>: the bound is evaluated in the current state
  before each round. \<open>i < bound\<close> keeps \<open>i + 1\<close> from wrapping, so the loop always ends.
  \<open>for_res\<close> is the loop whose body can fail.
\<close>

function for_up :: "u64 \<Rightarrow> ('s \<Rightarrow> u64) \<Rightarrow> (u64 \<Rightarrow> 's \<Rightarrow> 's) \<Rightarrow> 's \<Rightarrow> 's" where
  "for_up i bound f s = (if i < bound s then for_up (i + 1) bound f (f i s) else s)"
  by pat_completeness auto
termination
  by (relation "measure (\<lambda>(i, bound, f, s). 2 ^ 64 - unat i)") (use measure_up_less in auto)

function for_res :: "u64 \<Rightarrow> ('s \<Rightarrow> u64) \<Rightarrow> (u64 \<Rightarrow> 's \<Rightarrow> 's res) \<Rightarrow> 's \<Rightarrow> 's res" where
  "for_res i bound f s =
     (if i < bound s then
        (case f i s of Inl e \<Rightarrow> Inl e | Inr s' \<Rightarrow> for_res (i + 1) bound f s')
      else Inr s)"
  by pat_completeness auto
termination
  by (relation "measure (\<lambda>(i, bound, f, s). 2 ^ 64 - unat i)") (use measure_up_less in auto)

declare for_up.simps [simp del] for_res.simps [simp del]

text \<open>The loop rules: while the invariant holds the bound is \<open>n\<close>, and the body carries the
  invariant from \<open>i\<close> to \<open>i + 1\<close>; then the loop ends with the invariant at \<open>n\<close>.\<close>

lemma for_up_rule:
  assumes "i \<le> n" and "I i s"
    and "\<And>i s. i \<le> n \<Longrightarrow> I i s \<Longrightarrow> bound s = n"
    and "\<And>i s. i < n \<Longrightarrow> I i s \<Longrightarrow> I (i + 1) (f i s)"
  shows "I n (for_up i bound f s)"
  using assms(1,2)
proof (induction "unat n - unat i" arbitrary: i s)
  case 0
  then have "i = n" by (simp add: word_le_nat_alt word_unat_eq_iff)
  with 0 assms(3) [of i s] show ?case by (subst for_up.simps) simp
next
  case (Suc d)
  then have i: "i < n" by (simp add: word_less_nat_alt)
  have "I n (for_up (i + 1) bound f (f i s))"
    using Suc i assms(4) by (intro Suc.hyps) (auto simp: unat_Suc_less inc_le)
  with Suc.prems i assms(3) [of i s] show ?case by (subst for_up.simps) simp
qed

lemma for_res_keeps:
  assumes step: "\<And>i s s'. f i s = Inr s' \<Longrightarrow> P s' = P s"
  shows "for_res i bound f s = Inr s' \<Longrightarrow> P s' = P s"
  using step
proof (induction i bound f s rule: for_res.induct)
  case (1 i bound f s)
  note IH = 1(1) and eq = 1(2) [unfolded for_res.simps [of i]] and st = 1(3)
  show ?case
  proof (cases "i < bound s")
    case True
    then obtain t where t: "f i s = Inr t" "for_res (i + 1) bound f t = Inr s'"
      using eq by (auto split: sum.splits)
    then show ?thesis using IH [OF True t st] st [OF t(1)] by simp
  qed (use eq in simp)
qed

lemma for_res_rule:
  assumes "i \<le> n" and "I i s"
    and "\<And>i s. i \<le> n \<Longrightarrow> I i s \<Longrightarrow> bound s = n"
    and "\<And>i s. i < n \<Longrightarrow> I i s \<Longrightarrow> \<exists>s'. f i s = Inr s' \<and> I (i + 1) s'"
  shows "\<exists>s'. for_res i bound f s = Inr s' \<and> I n s'"
  using assms(1,2)
proof (induction "unat n - unat i" arbitrary: i s)
  case 0
  then have "i = n" by (simp add: word_le_nat_alt word_unat_eq_iff)
  with 0 assms(3) [of i s] show ?case by (subst for_res.simps) simp
next
  case (Suc d)
  then have i: "i < n" by (simp add: word_less_nat_alt)
  then obtain s' where s': "f i s = Inr s'" "I (i + 1) s'" using assms(4) Suc.prems by blast
  have "\<exists>s''. for_res (i + 1) bound f s' = Inr s'' \<and> I n s''"
    using Suc i s' by (intro Suc.hyps) (auto simp: unat_Suc_less inc_le)
  with Suc.prems i s' assms(3) [of i s] show ?case by (subst for_res.simps) simp
qed

end
