(* ===== verification/Libc.thy ===== *)
theory Libc
  imports Memory
begin

text \<open>
  The kernel's C library, \<^verbatim>\<open>libc/stdlib.cpp\<close>: string length, reversal and comparison,
  \<^verbatim>\<open>memcpy\<close>, \<^verbatim>\<open>memset\<close> and the conversion of an integer to text. Each routine is a
  recursion over the loop of the source on byte memory; the lemmas give its effect in
  closed form and what it leaves alone.
\<close>

named_theorems libc_spec "closed forms of the library routines"

section \<open>The routines\<close>

text \<open>A loop counter that wraps to 0 has seen all of memory and starts again: the loop
  never ends.\<close>

function str_len_loop :: "mem \<Rightarrow> u64 \<Rightarrow> u64 \<Rightarrow> u64 res" where
  "str_len_loop m str count =
     (if m (str + count) = 0 then Inr count
      else if count + 1 = 0 then Inl Diverges
      else str_len_loop m str (count + 1))"
  by pat_completeness auto
termination
  by (relation "measure (\<lambda>(m, str, count). 2 ^ 64 - unat count)")
    (use measure_up in auto)

definition str_len :: "mem \<Rightarrow> u64 \<Rightarrow> u64 res" where
  "str_len m str = str_len_loop m str 0"

function str_reverse_loop :: "mem \<Rightarrow> u64 \<Rightarrow> int \<Rightarrow> int \<Rightarrow> mem" where
  "str_reverse_loop m str len i =
     (if i < len div 2 then
        let temp = m (str + of_int i);
            m1 = m(str + of_int i := m (str + of_int (len - i - 1)));
            m2 = m1(str + of_int (len - i - 1) := temp)
        in str_reverse_loop m2 str len (i + 1)
      else m)"
  by pat_completeness auto
termination
  by (relation "measure (\<lambda>(m, str, len, i). nat (len div 2 - i))") auto

definition str_reverse :: "mem \<Rightarrow> u64 \<Rightarrow> int \<Rightarrow> mem" where
  "str_reverse m str len = str_reverse_loop m str len 0"

function memcpy :: "mem \<Rightarrow> u64 \<Rightarrow> u64 \<Rightarrow> u64 \<Rightarrow> mem" where
  "memcpy m d s n = (if n = 0 then m else memcpy (m(d := m s)) (d + 1) (s + 1) (n - 1))"
  by pat_completeness auto
termination
  by (relation "measure (\<lambda>(m, d, s, n). unat n)") (auto simp: measure_unat)

function memset :: "mem \<Rightarrow> u64 \<Rightarrow> u8 \<Rightarrow> u64 \<Rightarrow> mem" where
  "memset m p v n = (if n = 0 then m else memset (m(p := v)) (p + 1) v (n - 1))"
  by pat_completeness auto
termination
  by (relation "measure (\<lambda>(m, p, v, n). unat n)") (auto simp: measure_unat)

text \<open>With \<^verbatim>\<open>base = 1\<close> the loop keeps \<^verbatim>\<open>num\<close> and never ends; with \<^verbatim>\<open>base = 0\<close> the division
  traps.\<close>

definition itoa_char :: "u64 \<Rightarrow> u8" where
  "itoa_char rem = ucast (if 9 < rem then (rem - 10) + 97 else rem + 48)"

function itoa_loop :: "u64 \<Rightarrow> mem \<Rightarrow> u64 \<Rightarrow> u8 \<Rightarrow> int \<Rightarrow> (int \<times> mem) res" where
  "itoa_loop num m buf base i =
     (if num = 0 then Inr (i, m)
      else if base = 0 then Inl DivByZero
      else if base = 1 then Inl Diverges
      else itoa_loop (num div ucast base)
             (m(buf + of_int i := itoa_char (num mod ucast base))) buf base (i + 1))"
  by pat_completeness auto
termination
proof (relation "measure (\<lambda>(num, m, buf, base, i). unat num)", goal_cases)
  case (2 num m buf base i)
  have "unat base \<noteq> 0" using 2 by (simp add: unat_0_iff)
  moreover have "unat base \<noteq> 1"
    using 2 word_unat_eq_iff [of base 1] by simp
  ultimately have "1 < unat base" by linarith
  moreover have "0 < unat num" using 2 by (simp add: unat_gt_0)
  ultimately have "unat num div unat base < unat num" by (rule div_less_dividend)
  moreover have "unat (ucast base :: u64) = unat base" by (simp add: unat_ucast_up)
  ultimately show ?case by (simp add: unat_div)
qed simp

definition itoa :: "u64 \<Rightarrow> mem \<Rightarrow> u64 \<Rightarrow> u8 \<Rightarrow> mem res" where
  "itoa num m buf base =
     (if num = 0 then Inr (m(buf := 48, buf + 1 := 0))
      else bind_res (itoa_loop num m buf base 0)
             (\<lambda>(i, m1). Inr (str_reverse (m1(buf + of_int i := 0)) buf i)))"

function strcmp_loop :: "mem \<Rightarrow> u64 \<Rightarrow> u64 \<Rightarrow> u64 \<Rightarrow> u8 res" where
  "strcmp_loop m str1 str2 k =
     (if m (str1 + k) = 0 \<or> m (str1 + k) \<noteq> m (str2 + k)
      then Inr (m (str1 + k) - m (str2 + k))
      else if k + 1 = 0 then Inl Diverges
      else strcmp_loop m str1 str2 (k + 1))"
  by pat_completeness auto
termination
  by (relation "measure (\<lambda>(m, str1, str2, k). 2 ^ 64 - unat k)")
    (use measure_up in auto)

definition strcmp :: "mem \<Rightarrow> u64 \<Rightarrow> u64 \<Rightarrow> u8 res" where
  "strcmp m str1 str2 = strcmp_loop m str1 str2 0"

function strncmp :: "mem \<Rightarrow> u64 \<Rightarrow> u64 \<Rightarrow> u64 \<Rightarrow> u8" where
  "strncmp m str1 str2 n =
     (if n \<noteq> 0 \<and> m str1 \<noteq> 0 \<and> m str1 = m str2
      then strncmp m (str1 + 1) (str2 + 1) (n - 1)
      else if n = 0 then 0 else m str1 - m str2)"
  by pat_completeness auto
termination
  by (relation "measure (\<lambda>(m, str1, str2, n). unat n)") (auto simp: measure_unat)

declare str_len_loop.simps [simp del] str_reverse_loop.simps [simp del]
  memcpy.simps [simp del] memset.simps [simp del] itoa_loop.simps [simp del]
  strcmp_loop.simps [simp del] strncmp.simps [simp del]

section \<open>What they compute\<close>

subsection \<open>Strings in memory\<close>

text \<open>\<open>cstr m p xs\<close>: at \<open>p\<close> stands the string \<open>xs\<close>, ended by a null byte.\<close>

definition cstr :: "mem \<Rightarrow> u64 \<Rightarrow> u8 list \<Rightarrow> bool" where
  "cstr m p xs \<longleftrightarrow> length xs < 2 ^ 64 \<and> 0 \<notin> set xs
     \<and> get_bytes m p (Suc (length xs)) = xs @ [0]"

lemma cstr_iff:
  "cstr m p xs \<longleftrightarrow> length xs < 2 ^ 64 \<and> 0 \<notin> set xs
     \<and> (\<forall>i < length xs. m (p + of_nat i) = xs ! i) \<and> m (p + of_nat (length xs)) = 0"
  by (auto simp: cstr_def get_bytes_Suc get_bytes_eq_iff)

lemma str_len_loop_cstr:
  assumes "cstr m p xs"
  shows "k \<le> length xs \<Longrightarrow> str_len_loop m p (of_nat k) = Inr (of_nat (length xs))"
proof (induction "length xs - k" arbitrary: k)
  case 0
  then have "k = length xs" by simp
  with assms show ?case by (subst str_len_loop.simps) (simp add: cstr_iff)
next
  case (Suc d)
  then have k: "k < length xs" by simp
  with assms have nz: "m (p + of_nat k) \<noteq> 0"
    by (metis cstr_iff nth_mem)
  have len: "length xs < 2 ^ 64" using assms by (simp add: cstr_iff)
  have "unat (of_nat (Suc k) :: u64) = Suc k" using k len by (intro unat_of_nat_u64) simp
  then have "of_nat k + 1 \<noteq> (0 :: u64)" by (auto simp: add.commute)
  moreover have "str_len_loop m p (of_nat (Suc k)) = Inr (of_nat (length xs))"
    using Suc k by (intro Suc.hyps) auto
  ultimately show ?case
    using nz by (subst str_len_loop.simps) (simp add: add.commute)
qed

lemma str_len_spec [libc_spec]: "cstr m p xs \<Longrightarrow> str_len m p = Inr (of_nat (length xs))"
  using str_len_loop_cstr [of m p xs 0] by (simp add: str_len_def)

subsection \<open>Copying and filling\<close>

lemma memset_apply:
  "memset m p v n x = (if unat (x - p) < unat n then v else m x)"
proof (induction m p v n rule: memset.induct)
  case (1 m p v n)
  show ?case
  proof (cases "n = 0")
    case True
    then show ?thesis by (subst memset.simps) simp
  next
    case False
    then have n: "unat (n - 1) = unat n - 1" "0 < unat n"
      by (simp_all add: unat_minus_one unat_gt_0)
    have IH: "memset (m(p := v)) (p + 1) v (n - 1) x
        = (if unat (x - (p + 1)) < unat (n - 1) then v else (m(p := v)) x)"
      by (rule "1.IH" [OF False])
    show ?thesis
    proof (cases "x = p")
      case True
      have "unat (n - 1) < 2 ^ 64" by (rule u64_bound)
      then have "p \<notin> span (p + 1) (unat (n - 1))" by (rule self_notin_span_Suc)
      with IH True n False show ?thesis
        by (subst memset.simps) (simp add: span_iff)
    next
      case neq: False
      then have "unat (x - p) \<noteq> 0" by (simp add: unat_0_iff)
      with IH neq n False show ?thesis
        by (subst memset.simps) (auto simp: unat_minus_Suc)
    qed
  qed
qed

lemma memset_eq [libc_spec]:
  "memset m p v n = (\<lambda>x. if unat (x - p) < unat n then v else m x)"
  by (rule ext) (rule memset_apply)

text \<open>
  The copy runs upwards. It is right when the target does not start strictly inside the
  source: in particular when the target lies below the source, as in scrolling.
\<close>

lemma memcpy_apply:
  "d = s \<or> unat n \<le> unat (d - s) \<Longrightarrow>
     memcpy m d s n x = (if unat (x - d) < unat n then m (s + (x - d)) else m x)"
proof (induction m d s n rule: memcpy.induct)
  case (1 m d s n)
  show ?case
  proof (cases "n = 0")
    case True
    then show ?thesis by (subst memcpy.simps) simp
  next
    case False
    then have n: "unat (n - 1) = unat n - 1" "0 < unat n"
      by (simp_all add: unat_minus_one unat_gt_0)
    have "d + 1 = s + 1 \<or> unat (n - 1) \<le> unat (d + 1 - (s + 1))"
      using "1.prems" n by auto
    then have IH: "memcpy (m(d := m s)) (d + 1) (s + 1) (n - 1) x
        = (if unat (x - (d + 1)) < unat (n - 1) then (m(d := m s)) (s + 1 + (x - (d + 1)))
           else (m(d := m s)) x)"
      by (rule "1.IH" [OF False])
    show ?thesis
    proof (cases "x = d")
      case True
      have "unat (n - 1) < 2 ^ 64" by (rule u64_bound)
      then have "d \<notin> span (d + 1) (unat (n - 1))" by (rule self_notin_span_Suc)
      with IH True n False show ?thesis
        by (subst memcpy.simps) (simp add: span_iff)
    next
      case neq: False
      then have pos: "unat (x - d) \<noteq> 0" by (simp add: unat_0_iff)
      have src: "s + (x - d) \<noteq> d" if "unat (x - d) < unat n"
      proof
        assume "s + (x - d) = d"
        then have "x - d = d - s" by (simp add: algebra_simps)
        with that "1.prems" neq show False by auto
      qed
      have "s + 1 + (x - (d + 1)) = s + (x - d)" by simp
      with IH neq pos n src False show ?thesis
        by (subst memcpy.simps) (auto simp: unat_minus_Suc)
    qed
  qed
qed

lemma memcpy_spec [libc_spec]:
  "d = s \<or> unat n \<le> unat (d - s) \<Longrightarrow>
     memcpy m d s n = (\<lambda>x. if unat (x - d) < unat n then m (s + (x - d)) else m x)"
  by (rule ext) (rule memcpy_apply)

text \<open>The copy of \<^verbatim>\<open>cpu/mmio.h\<close> is the same.\<close>

lemma readn_memcpy: "readn m d s n = memcpy m d s n"
proof (induction m d s n rule: memcpy.induct)
  case (1 m d s n)
  then show ?case by (subst readn.simps, subst memcpy.simps) (simp add: word_neq_0_conv [symmetric] fun_upd_def)
qed

subsection \<open>Reversal\<close>

lemma reverse_swap:
  assumes n: "n < 2 ^ 64" and ij: "i < j" "j < n"
    and m2: "m2 = m(p + of_nat i := m (p + of_nat j), p + of_nat j := m (p + (of_nat i :: u64)))"
  shows "r < n \<Longrightarrow> m2 (p + of_nat r) = (if r = j then m (p + of_nat i) else if r = i then m (p + of_nat j) else m (p + of_nat r))"
    and "n \<le> unat (x - p) \<Longrightarrow> m2 x = m x"
proof -
  have inj: "p + of_nat r = p + (of_nat t :: u64) \<longleftrightarrow> r = t" if "r < n" "t < n" for r t
    using off_inj [of r t p] that n by auto
  show "m2 (p + of_nat r) = (if r = j then m (p + of_nat i) else if r = i then m (p + of_nat j) else m (p + of_nat r))" if "r < n"
    using that ij inj [of r j] inj [of r i] by (simp add: m2)
  show "m2 x = m x" if "n \<le> unat (x - p)" using that off_eq_iff [of i x p] off_eq_iff [of j x p] ij n by (simp add: m2)
qed

lemma str_reverse_loop_apply:
  assumes "n < 2 ^ 63"
  shows "str_reverse_loop m p (int n) (int i) x =
     (let k = unat (x - p) in if i \<le> k \<and> k < n - i then m (p + of_nat (n - 1 - k)) else m x)"
proof (induction "n div 2 - i" arbitrary: i m)
  case 0
  then have "\<not> int i < int n div 2" by linarith
  then have eq: "str_reverse_loop m p (int n) (int i) x = m x"
    by (subst str_reverse_loop.simps) simp
  have "n - 1 - unat (x - p) = unat (x - p)" if "i \<le> unat (x - p)" "unat (x - p) < n - i" using that 0 by linarith
  then show ?case unfolding eq Let_def by simp
next
  case (Suc d)
  define j where "j = n - i - 1"
  define k where "k = unat (x - p)"
  have i: "i < n div 2" using Suc by linarith
  then have lt: "int i < int n div 2" and ij: "i < j" "j < n" "n - 1 - j = i" "n - 1 - i = j"
    unfolding j_def by linarith+
  have j: "(of_int (int n - int i - 1) :: u64) = of_nat j" using i by (simp add: of_nat_diff j_def)
  define m2 where "m2 = m(p + of_nat i := m (p + of_nat j), p + of_nat j := m (p + of_nat i))"
  have step: "str_reverse_loop m p (int n) (int i) x = str_reverse_loop m2 p (int n) (int (Suc i)) x"
    unfolding m2_def using lt by (subst str_reverse_loop.simps)
      (simp only: Let_def j if_True of_int_of_nat_eq int_Suc add.commute)
  have IH: "str_reverse_loop m2 p (int n) (int (Suc i)) x =
     (let k = unat (x - p) in if Suc i \<le> k \<and> k < n - Suc i then m2 (p + of_nat (n - 1 - k)) else m2 x)"
    using Suc by (intro Suc.hyps) linarith
  have "n < 2 ^ 64" using assms by simp
  note S = reverse_swap [OF this ij(1,2) m2_def]
  have xk: "x = p + of_nat k" by (simp add: k_def)
  show ?case
  proof (cases "k < n")
    case True
    then show ?thesis
      unfolding step IH k_def [symmetric] Let_def using S(1) [OF True] S(1) [of "n - 1 - k"] ij xk unfolding j_def by auto
  next
    case False
    then have "\<not> (Suc i \<le> k \<and> k < n - Suc i)" "\<not> (i \<le> k \<and> k < n - i)" by linarith+
    moreover have "m2 x = m x" using False S(2) [of x] by (simp add: k_def)
    ultimately show ?thesis unfolding step IH k_def [symmetric] Let_def by (simp only: if_False)
  qed
qed

lemma str_reverse_spec [libc_spec]:
  assumes "length xs < 2 ^ 63" and that: "length (xs @ ys) < 2 ^ 64"
  shows "str_reverse (put_bytes m p (xs @ ys)) p (int (length xs)) = put_bytes m p (rev xs @ ys)"
proof (rule ext)
  fix x
  define k where "k = unat (x - p)"
  have xk: "x = p + of_nat k" and k64: "k < 2 ^ 64" unfolding k_def by (simp, rule u64_bound)
  have "str_reverse (put_bytes m p (xs @ ys)) p (int (length xs)) x
      = (if k < length xs then put_bytes m p (xs @ ys) (p + of_nat (length xs - 1 - k))
         else put_bytes m p (xs @ ys) x)"
    unfolding str_reverse_def k_def
    using str_reverse_loop_apply [OF assms(1), of "put_bytes m p (xs @ ys)" p 0 x]
    by (simp add: Let_def)
  also have "\<dots> = put_bytes m p (rev xs @ ys) x"
  proof (cases "k < length xs")
    case True
    then have "put_bytes m p (xs @ ys) (p + of_nat (length xs - 1 - k)) = xs ! (length xs - 1 - k)"
      using that by (subst put_bytes_inside) (auto simp: nth_append)
    moreover have "put_bytes m p (rev xs @ ys) x = rev xs ! k"
      unfolding xk using that True by (subst put_bytes_inside) (auto simp: nth_append)
    ultimately show ?thesis using True by (simp add: rev_nth)
  next
    case False
    then show ?thesis
      using that by (auto simp: put_bytes_apply nth_append k_def)
  qed
  finally show "str_reverse (put_bytes m p (xs @ ys)) p (int (length xs)) x
      = put_bytes m p (rev xs @ ys) x" .
qed

subsection \<open>Integers to text\<close>

fun rdigits :: "nat \<Rightarrow> nat \<Rightarrow> nat list" where
  "rdigits b n = (if n = 0 \<or> b < 2 then [] else n mod b # rdigits b (n div b))"

declare rdigits.simps [simp del]

definition digits :: "nat \<Rightarrow> nat \<Rightarrow> nat list" where
  "digits b n = (if n = 0 then [0] else rev (rdigits b n))"

definition digit_char :: "nat \<Rightarrow> u8" where
  "digit_char d = itoa_char (of_nat d)"

definition digit_value :: "u8 \<Rightarrow> nat" where
  "digit_value c = (if unat c < 58 then unat c - 48 else unat c - 87)"

definition text_value :: "nat \<Rightarrow> u8 list \<Rightarrow> nat" where
  "text_value b = foldl (\<lambda>acc c. acc * b + digit_value c) 0"

lemma rdigits_0 [simp]: "rdigits b 0 = []"
  by (simp add: rdigits.simps)

lemma rdigits_bound: "d \<in> set (rdigits b n) \<Longrightarrow> d < b"
  by (induction b n rule: rdigits.induct) (subst (asm) (2) rdigits.simps, auto split: if_splits)

lemma length_rdigits: "n < b ^ k \<Longrightarrow> length (rdigits b n) \<le> k"
proof (induction k arbitrary: n)
  case (Suc k)
  then have "n div b < b ^ k" by (cases "b = 0") (auto simp: less_mult_imp_div_less mult.commute)
  then show ?case using Suc.IH [of "n div b"] by (subst rdigits.simps) auto
qed simp

lemma foldr_rdigits: "2 \<le> b \<Longrightarrow> foldr (\<lambda>d acc. acc * b + d) (rdigits b n) 0 = n"
proof (induction b n rule: rdigits.induct)
  case (1 b n)
  then show ?case by (cases "n = 0") (auto simp: rdigits.simps [of b n])
qed

lemma unat_digit_char:
  assumes "d < 36"
  shows "unat (digit_char d) = (if 9 < d then d + 87 else d + 48)"
proof -
  have d: "9 < (of_nat d :: u64) \<longleftrightarrow> 9 < d"
    using assms by (simp add: word_less_nat_alt)
  have "digit_char d = ucast (of_nat (if 9 < d then d + 87 else d + 48) :: u64)"
    using d assms by (auto simp: digit_char_def itoa_char_def of_nat_diff add.commute)
  also have "unat \<dots> = (if 9 < d then d + 87 else d + 48)"
    using assms by (auto simp: unsigned_ucast_eq unsigned_of_nat take_bit_nat_eq_self)
  finally show ?thesis .
qed

lemma digit_value_char: "d < 36 \<Longrightarrow> digit_value (digit_char d) = d"
  by (auto simp: digit_value_def unat_digit_char)

lemma digits_bound: "2 \<le> b \<Longrightarrow> d \<in> set (digits b n) \<Longrightarrow> d < b"
  by (auto simp: digits_def dest: rdigits_bound split: if_splits)

lemma length_digits: "n < b ^ k \<Longrightarrow> 0 < k \<Longrightarrow> length (digits b n) \<le> k"
  by (auto simp: digits_def length_rdigits)

lemma text_value_map:
  "(\<And>d. d \<in> set ds \<Longrightarrow> d < 36) \<Longrightarrow>
     text_value b (map digit_char ds) = foldl (\<lambda>acc d. acc * b + d) 0 ds"
  by (induction ds rule: rev_induct) (auto simp: text_value_def digit_value_char)

lemma text_value_digits:
  assumes "2 \<le> b" and "b \<le> 36"
  shows "text_value b (map digit_char (digits b n)) = n"
proof -
  have "text_value b (map digit_char (digits b n)) = foldl (\<lambda>acc d. acc * b + d) 0 (digits b n)"
    using assms digits_bound [of b _ n] by (intro text_value_map) force
  also have "\<dots> = n"
    using assms foldr_rdigits [of b n] by (simp add: digits_def foldl_conv_foldr)
  finally show ?thesis .
qed

lemma base_bounds:
  assumes "2 \<le> (base :: u8)"
  shows "base \<noteq> 0" and "base \<noteq> 1" and "2 \<le> unat base" and "unat (ucast base :: u64) = unat base"
  using assms by (auto simp: word_le_nat_alt unat_ucast_up)

lemma itoa_loop_eq:
  assumes "2 \<le> (base :: u8)"
  shows "itoa_loop num m buf base (int i) =
     Inr (int (i + length (rdigits (unat base) (unat num))),
          put_bytes m (buf + of_nat i) (map digit_char (rdigits (unat base) (unat num))))"
proof (induction "unat num" arbitrary: num m i rule: less_induct)
  case less
  note base = base_bounds [OF assms]
  show ?case
  proof (cases "num = 0")
    case True
    then show ?thesis by (subst itoa_loop.simps) simp
  next
    case False
    then have pos: "0 < unat num" by (simp add: unat_gt_0)
    let ?q = "num div ucast base"
    have q: "unat ?q = unat num div unat base" by (simp add: unat_div base)
    then have dec: "unat ?q < unat num"
      using base(3) pos by simp
    have r: "itoa_char (num mod ucast base) = digit_char (unat num mod unat base)"
      by (simp add: digit_char_def flip: base(4) unat_mod)
    have "itoa_loop num m buf base (int i) = itoa_loop ?q
        (m(buf + of_nat i := digit_char (unat num mod unat base))) buf base (int (Suc i))"
      using False base(1,2) by (subst itoa_loop.simps) (simp add: r add.commute)
    also have "\<dots> = Inr (int (Suc i + length (rdigits (unat base) (unat ?q))),
        put_bytes (m(buf + of_nat i := digit_char (unat num mod unat base)))
          (buf + of_nat (Suc i)) (map digit_char (rdigits (unat base) (unat ?q))))"
      by (rule less.hyps [OF dec])
    also have "\<dots> = Inr (int (i + length (rdigits (unat base) (unat num))),
        put_bytes m (buf + of_nat i) (map digit_char (rdigits (unat base) (unat num))))"
      using pos base(3) by (subst (3 4) rdigits.simps) (simp add: q algebra_simps)
    finally show ?thesis .
  qed
qed

lemma itoa_eq [libc_spec]:
  assumes "2 \<le> (base :: u8)"
  shows "itoa num m buf base =
     Inr (put_bytes m buf (map digit_char (digits (unat base) (unat num)) @ [0]))"
proof (cases "num = 0")
  case True
  have "itoa_char 0 = 48" by (simp add: itoa_char_def)
  with True show ?thesis by (simp add: itoa_def digits_def digit_char_def)
next
  case False
  let ?ds = "map digit_char (rdigits (unat base) (unat num))"
  have "unat num < 2 ^ 64" by (rule u64_bound)
  also have "(2::nat) ^ 64 \<le> unat base ^ 64"
    using base_bounds(3) [OF assms] by (rule power_mono) simp
  finally have len: "length ?ds \<le> 64" by (simp add: length_rdigits)
  have nul: "put_bytes m buf (?ds @ [0]) = (put_bytes m buf ?ds)(buf + of_nat (length ?ds) := 0)"
    by (simp add: put_bytes_append)
  show ?thesis
    using False unat_gt_0 [of num] len itoa_loop_eq [OF assms, of num m buf 0]
      str_reverse_spec [of ?ds "[0]" m buf]
    by (simp add: itoa_def digits_def rev_map nul del: put_bytes.simps)
qed

subsection \<open>Comparison\<close>

text \<open>\<open>strncmp\<close> is 0 exactly when the two byte sequences agree up to \<open>n\<close> bytes or up to
  and including the first null byte of the first.\<close>

lemma strncmp_nat:
  "k < 2 ^ 64 \<Longrightarrow> strncmp m a b (of_nat k) = 0 \<longleftrightarrow>
     (\<forall>i < k. (\<forall>j < i. m (a + of_nat j) \<noteq> 0) \<longrightarrow> m (a + of_nat i) = m (b + of_nat i))"
proof (induction k arbitrary: a b)
  case 0
  then show ?case by (subst strncmp.simps) simp
next
  case (Suc k)
  have nz: "(of_nat (Suc k) :: u64) \<noteq> 0"
    using Suc.prems off_inj [of "Suc k" 0 0] by auto
  have IH: "strncmp m (a + 1) (b + 1) (of_nat k) = 0 \<longleftrightarrow>
     (\<forall>i < k. (\<forall>j < i. m (a + 1 + of_nat j) \<noteq> 0) \<longrightarrow>
        m (a + 1 + of_nat i) = m (b + 1 + of_nat i))"
    using Suc.prems by (intro Suc.IH) simp
  have split: "(\<forall>i < Suc k. P i) \<longleftrightarrow> P 0 \<and> (\<forall>i < k. P (Suc i))" for P
    by (auto simp: less_Suc_eq_0_disj)
  have shift: "c + of_nat (Suc i) = c + 1 + of_nat i" for c :: u64 and i
    by (simp add: add.assoc)
  show ?case
  proof (cases "m a \<noteq> 0 \<and> m a = m b")
    case True
    have "strncmp m a b (of_nat (Suc k)) = strncmp m (a + 1) (b + 1) (of_nat k)"
      using nz True by (subst strncmp.simps) auto
    moreover have "(\<forall>j < Suc i. m (a + of_nat j) \<noteq> 0) \<longleftrightarrow> (\<forall>j < i. m (a + 1 + of_nat j) \<noteq> 0)" for i
      using True by (auto simp: less_Suc_eq_0_disj shift simp del: of_nat_Suc)
    ultimately show ?thesis
      using True IH by (simp only: split shift) simp
  next
    case False
    have "strncmp m a b (of_nat (Suc k)) = m a - m b"
      using nz False by (subst strncmp.simps) auto
    then show ?thesis using False by (subst split) auto
  qed
qed

lemma strncmp_spec [libc_spec]:
  assumes "0 \<notin> set (get_bytes m b (unat n))"
  shows "strncmp m a b n = 0 \<longleftrightarrow> get_bytes m a (unat n) = get_bytes m b (unat n)"
proof -
  have nz: "m (b + of_nat j) \<noteq> 0" if "j < unat n" for j
    using assms that by (metis length_get_bytes nth_get_bytes nth_mem)
  have "strncmp m a b n = 0 \<longleftrightarrow>
     (\<forall>i < unat n. (\<forall>j < i. m (a + of_nat j) \<noteq> 0) \<longrightarrow> m (a + of_nat i) = m (b + of_nat i))"
    using strncmp_nat [of "unat n" m a b] u64_bound [of n] by simp
  also have "\<dots> \<longleftrightarrow> (\<forall>i < unat n. m (a + of_nat i) = m (b + of_nat i))" (is "?L \<longleftrightarrow> ?R")
  proof
    assume ?L
    have "m (a + of_nat i) = m (b + of_nat i)" if "i < unat n" for i
      using that
    proof (induction i rule: less_induct)
      case (less i)
      then have "\<forall>j < i. m (a + of_nat j) \<noteq> 0" using nz by auto
      with \<open>?L\<close> less.prems show ?case by blast
    qed
    then show ?R by blast
  qed blast
  finally show ?thesis by (simp add: get_bytes_eq_iff)
qed

lemma strcmp_loop_spec:
  assumes xs: "cstr m a xs" and ys: "cstr m b ys"
  shows "k \<le> length xs \<Longrightarrow> k \<le> length ys \<Longrightarrow> take k xs = take k ys \<Longrightarrow>
     \<exists>r. strcmp_loop m a b (of_nat k) = Inr r \<and> (r = 0 \<longleftrightarrow> xs = ys)"
proof (induction "length xs - k" arbitrary: k)
  case 0
  then have k: "k = length xs" by simp
  have "m (b + of_nat k) = 0 \<longleftrightarrow> k = length ys"
    using ys 0 by (metis cstr_iff le_neq_implies_less nth_mem)
  moreover have "xs = ys \<longleftrightarrow> k = length ys"
    using 0 k by (metis take_all_iff order_refl)
  ultimately show ?case
    using xs k by (subst strcmp_loop.simps) (simp add: cstr_iff)
next
  case (Suc d)
  then have k: "k < length xs" by simp
  have ak: "m (a + of_nat k) = xs ! k" "xs ! k \<noteq> 0"
    using xs k by (auto simp: cstr_iff dest: nth_mem)
  show ?case
  proof (cases "k < length ys \<and> xs ! k = ys ! k")
    case True
    have bk: "m (b + of_nat k) = ys ! k" using ys True by (simp add: cstr_iff)
    have "unat (of_nat (Suc k) :: u64) = Suc k"
      using k xs by (intro unat_of_nat_u64) (simp add: cstr_iff)
    then have nz: "of_nat k + 1 \<noteq> (0 :: u64)" by (auto simp: add.commute)
    have "take (Suc k) xs = take (Suc k) ys"
      using Suc.prems k True by (simp add: take_Suc_conv_app_nth)
    then have "\<exists>r. strcmp_loop m a b (of_nat (Suc k)) = Inr r \<and> (r = 0 \<longleftrightarrow> xs = ys)"
      using Suc k True by (intro Suc.hyps) auto
    with ak bk True nz show ?thesis
      by (subst strcmp_loop.simps) (simp add: add.commute)
  next
    case False
    have "m (b + of_nat k) \<noteq> xs ! k"
      using False ys ak(2) Suc.prems(2) by (auto simp: cstr_iff le_less)
    moreover have "xs \<noteq> ys" using False k by auto
    ultimately show ?thesis
      using ak by (subst strcmp_loop.simps) auto
  qed
qed

lemma strcmp_spec [libc_spec]:
  assumes "cstr m a xs" and "cstr m b ys"
  shows "\<exists>r. strcmp m a b = Inr r \<and> (r = 0 \<longleftrightarrow> xs = ys)"
  using strcmp_loop_spec [OF assms, of 0] by (simp add: strcmp_def)

section \<open>Properties\<close>

text \<open>
  \<^verbatim>\<open>memcpy\<close> of \<^verbatim>\<open>libc/stdlib.cpp\<close> copies byte by byte upwards; whenever the destination does
  not lie inside the source area above its start (in particular when the copy moves data to lower
  addresses), the destination holds the old source afterwards and no other byte has changed.\<close>

theorem memcpy_copies:
  assumes "d = s \<or> unat n \<le> unat (d - s)"
  shows "(\<forall>i < n. memcpy m d s n (d + i) = m (s + i)) \<and>
    (\<forall>a. a \<notin> span d (unat n) \<longrightarrow> memcpy m d s n a = m a)"
  using assms by (simp add: memcpy_apply word_less_nat_alt span_iff)

theorem memcpy_copies_witness:
  "memcpy (\<lambda>a. ucast a) 0x10 0x14 8 (0x10 + 7) = 0x1B \<and> memcpy (\<lambda>a. ucast a) 0x10 0x14 8 0x18 = 0x18"
proof -
  let ?m = "\<lambda>a :: u64. ucast a :: u8"
  have *: "(\<forall>i < 8. memcpy ?m 0x10 0x14 8 (0x10 + i) = ?m (0x14 + i)) \<and>
      (\<forall>a. a \<notin> span 0x10 (unat (8 :: u64)) \<longrightarrow> memcpy ?m 0x10 0x14 8 a = ?m a)"
    by (rule memcpy_copies) simp
  have "(7 :: u64) < 8" and "0x18 \<notin> span 0x10 (unat (8 :: u64))" by (simp_all add: span_iff)
  with * have "memcpy ?m 0x10 0x14 8 (0x10 + 7) = ?m (0x14 + 7)" "memcpy ?m 0x10 0x14 8 0x18 = ?m 0x18"
    by blast+
  then show ?thesis by simp
qed

text \<open>
  On two null-terminated strings \<^verbatim>\<open>strcmp\<close> ends, and it returns 0 exactly when they are equal;
  \<^verbatim>\<open>str_len\<close> ends on them and returns their lengths.\<close>

theorem strcmp_decides:
  assumes "cstr m a xs" and "cstr m b ys"
  shows "(\<exists>r. strcmp m a b = Inr r \<and> (r = 0 \<longleftrightarrow> xs = ys)) \<and> str_len m a = Inr (of_nat (length xs))"
  using strcmp_spec [OF assms] str_len_spec [OF assms(1)] by blast

theorem strcmp_decides_witness:
  "(\<exists>r. strcmp ((\<lambda>_. 0)(0x10 := 65, 0x20 := 66)) 0x10 0x20 = Inr r \<and> r \<noteq> 0)
   \<and> str_len ((\<lambda>_. 0)(0x10 := 65, 0x20 := 66)) 0x10 = Inr 1"
proof -
  have a: "cstr ((\<lambda>_. 0)(0x10 := 65, 0x20 := 66)) 0x10 [65]"
    and b: "cstr ((\<lambda>_. 0)(0x10 := 65, 0x20 := 66)) 0x20 [66]" by (simp_all add: cstr_iff)
  show ?thesis using strcmp_decides [OF a b] by auto
qed

end
