(* ===== verification/Framebuffer.thy ===== *)
theory Framebuffer
  imports Libc
begin

text \<open>
  The framebuffer, \<^verbatim>\<open>framebuffer/framebuffer.cpp\<close>: pixels are drawn into the second buffer and
  copied to the first by \<^verbatim>\<open>draw\<close>. The colour arithmetic of \<^verbatim>\<open>framebuffer/colors.hpp\<close> comes along.
  Address arithmetic is kept at the widths of the source: the offsets are computed in 32 bits
  and added to a 64-bit base.
\<close>

section \<open>The model\<close>

definition rgb_to_int :: "u8 \<Rightarrow> u8 \<Rightarrow> u8 \<Rightarrow> u64" where
  "rgb_to_int red green blue =
     ucast blue + ucast (push_bit 8 (ucast green :: u32)) + ucast (push_bit 16 (ucast red :: u32))"

definition BLACK :: u64 where "BLACK = rgb_to_int 0 0 0"
definition WHITE :: u64 where "WHITE = rgb_to_int 255 255 255"
definition BLUE :: u64 where "BLUE = rgb_to_int 0 0 255"

record FramebufferData =
  fd_base_addr :: u64
  fd_double_buffer :: u64
  fd_b_size :: u64
  fd_width :: u16
  fd_height :: u16
  fd_px_per_scan :: u16
  fd_b_per_px :: u8

record Framebuffer =
  fb_addr :: u64
  double_fb_addr :: u64
  b_size :: u64
  width :: u16
  height :: u16
  px_per_scan :: u16
  b_per_px :: u8

record Glyph =
  g_bitmap :: u64
  g_x_off :: u16
  g_y_off :: u16
  g_height :: u8
  g_width :: u8
  g_fg_color :: u32
  g_bg_color :: u32

definition Framebuffer_init :: "FramebufferData \<Rightarrow> Framebuffer res" where
  "Framebuffer_init data =
     (let fb = \<lparr>fb_addr = fd_base_addr data, double_fb_addr = fd_double_buffer data,
                b_size = fd_b_size data, width = fd_width data, height = fd_height data,
                px_per_scan = fd_px_per_scan data, b_per_px = fd_b_per_px data\<rparr>
      in bind_res (ASSERT ''this->__fb_addr != nullptr'' (fb_addr fb \<noteq> 0)) (\<lambda>_. Inr fb))"

definition get_pixel_addr :: "Framebuffer \<Rightarrow> u32 \<Rightarrow> u32 \<Rightarrow> u64" where
  "get_pixel_addr fb x y =
     double_fb_addr fb + ucast (y * ucast (px_per_scan fb) * ucast (b_per_px fb)) +
     ucast (x * ucast (b_per_px fb))"

definition set_pixel :: "Framebuffer \<Rightarrow> u32 \<Rightarrow> u32 \<Rightarrow> u64 \<Rightarrow> mem \<Rightarrow> mem" where
  "set_pixel fb x y color m = write64 m (get_pixel_addr fb x y) color"

definition set_all_pixels :: "Framebuffer \<Rightarrow> u64 \<Rightarrow> mem \<Rightarrow> mem" where
  "set_all_pixels fb color =
     for_up 0 (\<lambda>_. ucast (width fb)) (\<lambda>x.
       for_up 0 (\<lambda>_. ucast (height fb)) (\<lambda>y. set_pixel fb (ucast x) (ucast y) color))"

text \<open>The colour of pixel \<open>x\<close> of a glyph row: the bit \<^verbatim>\<open>(1 << 7) >> x\<close> of the row's byte.\<close>

definition glyph_color :: "Glyph \<Rightarrow> u8 \<Rightarrow> u64 \<Rightarrow> u64" where
  "glyph_color glyph row x =
     (if (scast row :: u32) AND drop_bit (unat x) (push_bit 7 1) \<noteq> 0
      then ucast (g_fg_color glyph) else ucast (g_bg_color glyph))"

text \<open>The loop state is memory and the advancing pointer \<^verbatim>\<open>glyph.bitmap\<close>.\<close>

definition print_glyph :: "Framebuffer \<Rightarrow> Glyph \<Rightarrow> mem \<Rightarrow> mem" where
  "print_glyph fb glyph m =
     fst (for_up 0 (\<lambda>_. ucast (g_height glyph)) (\<lambda>y (m, bitmap).
       (for_up 0 (\<lambda>_. ucast (g_width glyph)) (\<lambda>x m.
          set_pixel fb (ucast (g_x_off glyph) + ucast x) (ucast (g_y_off glyph) + ucast y)
            (glyph_color glyph (m bitmap) x) m) m, bitmap + 1)) (m, g_bitmap glyph))"

definition draw :: "Framebuffer \<Rightarrow> mem \<Rightarrow> mem" where
  "draw fb m = memcpy m (fb_addr fb) (double_fb_addr fb) (b_size fb)"

section \<open>Where pixels are\<close>

text \<open>A framebuffer whose scan lines fit 32-bit arithmetic and whose pixels have four bytes.\<close>

definition fb_ok :: "Framebuffer \<Rightarrow> bool" where
  "fb_ok fb \<longleftrightarrow> b_per_px fb = 4 \<and> width fb \<le> px_per_scan fb \<and>
     unat (height fb) * unat (px_per_scan fb) * 4 < 2 ^ 32 \<and>
     unat (double_fb_addr fb) + unat (height fb) * unat (px_per_scan fb) * 4 + 8 \<le> 2 ^ 64"

definition pixel_no :: "Framebuffer \<Rightarrow> nat \<Rightarrow> nat \<Rightarrow> nat" where
  "pixel_no fb x y = y * unat (px_per_scan fb) + x"

definition pixel_count :: "Framebuffer \<Rightarrow> nat" where
  "pixel_count fb = unat (height fb) * unat (px_per_scan fb)"

lemma pixel_no_less:
  assumes "fb_ok fb" and "x < unat (width fb)" and "y < unat (height fb)"
  shows "pixel_no fb x y < pixel_count fb"
proof -
  have "x < unat (px_per_scan fb)" using assms(1,2) by (auto simp: fb_ok_def word_le_nat_alt)
  moreover have "(y + 1) * unat (px_per_scan fb) \<le> unat (height fb) * unat (px_per_scan fb)"
    using assms(3) by (intro mult_le_mono1) simp
  ultimately show ?thesis by (simp add: pixel_no_def pixel_count_def)
qed

lemma unat_u32_mult: "unat (a :: u32) * unat b < 2 ^ 32 \<Longrightarrow> unat (a * b) = unat a * unat b"
  using unat_mult_lem [of a b] by simp

lemma pixel_addr:
  assumes "fb_ok fb" and "unat x < unat (width fb)" and "unat y < unat (height fb)"
  shows "get_pixel_addr fb x y = double_fb_addr fb + of_nat (4 * pixel_no fb (unat x) (unat y))"
proof -
  let ?p = "unat (px_per_scan fb)"
  have lt: "pixel_no fb (unat x) (unat y) < pixel_count fb" using assms by (rule pixel_no_less)
  have small: "pixel_count fb * 4 < 2 ^ 32" using assms(1) by (simp add: fb_ok_def pixel_count_def)
  have b: "unat y * ?p * 4 < 2 ^ 32" "unat x * 4 < 2 ^ 32"
    using lt small by (simp_all add: pixel_no_def algebra_simps)
  have p: "unat (ucast (px_per_scan fb) :: u32) = ?p" by (simp add: unat_ucast_up)
  have 4: "(ucast (b_per_px fb) :: u32) = 4" using assms(1) by (simp add: fb_ok_def)
  have yp: "unat (y * ucast (px_per_scan fb)) = unat y * ?p"
    using b(1) by (subst unat_u32_mult) (simp_all add: p)
  have ypb: "unat (y * ucast (px_per_scan fb) * 4) = unat y * ?p * 4"
    using b(1) yp by (subst unat_u32_mult) simp_all
  have xb: "unat (x * 4) = unat x * 4" using b(2) by (subst unat_u32_mult) simp_all
  have "(ucast (y * ucast (px_per_scan fb) * 4) :: u64) = of_nat (unat y * ?p * 4)"
    using ypb by (metis of_nat_unat)
  moreover have "(ucast (x * 4) :: u64) = of_nat (unat x * 4)" using xb by (metis of_nat_unat)
  ultimately show ?thesis
    by (simp add: get_pixel_addr_def 4 pixel_no_def algebra_simps)
qed

text \<open>The bytes of a pixel.\<close>

definition pixel_at :: "Framebuffer \<Rightarrow> nat \<Rightarrow> mem \<Rightarrow> u32" where
  "pixel_at fb n m = read32 m (double_fb_addr fb + of_nat (4 * n))"


lemma read32_write64:
  "read32 (write64 m a v) a = ucast v" "read32 (write64 m a v) (a + 4) = ucast (drop_bit 32 v)"
proof -
  have lo: "write64 m a v (a + of_nat i) = ucast (drop_bit (8 * i) v)" if "i < 8" for i
    using that by (simp add: write64_def store_apply)
  have "read32 (write64 m a v) (a + of_nat k) = ucast (drop_bit (8 * k) v)" if "k + 4 \<le> 8" for k
  proof (rule bit_word_eqI)
    fix n assume "n < LENGTH(32)"
    then have n: "n < 32" by simp
    have byte: "write64 m a v (a + of_nat k + of_nat i) = ucast (drop_bit (8 * (k + i)) v)" if "i < 4" for i
      using lo [of "k + i"] that \<open>k + 4 \<le> 8\<close> by (simp add: add.assoc)
    have "n div 8 < 4" "n mod 8 < 8" "n = 8 * (n div 8) + n mod 8" using n by auto
    then obtain i j where ij: "n = 8 * i + j" "i < 4" "j < 8" by blast
    then consider "n = j" | "n = 8 + j" | "n = 16 + j" | "n = 24 + j" by fastforce
    then show "bit (read32 (write64 m a v) (a + of_nat k)) n \<longleftrightarrow> bit (ucast (drop_bit (8 * k) v) :: u32) n"
      using byte [of 0] byte [of 1] byte [of 2] byte [of 3] ij(3)
      by cases (simp_all add: read32_def load_steps bit_simps algebra_simps)
  qed
  from this [of 0] this [of 4] show "read32 (write64 m a v) a = ucast v"
    "read32 (write64 m a v) (a + 4) = ucast (drop_bit 32 v)" by simp_all
qed

lemma read32_after_write64:
  "span b 4 \<inter> span a 8 = {} \<Longrightarrow> read32 (write64 m a v) b = read32 m b"
  by (rule c32.rd_outside [where S = "span a 8"]) (simp_all add: c64.wr_outside)

text \<open>Pixels are four bytes apart, a store of eight bytes covers two of them.\<close>

lemma pixel_store:
  assumes "n < 2 ^ 61" and "k < 2 ^ 61"
  shows "pixel_at fb k (write64 m (double_fb_addr fb + of_nat (4 * n)) color) =
    (if k = n then ucast color else if k = n + 1 then ucast (drop_bit 32 color) else pixel_at fb k m)"
proof -
  let ?a = "double_fb_addr fb"
  consider "k = n" | "k = n + 1" | "k < n" | "n + 1 < k" by linarith
  then show ?thesis
  proof cases
    case 1
    then show ?thesis by (simp add: pixel_at_def read32_write64(1))
  next
    case 2
    have "?a + of_nat (4 * (n + 1)) = ?a + of_nat (4 * n) + 4" by simp
    then show ?thesis
      using 2 read32_write64(2) [of m "?a + of_nat (4 * n)" color] by (simp add: pixel_at_def ac_simps)
  next
    case 3
    then have "apart (?a + of_nat (4 * k)) 4 (?a + of_nat (4 * n)) 8"
      using assms by (intro apart_off) simp_all
    from span_disjoint [OF this] 3 show ?thesis
      by (simp add: pixel_at_def read32_after_write64)
  next
    case 4
    then have "apart (?a + of_nat (4 * n)) 8 (?a + of_nat (4 * k)) 4"
      using assms by (intro apart_off) simp_all
    from span_disjoint [OF this] 4 show ?thesis
      by (simp add: pixel_at_def read32_after_write64 Int_commute)
  qed
qed

lemma set_pixel_at:
  assumes "fb_ok fb" and "unat x < unat (width fb)" and "unat y < unat (height fb)" and "k < 2 ^ 61"
  shows "pixel_at fb k (set_pixel fb x y color m) =
    (if k = pixel_no fb (unat x) (unat y) then ucast color
     else if k = pixel_no fb (unat x) (unat y) + 1 then ucast (drop_bit 32 color) else pixel_at fb k m)"
proof -
  have "pixel_no fb (unat x) (unat y) < pixel_count fb" using assms(1-3) by (rule pixel_no_less)
  moreover have "pixel_count fb * 4 < 2 ^ 32" using assms(1) by (simp add: fb_ok_def pixel_count_def)
  ultimately have "pixel_no fb (unat x) (unat y) < 2 ^ 61" by simp
  then show ?thesis
    using pixel_store [OF _ assms(4)] unfolding set_pixel_def pixel_addr [OF assms(1-3)] by blast
qed

text \<open>Every write of a pixel stays inside the buffer and the four bytes after it.\<close>

definition fb_span :: "Framebuffer \<Rightarrow> u64 set" where
  "fb_span fb = span (double_fb_addr fb) (4 * pixel_count fb + 4)"

lemma set_pixel_outside:
  assumes "fb_ok fb" and "unat x < unat (width fb)" and "unat y < unat (height fb)" and "a \<notin> fb_span fb"
  shows "set_pixel fb x y color m a = m a"
proof -
  let ?n = "pixel_no fb (unat x) (unat y)"
  have "?n < pixel_count fb" using assms(1-3) by (rule pixel_no_less)
  moreover have "pixel_count fb * 4 < 2 ^ 32" using assms(1) by (simp add: fb_ok_def pixel_count_def)
  ultimately have "span (double_fb_addr fb + of_nat (4 * ?n)) 8 \<subseteq> fb_span fb"
    unfolding fb_span_def by (intro span_add_subset) simp_all
  then show ?thesis
    using assms(4) unfolding set_pixel_def pixel_addr [OF assms(1-3)] by (intro c64.wr_outside) blast
qed

section \<open>Filling the screen\<close>

text \<open>One column, on the level of pixels: colour \<open>c\<close> at column \<open>k\<close> of the first \<open>y\<close> rows of \<open>w\<close>
  pixels, and \<open>e\<close> (the upper half of the stored value) one pixel further.\<close>

definition column_filled :: "nat \<Rightarrow> nat \<Rightarrow> u32 \<Rightarrow> u32 \<Rightarrow> nat \<Rightarrow> (nat \<Rightarrow> u32) \<Rightarrow> nat \<Rightarrow> u32" where
  "column_filled w k c e y p n =
     (if \<exists>j < y. n = j * w + k then c else if \<exists>j < y. n = j * w + Suc k then e else p n)"

definition columns_filled :: "nat \<Rightarrow> nat \<Rightarrow> u32 \<Rightarrow> u32 \<Rightarrow> nat \<Rightarrow> (nat \<Rightarrow> u32) \<Rightarrow> nat \<Rightarrow> u32" where
  "columns_filled w h c e k p n =
     (if 0 < k \<and> (\<exists>j < h. n = j * w + k) then e
      else if \<exists>j < h. \<exists>i < k. n = j * w + i then c else p n)"

lemma pixel_columns_differ:
  assumes "2 \<le> w"
  shows "j * w + k \<noteq> i * w + Suc k"
proof
  assume "j * w + k = i * w + Suc k"
  then have "j * w = i * w + 1" by simp
  then have "w dvd 1" by (metis dvd_add_right_iff dvd_triv_right)
  then show False using assms by simp
qed

lemma column_step:
  assumes "2 \<le> w"
  shows "(if n = y * w + k then c else if n = y * w + Suc k then e else column_filled w k c e y p n)
    = column_filled w k c e (Suc y) p n"
proof -
  have ex: "(\<exists>j < Suc y. P j) \<longleftrightarrow> P y \<or> (\<exists>j < y. P j)" for P by (auto simp: less_Suc_eq)
  define A B where "A = (\<exists>j < y. n = j * w + k)" and "B = (\<exists>j < y. n = j * w + Suc k)"
  have "n = y * w + Suc k \<Longrightarrow> \<not> A" unfolding A_def by (metis pixel_columns_differ [OF assms])
  then show ?thesis
    unfolding column_filled_def ex A_def [symmetric] B_def [symmetric] by argo
qed

lemma columns_step:
  assumes "2 \<le> w"
  shows "column_filled w k c e h (columns_filled w h c e k p) n = columns_filled w h c e (Suc k) p n"
proof -
  define A B C where "A = (\<exists>j < h. n = j * w + k)" and "B = (\<exists>j < h. n = j * w + Suc k)"
    and "C = (\<exists>j < h. \<exists>i < k. n = j * w + i)"
  have AB: "\<not> (A \<and> B)" using pixel_columns_differ [OF assms] unfolding A_def B_def by blast
  have C: "(\<exists>j < h. \<exists>i < Suc k. n = j * w + i) = (C \<or> A)"
    unfolding A_def C_def less_Suc_eq by blast
  have 1: "column_filled w k c e h q n = (if A then c else if B then e else q n)" for q
    unfolding column_filled_def A_def B_def by (rule refl)
  have 2: "columns_filled w h c e k p n = (if 0 < k \<and> A then e else if C then c else p n)"
    unfolding columns_filled_def A_def C_def by (rule refl)
  have 3: "columns_filled w h c e (Suc k) p n = (if B then e else if C \<or> A then c else p n)"
    unfolding columns_filled_def C B_def by simp
  show ?thesis unfolding 1 2 3 using AB by auto
qed

lemma column_filled_cong: "p n = q n \<Longrightarrow> column_filled w k c e h p n = column_filled w k c e h q n"
  unfolding column_filled_def by presburger

definition fill_column :: "Framebuffer \<Rightarrow> u64 \<Rightarrow> u64 \<Rightarrow> mem \<Rightarrow> mem" where
  "fill_column fb color x =
     for_up 0 (\<lambda>_. ucast (height fb)) (\<lambda>y. set_pixel fb (ucast x) (ucast y) color)"

lemma loop_index_u32:
  assumes "(i :: u64) < ucast (v :: u16)"
  shows "unat (ucast i :: u32) = unat i" "unat i < unat v"
proof -
  show "unat i < unat v" using assms by (simp add: word_less_nat_alt unat_ucast_up)
  then have "unat i < 2 ^ 32" using unat_u16_bound [of v] by simp
  then show "unat (ucast i :: u32) = unat i" by (simp add: unsigned_ucast_eq take_bit_nat_eq_self flip: take_bit_eq_mod)
qed

lemma fill_column_pixels:
  assumes ok: "fb_ok fb" and w: "2 \<le> unat (px_per_scan fb)" and x: "x < ucast (width fb)"
  shows "(\<forall>n < 2 ^ 61. pixel_at fb n (fill_column fb color x m) =
      column_filled (unat (px_per_scan fb)) (unat x) (ucast color) (ucast (drop_bit 32 color))
        (unat (height fb)) (\<lambda>n. pixel_at fb n m) n) \<and>
    (\<forall>a. a \<notin> fb_span fb \<longrightarrow> fill_column fb color x m a = m a)"
proof -
  let ?F = "\<lambda>y. column_filled (unat (px_per_scan fb)) (unat x) (ucast color) (ucast (drop_bit 32 color))
        y (\<lambda>n. pixel_at fb n m)"
  define I where "I = (\<lambda>(y :: u64) t. (\<forall>n < 2 ^ 61. pixel_at fb n t = ?F (unat y) n) \<and> (\<forall>a. a \<notin> fb_span fb \<longrightarrow> t a = m a))"
  have "I (ucast (height fb)) (fill_column fb color x m)"
    unfolding fill_column_def
  proof (rule for_up_rule [where I = I])
    show "I 0 m" by (simp add: I_def column_filled_def)
  next
    fix y t assume y: "y < ucast (height fb)" and "I y t"
    then have I: "(\<forall>n < 2 ^ 61. pixel_at fb n t = ?F (unat y) n) \<and> (\<forall>a. a \<notin> fb_span fb \<longrightarrow> t a = m a)"
      by (simp add: I_def)
    note xb = loop_index_u32 [OF x] and yb = loop_index_u32 [OF y]
    have b: "unat (ucast x :: u32) < unat (width fb)" "unat (ucast y :: u32) < unat (height fb)"
      using xb yb by simp_all
    have Suc: "unat (y + 1) = Suc (unat y)" using y by (rule unat_Suc_less)
    have "pixel_at fb n (set_pixel fb (ucast x) (ucast y) color t) = ?F (unat (y + 1)) n"
      if n: "n < 2 ^ 61" for n
      unfolding Suc column_step [OF w, symmetric]
      using set_pixel_at [OF ok b n] I n xb yb by (simp add: pixel_no_def)
    moreover have "set_pixel fb (ucast x) (ucast y) color t a = m a" if "a \<notin> fb_span fb" for a
      using set_pixel_outside [OF ok b that] I that by simp
    ultimately show "I (y + 1) (set_pixel fb (ucast x) (ucast y) color t)" by (simp add: I_def)
  qed simp_all
  then show ?thesis by (simp add: I_def unat_ucast_up)
qed

lemma set_all_pixels_columns:
  assumes ok: "fb_ok fb" and w: "2 \<le> unat (px_per_scan fb)"
  shows "(\<forall>n < 2 ^ 61. pixel_at fb n (set_all_pixels fb color m) =
      columns_filled (unat (px_per_scan fb)) (unat (height fb)) (ucast color) (ucast (drop_bit 32 color))
        (unat (width fb)) (\<lambda>n. pixel_at fb n m) n) \<and>
    (\<forall>a. a \<notin> fb_span fb \<longrightarrow> set_all_pixels fb color m a = m a)"
proof -
  let ?w = "unat (px_per_scan fb)" and ?h = "unat (height fb)"
  let ?c = "ucast color :: u32" and ?e = "ucast (drop_bit 32 color) :: u32"
  let ?F = "\<lambda>k. columns_filled ?w ?h ?c ?e k (\<lambda>n. pixel_at fb n m)"
  define I where "I = (\<lambda>(x :: u64) t. (\<forall>n < 2 ^ 61. pixel_at fb n t = ?F (unat x) n) \<and> (\<forall>a. a \<notin> fb_span fb \<longrightarrow> t a = m a))"
  have "I (ucast (width fb)) (set_all_pixels fb color m)"
    unfolding set_all_pixels_def fill_column_def [symmetric]
  proof (rule for_up_rule [where I = I])
    show "I 0 m" by (simp add: I_def columns_filled_def)
  next
    fix x t assume x: "x < ucast (width fb)" and "I x t"
    then have I: "(\<forall>n < 2 ^ 61. pixel_at fb n t = ?F (unat x) n) \<and> (\<forall>a. a \<notin> fb_span fb \<longrightarrow> t a = m a)"
      by (simp add: I_def)
    note F = fill_column_pixels [OF ok w x, of color t]
    have Suc: "unat (x + 1) = Suc (unat x)" using x by (rule unat_Suc_less)
    have "pixel_at fb n (fill_column fb color x t) = ?F (unat (x + 1)) n" if n: "n < 2 ^ 61" for n
    proof -
      have "pixel_at fb n (fill_column fb color x t) =
          column_filled ?w (unat x) ?c ?e ?h (\<lambda>n. pixel_at fb n t) n" using F n by blast
      also have "\<dots> = column_filled ?w (unat x) ?c ?e ?h (?F (unat x)) n"
        using I n by (intro column_filled_cong) blast
      finally show ?thesis unfolding Suc columns_step [OF w, symmetric] .
    qed
    then show "I (x + 1) (fill_column fb color x t)" using F I by (simp add: I_def)
  qed simp_all
  then show ?thesis by (simp add: I_def unat_ucast_up)
qed

text \<open>What the finished fill leaves at pixel \<open>(x, y)\<close> of a screen without padding.\<close>

lemma columns_filled_all:
  assumes "2 \<le> w" and "x < w" and "y < h"
  shows "columns_filled w h c e w p (y * w + x) = (if x = 0 \<and> 0 < y then e else c)"
    and "columns_filled w h c e w p (h * w) = e"
proof -
  have last: "(\<exists>j < h. y * w + x = j * w + w) \<longleftrightarrow> x = 0 \<and> 0 < y"
  proof
    assume "\<exists>j < h. y * w + x = j * w + w"
    then obtain j where j: "y * w + x = Suc j * w" by (auto simp del: mult_cancel2 simp: add.commute)
    then have "(y * w + x) mod w = (Suc j * w) mod w" "(y * w + x) div w = (Suc j * w) div w" by simp_all
    then have "x = 0" "y = Suc j" using assms(1,2) by simp_all
    then show "x = 0 \<and> 0 < y" using assms(2) by auto
  next
    assume "x = 0 \<and> 0 < y"
    then have "y - 1 < h" "y * w + x = (y - 1) * w + w" using assms(3) by (auto simp: mult_eq_if)
    then show "\<exists>j < h. y * w + x = j * w + w" by blast
  qed
  have inside: "\<exists>j < h. \<exists>i < w. y * w + x = j * w + i" using assms(2,3) by blast
  show "columns_filled w h c e w p (y * w + x) = (if x = 0 \<and> 0 < y then e else c)"
    using assms(1) unfolding columns_filled_def last if_P [OF inside] by simp
  have "h - 1 < h" "h * w = (h - 1) * w + w" using assms(3) by (auto simp: mult_eq_if)
  then have "\<exists>j < h. h * w = j * w + w" by blast
  then show "columns_filled w h c e w p (h * w) = e"
    using assms(1) unfolding columns_filled_def by simp
qed

lemma pixel_no_61:
  assumes "fb_ok fb"
  shows "pixel_count fb < 2 ^ 61"
  using assms by (simp add: fb_ok_def pixel_count_def)

lemma set_all_pixels_facts:
  assumes "fb_ok fb" and "width fb = px_per_scan fb" and "2 \<le> unat (width fb)"
    and "x < unat (width fb)" and "y < unat (height fb)"
  shows "pixel_at fb (pixel_no fb x y) (set_all_pixels fb color m) =
      (if x = 0 \<and> 0 < y then ucast (drop_bit 32 color) else ucast color)"
    and "pixel_at fb (pixel_count fb) (set_all_pixels fb color m) = ucast (drop_bit 32 color)"
    and "a \<notin> fb_span fb \<Longrightarrow> set_all_pixels fb color m a = m a"
proof -
  have w: "2 \<le> unat (px_per_scan fb)" using assms(2,3) by simp
  note F = set_all_pixels_columns [OF assms(1) w, of color m]
  note all = columns_filled_all [OF w assms(4) [unfolded assms(2)] assms(5)]
  have "pixel_no fb x y < 2 ^ 61"
    using pixel_no_less [OF assms(1,4,5)] pixel_no_61 [OF assms(1)] by simp
  then show "pixel_at fb (pixel_no fb x y) (set_all_pixels fb color m) =
      (if x = 0 \<and> 0 < y then ucast (drop_bit 32 color) else ucast color)"
    using F all(1) assms(2) by (simp add: pixel_no_def)
  show "pixel_at fb (pixel_count fb) (set_all_pixels fb color m) = ucast (drop_bit 32 color)"
    using F all(2) assms(2) pixel_no_61 [OF assms(1)] by (simp add: pixel_count_def)
  show "set_all_pixels fb color m a = m a" if "a \<notin> fb_span fb" using F that by blast
qed

text \<open>C35: \<^verbatim>\<open>set_all_pixels\<close> of \<^verbatim>\<open>framebuffer/framebuffer.cpp\<close> on a screen without padding
  writes nothing outside the buffer and the four bytes behind it, and leaves the lower half of the
  colour in every pixel except the first one of every row but row 0: \<^verbatim>\<open>set_pixel\<close> stores eight
  bytes, so the last column, painted last, puts the upper half of the value there, and in the four
  bytes behind the buffer.\<close>

theorem set_all_pixels_result:
  assumes "fb_ok fb" and "width fb = px_per_scan fb" and "2 \<le> unat (width fb)" and "0 < unat (height fb)"
  shows "(\<forall>x < unat (width fb). \<forall>y < unat (height fb).
      pixel_at fb (pixel_no fb x y) (set_all_pixels fb color m) =
      (if x = 0 \<and> 0 < y then ucast (drop_bit 32 color) else ucast color)) \<and>
    pixel_at fb (pixel_count fb) (set_all_pixels fb color m) = ucast (drop_bit 32 color) \<and>
    (\<forall>a. a \<notin> fb_span fb \<longrightarrow> set_all_pixels fb color m a = m a)"
  using set_all_pixels_facts(1) [OF assms(1-3)] set_all_pixels_facts(2,3) [OF assms(1-3) _ assms(4), of 0] assms(3)
  by simp

definition fb_example :: Framebuffer where
  "fb_example = \<lparr>fb_addr = 0x1000, double_fb_addr = 0x2000, b_size = 24, width = 3, height = 2,
     px_per_scan = 3, b_per_px = 4\<rparr>"

lemma fb_example_ok: "fb_ok fb_example"
  by (simp add: fb_ok_def fb_example_def)

theorem set_all_pixels_result_witness:
  "pixel_at fb_example (pixel_no fb_example 1 1) (set_all_pixels fb_example BLUE (\<lambda>_. 0)) = 0xFF
   \<and> pixel_at fb_example (pixel_no fb_example 0 1) (set_all_pixels fb_example BLUE (\<lambda>_. 0)) = 0
   \<and> set_all_pixels fb_example BLUE (\<lambda>_. 0) 0x1000 = 0"
proof -
  have h: "width fb_example = px_per_scan fb_example" "2 \<le> unat (width fb_example)"
    "1 < unat (width fb_example)" "0 < unat (width fb_example)" "1 < unat (height fb_example)"
    by (simp_all add: fb_example_def)
  have c: "(ucast BLUE :: u32) = 0xFF" "(ucast (drop_bit 32 BLUE) :: u32) = 0"
    by (simp_all add: BLUE_def rgb_to_int_def)
  have "0x1000 \<notin> fb_span fb_example"
    by (simp add: fb_span_def span_def pixel_count_def fb_example_def)
  then show ?thesis
    using set_all_pixels_result [OF fb_example_ok h(1,2), of BLUE "\<lambda>_. 0"] h c by simp
qed

section \<open>Drawing a glyph\<close>

definition glyph_row :: "Framebuffer \<Rightarrow> Glyph \<Rightarrow> u64 \<Rightarrow> u64 \<Rightarrow> mem \<Rightarrow> mem" where
  "glyph_row fb glyph y bitmap =
     for_up 0 (\<lambda>_. ucast (g_width glyph)) (\<lambda>x m.
       set_pixel fb (ucast (g_x_off glyph) + ucast x) (ucast (g_y_off glyph) + ucast y)
         (glyph_color glyph (m bitmap) x) m)"

text \<open>A glyph that lies on the screen with at least one column to its right, and whose bitmap is
  not part of the buffer it is drawn into.\<close>

definition glyph_fits :: "Framebuffer \<Rightarrow> Glyph \<Rightarrow> bool" where
  "glyph_fits fb glyph \<longleftrightarrow>
     unat (g_x_off glyph) + unat (g_width glyph) < unat (width fb) \<and>
     unat (g_y_off glyph) + unat (g_height glyph) \<le> unat (height fb) \<and>
     span (g_bitmap glyph) (unat (g_height glyph)) \<inter> fb_span fb = {}"

text \<open>One row of pixels from \<open>n0\<close> on: \<open>i\<close> of them drawn, and the one after them cleared.\<close>

definition row_drawn :: "nat \<Rightarrow> (nat \<Rightarrow> u32) \<Rightarrow> nat \<Rightarrow> (nat \<Rightarrow> u32) \<Rightarrow> nat \<Rightarrow> u32" where
  "row_drawn n0 c i p n =
     (if n0 \<le> n \<and> n < n0 + i then c (n - n0) else if n = n0 + i \<and> 0 < i then 0 else p n)"

lemma row_drawn_step:
  "(if n = n0 + i then c i else if n = n0 + i + 1 then 0 else row_drawn n0 c i p n) =
     row_drawn n0 c (Suc i) p n"
  by (auto simp: row_drawn_def)

lemma glyph_color_half: "drop_bit 32 (glyph_color glyph row x) = 0"
  by (rule bit_word_eqI) (auto simp: glyph_color_def bit_simps dest: bit_imp_le_length)

lemma ucast_add_u32:
  assumes "unat (x :: u64) + unat (o16 :: u16) < 2 ^ 32"
  shows "unat (ucast o16 + ucast x :: u32) = unat o16 + unat x"
proof -
  have "unat (ucast x :: u32) = unat x" "unat (ucast o16 :: u32) = unat o16"
    using assms by (simp_all add: unat_ucast_up unsigned_ucast_eq take_bit_nat_eq_self flip: take_bit_eq_mod)
  then show ?thesis using assms by (subst unat_add_lem [THEN iffD1]) simp_all
qed

lemma glyph_row_pixels:
  assumes ok: "fb_ok fb" and fits: "glyph_fits fb glyph" and y: "unat y < unat (g_height glyph)"
    and b: "bitmap \<notin> fb_span fb"
  shows "(\<forall>n < 2 ^ 61. pixel_at fb n (glyph_row fb glyph y bitmap m) =
      row_drawn (pixel_no fb (unat (g_x_off glyph)) (unat (g_y_off glyph) + unat y))
        (\<lambda>x. ucast (glyph_color glyph (m bitmap) (of_nat x))) (unat (g_width glyph)) (\<lambda>n. pixel_at fb n m) n) \<and>
    (\<forall>a. a \<notin> fb_span fb \<longrightarrow> glyph_row fb glyph y bitmap m a = m a)"
proof -
  let ?n0 = "pixel_no fb (unat (g_x_off glyph)) (unat (g_y_off glyph) + unat y)"
  let ?R = "\<lambda>i. row_drawn ?n0 (\<lambda>x. ucast (glyph_color glyph (m bitmap) (of_nat x))) i (\<lambda>n. pixel_at fb n m)"
  define I where "I = (\<lambda>(i :: u64) t. (\<forall>n < 2 ^ 61. pixel_at fb n t = ?R (unat i) n) \<and>
    (\<forall>a. a \<notin> fb_span fb \<longrightarrow> t a = m a))"
  have "I (ucast (g_width glyph)) (glyph_row fb glyph y bitmap m)"
    unfolding glyph_row_def
  proof (rule for_up_rule [where I = I])
    show "I 0 m" by (auto simp: I_def row_drawn_def)
  next
    fix x t assume x: "x < ucast (g_width glyph)" and "I x t"
    then have I: "\<forall>n < 2 ^ 61. pixel_at fb n t = ?R (unat x) n" "\<forall>a. a \<notin> fb_span fb \<longrightarrow> t a = m a"
      by (simp_all add: I_def)
    let ?x = "ucast (g_x_off glyph) + ucast x :: u32" and ?y = "ucast (g_y_off glyph) + ucast y :: u32"
    have xl: "unat x < unat (g_width glyph)" using x by (simp add: word_less_nat_alt unat_ucast_up)
    have xy: "unat ?x = unat (g_x_off glyph) + unat x" "unat ?y = unat (g_y_off glyph) + unat y"
      using xl y fits unat_u16_bound [of "width fb"] unat_u16_bound [of "height fb"]
      by (auto intro!: ucast_add_u32 simp: glyph_fits_def)
    have lim: "unat ?x < unat (width fb)" "unat ?y < unat (height fb)"
      using xl y fits unfolding xy by (auto simp: glyph_fits_def)
    have no: "pixel_no fb (unat ?x) (unat ?y) = ?n0 + unat x" by (simp add: pixel_no_def xy)
    have Suc: "unat (x + 1) = Suc (unat x)" using x by (rule unat_Suc_less)
    have tb: "t bitmap = m bitmap" using I(2) b by blast
    let ?t = "set_pixel fb ?x ?y (glyph_color glyph (t bitmap) x) t"
    have "pixel_at fb n ?t = ?R (unat (x + 1)) n" if n: "n < 2 ^ 61" for n
      unfolding Suc row_drawn_step [symmetric]
      using set_pixel_at [OF ok lim n, unfolded no, of "glyph_color glyph (t bitmap) x" t] I(1) n
      by (simp add: tb glyph_color_half)
    moreover have "?t a = m a" if "a \<notin> fb_span fb" for a
      using set_pixel_outside [OF ok lim that] I(2) that by simp
    ultimately show "I (x + 1) ?t" by (simp add: I_def)
  qed simp_all
  then show ?thesis by (simp add: I_def unat_ucast_up)
qed


text \<open>The whole glyph, by the row and column of a pixel.\<close>

definition glyph_drawn :: "Framebuffer \<Rightarrow> Glyph \<Rightarrow> nat \<Rightarrow> mem \<Rightarrow> nat \<Rightarrow> u32" where
  "glyph_drawn fb glyph rows m n =
     (let w = unat (px_per_scan fb); X = n mod w; Y = n div w;
          x0 = unat (g_x_off glyph); y0 = unat (g_y_off glyph); gw = unat (g_width glyph)
      in if y0 \<le> Y \<and> Y < y0 + rows \<and> x0 \<le> X \<and> X < x0 + gw
         then ucast (glyph_color glyph (m (g_bitmap glyph + of_nat (Y - y0))) (of_nat (X - x0)))
         else if y0 \<le> Y \<and> Y < y0 + rows \<and> X = x0 + gw \<and> 0 < gw then 0 else pixel_at fb n m)"

lemma pixel_row_iff:
  fixes w :: nat
  assumes "x0 + i < w"
  shows "Y * w + (x0 + i) = n \<longleftrightarrow> n div w = Y \<and> n mod w = x0 + i"
proof
  assume "Y * w + (x0 + i) = n"
  then show "n div w = Y \<and> n mod w = x0 + i" using assms by auto
next
  assume "n div w = Y \<and> n mod w = x0 + i"
  then show "Y * w + (x0 + i) = n" by (metis div_mult_mod_eq)
qed

lemma pixel_row_between:
  fixes w :: nat
  assumes "x0 + i < w"
  shows "Y * w + x0 \<le> n \<and> n < Y * w + x0 + i \<longleftrightarrow> n div w = Y \<and> x0 \<le> n mod w \<and> n mod w < x0 + i"
    (is "?L \<longleftrightarrow> ?R")
proof
  assume ?L
  then have "n - Y * w < w" "n = (n - Y * w) + Y * w" using assms by auto
  then obtain k where "n = k + Y * w" "k < w" by blast
  then have "n div w = Y" "n mod w = n - Y * w" by simp_all
  then show ?R using \<open>?L\<close> by linarith
next
  assume R: ?R
  then have "n = Y * w + n mod w" by (metis div_mult_mod_eq)
  then show ?L using R by linarith
qed

lemma glyph_drawn_step:
  assumes "unat (g_x_off glyph) + unat (g_width glyph) < unat (px_per_scan fb)"
  shows "row_drawn (pixel_no fb (unat (g_x_off glyph)) (unat (g_y_off glyph) + r))
      (\<lambda>x. ucast (glyph_color glyph (m (g_bitmap glyph + of_nat r)) (of_nat x))) (unat (g_width glyph))
      (glyph_drawn fb glyph r m) n = glyph_drawn fb glyph (Suc r) m n"
proof -
  define w x0 y0 gw where d: "w = unat (px_per_scan fb)" "x0 = unat (g_x_off glyph)"
    "y0 = unat (g_y_off glyph)" "gw = unat (g_width glyph)"
  have lt: "x0 + gw < w" using assms by (simp add: d)
  define X Y where XY: "X = n mod w" "Y = n div w"
  have "n = Y * w + X" by (simp add: XY)
  then have sub: "n - ((y0 + r) * w + x0) = X - x0" if "Y = y0 + r" using that by simp
  have bet: "(y0 + r) * w + x0 \<le> n \<and> n < (y0 + r) * w + x0 + gw \<longleftrightarrow> Y = y0 + r \<and> x0 \<le> X \<and> X < x0 + gw"
    unfolding XY by (rule pixel_row_between [OF lt])
  have clr: "n = (y0 + r) * w + x0 + gw \<longleftrightarrow> Y = y0 + r \<and> X = x0 + gw"
    using pixel_row_iff [OF lt, of "y0 + r" n] by (auto simp: XY add.assoc)
  have less: "Y < y0 + Suc r \<longleftrightarrow> Y < y0 + r \<or> Y = y0 + r" by linarith
  show ?thesis
    unfolding row_drawn_def glyph_drawn_def Let_def pixel_no_def d [symmetric] XY [symmetric] bet clr less
    using sub by auto
qed

lemma print_glyph_pixels:
  assumes ok: "fb_ok fb" and fits: "glyph_fits fb glyph"
  shows "(\<forall>n < 2 ^ 61. pixel_at fb n (print_glyph fb glyph m) =
      glyph_drawn fb glyph (unat (g_height glyph)) m n) \<and>
    (\<forall>a. a \<notin> fb_span fb \<longrightarrow> print_glyph fb glyph m a = m a)"
proof -
  define I where "I = (\<lambda>(i :: u64) (t, b). b = g_bitmap glyph + i \<and>
    (\<forall>n < 2 ^ 61. pixel_at fb n t = glyph_drawn fb glyph (unat i) m n) \<and>
    (\<forall>a. a \<notin> fb_span fb \<longrightarrow> t a = m a))"
  have w: "unat (g_x_off glyph) + unat (g_width glyph) < unat (px_per_scan fb)"
    using fits ok by (auto simp: glyph_fits_def fb_ok_def word_le_nat_alt)
  have "I (ucast (g_height glyph)) (for_up 0 (\<lambda>_. ucast (g_height glyph))
    (\<lambda>y (m, bitmap). (glyph_row fb glyph y bitmap m, bitmap + 1)) (m, g_bitmap glyph))"
  proof (rule for_up_rule [where I = I])
    show "I 0 (m, g_bitmap glyph)" by (auto simp: I_def glyph_drawn_def Let_def)
  next
    fix y s assume y: "y < ucast (g_height glyph)" and "I y s"
    then obtain t where s: "s = (t, g_bitmap glyph + y)"
      and I: "\<forall>n < 2 ^ 61. pixel_at fb n t = glyph_drawn fb glyph (unat y) m n"
        "\<forall>a. a \<notin> fb_span fb \<longrightarrow> t a = m a" by (auto simp: I_def)
    let ?b = "g_bitmap glyph + y"
    have yl: "unat y < unat (g_height glyph)" using y by (simp add: word_less_nat_alt unat_ucast_up)
    then have "?b \<in> span (g_bitmap glyph) (unat (g_height glyph))" by (simp add: span_iff)
    then have b: "?b \<notin> fb_span fb" using fits by (auto simp: glyph_fits_def)
    have tb: "t ?b = m (g_bitmap glyph + of_nat (unat y))" using I(2) b by simp
    note R = glyph_row_pixels [OF ok fits yl b, of t, unfolded tb]
    have Suc: "unat (y + 1) = Suc (unat y)" using y by (rule unat_Suc_less)
    have "pixel_at fb n (glyph_row fb glyph y ?b t) = glyph_drawn fb glyph (unat (y + 1)) m n"
      if n: "n < 2 ^ 61" for n
      unfolding Suc glyph_drawn_step [OF w, symmetric]
      using R n I(1) by (simp add: row_drawn_def)
    then show "I (y + 1) (case s of (m, bitmap) \<Rightarrow> (glyph_row fb glyph y bitmap m, bitmap + 1))"
      using R I(2) by (simp add: I_def s)
  qed simp_all
  then show ?thesis
    by (auto simp: I_def print_glyph_def unat_ucast_up glyph_row_def split: prod.splits)
qed

lemma print_glyph_facts:
  assumes "fb_ok fb" and "glyph_fits fb glyph" and "0 < g_width glyph"
    and "X < unat (px_per_scan fb)" and "Y < unat (height fb)"
  shows "pixel_at fb (pixel_no fb X Y) (print_glyph fb glyph m) =
      (let x0 = unat (g_x_off glyph); y0 = unat (g_y_off glyph);
           gw = unat (g_width glyph); gh = unat (g_height glyph)
       in if y0 \<le> Y \<and> Y < y0 + gh \<and> x0 \<le> X \<and> X < x0 + gw
          then ucast (glyph_color glyph (m (g_bitmap glyph + of_nat (Y - y0))) (of_nat (X - x0)))
          else if y0 \<le> Y \<and> Y < y0 + gh \<and> X = x0 + gw then 0
          else pixel_at fb (pixel_no fb X Y) m)"
proof -
  note P = print_glyph_pixels [OF assms(1,2), of m]
  have "pixel_no fb X Y < pixel_count fb"
    using assms(4) mult_le_mono1 [OF Suc_leI [OF assms(5)], of "unat (px_per_scan fb)"]
    by (simp add: pixel_no_def pixel_count_def)
  then have n: "pixel_no fb X Y < 2 ^ 61" using pixel_no_61 [OF assms(1)] by simp
  have XY: "pixel_no fb X Y mod unat (px_per_scan fb) = X" "pixel_no fb X Y div unat (px_per_scan fb) = Y"
    using assms(4) by (simp_all add: pixel_no_def)
  have gw: "0 < unat (g_width glyph) \<longleftrightarrow> True" using assms(3) by (simp add: unat_gt_0)
  have "pixel_at fb (pixel_no fb X Y) (print_glyph fb glyph m) =
      glyph_drawn fb glyph (unat (g_height glyph)) m (pixel_no fb X Y)" using P n by blast
  then show "pixel_at fb (pixel_no fb X Y) (print_glyph fb glyph m) =
      (let x0 = unat (g_x_off glyph); y0 = unat (g_y_off glyph);
           gw = unat (g_width glyph); gh = unat (g_height glyph)
       in if y0 \<le> Y \<and> Y < y0 + gh \<and> x0 \<le> X \<and> X < x0 + gw
          then ucast (glyph_color glyph (m (g_bitmap glyph + of_nat (Y - y0))) (of_nat (X - x0)))
          else if y0 \<le> Y \<and> Y < y0 + gh \<and> X = x0 + gw then 0
          else pixel_at fb (pixel_no fb X Y) m)"
    unfolding glyph_drawn_def Let_def XY gw HOL.simp_thms .
qed


definition glyph_example :: Glyph where
  "glyph_example = \<lparr>g_bitmap = 0x3000, g_x_off = 0, g_y_off = 0, g_height = 1, g_width = 1,
     g_fg_color = 0xFF, g_bg_color = 7\<rparr>"


end
