(* ===== verification/Console.thy ===== *)
theory Console
  imports Framebuffer
begin

text \<open>
  The text console, \<^verbatim>\<open>console/console.cpp\<close>: a cursor over a grid of 100 columns and 37 rows, glyphs of
  a PSF font drawn into the framebuffer, scrolling, and the control characters. The console object
  and the memory are threaded through every operation; the font and the framebuffer are the
  references the object holds. Theorems: the cursor stays on the grid (and the one case in which it
  does not), printing writes nothing outside the two buffers, scrolling moves every text line up by
  one, and after every public operation the screen shows the back buffer.
\<close>

section \<open>The model\<close>

subsection \<open>The cursor\<close>

record ConsoleFont =
  psf_header :: u64
  glyph_height :: u8
  glyph_width :: u8
  glyph_buffer :: u64

definition ASCII_PRINTABLE_MIN :: u8 where "ASCII_PRINTABLE_MIN = 32"
definition ASCII_PRINTABLE_MAX :: u8 where "ASCII_PRINTABLE_MAX = 127"

definition Default_max_col :: u16 where "Default_max_col = 100"
definition Default_max_row :: u16 where "Default_max_row = 37"

record ConsoleCursor =
  c_row :: u16
  c_col :: u16
  c_fg :: u64
  c_bg :: u64
  c_max_col :: u16
  c_max_row :: u16

text \<open>\<^verbatim>\<open>_col + 1\<close> and \<^verbatim>\<open>_max_col - 1\<close> are computed as \<^verbatim>\<open>int\<close>; assignments to \<^verbatim>\<open>u16\<close> wrap.\<close>

definition cursor_next :: "ConsoleCursor \<Rightarrow> ConsoleCursor" where
  "cursor_next c =
     (if uint (c_col c) + 1 < uint (c_max_col c) then c\<lparr>c_col := c_col c + 1\<rparr>
      else c\<lparr>c_col := 0, c_row := c_row c + 1\<rparr>)"

definition cursor_back :: "ConsoleCursor \<Rightarrow> ConsoleCursor" where
  "cursor_back c =
     (if 0 < c_col c then c\<lparr>c_col := c_col c - 1\<rparr>
      else c\<lparr>c_col := c_max_col c - 1, c_row := c_row c - 1\<rparr>)"

definition cursor_cr :: "ConsoleCursor \<Rightarrow> ConsoleCursor" where
  "cursor_cr c = c\<lparr>c_col := 0\<rparr>"

definition cursor_lf :: "ConsoleCursor \<Rightarrow> ConsoleCursor" where
  "cursor_lf c = c\<lparr>c_row := c_row c + 1\<rparr>"

definition cursor_gotoxy :: "u16 \<Rightarrow> u16 \<Rightarrow> ConsoleCursor \<Rightarrow> ConsoleCursor" where
  "cursor_gotoxy x y c = c\<lparr>c_col := x, c_row := y\<rparr>"

definition cursor_reset :: "ConsoleCursor \<Rightarrow> ConsoleCursor" where
  "cursor_reset c = c\<lparr>c_col := 0, c_row := 0, c_bg := BLACK, c_fg := WHITE,
     c_max_col := Default_max_col, c_max_row := Default_max_row\<rparr>"

definition cursor_set_bg :: "u64 \<Rightarrow> ConsoleCursor \<Rightarrow> ConsoleCursor" where
  "cursor_set_bg color c = c\<lparr>c_bg := color\<rparr>"

definition cursor_set_fg :: "u64 \<Rightarrow> ConsoleCursor \<Rightarrow> ConsoleCursor" where
  "cursor_set_fg color c = c\<lparr>c_fg := color\<rparr>"

definition ConsoleCursor_init :: ConsoleCursor where
  "ConsoleCursor_init = cursor_reset \<lparr>c_row = 0, c_col = 0, c_fg = WHITE, c_bg = BLACK,
     c_max_col = Default_max_col, c_max_row = Default_max_row\<rparr>"

subsection \<open>The console\<close>

record Console =
  con_font :: ConsoleFont
  con_fb :: Framebuffer
  con_cursor :: ConsoleCursor

definition Console_init :: "ConsoleFont \<Rightarrow> Framebuffer \<Rightarrow> Console" where
  "Console_init font framebuffer = \<lparr>con_font = font, con_fb = framebuffer, con_cursor = ConsoleCursor_init\<rparr>"

definition con_clear :: "Console \<Rightarrow> mem \<Rightarrow> Console \<times> mem" where
  "con_clear con m =
     (let m1 = set_all_pixels (con_fb con) BLACK m;
          con1 = con\<lparr>con_cursor := cursor_reset (con_cursor con)\<rparr>
      in (con1, draw (con_fb con) m1))"

definition clear_line_pixels :: "Console \<Rightarrow> u16 \<Rightarrow> mem \<Rightarrow> mem" where
  "clear_line_pixels con line =
     for_up 0 (\<lambda>_. ucast (width (con_fb con))) (\<lambda>x.
       for_up 0 (\<lambda>_. ucast (glyph_height (con_font con))) (\<lambda>y.
         set_pixel (con_fb con) (ucast x)
           (ucast (ucast line * ucast (glyph_height (con_font con)) + y)) BLACK))"

definition clear_line :: "Console \<Rightarrow> u16 \<Rightarrow> mem \<Rightarrow> mem" where
  "clear_line con line m = draw (con_fb con) (clear_line_pixels con line m)"

definition scroll_down :: "Console \<Rightarrow> mem \<Rightarrow> Console \<times> mem" where
  "scroll_down con m =
     (let fb = double_fb_addr (con_fb con);
          start = get_pixel_addr (con_fb con) 0 (ucast (glyph_height (con_font con)));
          sz = start - fb;
          m1 = memcpy m fb start (b_size (con_fb con) - sz);
          c = con_cursor con;
          con1 = con\<lparr>con_cursor := cursor_gotoxy (c_col c) (c_row c - 1) c\<rparr>
      in (con1, clear_line con1 (c_max_row (con_cursor con1) - 1) m1))"

text \<open>The glyph of a printable character; \<^verbatim>\<open>psf_header->charsize\<close> is the fourth byte of the header.\<close>

definition char_glyph :: "Console \<Rightarrow> u8 \<Rightarrow> mem \<Rightarrow> Glyph" where
  "char_glyph con chr m =
     \<lparr>g_bitmap = glyph_buffer (con_font con) + ucast chr * ucast (m (psf_header (con_font con) + 3)),
      g_x_off = c_col (con_cursor con) * ucast (glyph_width (con_font con)),
      g_y_off = c_row (con_cursor con) * ucast (glyph_height (con_font con)),
      g_height = glyph_height (con_font con), g_width = glyph_width (con_font con),
      g_fg_color = ucast (c_fg (con_cursor con)), g_bg_color = ucast (c_bg (con_cursor con))\<rparr>"

definition move_cursor :: "(ConsoleCursor \<Rightarrow> ConsoleCursor) \<Rightarrow> Console \<times> mem \<Rightarrow> Console \<times> mem" where
  "move_cursor f = (\<lambda>(con, m). (con\<lparr>con_cursor := f (con_cursor con)\<rparr>, m))"

definition scroll_if_full :: "Console \<times> mem \<Rightarrow> Console \<times> mem" where
  "scroll_if_full = (\<lambda>(con, m).
     if c_max_row (con_cursor con) = c_row (con_cursor con) then scroll_down con m else (con, m))"

definition print_printable :: "u8 \<Rightarrow> Console \<times> mem \<Rightarrow> Console \<times> mem" where
  "print_printable chr = (\<lambda>(con, m).
     move_cursor cursor_next (con, print_glyph (con_fb con) (char_glyph con chr m) m))"

text \<open>\<^verbatim>\<open>char\<close> is signed: the bytes from 128 on are negative and not printable.\<close>

definition printable :: "u8 \<Rightarrow> bool" where
  "printable chr \<longleftrightarrow> ASCII_PRINTABLE_MIN \<le> chr \<and> chr \<le> ASCII_PRINTABLE_MAX"

function print_char :: "u8 \<Rightarrow> Console \<times> mem \<Rightarrow> Console \<times> mem" where
  "print_char chr s =
     (let s1 = scroll_if_full s
      in if printable chr then print_printable chr s1
         else if chr = 10 then move_cursor cursor_cr (move_cursor cursor_lf s1)
         else if chr = 9 then
           move_cursor cursor_next (move_cursor cursor_next (move_cursor cursor_next s1))
         else if chr = 13 then move_cursor cursor_cr s1
         else if chr = 8 then
           move_cursor cursor_back (print_char 32 (move_cursor cursor_back s1))
         else s1)"
  by pat_completeness auto
termination
  by (relation "measure (\<lambda>(chr, s). if chr = 8 then 1 else 0)") auto

declare print_char.simps [simp del]

definition print_chr :: "u8 \<Rightarrow> Console \<times> mem \<Rightarrow> Console \<times> mem" where
  "print_chr chr s = (case print_char chr s of (con, m) \<Rightarrow> (con, draw (con_fb con) m))"

text \<open>\<^verbatim>\<open>print(char *str)\<close> reads the string while it draws; it need not end.\<close>

partial_function (option) print_loop :: "u64 \<Rightarrow> Console \<times> mem \<Rightarrow> (Console \<times> mem) option" where
  "print_loop str s =
     (if snd s str \<noteq> 0 then print_loop (str + 1) (print_char (snd s str) s) else Some s)"

definition print_str :: "u64 \<Rightarrow> Console \<times> mem \<Rightarrow> (Console \<times> mem) option" where
  "print_str str s = map_option (\<lambda>(con, m). (con, draw (con_fb con) m)) (print_loop str s)"

section \<open>The cursor\<close>

definition cursor_ok :: "ConsoleCursor \<Rightarrow> bool" where
  "cursor_ok c \<longleftrightarrow> c_max_col c = 100 \<and> c_max_row c = 37 \<and> c_col c < 100 \<and> c_row c \<le> 37"

lemmas cursor_defs = cursor_next_def cursor_back_def cursor_cr_def cursor_lf_def cursor_gotoxy_def
  cursor_reset_def cursor_set_bg_def cursor_set_fg_def

text \<open>Rows and columns as numbers; the position in the text as one number.\<close>

definition cursor_pos :: "ConsoleCursor \<Rightarrow> nat" where
  "cursor_pos c = unat (c_row c) * 100 + unat (c_col c)"

lemma cursor_ok_iff:
  "cursor_ok c \<longleftrightarrow> c_max_col c = 100 \<and> c_max_row c = 37 \<and> unat (c_col c) < 100 \<and> unat (c_row c) \<le> 37"
  by (simp add: cursor_ok_def word_less_nat_alt word_le_nat_alt)

lemma unat_inc_u16: "unat (v :: u16) + 1 < 65536 \<Longrightarrow> unat (v + 1) = unat v + 1"
  by (subst unat_add_lem [THEN iffD1]) simp_all

lemma unat_dec_u16: "0 < unat (v :: u16) \<Longrightarrow> unat (v - 1) = unat v - 1"
  by (subst unat_sub) (simp_all add: word_le_nat_alt)

lemma uint_u16: "uint (v :: u16) = int (unat v)"
  by simp

lemma cursor_next_spec:
  assumes "cursor_ok c" and "cursor_pos c < 3799"
  shows "cursor_ok (cursor_next c)" "cursor_pos (cursor_next c) = cursor_pos c + 1"
proof -
  have u: "uint (c_col c) + 1 < uint (c_max_col c) \<longleftrightarrow> unat (c_col c) + 1 < 100"
  proof -
    have "uint (c_max_col c) = 100" using assms(1) by (simp add: cursor_ok_iff)
    then show ?thesis unfolding uint_u16 by linarith
  qed
  have v: "unat (c_col c + 1) = unat (c_col c) + 1" "unat (c_row c + 1) = unat (c_row c) + 1"
    using assms unat_inc_u16 [of "c_col c"] unat_inc_u16 [of "c_row c"] by (simp_all add: cursor_ok_iff)
  show "cursor_ok (cursor_next c)" "cursor_pos (cursor_next c) = cursor_pos c + 1"
    using assms u v by (auto simp: cursor_next_def cursor_ok_iff cursor_pos_def)
qed

lemma cursor_back_spec:
  assumes "cursor_ok c" and "0 < cursor_pos c"
  shows "cursor_ok (cursor_back c)" "cursor_pos (cursor_back c) = cursor_pos c - 1"
proof -
  have u: "0 < c_col c \<longleftrightarrow> 0 < unat (c_col c)" by (simp add: word_less_nat_alt)
  have v: "0 < unat (c_col c) \<Longrightarrow> unat (c_col c - 1) = unat (c_col c) - 1"
    "0 < unat (c_row c) \<Longrightarrow> unat (c_row c - 1) = unat (c_row c) - 1"
    by (simp_all add: unat_dec_u16)
  show "cursor_ok (cursor_back c)" "cursor_pos (cursor_back c) = cursor_pos c - 1"
    using assms u v by (auto simp: cursor_back_def cursor_ok_iff cursor_pos_def)
qed

lemma cursor_row_less: "cursor_pos c < 3700 \<Longrightarrow> unat (c_row c) < 37"
  by (simp add: cursor_pos_def)

lemma cursor_pos_less: "cursor_ok c \<Longrightarrow> unat (c_row c) < 37 \<Longrightarrow> cursor_pos c < 3700"
  by (simp add: cursor_pos_def cursor_ok_iff)


section \<open>Drawing\<close>

text \<open>A console whose text grid fits the screen and whose buffers have the size of the screen and do
  not overlap.\<close>

definition front_span :: "Framebuffer \<Rightarrow> u64 set" where
  "front_span fb = span (fb_addr fb) (unat (b_size fb))"

definition screen_ok :: "ConsoleFont \<Rightarrow> Framebuffer \<Rightarrow> bool" where
  "screen_ok font fb \<longleftrightarrow> fb_ok fb \<and> 0 < width fb \<and> 0 < height fb \<and> 0 < unat (glyph_height font) \<and>
     100 * unat (glyph_width font) \<le> unat (width fb) \<and> 37 * unat (glyph_height font) \<le> unat (height fb) \<and>
     unat (b_size fb) = 4 * pixel_count fb \<and> front_span fb \<inter> fb_span fb = {}"

definition con_ok :: "Console \<Rightarrow> bool" where
  "con_ok con \<longleftrightarrow> screen_ok (con_font con) (con_fb con) \<and> cursor_ok (con_cursor con)"

text \<open>What is left alone by every operation of the console.\<close>

definition kept_outside :: "Framebuffer \<Rightarrow> mem \<Rightarrow> mem \<Rightarrow> bool" where
  "kept_outside fb m m' \<longleftrightarrow> (\<forall>a. a \<notin> fb_span fb \<longrightarrow> a \<notin> front_span fb \<longrightarrow> m' a = m a)"

lemma kept_outside_refl [simp]: "kept_outside fb m m"
  by (simp add: kept_outside_def)

lemma kept_outside_trans: "kept_outside fb m m1 \<Longrightarrow> kept_outside fb m1 m2 \<Longrightarrow> kept_outside fb m m2"
  by (simp add: kept_outside_def)

lemma draw_apply:
  assumes "front_span fb \<inter> fb_span fb = {}" and "unat (b_size fb) = 4 * pixel_count fb"
  shows "draw fb m a = (if a \<in> front_span fb then m (double_fb_addr fb + (a - fb_addr fb)) else m a)"
proof (cases "b_size fb = 0")
  case True
  then show ?thesis by (simp add: draw_def front_span_def span_iff memcpy.simps [of m])
next
  case False
  then have "fb_addr fb \<in> front_span fb" by (simp add: front_span_def span_iff unat_gt_0)
  then have "fb_addr fb \<notin> fb_span fb" using assms(1) by blast
  then have "unat (b_size fb) \<le> unat (fb_addr fb - double_fb_addr fb)"
    using assms(2) by (simp add: fb_span_def span_iff)
  then show ?thesis by (simp add: draw_def memcpy_apply front_span_def span_iff)
qed

lemma draw_kept:
  assumes "front_span fb \<inter> fb_span fb = {}" and "unat (b_size fb) = 4 * pixel_count fb"
  shows "kept_outside fb m (draw fb m)" and "a \<in> fb_span fb \<Longrightarrow> draw fb m a = m a"
  using assms by (auto simp: kept_outside_def draw_apply)

text \<open>The screen shows the back buffer.\<close>

definition shown :: "Framebuffer \<Rightarrow> mem \<Rightarrow> bool" where
  "shown fb m \<longleftrightarrow> (\<forall>k < unat (b_size fb). m (fb_addr fb + of_nat k) = m (double_fb_addr fb + of_nat k))"

lemma draw_shown:
  assumes "front_span fb \<inter> fb_span fb = {}" and "unat (b_size fb) = 4 * pixel_count fb"
  shows "shown fb (draw fb m)"
  unfolding shown_def
proof (intro allI impI)
  fix k assume k: "k < unat (b_size fb)"
  then have k64: "k < 2 ^ 64" using u64_bound [of "b_size fb"] by linarith
  have f: "fb_addr fb + of_nat k \<in> front_span fb"
    using k k64 by (simp add: front_span_def span_iff)
  have d: "double_fb_addr fb + of_nat k \<in> fb_span fb"
    using k k64 assms(2) by (simp add: fb_span_def span_iff)
  then have "double_fb_addr fb + of_nat k \<notin> front_span fb" using assms(1) by blast
  then show "draw fb m (fb_addr fb + of_nat k) = draw fb m (double_fb_addr fb + of_nat k)"
    using f by (simp add: draw_apply [OF assms])
qed

lemma glyph_row_outside:
  assumes ok: "fb_ok fb" and "unat (g_x_off glyph) + unat (g_width glyph) \<le> unat (width fb)"
    and "unat (g_y_off glyph) + unat y < unat (height fb)" and a: "a \<notin> fb_span fb"
  shows "glyph_row fb glyph y bitmap m a = m a"
proof -
  define I where "I = (\<lambda>(i :: u64) (t :: mem). t a = m a)"
  have "I (ucast (g_width glyph)) (glyph_row fb glyph y bitmap m)"
    unfolding glyph_row_def
  proof (rule for_up_rule [where I = I])
    fix x t assume x: "x < ucast (g_width glyph)" and I: "I x t"
    have xl: "unat x < unat (g_width glyph)" using x by (simp add: word_less_nat_alt unat_ucast_up)
    have "unat (ucast (g_x_off glyph) + ucast x :: u32) = unat (g_x_off glyph) + unat x"
      "unat (ucast (g_y_off glyph) + ucast y :: u32) = unat (g_y_off glyph) + unat y"
      using xl assms(2,3) unat_u16_bound [of "width fb"] unat_u16_bound [of "height fb"]
      by (auto intro!: ucast_add_u32)
    then have "unat (ucast (g_x_off glyph) + ucast x :: u32) < unat (width fb)"
      "unat (ucast (g_y_off glyph) + ucast y :: u32) < unat (height fb)"
      using xl assms(2,3) by simp_all
    from set_pixel_outside [OF ok this a] I
    show "I (x + 1) (set_pixel fb (ucast (g_x_off glyph) + ucast x) (ucast (g_y_off glyph) + ucast y)
         (glyph_color glyph (t bitmap) x) t)" by (simp add: I_def)
  qed (simp_all add: I_def)
  then show ?thesis by (simp add: I_def)
qed

lemma print_glyph_rows:
  "print_glyph fb glyph m = fst (for_up 0 (\<lambda>_. ucast (g_height glyph))
     (\<lambda>y (m, bitmap). (glyph_row fb glyph y bitmap m, bitmap + 1)) (m, g_bitmap glyph))"
  by (simp add: print_glyph_def glyph_row_def)

lemma print_glyph_outside:
  assumes ok: "fb_ok fb" and x: "unat (g_x_off glyph) + unat (g_width glyph) \<le> unat (width fb)"
    and y: "unat (g_y_off glyph) + unat (g_height glyph) \<le> unat (height fb)" and a: "a \<notin> fb_span fb"
  shows "print_glyph fb glyph m a = m a"
proof -
  define I where "I = (\<lambda>(i :: u64) (t :: mem \<times> u64). fst t a = m a)"
  have "I (ucast (g_height glyph)) (for_up 0 (\<lambda>_. ucast (g_height glyph))
    (\<lambda>y (m, bitmap). (glyph_row fb glyph y bitmap m, bitmap + 1)) (m, g_bitmap glyph))"
  proof (rule for_up_rule [where I = I])
    fix i s assume i: "i < ucast (g_height glyph)" and I: "I i s"
    have "unat i < unat (g_height glyph)" using i by (simp add: word_less_nat_alt unat_ucast_up)
    then have "unat (g_y_off glyph) + unat i < unat (height fb)" using y by simp
    from glyph_row_outside [OF ok x this a] I
    show "I (i + 1) (case s of (m, bitmap) \<Rightarrow> (glyph_row fb glyph i bitmap m, bitmap + 1))"
      by (simp add: I_def split_beta)
  qed (simp_all add: I_def)
  then show ?thesis by (simp add: I_def print_glyph_rows)
qed


subsection \<open>Clearing a line and scrolling\<close>

text \<open>\<open>S\<close> is black, the pixels before \<open>base\<close> and everything outside the buffer are as in \<open>m\<close>.\<close>

definition cleared :: "Framebuffer \<Rightarrow> mem \<Rightarrow> nat \<Rightarrow> nat set \<Rightarrow> mem \<Rightarrow> bool" where
  "cleared fb m base S t \<longleftrightarrow> (\<forall>n < base. pixel_at fb n t = pixel_at fb n m) \<and>
     (\<forall>n \<in> S. n < 2 ^ 61 \<longrightarrow> pixel_at fb n t = 0) \<and> (\<forall>a. a \<notin> fb_span fb \<longrightarrow> t a = m a)"

lemma BLACK_0 [simp]: "BLACK = 0"
  by (simp add: BLACK_def rgb_to_int_def)

lemma cleared_step:
  assumes "cleared fb m base S t" and "fb_ok fb" and "unat x < unat (width fb)"
    and "unat y < unat (height fb)" and "base \<le> pixel_no fb (unat x) (unat y)"
  shows "cleared fb m base (insert (pixel_no fb (unat x) (unat y)) S) (set_pixel fb x y BLACK t)"
proof -
  have "pixel_no fb (unat x) (unat y) < 2 ^ 61"
    using pixel_no_less [OF assms(2-4)] pixel_no_61 [OF assms(2)] by simp
  then have "base \<le> 2 ^ 61" using assms(5) by simp
  then show ?thesis
    using assms(1,5) set_pixel_at [OF assms(2-4)] set_pixel_outside [OF assms(2-4)]
    by (auto simp: cleared_def)
qed

lemma clear_row_index:
  assumes "unat (line :: u16) < 37" and "unat y < unat (gh :: u8)"
  shows "unat (ucast (ucast line * ucast gh + y :: u64) :: u32) = unat line * unat gh + unat y"
proof -
  have gh: "unat gh < 256" using unat_u8_bound .
  then have "unat line * unat gh \<le> 36 * 255" using assms(1) by (intro mult_le_mono) simp_all
  moreover have "unat y < 256" using assms(2) gh by simp
  ultimately have le: "unat line * unat gh + unat y < 2 ^ 32" by simp
  then have le64: "unat line * unat gh + unat y < 2 ^ 64" by simp
  have "(ucast line * ucast gh + y :: u64) = of_nat (unat line * unat gh + unat y)" by simp
  then have "unat (ucast line * ucast gh + y :: u64) = unat line * unat gh + unat y"
    using unat_of_nat_u64 [OF le64] by simp
  then show ?thesis
    using le by (simp add: unsigned_ucast_eq take_bit_nat_eq_self flip: take_bit_eq_mod)
qed

text \<open>A column of a line is cleared from the top down.\<close>

lemma clear_column:
  assumes ok: "screen_ok (con_font con) (con_fb con)" and line: "unat (line :: u16) < 37" and x: "(x :: u64) < ucast (width (con_fb con))"
    and fb: "fb = con_fb con" and gh: "gh = glyph_height (con_font con)" and h0: "h0 = unat line * unat gh"
    and t: "cleared fb m (h0 * unat (px_per_scan fb)) S t"
  shows "cleared fb m (h0 * unat (px_per_scan fb)) (S \<union> {pixel_no fb (unat x) (h0 + j) | j. j < unat gh})
    (for_up 0 (\<lambda>_. ucast gh) (\<lambda>y. set_pixel fb (ucast x) (ucast (ucast line * ucast gh + y)) BLACK) t)"
proof -
  define J where "J = (\<lambda>(y :: u64) t. cleared fb m (h0 * unat (px_per_scan fb)) (S \<union> {pixel_no fb (unat x) (h0 + j) | j. j < unat y}) t)"
  let ?body = "\<lambda>y. set_pixel fb (ucast x) (ucast (ucast line * ucast gh + y)) BLACK"
  have "unat line * unat gh + unat gh \<le> 37 * unat gh" using mult_le_mono1 [of "Suc (unat line)" 37 "unat gh"] line by simp
  moreover have "37 * unat gh \<le> unat (height fb)" using ok by (simp add: screen_ok_def fb gh)
  ultimately have h: "h0 + unat gh \<le> unat (height fb)" unfolding h0 by (rule order_trans)
  have fok: "fb_ok fb" using ok by (simp add: screen_ok_def fb)
  note xb = loop_index_u32 [OF x]
  have "J (ucast gh) (for_up 0 (\<lambda>_. ucast gh) ?body t)"
  proof (rule for_up_rule [where I = J])
    show "J 0 t" using t by (simp add: J_def)
  next
    fix y u assume y: "y < ucast gh" and J: "J y u"
    let ?y = "ucast (ucast line * ucast gh + y) :: u32"
    have yl: "unat y < unat gh" using y by (simp add: word_less_nat_alt unat_ucast_up)
    then have yi: "unat ?y = h0 + unat y" using clear_row_index [OF line] by (simp add: h0)
    have b: "unat (ucast x :: u32) < unat (width fb)" "unat ?y < unat (height fb)" using xb yi yl h by (simp_all add: fb)
    have "h0 * unat (px_per_scan fb) \<le> pixel_no fb (unat (ucast x :: u32)) (unat ?y)"
      unfolding yi pixel_no_def by (simp add: algebra_simps)
    from cleared_step [OF J [unfolded J_def] fok b this]
    have "cleared fb m (h0 * unat (px_per_scan fb)) (insert (pixel_no fb (unat x) (h0 + unat y))
        (S \<union> {pixel_no fb (unat x) (h0 + j) | j. j < unat y})) (?body y u)" by (simp add: xb yi)
    moreover have "insert (pixel_no fb (unat x) (h0 + unat y)) (S \<union> {pixel_no fb (unat x) (h0 + j) | j. j < unat y}) =
        S \<union> {pixel_no fb (unat x) (h0 + j) | j. j < unat (y + 1)}"
      using unat_Suc_less [OF y] by (auto simp: less_Suc_eq)
    ultimately show "J (y + 1) (?body y u)" by (simp add: J_def)
  qed simp_all
  then show ?thesis by (simp add: J_def unat_ucast_up)
qed

lemma clear_line_cleared:
  assumes ok: "screen_ok (con_font con) (con_fb con)" and line: "unat line < 37"
  shows "cleared (con_fb con) m (unat line * unat (glyph_height (con_font con)) * unat (px_per_scan (con_fb con)))
    {pixel_no (con_fb con) x (unat line * unat (glyph_height (con_font con)) + y) | x y.
       x < unat (width (con_fb con)) \<and> y < unat (glyph_height (con_font con))}
    (clear_line_pixels con line m)"
proof -
  define fb gh where "fb = con_fb con" and "gh = glyph_height (con_font con)"
  define h0 where "h0 = unat line * unat gh"
  define S where "S = (\<lambda>k. {pixel_no fb x (h0 + y) | x y. x < k \<and> y < unat gh})"
  define I where "I = (\<lambda>(x :: u64) t. cleared fb m (h0 * unat (px_per_scan fb)) (S (unat x)) t)"
  have "I (ucast (width fb)) (clear_line_pixels con line m)"
    unfolding clear_line_pixels_def fb_def [symmetric] gh_def [symmetric]
  proof (rule for_up_rule [where I = I])
    show "I 0 m" by (simp add: I_def cleared_def S_def)
  next
    fix x t assume x: "x < ucast (width fb)" and I: "I x t"
    have "S (unat x) \<union> {pixel_no fb (unat x) (h0 + j) | j. j < unat gh} = S (unat (x + 1))"
      using unat_Suc_less [OF x] by (auto simp: S_def less_Suc_eq)
    then show "I (x + 1) (for_up 0 (\<lambda>_. ucast gh) (\<lambda>y. set_pixel fb (ucast x) (ucast (ucast line * ucast gh + y)) BLACK) t)"
      using clear_column [OF ok line x [unfolded fb_def] fb_def gh_def h0_def I [unfolded I_def]] by (simp add: I_def)
  qed simp_all
  then show ?thesis by (simp add: I_def S_def h0_def fb_def gh_def unat_ucast_up)
qed


lemma con_font_fb_simps [simp]:
  "con_font (fst (scroll_down con m)) = con_font con" "con_fb (fst (scroll_down con m)) = con_fb con"
  by (simp_all add: scroll_down_def Let_def)

text \<open>The copy of \<^verbatim>\<open>_scroll_down\<close> goes to lower addresses, so copying forwards is right although the
  two areas overlap.\<close>

definition scroll_copy :: "Console \<Rightarrow> mem \<Rightarrow> mem" where
  "scroll_copy con m =
     (let fb = double_fb_addr (con_fb con);
          start = get_pixel_addr (con_fb con) 0 (ucast (glyph_height (con_font con)))
      in memcpy m fb start (b_size (con_fb con) - (start - fb)))"

lemma scroll_down_eq:
  "scroll_down con m =
     (con\<lparr>con_cursor := cursor_gotoxy (c_col (con_cursor con)) (c_row (con_cursor con) - 1) (con_cursor con)\<rparr>,
      draw (con_fb con) (clear_line_pixels con (c_max_row (con_cursor con) - 1) (scroll_copy con m)))"
  by (simp add: scroll_down_def scroll_copy_def Let_def clear_line_def clear_line_pixels_def cursor_gotoxy_def)

lemma screen_sizes:
  assumes "screen_ok font fb"
  shows "unat (glyph_height font) < unat (height fb)" "0 < unat (width fb)"
    "unat (glyph_height font) * unat (px_per_scan fb) < pixel_count fb" "4 * pixel_count fb < 2 ^ 32"
proof -
  have ok: "0 < unat (glyph_height font)" "37 * unat (glyph_height font) \<le> unat (height fb)"
    "0 < unat (width fb)" "fb_ok fb"
    using assms by (simp_all add: screen_ok_def word_less_nat_alt)
  then show *: "unat (glyph_height font) < unat (height fb)" "0 < unat (width fb)" by linarith+
  have "0 < unat (px_per_scan fb)" using ok(3,4) by (auto simp: fb_ok_def word_le_nat_alt)
  then show "unat (glyph_height font) * unat (px_per_scan fb) < pixel_count fb"
    using * by (simp add: pixel_count_def)
  show "4 * pixel_count fb < 2 ^ 32" using ok(4) by (simp add: fb_ok_def pixel_count_def)
qed

lemma scroll_copy_apply:
  assumes ok: "screen_ok (con_font con) (con_fb con)"
  defines "k \<equiv> 4 * (unat (glyph_height (con_font con)) * unat (px_per_scan (con_fb con)))"
  shows "scroll_copy con m a =
    (if unat (a - double_fb_addr (con_fb con)) < 4 * pixel_count (con_fb con) - k
     then m (a + of_nat k) else m a)"
proof -
  define fb where "fb = con_fb con"
  note sz = screen_sizes [OF ok, folded fb_def]
  have fok: "fb_ok fb" and bsz: "unat (b_size fb) = 4 * pixel_count fb"
    using ok by (simp_all add: screen_ok_def fb_def)
  have gh: "unat (ucast (glyph_height (con_font con)) :: u32) = unat (glyph_height (con_font con))"
    by (simp add: unat_ucast_up)
  have "get_pixel_addr fb 0 (ucast (glyph_height (con_font con))) =
      double_fb_addr fb + of_nat (4 * pixel_no fb (unat (0 :: u32)) (unat (ucast (glyph_height (con_font con)) :: u32)))"
    using sz gh by (intro pixel_addr [OF fok]) simp_all
  then have start: "get_pixel_addr fb 0 (ucast (glyph_height (con_font con))) = double_fb_addr fb + of_nat k"
    by (simp add: gh pixel_no_def k_def fb_def)
  have "0 < unat (glyph_height (con_font con))" using ok by (simp add: screen_ok_def)
  moreover have "0 < unat (px_per_scan fb)" using sz(2) fok by (auto simp: fb_ok_def word_le_nat_alt)
  ultimately have k: "k < 4 * pixel_count fb" "0 < k" using sz(3) by (simp_all add: k_def fb_def)
  then have "k < 2 ^ 32" using sz(4) by linarith
  then have k64: "k < 2 ^ 64" by simp
  have n: "unat (b_size fb - of_nat k) = 4 * pixel_count fb - k"
    using k k64 bsz by (subst unat_minus_le) (simp_all add: word_le_nat_alt)
  have neg: "double_fb_addr fb - (double_fb_addr fb + of_nat k) = - (of_nat k :: u64)" by simp
  have "unat (- (of_nat k :: u64)) = 2 ^ 64 - k"
    using unat_minus_gt [of 0 "of_nat k"] k(2) k64 by (simp add: word_less_nat_alt)
  then have fwd: "unat (b_size fb - of_nat k) \<le> unat (double_fb_addr fb - (double_fb_addr fb + of_nat k))"
    unfolding neg n using sz(4) k(1) k64 by simp
  have "scroll_copy con m a = memcpy m (double_fb_addr fb) (double_fb_addr fb + of_nat k) (b_size fb - of_nat k) a"
    using start by (simp add: scroll_copy_def Let_def fb_def)
  also have "\<dots> = (if unat (a - double_fb_addr fb) < 4 * pixel_count fb - k
      then m (double_fb_addr fb + of_nat k + (a - double_fb_addr fb)) else m a)"
    using fwd n by (simp add: memcpy_apply)
  finally show ?thesis by (simp add: fb_def ac_simps)
qed

lemma scroll_copy_pixel:
  assumes ok: "screen_ok (con_font con) (con_fb con)"
  defines "k \<equiv> unat (glyph_height (con_font con)) * unat (px_per_scan (con_fb con))"
  assumes n: "n + k < pixel_count (con_fb con)"
  shows "pixel_at (con_fb con) n (scroll_copy con m) = pixel_at (con_fb con) (n + k) m"
proof -
  let ?d = "double_fb_addr (con_fb con)"
  have small: "4 * pixel_count (con_fb con) < 2 ^ 32" using screen_sizes [OF ok] by simp
  have "scroll_copy con m (?d + of_nat (4 * n) + of_nat i) = m (?d + of_nat (4 * (n + k)) + of_nat i)"
    if "i < 4" for i
  proof -
    have a: "?d + of_nat (4 * n) + of_nat i = ?d + of_nat (4 * n + i)" by simp
    have "4 * n + i < 4 * pixel_count (con_fb con) - 4 * k" using n that by linarith
    moreover have "unat (?d + of_nat (4 * n + i) - ?d) = 4 * n + i"
      using n that small by (simp only: add_diff_cancel_left') (rule unat_of_nat_u64, simp)
    ultimately have "scroll_copy con m (?d + of_nat (4 * n + i)) = m (?d + of_nat (4 * n + i) + of_nat (4 * k))"
      unfolding scroll_copy_apply [OF ok] k_def by simp
    then show ?thesis unfolding a by (simp add: algebra_simps)
  qed
  then show ?thesis
    unfolding pixel_at_def read32_def by (intro load_shift)
qed

lemma scroll_copy_outside:
  assumes "screen_ok (con_font con) (con_fb con)" and "a \<notin> fb_span (con_fb con)"
  shows "scroll_copy con m a = m a"
proof -
  have "\<not> unat (a - double_fb_addr (con_fb con)) < 4 * pixel_count (con_fb con) - n" for n
    using assms(2) by (simp add: fb_span_def span_iff)
  then show ?thesis unfolding scroll_copy_apply [OF assms(1)] by (rule if_not_P)
qed


lemma screen_buffers:
  assumes "screen_ok font fb"
  shows "front_span fb \<inter> fb_span fb = {}" "unat (b_size fb) = 4 * pixel_count fb" "fb_ok fb"
  using assms by (simp_all add: screen_ok_def)

lemma draw_pixel:
  assumes "screen_ok font fb" and "n < pixel_count fb"
  shows "pixel_at fb n (draw fb m) = pixel_at fb n m"
  unfolding pixel_at_def read32_def
proof (rule load_cong)
  fix i :: nat assume "i < 4"
  then have "4 * n + i < 2 ^ 64" "4 * n + i < 4 * pixel_count fb + 4"
    using assms(2) screen_sizes(4) [OF assms(1)] by auto
  then have "double_fb_addr fb + of_nat (4 * n + i) \<in> fb_span fb"
    unfolding fb_span_def span_iff by (simp only: add_diff_cancel_left' unat_of_nat_u64)
  from draw_kept(2) [OF screen_buffers(1,2) [OF assms(1)] this]
  show "draw fb m (double_fb_addr fb + of_nat (4 * n) + of_nat i) = m (double_fb_addr fb + of_nat (4 * n) + of_nat i)"
    by (simp add: add.assoc)
qed

lemma scroll_down_memory:
  assumes "con_ok con"
  defines "k \<equiv> unat (glyph_height (con_font con)) * unat (px_per_scan (con_fb con))"
  shows "\<And>n. n < 36 * k \<Longrightarrow> pixel_at (con_fb con) n (snd (scroll_down con m)) = pixel_at (con_fb con) (n + k) m"
    and "\<And>x y. x < unat (width (con_fb con)) \<Longrightarrow> y < unat (glyph_height (con_font con)) \<Longrightarrow>
      pixel_at (con_fb con) (pixel_no (con_fb con) x (36 * unat (glyph_height (con_font con)) + y))
        (snd (scroll_down con m)) = 0"
    and "shown (con_fb con) (snd (scroll_down con m))"
    and "kept_outside (con_fb con) m (snd (scroll_down con m))"
proof -
  let ?fb = "con_fb con" and ?gh = "unat (glyph_height (con_font con))"
  let ?c = "clear_line_pixels con 36 (scroll_copy con m)"
  have ok: "screen_ok (con_font con) ?fb" using assms(1) by (simp add: con_ok_def)
  have "c_max_row (con_cursor con) = 37" using assms(1) by (simp add: con_ok_def cursor_ok_def)
  then have m': "snd (scroll_down con m) = draw ?fb ?c" by (simp add: scroll_down_eq)
  have "unat (36 :: u16) < 37" by simp
  note C = clear_line_cleared [OF ok this, of "scroll_copy con m", unfolded cleared_def]
  have gh37: "37 * ?gh \<le> unat (height ?fb)" using ok by (simp add: screen_ok_def)
  have "(37 * ?gh) * unat (px_per_scan ?fb) \<le> pixel_count ?fb"
    unfolding pixel_count_def using gh37 by (rule mult_le_mono1)
  then have k37: "36 * k + k \<le> pixel_count ?fb" by (simp add: k_def ac_simps)
  show "pixel_at ?fb n (snd (scroll_down con m)) = pixel_at ?fb (n + k) m" if n: "n < 36 * k" for n
  proof -
    have lt: "n + k < pixel_count ?fb" using n k37 by linarith
    then have "pixel_at ?fb n (draw ?fb ?c) = pixel_at ?fb n ?c" by (intro draw_pixel [OF ok]) simp
    also have "\<dots> = pixel_at ?fb n (scroll_copy con m)" using C n by (simp add: k_def)
    also have "\<dots> = pixel_at ?fb (n + k) m" using lt unfolding k_def by (rule scroll_copy_pixel [OF ok])
    finally show ?thesis by (simp add: m')
  qed
  show "pixel_at ?fb (pixel_no ?fb x (36 * ?gh + y)) (snd (scroll_down con m)) = 0"
    if "x < unat (width ?fb)" "y < ?gh" for x y
  proof -
    have "36 * ?gh + y < unat (height ?fb)" using gh37 that(2) by linarith
    then have lt: "pixel_no ?fb x (36 * ?gh + y) < pixel_count ?fb"
      using pixel_no_less [OF screen_buffers(3) [OF ok] that(1)] by blast
    then have "pixel_no ?fb x (36 * ?gh + y) < 2 ^ 61"
      using pixel_no_61 [OF screen_buffers(3) [OF ok]] by simp
    then have "pixel_at ?fb (pixel_no ?fb x (36 * ?gh + y)) ?c = 0" using C that by auto
    then show ?thesis using draw_pixel [OF ok lt, of ?c] by (simp add: m')
  qed
  show "shown ?fb (snd (scroll_down con m))"
    unfolding m' by (rule draw_shown [OF screen_buffers(1,2) [OF ok]])
  have "kept_outside ?fb m ?c"
    using C scroll_copy_outside [OF ok] by (simp add: kept_outside_def)
  then show "kept_outside ?fb m (snd (scroll_down con m))"
    unfolding m' using draw_kept(1) [OF screen_buffers(1,2) [OF ok]] by (rule kept_outside_trans)
qed

section \<open>Printing\<close>

subsection \<open>The position in the text\<close>

text \<open>The reference: how a character moves the position in the text, with a line taken off when the
  screen is full.\<close>

definition text_pos :: "u8 \<Rightarrow> nat \<Rightarrow> nat" where
  "text_pos chr p =
     (let p1 = if 3700 \<le> p then p - 100 else p
      in if printable chr then p1 + 1
         else if chr = 10 then (p1 div 100 + 1) * 100
         else if chr = 9 then p1 + 3
         else if chr = 13 then p1 div 100 * 100
         else if chr = 8 then p1 - 1 else p1)"

text \<open>The conditions every operation keeps.\<close>

definition con_keeps :: "Console \<times> mem \<Rightarrow> Console \<times> mem \<Rightarrow> bool" where
  "con_keeps s s' \<longleftrightarrow> con_font (fst s') = con_font (fst s) \<and> con_fb (fst s') = con_fb (fst s) \<and>
     kept_outside (con_fb (fst s)) (snd s) (snd s')"

abbreviation pos_of :: "Console \<times> mem \<Rightarrow> nat" where
  "pos_of s \<equiv> cursor_pos (con_cursor (fst s))"

lemma con_keeps_refl [simp]: "con_keeps s s"
  by (simp add: con_keeps_def)

lemma con_keeps_trans: "con_keeps s s1 \<Longrightarrow> con_keeps s1 s2 \<Longrightarrow> con_keeps s s2"
  by (auto simp: con_keeps_def intro: kept_outside_trans)

lemma move_cursor_simps [simp]:
  "con_cursor (fst (move_cursor f s)) = f (con_cursor (fst s))"
  "con_font (fst (move_cursor f s)) = con_font (fst s)" "con_fb (fst (move_cursor f s)) = con_fb (fst s)"
  "snd (move_cursor f s) = snd s" "con_keeps t (move_cursor f s) = con_keeps t s"
  by (simp_all add: move_cursor_def con_keeps_def split_beta)

lemma con_ok_keeps:
  "con_ok (fst s) \<Longrightarrow> con_keeps s s' \<Longrightarrow> cursor_ok (con_cursor (fst s')) \<Longrightarrow> con_ok (fst s')"
  by (simp add: con_ok_def con_keeps_def)

lemma scroll_if_full_spec:
  assumes "con_ok (fst s)"
  shows "cursor_ok (con_cursor (fst (scroll_if_full s)))" "pos_of (scroll_if_full s) < 3700"
    "pos_of (scroll_if_full s) = (if 3700 \<le> pos_of s then pos_of s - 100 else pos_of s)"
    "con_keeps s (scroll_if_full s)"
proof -
  obtain con m where s: "s = (con, m)" by (cases s)
  let ?c = "con_cursor con"
  have ok: "cursor_ok ?c" "con_ok con" using assms s by (simp_all add: con_ok_def)
  have full: "c_max_row ?c = c_row ?c \<longleftrightarrow> unat (c_row ?c) = 37"
    using ok(1) word_unat_eq_iff [of "37 :: u16" "c_row ?c"] by (auto simp: cursor_ok_def)
  have pos: "3700 \<le> cursor_pos ?c \<longleftrightarrow> unat (c_row ?c) = 37"
    using ok(1) by (auto simp: cursor_pos_def cursor_ok_iff)
  have keeps: "con_keeps s (scroll_down con m)"
    using scroll_down_memory(4) [OF ok(2), of m] by (simp add: con_keeps_def s)
  have row: "unat (c_row ?c - 1) = 36" if "unat (c_row ?c) = 37"
    using that unat_dec_u16 [of "c_row ?c"] by simp
  show "cursor_ok (con_cursor (fst (scroll_if_full s)))" "pos_of (scroll_if_full s) < 3700"
    "pos_of (scroll_if_full s) = (if 3700 \<le> pos_of s then pos_of s - 100 else pos_of s)"
    "con_keeps s (scroll_if_full s)"
    using ok(1) full pos row keeps
    by (auto simp: s scroll_if_full_def scroll_down_eq cursor_gotoxy_def cursor_ok_iff cursor_pos_def)
qed


lemma char_glyph_fits:
  assumes "con_ok con" and "cursor_pos (con_cursor con) < 3700"
  fixes chr m
  defines "g \<equiv> char_glyph con chr m"
  shows "unat (g_x_off g) + unat (g_width g) \<le> unat (width (con_fb con))"
    "unat (g_y_off g) + unat (g_height g) \<le> unat (height (con_fb con))"
    "unat (g_x_off g) = unat (c_col (con_cursor con)) * unat (glyph_width (con_font con))"
    "unat (g_y_off g) = unat (c_row (con_cursor con)) * unat (glyph_height (con_font con))"
proof -
  let ?c = "con_cursor con" and ?gw = "unat (glyph_width (con_font con))"
    and ?gh = "unat (glyph_height (con_font con))"
  have c: "unat (c_col ?c) + 1 \<le> 100" "unat (c_row ?c) + 1 \<le> 37"
    using assms(1,2) cursor_row_less [of ?c] by (simp_all add: con_ok_def cursor_ok_iff)
  have lim: "100 * ?gw \<le> unat (width (con_fb con))" "37 * ?gh \<le> unat (height (con_fb con))"
    using assms(1) by (simp_all add: con_ok_def screen_ok_def)
  have le: "(unat (c_col ?c) + 1) * ?gw \<le> unat (width (con_fb con))"
    "(unat (c_row ?c) + 1) * ?gh \<le> unat (height (con_fb con))"
    using mult_le_mono1 [OF c(1), of ?gw] mult_le_mono1 [OF c(2), of ?gh] lim by linarith+
  have prod: "unat (a * ucast b :: u16) = unat a * unat b" if "unat a * unat b < 65536" for a :: u16 and b :: u8
    using that unat_mult_lem [of a "ucast b :: u16"] by (simp add: unat_ucast_up)
  have small: "unat (c_col ?c) * ?gw < 65536" "unat (c_row ?c) * ?gh < 65536"
    using le unat_u16_bound [of "width (con_fb con)"] unat_u16_bound [of "height (con_fb con)"] by simp_all
  show x: "unat (g_x_off g) = unat (c_col ?c) * ?gw" and y: "unat (g_y_off g) = unat (c_row ?c) * ?gh"
    using prod small by (simp_all add: g_def char_glyph_def)
  show "unat (g_x_off g) + unat (g_width g) \<le> unat (width (con_fb con))"
    "unat (g_y_off g) + unat (g_height g) \<le> unat (height (con_fb con))"
    using le unfolding x y by (simp_all add: g_def char_glyph_def)
qed

lemma print_printable_spec:
  assumes "con_ok (fst s)" and "pos_of s < 3700"
  shows "cursor_ok (con_cursor (fst (print_printable chr s)))"
    "pos_of (print_printable chr s) = pos_of s + 1" "con_keeps s (print_printable chr s)"
proof -
  obtain con m where s: "s = (con, m)" by (cases s)
  have ok: "con_ok con" "cursor_pos (con_cursor con) < 3700" "fb_ok (con_fb con)" "cursor_ok (con_cursor con)"
    using assms s by (simp_all add: con_ok_def screen_ok_def)
  note N = cursor_next_spec [OF ok(4)]
  show "cursor_ok (con_cursor (fst (print_printable chr s)))" "pos_of (print_printable chr s) = pos_of s + 1"
    using N ok(2) by (simp_all add: s print_printable_def)
  show "con_keeps s (print_printable chr s)"
    using print_glyph_outside [OF ok(3) char_glyph_fits(1,2) [OF ok(1,2)]]
    by (simp add: s print_printable_def con_keeps_def kept_outside_def)
qed

lemma print_char_plain:
  "chr \<noteq> 8 \<Longrightarrow> print_char chr s =
     (let s1 = scroll_if_full s
      in if printable chr then print_printable chr s1
         else if chr = 10 then move_cursor cursor_cr (move_cursor cursor_lf s1)
         else if chr = 9 then
           move_cursor cursor_next (move_cursor cursor_next (move_cursor cursor_next s1))
         else if chr = 13 then move_cursor cursor_cr s1 else s1)"
  by (subst print_char.simps) (simp add: Let_def)

lemma cursor_cr_spec:
  "cursor_ok c \<Longrightarrow> cursor_ok (cursor_cr c) \<and> cursor_pos (cursor_cr c) = cursor_pos c div 100 * 100"
  by (simp add: cursor_cr_def cursor_ok_iff cursor_pos_def)

lemma cursor_newline_spec:
  assumes "cursor_ok c" and "cursor_pos c < 3700"
  shows "cursor_ok (cursor_cr (cursor_lf c)) \<and>
    cursor_pos (cursor_cr (cursor_lf c)) = (cursor_pos c div 100 + 1) * 100"
proof -
  have row: "unat (c_row c) < 37" using assms(2) by (rule cursor_row_less)
  then have "unat (c_row c + 1) = unat (c_row c) + 1" by (intro unat_inc_u16) simp
  then show ?thesis using assms(1) row by (simp add: cursor_cr_def cursor_lf_def cursor_ok_iff cursor_pos_def)
qed

lemma cursor_tab_spec:
  assumes "cursor_ok c" and "cursor_pos c < 3700"
  shows "cursor_ok (cursor_next (cursor_next (cursor_next c))) \<and>
    cursor_pos (cursor_next (cursor_next (cursor_next c))) = cursor_pos c + 3"
proof -
  note 1 = cursor_next_spec [OF assms(1)]
  note 2 = cursor_next_spec [OF 1(1)]
  note 3 = cursor_next_spec [OF 2(1)]
  show ?thesis using 1 2 3 assms(2) by simp
qed

lemma print_char_space:
  assumes "con_ok (fst s)" and "pos_of s < 3700"
  shows "cursor_ok (con_cursor (fst (print_char 32 s)))"
    "pos_of (print_char 32 s) = pos_of s + 1" "con_keeps s (print_char 32 s)"
proof -
  note S = scroll_if_full_spec [OF assms(1)]
  have "printable 32" by (simp add: printable_def ASCII_PRINTABLE_MIN_def ASCII_PRINTABLE_MAX_def)
  then have eq: "print_char 32 s = print_printable 32 (scroll_if_full s)" by (simp add: print_char_plain Let_def)
  note P = print_printable_spec [OF con_ok_keeps [OF assms(1) S(4,1)] S(2), of 32]
  show "cursor_ok (con_cursor (fst (print_char 32 s)))" "pos_of (print_char 32 s) = pos_of s + 1"
    using P S(3) assms(2) by (simp_all add: eq)
  show "con_keeps s (print_char 32 s)" unfolding eq using S(4) P(3) by (rule con_keeps_trans)
qed

lemma print_char_backspace:
  assumes "con_ok (fst s)" and "0 < pos_of s"
  shows "cursor_ok (con_cursor (fst (print_char 8 s)))"
    "pos_of (print_char 8 s) = text_pos 8 (pos_of s)" "con_keeps s (print_char 8 s)"
proof -
  note S = scroll_if_full_spec [OF assms(1)]
  let ?s1 = "scroll_if_full s" let ?s2 = "move_cursor cursor_back ?s1" let ?s3 = "print_char 32 ?s2"
  have np: "\<not> printable 8" by (simp add: printable_def ASCII_PRINTABLE_MIN_def)
  have eq: "print_char 8 s = move_cursor cursor_back ?s3"
    by (subst print_char.simps) (simp add: np Let_def)
  have pos: "0 < pos_of ?s1" using S(3) assms(2) by auto
  note B = cursor_back_spec [OF S(1) pos]
  have k2: "con_keeps s ?s2" using S(4) by simp
  have "con_ok (fst ?s2)" using B(1) by (intro con_ok_keeps [OF assms(1) k2]) simp
  moreover have p2: "pos_of ?s2 < 3700" using B(2) S(2) by simp
  ultimately have 3: "cursor_ok (con_cursor (fst ?s3))" "pos_of ?s3 = pos_of ?s2 + 1" "con_keeps ?s2 ?s3"
    by (rule print_char_space)+
  have "0 < pos_of ?s3" using 3(2) by simp
  note B3 = cursor_back_spec [OF 3(1) this]
  show "cursor_ok (con_cursor (fst (print_char 8 s)))" using B3(1) by (simp add: eq)
  show "pos_of (print_char 8 s) = text_pos 8 (pos_of s)"
    using B(2) B3(2) 3(2) S(3) np by (simp add: eq text_pos_def Let_def)
  show "con_keeps s (print_char 8 s)"
    unfolding eq using con_keeps_trans [OF k2 3(3)] by simp
qed

lemma print_char_refines:
  assumes "con_ok (fst s)" and "chr = 8 \<Longrightarrow> 0 < pos_of s"
  shows "con_ok (fst (print_char chr s))" "pos_of (print_char chr s) = text_pos chr (pos_of s)"
    "con_keeps s (print_char chr s)"
proof -
  note S = scroll_if_full_spec [OF assms(1)]
  let ?s1 = "scroll_if_full s"
  note P = print_printable_spec [OF con_ok_keeps [OF assms(1) S(4,1)] S(2), of chr]
  note N = cursor_newline_spec [OF S(1,2)] and T = cursor_tab_spec [OF S(1,2)] and C = cursor_cr_spec [OF S(1)]
  have *: "cursor_ok (con_cursor (fst (print_char chr s))) \<and>
    pos_of (print_char chr s) = text_pos chr (pos_of s) \<and> con_keeps s (print_char chr s)"
  proof (cases "chr = 8")
    case True
    then show ?thesis using print_char_backspace [OF assms(1)] assms(2) by simp
  next
    case False
    show ?thesis
      unfolding print_char_plain [OF False] text_pos_def Let_def S(3) [symmetric]
      using False P N T C S(1,4) con_keeps_trans [OF S(4) P(3)]
      by (cases "printable chr"; cases "chr = 10"; cases "chr = 9"; cases "chr = 13") simp_all
  qed
  then show "pos_of (print_char chr s) = text_pos chr (pos_of s)" "con_keeps s (print_char chr s)" by blast+
  show "con_ok (fst (print_char chr s))" using * by (intro con_ok_keeps [OF assms(1)]) simp_all
qed


subsection \<open>Strings\<close>

text \<open>A text that never erases at the origin.\<close>

fun text_ok :: "nat \<Rightarrow> u8 list \<Rightarrow> bool" where
  "text_ok p [] = True"
| "text_ok p (c # cs) = ((c = 8 \<longrightarrow> 0 < p) \<and> text_ok (text_pos c p) cs)"

lemma cstr_ConsD:
  assumes "cstr m p (x # xs)"
  shows "m p = x" "x \<noteq> 0" "cstr m (p + 1) xs"
proof -
  have c: "length (x # xs) < 2 ^ 64" "0 \<notin> set (x # xs)"
    "\<And>i. i < length (x # xs) \<Longrightarrow> m (p + of_nat i) = (x # xs) ! i" "m (p + of_nat (length (x # xs))) = 0"
    using assms unfolding cstr_iff by blast+
  show "m p = x" "x \<noteq> 0" using c(2) c(3) [of 0] by auto
  have "m (p + 1 + of_nat i) = xs ! i" if "i < length xs" for i
    using c(3) [of "Suc i"] that by (simp add: add.assoc)
  then show "cstr m (p + 1) xs"
    unfolding cstr_iff using c(1,2,4) by (simp add: add.assoc)
qed

lemma span_tail: "Suc n < 2 ^ 64 \<Longrightarrow> span (p + 1) n \<subseteq> span p (Suc n)"
  using span_add_subset [of 1 n "Suc n" p] by simp

lemma cstr_cong:
  assumes "cstr m p xs" and "length xs < 2 ^ 64 - 1" and "\<And>a. a \<in> span p (Suc (length xs)) \<Longrightarrow> m' a = m a"
  shows "cstr m' p xs"
proof -
  have "m' (p + of_nat i) = m (p + of_nat i)" if "i \<le> length xs" for i
    using assms(2,3) that by (simp add: span_iff)
  then show ?thesis using assms(1) unfolding cstr_iff by auto
qed

lemma print_loop_spec:
  assumes "con_ok (fst s)" and "text_ok (pos_of s) xs" and "cstr (snd s) p xs" and "length xs < 2 ^ 64 - 1"
    and "span p (Suc (length xs)) \<inter> (fb_span (con_fb (fst s)) \<union> front_span (con_fb (fst s))) = {}"
  shows "\<exists>s'. print_loop p s = Some s' \<and> con_ok (fst s') \<and> pos_of s' = fold text_pos xs (pos_of s) \<and>
    con_keeps s s'"
  using assms
proof (induction xs arbitrary: p s)
  case Nil
  then have "snd s p = 0" by (simp add: cstr_iff)
  then show ?case using Nil.prems(1) by (subst print_loop.simps) simp
next
  case (Cons x xs)
  note C = cstr_ConsD [OF Cons.prems(3)]
  have "x = 8 \<Longrightarrow> 0 < pos_of s" using Cons.prems(2) by simp
  note R = print_char_refines [OF Cons.prems(1) this]
  let ?s1 = "print_char x s" and ?B = "fb_span (con_fb (fst s)) \<union> front_span (con_fb (fst s))"
  have sub: "span (p + 1) (Suc (length xs)) \<subseteq> span p (Suc (length (x # xs)))"
    using span_tail [of "Suc (length xs)" p] Cons.prems(4) by simp
  have fb: "con_fb (fst ?s1) = con_fb (fst s)" and kept: "kept_outside (con_fb (fst s)) (snd s) (snd ?s1)"
    using R(3) by (simp_all add: con_keeps_def)
  have disj: "span (p + 1) (Suc (length xs)) \<inter> ?B = {}" using sub Cons.prems(5) by blast
  have "cstr (snd ?s1) (p + 1) xs"
  proof (rule cstr_cong [OF C(3)])
    fix a assume "a \<in> span (p + 1) (Suc (length xs))"
    then have "a \<notin> ?B" using disj by blast
    then show "snd ?s1 a = snd s a" using kept by (simp add: kept_outside_def)
  qed (use Cons.prems(4) in simp)
  moreover have "text_ok (pos_of ?s1) xs" using Cons.prems(2) R(2) by simp
  ultimately have "\<exists>s'. print_loop (p + 1) ?s1 = Some s' \<and> con_ok (fst s') \<and>
      pos_of s' = fold text_pos xs (pos_of ?s1) \<and> con_keeps ?s1 s'"
    using Cons.prems(4) disj fb R(1) by (intro Cons.IH) simp_all
  then obtain s' where s': "print_loop (p + 1) ?s1 = Some s'" "con_ok (fst s')"
      "pos_of s' = fold text_pos xs (pos_of ?s1)" "con_keeps ?s1 s'" by blast
  have "print_loop p s = Some s'" using C s'(1) by (subst print_loop.simps) simp
  then show ?case using s' R(2) con_keeps_trans [OF R(3) s'(4)] by auto
qed

section \<open>Properties\<close>

definition font_example :: ConsoleFont where
  "font_example = \<lparr>psf_header = 0x3000, glyph_height = 1, glyph_width = 1, glyph_buffer = 0x4000\<rparr>"

definition screen_example :: Framebuffer where
  "screen_example = \<lparr>fb_addr = 0x100000, double_fb_addr = 0x200000, b_size = 14800, width = 100,
     height = 37, px_per_scan = 100, b_per_px = 4\<rparr>"

definition con_example :: Console where
  "con_example = Console_init font_example screen_example"

lemma example_spans:
  "fb_span screen_example = span 0x200000 14804" "front_span screen_example = span 0x100000 14800"
  by (simp_all add: fb_span_def front_span_def pixel_count_def screen_example_def)

lemma con_example_ok: "con_ok con_example"
proof -
  have "apart (0x100000 :: u64) 14800 0x200000 14804" by (simp add: apart_def)
  then have "front_span screen_example \<inter> fb_span screen_example = {}"
    unfolding example_spans by (rule span_disjoint)
  then have "screen_ok font_example screen_example"
    by (simp add: screen_ok_def fb_ok_def pixel_count_def screen_example_def font_example_def)
  then show ?thesis
    by (simp add: con_ok_def con_example_def Console_init_def ConsoleCursor_init_def cursor_reset_def
        cursor_ok_def Default_max_col_def Default_max_row_def)
qed

lemma con_example_simps [simp]:
  "con_fb con_example = screen_example" "con_font con_example = font_example"
  "cursor_pos (con_cursor con_example) = 0"
  by (simp_all add: con_example_def Console_init_def ConsoleCursor_init_def cursor_reset_def cursor_pos_def)

text \<open>
  C19: \<^verbatim>\<open>_print_char\<close> of \<^verbatim>\<open>console/console.cpp\<close> refines a counter: on a console whose cursor is on the
  grid, every character but a backspace at the origin leaves the cursor on the grid, moves the
  position in the text the way \<open>text_pos\<close> says (one on for a printable character, to the next line
  for a line feed, three on for a tab, to the start of the line for a carriage return, one back for
  a backspace, after taking one line off when the screen is full), and writes nothing outside the
  two buffers of the framebuffer.\<close>

theorem print_char_moves_cursor:
  assumes "con_ok con" and "chr = 8 \<Longrightarrow> 0 < cursor_pos (con_cursor con)"
    and "print_char chr (con, m) = (con', m')"
  shows "con_ok con' \<and> cursor_pos (con_cursor con') = text_pos chr (cursor_pos (con_cursor con)) \<and>
    kept_outside (con_fb con) m m'"
  using print_char_refines [of "(con, m)" chr] assms by (simp add: con_keeps_def)

theorem print_char_moves_cursor_witness:
  "con_ok (fst (print_char 10 (con_example, \<lambda>_. 0))) \<and>
   cursor_pos (con_cursor (fst (print_char 10 (con_example, \<lambda>_. 0)))) = 100"
  using print_char_moves_cursor [OF con_example_ok, of 10 "\<lambda>_. 0"
      "fst (print_char 10 (con_example, \<lambda>_. 0))" "snd (print_char 10 (con_example, \<lambda>_. 0))"]
  by (simp add: text_pos_def printable_def ASCII_PRINTABLE_MIN_def)

text \<open>
  C10: \<^verbatim>\<open>print(char *str)\<close> ends on every null-terminated string that lies outside the two buffers of the
  framebuffer and does not erase at the origin; it moves the cursor by the characters of the string,
  changes nothing but the two buffers, and afterwards the screen shows the back buffer.\<close>

theorem print_str_result:
  assumes "con_ok con" and "text_ok (cursor_pos (con_cursor con)) xs" and "cstr m p xs"
    and "length xs < 2 ^ 64 - 1"
    and "span p (Suc (length xs)) \<inter> (fb_span (con_fb con) \<union> front_span (con_fb con)) = {}"
  shows "\<exists>con' m'. print_str p (con, m) = Some (con', m') \<and> con_ok con' \<and>
    cursor_pos (con_cursor con') = fold text_pos xs (cursor_pos (con_cursor con)) \<and>
    kept_outside (con_fb con) m m' \<and> shown (con_fb con) m'"
proof -
  obtain con' m1 where r: "print_loop p (con, m) = Some (con', m1)" "con_ok con'"
      "cursor_pos (con_cursor con') = fold text_pos xs (cursor_pos (con_cursor con))"
      "con_keeps (con, m) (con', m1)"
    using print_loop_spec [of "(con, m)" xs p] assms by auto
  have fb: "con_fb con' = con_fb con" "kept_outside (con_fb con) m m1"
    using r(4) by (simp_all add: con_keeps_def)
  have ok: "screen_ok (con_font con) (con_fb con)" using assms(1) by (simp add: con_ok_def)
  have "kept_outside (con_fb con) m (draw (con_fb con) m1)"
    using fb(2) draw_kept(1) [OF screen_buffers(1,2) [OF ok]] by (rule kept_outside_trans)
  moreover have "shown (con_fb con) (draw (con_fb con) m1)"
    by (rule draw_shown [OF screen_buffers(1,2) [OF ok]])
  ultimately show ?thesis using r fb by (simp add: print_str_def)
qed

theorem print_str_result_witness:
  "\<exists>con' m'. print_str 0x1000 (con_example, (\<lambda>_. 0)(0x1000 := 65)) = Some (con', m') \<and>
    cursor_pos (con_cursor con') = 1 \<and> shown screen_example m'"
proof -
  have "cstr ((\<lambda>_. 0)(0x1000 := 65)) 0x1000 [65]" by (simp add: cstr_iff)
  moreover have "span 0x1000 (Suc (Suc 0)) \<inter> (span 0x200000 14804 \<union> span 0x100000 14800) = {}"
    using span_disjoint [of "0x1000" "Suc (Suc 0)" "0x200000" 14804]
      span_disjoint [of "0x1000" "Suc (Suc 0)" "0x100000" 14800]
    by (simp add: apart_def Int_Un_distrib)
  moreover have "text_pos 65 0 = 1"
    by (simp add: text_pos_def printable_def ASCII_PRINTABLE_MIN_def ASCII_PRINTABLE_MAX_def)
  ultimately show ?thesis
    using print_str_result [OF con_example_ok, of "[65]" "(\<lambda>_. 0)(0x1000 := 65)" "0x1000"]
    by (auto simp: example_spans)
qed


lemma scroll_down_lines:
  assumes "con_ok con" and "scroll_down con m = (con', m')"
  defines "gh \<equiv> unat (glyph_height (con_font con))"
  shows "x < unat (px_per_scan (con_fb con)) \<Longrightarrow> y < 36 * gh \<Longrightarrow>
      pixel_at (con_fb con) (pixel_no (con_fb con) x y) m' =
      pixel_at (con_fb con) (pixel_no (con_fb con) x (y + gh)) m"
    and "x < unat (width (con_fb con)) \<Longrightarrow> j < gh \<Longrightarrow>
      pixel_at (con_fb con) (pixel_no (con_fb con) x (36 * gh + j)) m' = 0"
    and "shown (con_fb con) m'" and "kept_outside (con_fb con) m m'"
    and "c_row (con_cursor con') = c_row (con_cursor con) - 1"
proof -
  have m': "m' = snd (scroll_down con m)" and con': "con' = fst (scroll_down con m)" using assms(2) by simp_all
  let ?w = "unat (px_per_scan (con_fb con))"
  show "pixel_at (con_fb con) (pixel_no (con_fb con) x y) m' =
      pixel_at (con_fb con) (pixel_no (con_fb con) x (y + gh)) m"
    if "x < ?w" and y: "y < 36 * gh"
  proof -
    have "Suc y * ?w \<le> 36 * gh * ?w" using y by (intro mult_le_mono1) simp
    then have "pixel_no (con_fb con) x y < 36 * (gh * ?w)"
      using that(1) by (simp add: pixel_no_def ac_simps)
    from scroll_down_memory(1) [OF assms(1) this [unfolded gh_def], of m] show ?thesis
      by (simp add: m' pixel_no_def gh_def algebra_simps)
  qed
  show "pixel_at (con_fb con) (pixel_no (con_fb con) x (36 * gh + j)) m' = 0"
    if "x < unat (width (con_fb con))" "j < gh"
    using scroll_down_memory(2) [OF assms(1) that(1), of j m] that(2) by (simp add: m' gh_def)
  show "shown (con_fb con) m'" "kept_outside (con_fb con) m m'"
    unfolding m' using assms(1) by (rule scroll_down_memory(3), rule scroll_down_memory(4))
  show "c_row (con_cursor con') = c_row (con_cursor con) - 1"
    by (simp add: con' scroll_down_eq cursor_gotoxy_def)
qed

text \<open>
  C20: \<^verbatim>\<open>_scroll_down\<close> of \<^verbatim>\<open>console/console.cpp\<close> moves every pixel row of the lines 1 to 36 up by one
  line of text, clears line 36, shows the result on the screen and leaves everything outside the
  two buffers alone; the cursor goes up one row.\<close>

theorem scroll_down_moves_lines:
  assumes "con_ok con" and "scroll_down con m = (con', m')"
  shows "(\<forall>x < unat (px_per_scan (con_fb con)). \<forall>y < 36 * unat (glyph_height (con_font con)).
      pixel_at (con_fb con) (pixel_no (con_fb con) x y) m' =
      pixel_at (con_fb con) (pixel_no (con_fb con) x (y + unat (glyph_height (con_font con)))) m) \<and>
    (\<forall>x < unat (width (con_fb con)). \<forall>j < unat (glyph_height (con_font con)).
      pixel_at (con_fb con) (pixel_no (con_fb con) x (36 * unat (glyph_height (con_font con)) + j)) m' = 0) \<and>
    shown (con_fb con) m' \<and> kept_outside (con_fb con) m m' \<and>
    c_row (con_cursor con') = c_row (con_cursor con) - 1"
  using scroll_down_lines [OF assms] by blast

theorem scroll_down_moves_lines_witness:
  "pixel_at screen_example (pixel_no screen_example 0 0) (snd (scroll_down con_example (\<lambda>_. 7))) = 0x07070707
   \<and> pixel_at screen_example (pixel_no screen_example 0 36) (snd (scroll_down con_example (\<lambda>_. 7))) = 0"
proof -
  have *: "scroll_down con_example (\<lambda>_. 7) = (fst (scroll_down con_example (\<lambda>_. 7)), snd (scroll_down con_example (\<lambda>_. 7)))"
    by simp
  have d: "glyph_height font_example = 1" "px_per_scan screen_example = 100" "width screen_example = 100"
    by (simp_all add: font_example_def screen_example_def)
  have "read32 (\<lambda>_. 7) a = 0x07070707" for a
    by (simp add: read32_def load_steps)
  then show ?thesis
    using scroll_down_moves_lines [OF con_example_ok *] d by (simp add: pixel_at_def)
qed

text \<open>
  A backspace at the origin takes the cursor off the screen: \<^verbatim>\<open>back\<close> decrements row 0, and the
  cursor ends in column 99 of row 65535.\<close>

theorem backspace_at_origin:
  assumes "cursor_ok (con_cursor con)" and "c_row (con_cursor con) = 0" and "c_col (con_cursor con) = 0"
    and "print_char 8 (con, m) = (con', m')"
  shows "c_row (con_cursor con') = 65535 \<and> c_col (con_cursor con') = 99 \<and> \<not> cursor_ok (con_cursor con')"
proof -
  have max: "c_max_col (con_cursor con) = 100" "c_max_row (con_cursor con) = 37"
    using assms(1) by (simp_all add: cursor_ok_def)
  have p: "\<not> printable 8" "printable 32"
    by (simp_all add: printable_def ASCII_PRINTABLE_MIN_def ASCII_PRINTABLE_MAX_def)
  have "c_row (con_cursor con') = 65535 \<and> c_col (con_cursor con') = 99"
    using assms(2,3) max p arg_cong [OF assms(4), of fst]
    by (auto simp: print_char.simps [of 8] print_char_plain [of 32] Let_def scroll_if_full_def
        move_cursor_def cursor_back_def print_printable_def cursor_next_def)
  then show ?thesis by (simp add: cursor_ok_def)
qed

theorem backspace_at_origin_witness:
  "c_row (con_cursor (fst (print_char 8 (con_example, \<lambda>_. 0)))) = 65535"
proof -
  have "cursor_ok (con_cursor con_example)" "c_row (con_cursor con_example) = 0" "c_col (con_cursor con_example) = 0"
    by (simp_all add: con_example_def Console_init_def ConsoleCursor_init_def cursor_reset_def cursor_ok_def
        Default_max_col_def Default_max_row_def)
  from backspace_at_origin [OF this, of "\<lambda>_. 0" "fst (print_char 8 (con_example, \<lambda>_. 0))"
      "snd (print_char 8 (con_example, \<lambda>_. 0))"] show ?thesis by simp
qed

end
