(* ===== verification/Printf.thy ===== *)
theory Printf
  imports Libc
begin

text \<open>
  Formatted kernel output, \<^verbatim>\<open>__printf\<close> and its callers in \<^verbatim>\<open>kutils/console.cpp\<close>. The
  result buffer of 4096 bytes is the list of the bytes written so far (its length is the
  index \<^verbatim>\<open>j\<close>), the 64-byte scratch buffer is a byte memory of its own, filled by \<open>itoa\<close>
  and measured by \<open>str_len\<close> as in the source. Overrunning the result buffer is the error
  \<open>BufferOverflow\<close>. The text the console receives is appended to an output log.
\<close>

section \<open>The model\<close>

datatype vararg = VStr "u8 list" | VNum u64

definition PRINTF_BUF :: nat where "PRINTF_BUF = 4096"

definition str :: "string \<Rightarrow> u8 list" where
  "str s = map of_char s"

definition buf_append :: "u8 list \<Rightarrow> u8 list \<Rightarrow> u8 list res" where
  "buf_append buf xs =
     (if length buf + length xs \<le> PRINTF_BUF then Inr (buf @ xs) else Inl BufferOverflow)"

text \<open>The body shared by the cases \<^verbatim>\<open>%d\<close> and \<^verbatim>\<open>%p\<close>: convert into the scratch buffer, measure
  it, copy it out.\<close>

definition printf_num :: "u64 \<Rightarrow> u8 \<Rightarrow> mem \<Rightarrow> u8 list \<Rightarrow> (u8 list \<times> mem) res" where
  "printf_num arg base temp_buf buf =
     bind_res (itoa arg temp_buf 0 base) (\<lambda>t.
     bind_res (str_len t 0) (\<lambda>temp_len.
     bind_res (buf_append buf (get_bytes t 0 (unat temp_len))) (\<lambda>buf'.
     Inr (buf', t))))"

fun printf_loop ::
  "u8 list \<Rightarrow> bool \<Rightarrow> vararg list \<Rightarrow> mem \<Rightarrow> u8 list \<Rightarrow> u8 list res" where
  "printf_loop [] is_percent args temp_buf buf =
     (if length buf < PRINTF_BUF then Inr buf else Inl BufferOverflow)"
| "printf_loop (c # cs) is_percent args temp_buf buf =
     (if is_percent then
        if c = of_char CHR ''s'' then
          (case args of
             VStr s # as \<Rightarrow> bind_res (buf_append buf s) (printf_loop cs False as temp_buf)
           | _ \<Rightarrow> Inl BadVarArg)
        else if c = of_char CHR ''d'' then
          (case args of
             VNum n # as \<Rightarrow> bind_res (printf_num n 10 temp_buf buf)
               (\<lambda>(buf', t). printf_loop cs False as t buf')
           | _ \<Rightarrow> Inl BadVarArg)
        else if c = of_char CHR ''p'' then
          (case args of
             VNum n # as \<Rightarrow> bind_res (printf_num n 16 temp_buf buf)
               (\<lambda>(buf', t). printf_loop cs False as t buf')
           | _ \<Rightarrow> Inl BadVarArg)
        else printf_loop cs False args temp_buf buf
      else if c = of_char CHR ''%'' then printf_loop cs True args temp_buf buf
      else bind_res (buf_append buf [c]) (printf_loop cs False args temp_buf))"

text \<open>The loop index is 16 bits wide: a longer format string never ends the loop.\<close>

definition printf :: "u8 list \<Rightarrow> vararg list \<Rightarrow> u8 list res" where
  "printf fmt args =
     (if 2 ^ 16 \<le> length fmt then Inl Diverges
      else printf_loop fmt False args (memset (\<lambda>_. 0) 0 0 64) [])"

definition kprintf :: "u8 list \<Rightarrow> vararg list \<Rightarrow> u8 list \<Rightarrow> u8 list res" where
  "kprintf fmt args out = bind_res (printf fmt args) (\<lambda>t. Inr (out @ t))"

definition kprint_err :: "u8 list \<Rightarrow> u8 list \<Rightarrow> u8 list res" where
  "kprint_err msg = kprintf (str ''[!] Kernel error: %s '' @ [10]) [VStr msg]"

definition kprint_succ :: "u8 list \<Rightarrow> u8 list \<Rightarrow> u8 list res" where
  "kprint_succ msg = kprintf (str ''[+] Kernel success: %s '' @ [10]) [VStr msg]"

definition kprint_info :: "u8 list \<Rightarrow> u8 list \<Rightarrow> u8 list res" where
  "kprint_info msg = kprintf (str ''[*] Kernel info: %s '' @ [10]) [VStr msg]"

text \<open>The text \<^verbatim>\<open>kpanic(msg)\<close> sends to the console; it returns to its caller.\<close>

definition prepare_kpanic_text :: "u8 list \<Rightarrow> u8 list res" where
  "prepare_kpanic_text = kprintf (str ''===== Kernel panic ===== '' @ [10]) []"

definition kpanic_text :: "u8 list \<Rightarrow> u8 list \<Rightarrow> u8 list res" where
  "kpanic_text msg out = bind_res (prepare_kpanic_text out) (kprintf (str ''Error: %s'') [VStr msg])"

section \<open>What is printed\<close>

definition num_text :: "nat \<Rightarrow> u64 \<Rightarrow> u8 list" where
  "num_text b n = map digit_char (digits b (unat n))"

text \<open>The text a format string stands for; \<open>None\<close> when the arguments do not fit it.\<close>

fun render :: "u8 list \<Rightarrow> bool \<Rightarrow> vararg list \<Rightarrow> u8 list option" where
  "render [] pc args = Some []"
| "render (c # cs) pc args =
     (if pc then
        if c = of_char CHR ''s'' then
          (case args of VStr s # as \<Rightarrow> map_option ((@) s) (render cs False as) | _ \<Rightarrow> None)
        else if c = of_char CHR ''d'' then
          (case args of VNum n # as \<Rightarrow> map_option ((@) (num_text 10 n)) (render cs False as)
           | _ \<Rightarrow> None)
        else if c = of_char CHR ''p'' then
          (case args of VNum n # as \<Rightarrow> map_option ((@) (num_text 16 n)) (render cs False as)
           | _ \<Rightarrow> None)
        else render cs False args
      else if c = of_char CHR ''%'' then render cs True args
      else map_option ((#) c) (render cs False args))"

lemma buf_append_simps [simp]:
  "length buf + length xs \<le> 4096 \<Longrightarrow> buf_append buf xs = Inr (buf @ xs)"
  "4096 < length buf + length xs \<Longrightarrow> buf_append buf xs = Inl BufferOverflow"
  by (simp_all add: buf_append_def PRINTF_BUF_def)

lemma digit_char_nonzero: "d < 36 \<Longrightarrow> digit_char d \<noteq> 0"
  using unat_digit_char [of d] by (auto split: if_splits)

lemma length_num_text: "2 \<le> b \<Longrightarrow> length (num_text b n) \<le> 64"
proof -
  assume "2 \<le> b"
  have "unat n < 2 ^ 64" by (rule u64_bound)
  also have "(2::nat) ^ 64 \<le> b ^ 64" using \<open>2 \<le> b\<close> by (rule power_mono) simp
  finally show ?thesis by (simp add: num_text_def length_digits)
qed

lemma cstr_put_num_text:
  assumes "2 \<le> b" and "b \<le> 36"
  shows "cstr (put_bytes m p (num_text b n @ [0])) p (num_text b n)"
proof -
  have len: "length (num_text b n) \<le> 64" using assms(1) by (rule length_num_text)
  moreover have "0 \<notin> set (num_text b n)"
  proof
    assume "0 \<in> set (num_text b n)"
    then obtain d where "d \<in> set (digits b (unat n))" "digit_char d = 0"
      by (auto simp: num_text_def)
    with digits_bound [OF assms(1)] assms(2) digit_char_nonzero [of d] show False by force
  qed
  ultimately show ?thesis by (simp add: cstr_def)
qed

lemma printf_num_eq:
  assumes "2 \<le> base" and "base \<le> 36"
  shows "\<exists>t'. printf_num n base t buf =
    (if length buf + length (num_text (unat base) n) \<le> 4096
     then Inr (buf @ num_text (unat base) n, t') else Inl BufferOverflow)"
proof -
  have b: "2 \<le> unat base" "unat base \<le> 36" using assms by (simp_all add: word_le_nat_alt)
  let ?cs = "num_text (unat base) n"
  let ?t = "put_bytes t 0 (?cs @ [0])"
  have itoa: "itoa n t 0 base = Inr ?t"
    using itoa_eq [OF assms(1)] by (simp add: num_text_def)
  have len: "length ?cs \<le> 64" using b(1) by (rule length_num_text)
  have sl: "str_len ?t 0 = Inr (of_nat (length ?cs))"
    using cstr_put_num_text [OF b] by (rule str_len_spec)
  have "get_bytes ?t 0 (length ?cs) = ?cs"
    using cstr_put_num_text [OF b, of t 0 n] by (simp add: cstr_def get_bytes_Suc)
  then show ?thesis
    using len by (intro exI [of _ ?t]) (simp add: printf_num_def itoa sl del: put_bytes.simps)
qed

lemma printf_num_then:
  assumes base: "2 \<le> base" "base \<le> 36" and buf: "length buf \<le> 4096"
    and rest: "\<And>t' buf'. length buf' \<le> 4096 \<Longrightarrow> f t' buf' = (if length buf' + length r < 4096 then Inr (buf' @ r) else Inl BufferOverflow)"
  shows "bind_res (printf_num n base t buf) (\<lambda>(buf', t'). f t' buf') =
    (if length buf + length (num_text (unat base) n @ r) < 4096 then Inr (buf @ num_text (unat base) n @ r) else Inl BufferOverflow)"
proof -
  obtain t' where "printf_num n base t buf = (if length buf + length (num_text (unat base) n) \<le> 4096
      then Inr (buf @ num_text (unat base) n, t') else Inl BufferOverflow)"
    using printf_num_eq [OF base] by blast
  then show ?thesis using rest by auto
qed

lemma printf_loop_render:
  "render fmt pc args = Some tx \<Longrightarrow> length buf \<le> 4096 \<Longrightarrow>
     printf_loop fmt pc args t buf =
       (if length buf + length tx < 4096 then Inr (buf @ tx) else Inl BufferOverflow)"
proof (induction fmt arbitrary: pc args t buf tx)
  case Nil
  then show ?case by (simp add: PRINTF_BUF_def)
next
  case (Cons c cs)
  consider (s) "pc" "c = of_char CHR ''s''" | (num) "pc" "c = of_char CHR ''d'' \<or> c = of_char CHR ''p''"
    | (skip) "pc" "c \<noteq> of_char CHR ''s''" "c \<noteq> of_char CHR ''d''" "c \<noteq> of_char CHR ''p''"
    | (pct) "\<not> pc" "c = of_char CHR ''%''" | (plain) "\<not> pc" "c \<noteq> of_char CHR ''%''"
    by blast
  then show ?case
  proof cases
    case s
    with Cons.prems obtain xs as r where "args = VStr xs # as" "render cs False as = Some r" "tx = xs @ r"
      by (auto split: list.splits vararg.splits)
    with s Cons.IH [of False as r "buf @ xs" t] Cons.prems(2) show ?thesis
      by (cases "length buf + length xs \<le> 4096") auto
  next
    case num
    define base :: u8 where "base = (if c = of_char CHR ''d'' then 10 else 16)"
    from num Cons.prems obtain n as r where *: "args = VNum n # as" "render cs False as = Some r" "tx = num_text (unat base) n @ r"
      by (auto simp: base_def split: list.splits vararg.splits)
    have "bind_res (printf_num n base t buf) (\<lambda>(buf', t'). printf_loop cs False as t' buf') =
        (if length buf + length tx < 4096 then Inr (buf @ tx) else Inl BufferOverflow)"
      unfolding *(3) by (rule printf_num_then) (use Cons.IH [OF *(2)] Cons.prems(2) in \<open>simp_all add: base_def\<close>)
    then show ?thesis using num *(1) by (auto simp: base_def)
  next
    case plain
    with Cons.prems obtain r where r: "render cs False args = Some r" "tx = c # r" by auto
    with plain Cons.IH [OF r(1), of "buf @ [c]" t] Cons.prems(2) show ?thesis
      by (cases "length buf + 1 \<le> 4096") auto
  qed (use Cons in simp_all)
qed

section \<open>Properties\<close>

text \<open>
  \<^verbatim>\<open>itoa\<close> of \<^verbatim>\<open>libc/stdlib.cpp\<close> ends for every base from 2 to 36 and leaves in the buffer a
  null-terminated text of at most 64 characters whose value in that base is the number; nothing
  but the text and its null byte is written.\<close>

theorem itoa_roundtrip:
  assumes "2 \<le> base" and "base \<le> 36"
  shows "\<exists>cs m'. itoa num m buf base = Inr m' \<and> cstr m' buf cs \<and> length cs \<le> 64 \<and>
    text_value (unat base) cs = unat num \<and> (\<forall>a. a \<notin> span buf (Suc (length cs)) \<longrightarrow> m' a = m a)"
proof -
  have b: "2 \<le> unat base" "unat base \<le> 36" using assms by (simp_all add: word_le_nat_alt)
  let ?cs = "num_text (unat base) num" let ?m' = "put_bytes m buf (?cs @ [0])"
  have "itoa num m buf base = Inr ?m'" using itoa_eq [OF assms(1)] by (simp add: num_text_def)
  moreover have "cstr ?m' buf ?cs" using b by (rule cstr_put_num_text)
  moreover have len: "length ?cs \<le> 64" using b(1) by (rule length_num_text)
  moreover have "text_value (unat base) ?cs = unat num"
    unfolding num_text_def using b by (rule text_value_digits)
  moreover have "?m' a = m a" if "a \<notin> span buf (Suc (length ?cs))" for a
    using that len by (intro put_bytes_outside) simp_all
  ultimately show ?thesis by blast
qed

theorem itoa_roundtrip_witness:
  "\<exists>cs m'. itoa 255 (\<lambda>_. 0) 0x1000 16 = Inr m' \<and> cstr m' 0x1000 cs \<and> text_value 16 cs = 255"
  using itoa_roundtrip [of 16 255 "\<lambda>_. 0" "0x1000"] by auto

text \<open>
  C38: \<^verbatim>\<open>__printf\<close> of \<^verbatim>\<open>kutils/console.cpp\<close> prints the text its format string stands for (\<^verbatim>\<open>%s\<close> the
  argument's characters, \<^verbatim>\<open>%d\<close> and \<^verbatim>\<open>%p\<close> its digits in base 10 and 16, any other directive nothing),
  whenever the arguments fit the format and the text is shorter than 4096 bytes; a longer text
  overruns the buffer on the stack.\<close>

theorem printf_renders:
  assumes "render fmt False args = Some tx" and "length fmt < 2 ^ 16"
  shows "printf fmt args = (if length tx < 4096 then Inr tx else Inl BufferOverflow)"
  using assms printf_loop_render [OF assms(1), of "[]"] by (simp add: printf_def)

theorem printf_renders_witness:
  "printf (str ''%d.%s'') [VNum 42, VStr (str ''ab'')] = Inr (str ''42.ab'')"
proof -
  have "num_text 10 42 = str ''42''" by code_simp
  then have "render (str ''%d.%s'') False [VNum 42, VStr (str ''ab'')] = Some (str ''42.ab'')"
    by (simp add: str_def)
  from printf_renders [OF this] show ?thesis by (simp add: str_def)
qed

end
