(* ===== verification/Mmap.thy ===== *)
theory Mmap
  imports Printf
begin

text \<open>
  The UEFI memory map, \<^verbatim>\<open>memory/mmap.cpp\<close>: descriptors in memory at a stride given by the
  firmware, the search for the largest free segment and the number of page frames.
\<close>

section \<open>The model\<close>

definition FRAME_SZ :: u64 where "FRAME_SZ = 4096"

record EfiMMapDesc =
  d_type :: u32
  d_pad :: u32
  d_paddr :: u64
  d_vaddr :: u64
  d_pages :: u64
  d_attr :: u64

text \<open>The packed descriptor at an address.\<close>

definition EfiMMapDesc_at :: "mem \<Rightarrow> u64 \<Rightarrow> EfiMMapDesc" where
  "EfiMMapDesc_at m p = \<lparr>d_type = read32 m p, d_pad = read32 m (p + 4),
     d_paddr = read64 m (p + 8), d_vaddr = read64 m (p + 16),
     d_pages = read64 m (p + 24), d_attr = read64 m (p + 32)\<rparr>"

record MemoryData =
  md_mmap :: u64
  md_mmap_sz :: u64
  md_desc_sz :: u64
  md_entries :: u64

datatype EfiMemoryType =
    EFI_RESERVED_MEMORY_TYPE
  | EFI_LOADER_CODE
  | EFI_LOADER_DATA
  | EFI_BOOT_SERVICES_CODE
  | EFI_BOOT_SERVICES_DATA
  | EFI_RUNTIME_SERVICES_CODE
  | EFI_RUNTIME_SERVICES_DATA
  | EFI_CONVENTIONAL_MEMORY
  | EFI_UNUSABLE_MEMORY
  | EFI_ACPI_RECLAIM_MEMORY
  | EFI_ACPI_MEMORY_NVS
  | EFI_MEMORY_MAPPED_IO
  | EFI_MEMORY_MAPPED_IO_PORT_SPACE
  | EFI_PAL_CODE
  | EFI_MAX_MEMORY_TYPE

fun efi_type_code :: "EfiMemoryType \<Rightarrow> u32" where
  "efi_type_code EFI_RESERVED_MEMORY_TYPE = 0"
| "efi_type_code EFI_LOADER_CODE = 1"
| "efi_type_code EFI_LOADER_DATA = 2"
| "efi_type_code EFI_BOOT_SERVICES_CODE = 3"
| "efi_type_code EFI_BOOT_SERVICES_DATA = 4"
| "efi_type_code EFI_RUNTIME_SERVICES_CODE = 5"
| "efi_type_code EFI_RUNTIME_SERVICES_DATA = 6"
| "efi_type_code EFI_CONVENTIONAL_MEMORY = 7"
| "efi_type_code EFI_UNUSABLE_MEMORY = 8"
| "efi_type_code EFI_ACPI_RECLAIM_MEMORY = 9"
| "efi_type_code EFI_ACPI_MEMORY_NVS = 10"
| "efi_type_code EFI_MEMORY_MAPPED_IO = 11"
| "efi_type_code EFI_MEMORY_MAPPED_IO_PORT_SPACE = 12"
| "efi_type_code EFI_PAL_CODE = 13"
| "efi_type_code EFI_MAX_MEMORY_TYPE = 14"

record MemoryMap =
  mm_mmap_sz :: u64
  mm_desc_sz :: u64
  mm_entries :: u64
  mm_mmap :: u64

definition MemoryMap_init :: "MemoryData \<Rightarrow> MemoryMap res" where
  "MemoryMap_init data =
     bind_res (ASSERT ''data.entries > 0'' (md_entries data > 0)) (\<lambda>_.
     Inr \<lparr>mm_mmap_sz = md_mmap_sz data, mm_desc_sz = md_desc_sz data,
          mm_entries = md_entries data, mm_mmap = md_mmap data\<rparr>)"

definition get_desc :: "MemoryMap \<Rightarrow> u64 \<Rightarrow> u64" where
  "get_desc mm idx = mm_mmap mm + idx * mm_desc_sz mm"

definition get_entire_memory_size :: "mem \<Rightarrow> MemoryMap \<Rightarrow> u64" where
  "get_entire_memory_size m mm =
     (let last_desc = EfiMMapDesc_at m (get_desc mm (mm_entries mm - 1))
      in d_paddr last_desc + FRAME_SZ * d_pages last_desc + FRAME_SZ)"

definition get_page_frames_number :: "mem \<Rightarrow> MemoryMap \<Rightarrow> u64" where
  "get_page_frames_number m mm = get_entire_memory_size m mm div FRAME_SZ"

text \<open>The loop runs over \<^verbatim>\<open>kernel.memory->entries\<close>; its state is \<^verbatim>\<open>max_sz\<close> and \<^verbatim>\<open>*mem_seg\<close>.\<close>

definition largest_step :: "EfiMMapDesc \<Rightarrow> u64 \<times> u64 \<Rightarrow> u64 \<times> u64" where
  "largest_step desc = (\<lambda>(max_sz, mem_seg).
     if d_type desc = efi_type_code EFI_CONVENTIONAL_MEMORY then
       (let seg_sz = d_pages desc * FRAME_SZ
        in if seg_sz > max_sz then (seg_sz, d_paddr desc) else (max_sz, mem_seg))
     else (max_sz, mem_seg))"

definition get_largest_free_seg :: "mem \<Rightarrow> MemoryMap \<Rightarrow> MemoryData \<Rightarrow> u64 \<Rightarrow> u64 \<times> u64" where
  "get_largest_free_seg m mm memory mem_seg =
     for_up 0 (\<lambda>_. md_entries memory)
       (\<lambda>i. largest_step (EfiMMapDesc_at m (get_desc mm i))) (0, mem_seg)"

definition dbg_print_mmap :: "mem \<Rightarrow> MemoryMap \<Rightarrow> u8 list \<Rightarrow> u8 list res" where
  "dbg_print_mmap m mm out =
     bind_res (kprintf (str ''Memory map (all entries: %d)'') [VNum (mm_entries mm)] out) (\<lambda>out.
     for_res 0 (\<lambda>_. mm_entries mm)
       (\<lambda>i. let desc = EfiMMapDesc_at m (get_desc mm i) in
          kprintf (str ''%p-%p: type=%d, frames=%d '' @ [10])
            [VNum (d_paddr desc), VNum (d_paddr desc + d_pages desc * FRAME_SZ),
             VNum (ucast (d_type desc)), VNum (d_pages desc)]) out)"

definition is_usable_memory :: "EfiMMapDesc \<Rightarrow> bool" where
  "is_usable_memory desc \<longleftrightarrow>
     d_type desc = efi_type_code EFI_CONVENTIONAL_MEMORY \<or>
     d_type desc = efi_type_code EFI_BOOT_SERVICES_CODE \<or>
     d_type desc = efi_type_code EFI_BOOT_SERVICES_DATA"

section \<open>Properties\<close>

text \<open>Two memories with the same descriptor table.\<close>

definition mm_span :: "MemoryMap \<Rightarrow> u64 set" where
  "mm_span mm = (\<Union>i \<in> {i. i < mm_entries mm}. span (get_desc mm i) 40)"

lemma EfiMMapDesc_at_cong:
  assumes "\<And>x. x \<in> span p 40 \<Longrightarrow> m' x = m x"
  shows "EfiMMapDesc_at m' p = EfiMMapDesc_at m p"
proof -
  have sub: "span (p + of_nat k) n \<subseteq> span p 40" if "k + n \<le> 40" for k n
    using that by (intro span_add_subset) simp_all
  have r64: "read64 m' (p + of_nat k) = read64 m (p + of_nat k)" if "k + 8 \<le> 40" for k
    using sub [OF that] assms by (intro c64.rd_cong) blast
  have r32: "read32 m' (p + of_nat k) = read32 m (p + of_nat k)" if "k + 4 \<le> 40" for k
    using sub [OF that] assms by (intro c32.rd_cong) blast
  show ?thesis
    using r64 [of 8] r64 [of 16] r64 [of 24] r64 [of 32] r32 [of 0] r32 [of 4]
    by (simp add: EfiMMapDesc_at_def)
qed

lemma EfiMMapDesc_at_mm_cong:
  assumes "\<And>x. x \<in> mm_span mm \<Longrightarrow> m' x = m x" and "i < mm_entries mm"
  shows "EfiMMapDesc_at m' (get_desc mm i) = EfiMMapDesc_at m (get_desc mm i)"
  using assms by (intro EfiMMapDesc_at_cong) (auto simp: mm_span_def)

lemma largest_step_bounds:
  assumes "largest_step d (mx, seg) = (mx', seg')"
  shows "mx \<le> mx'"
    and "d_type d = 7 \<Longrightarrow> d_pages d * FRAME_SZ \<le> mx'"
    and "(mx', seg') = (mx, seg) \<or> d_type d = 7 \<and> d_pages d * FRAME_SZ = mx' \<and> d_paddr d = seg'"
  using assms by (auto simp: largest_step_def Let_def split: if_splits)

text \<open>\<open>(sz, seg)\<close> is the largest conventional segment among the first \<open>k\<close> descriptors.\<close>

definition largest_upto :: "(u64 \<Rightarrow> EfiMMapDesc) \<Rightarrow> u64 \<Rightarrow> u64 \<Rightarrow> u64 \<times> u64 \<Rightarrow> bool" where
  "largest_upto D seg0 k r \<longleftrightarrow>
     (\<forall>i < k. d_type (D i) = 7 \<longrightarrow> d_pages (D i) * FRAME_SZ \<le> fst r) \<and>
     (r = (0, seg0) \<or>
      (\<exists>i < k. d_type (D i) = 7 \<and> r = (d_pages (D i) * FRAME_SZ, d_paddr (D i))))"

lemma less_plus1_iff:
  assumes "i < (n :: u64)"
  shows "k < i + 1 \<longleftrightarrow> k < i \<or> k = i"
  using unat_Suc_less [OF assms] by (auto simp: word_less_nat_alt less_Suc_eq word_unat_eq_iff)

lemma largest_upto_step:
  assumes "largest_upto D seg0 i r" and "i < n"
  shows "largest_upto D seg0 (i + 1) (largest_step (D i) r)"
proof -
  obtain mx seg where r: "r = (mx, seg)" by (cases r)
  obtain mx' seg' where r': "largest_step (D i) (mx, seg) = (mx', seg')" by fastforce
  note step = largest_step_bounds [OF r'] and lt = less_plus1_iff [OF assms(2)]
  have "d_pages (D k) * FRAME_SZ \<le> mx'" if "k < i + 1" "d_type (D k) = 7" for k
    using that assms(1) step(1,2) by (auto simp: lt largest_upto_def r dest: order_trans)
  moreover have "(mx', seg') = (0, seg0) \<or> (\<exists>k < i + 1. d_type (D k) = 7 \<and>
      (mx', seg') = (d_pages (D k) * FRAME_SZ, d_paddr (D k)))"
    using step(3) assms(1) unfolding lt largest_upto_def r by (metis prod.inject)
  ultimately show ?thesis by (simp add: largest_upto_def r r')
qed

lemma get_largest_free_seg_largest:
  "largest_upto (\<lambda>i. EfiMMapDesc_at m (get_desc mm i)) seg0 (md_entries memory)
     (get_largest_free_seg m mm memory seg0)"
  unfolding get_largest_free_seg_def
proof (rule for_up_rule [where I = "largest_upto (\<lambda>i. EfiMMapDesc_at m (get_desc mm i)) seg0"])
  show "largest_upto (\<lambda>i. EfiMMapDesc_at m (get_desc mm i)) seg0 0 (0, seg0)"
    by (simp add: largest_upto_def)
qed (auto intro: largest_upto_step)

text \<open>
  \<^verbatim>\<open>get_largest_free_seg\<close> of \<^verbatim>\<open>memory/mmap.cpp\<close> returns the size and start of a conventional
  memory segment that is at least as large as every other one, or size 0 and the caller's pointer
  unchanged when there is none with a page.\<close>

theorem largest_free_seg_result:
  assumes "get_largest_free_seg m mm memory seg0 = (sz, seg)"
  shows "(\<forall>i < md_entries memory. d_type (EfiMMapDesc_at m (get_desc mm i)) = 7 \<longrightarrow>
      d_pages (EfiMMapDesc_at m (get_desc mm i)) * FRAME_SZ \<le> sz) \<and>
    ((sz, seg) = (0, seg0) \<or> (\<exists>i < md_entries memory. d_type (EfiMMapDesc_at m (get_desc mm i)) = 7 \<and>
      sz = d_pages (EfiMMapDesc_at m (get_desc mm i)) * FRAME_SZ \<and> seg = d_paddr (EfiMMapDesc_at m (get_desc mm i))))"
  using get_largest_free_seg_largest [of m mm seg0 memory] assms by (auto simp: largest_upto_def)

theorem largest_free_seg_result_witness:
  "let m = (\<lambda>_. 0)(0x1000 := 7, 0x1018 := 2);
       mm = \<lparr>mm_mmap_sz = 40, mm_desc_sz = 40, mm_entries = 1, mm_mmap = 0x1000\<rparr>;
       md = \<lparr>md_mmap = 0x1000, md_mmap_sz = 40, md_desc_sz = 40, md_entries = 1\<rparr>
   in 8192 \<le> fst (get_largest_free_seg m mm md 5)"
proof -
  let ?m = "(\<lambda>_. 0)(0x1000 := 7, 0x1018 := 2)"
  let ?mm = "\<lparr>mm_mmap_sz = 40, mm_desc_sz = 40, mm_entries = 1, mm_mmap = 0x1000\<rparr>"
  let ?md = "\<lparr>md_mmap = 0x1000, md_mmap_sz = 40, md_desc_sz = 40, md_entries = 1\<rparr>"
  obtain sz seg where r: "get_largest_free_seg ?m ?mm ?md 5 = (sz, seg)" by fastforce
  have "d_type (EfiMMapDesc_at ?m 0x1000) = 7" "d_pages (EfiMMapDesc_at ?m 0x1000) = 2"
    by (simp_all add: EfiMMapDesc_at_def read32_def read64_def load_steps)
  then show ?thesis
    using largest_free_seg_result [OF r] r by (simp add: get_desc_def FRAME_SZ_def)
qed

end
