(* ===== verification/Bitmap.thy ===== *)
theory Bitmap
  imports Libc
begin

text \<open>
  The bitmap of \<^verbatim>\<open>kutils/bitmap.cpp\<close>: one bit per index in a byte buffer of memory. The
  locale \<open>bit_array\<close> is what its client, the physical memory manager, relies on: a set or
  cleared bit reads back, and no other bit changes. Its interpretation on the three
  operations holds for every 64-bit index and every buffer address.
\<close>

section \<open>The model\<close>

text \<open>
  \<open>bm_buf\<close> and \<open>bm_size\<close> are the members \<^verbatim>\<open>__buf\<close> and \<^verbatim>\<open>__size\<close>. The public member \<^verbatim>\<open>buf\<close> is
  initialised with \<^verbatim>\<open>&__buf\<close>, the address of the member \<^verbatim>\<open>__buf\<close> inside the object:
  \<open>bm_public_buf\<close>.
\<close>

record Bitmap =
  bm_buf :: u64
  bm_size :: u64
  bm_public_buf :: u64

text \<open>The constructor, for an object at address \<open>this\<close> (its first member is \<^verbatim>\<open>__buf\<close>).\<close>

definition Bitmap_init :: "u64 \<Rightarrow> u64 \<Rightarrow> u64 \<Rightarrow> mem \<Rightarrow> Bitmap \<times> mem" where
  "Bitmap_init this buf size_in_bits m =
     (let sz = (size_in_bits + 7) div 8
      in (\<lparr>bm_buf = buf, bm_size = sz, bm_public_buf = this\<rparr>, memset m buf 0 sz))"

definition Bitmap_get :: "Bitmap \<Rightarrow> mem \<Rightarrow> u64 \<Rightarrow> bool" where
  "Bitmap_get b m idx =
     (let rest = idx mod 8;
          base = (idx - rest) div 8;
          result = m (bm_buf b + base)
      in (ucast result AND push_bit (unat rest) 1 :: 32 word) \<noteq> 0)"

definition Bitmap_set :: "Bitmap \<Rightarrow> mem \<Rightarrow> u64 \<Rightarrow> mem" where
  "Bitmap_set b m idx =
     (let rest = idx mod 8;
          base = (idx - rest) div 8;
          addr = bm_buf b + base
      in m(addr := set_bit_m (m addr) (unat rest)))"

definition Bitmap_unset :: "Bitmap \<Rightarrow> mem \<Rightarrow> u64 \<Rightarrow> mem" where
  "Bitmap_unset b m idx =
     (let rest = idx mod 8;
          base = (idx - rest) div 8;
          addr = bm_buf b + base
      in m(addr := clear_bit_m (m addr) (unat rest)))"

definition Bitmap_get_mem_size :: "Bitmap \<Rightarrow> u64" where
  "Bitmap_get_mem_size b = bm_size b"

section \<open>The contract of a bit array\<close>

locale bit_array =
  fixes get :: "'s \<Rightarrow> u64 \<Rightarrow> bool" and set1 unset1 :: "'s \<Rightarrow> u64 \<Rightarrow> 's"
  assumes get_set: "get (set1 s i) j \<longleftrightarrow> j = i \<or> get s j"
    and get_unset: "get (unset1 s i) j \<longleftrightarrow> j \<noteq> i \<and> get s j"
begin

lemma finite_bits: "finite {i. i < n \<and> get s i}"
  by simp

lemma card_set:
  assumes "i < n" and "\<not> get s i"
  shows "card {j. j < n \<and> get (set1 s i) j} = Suc (card {j. j < n \<and> get s j})"
proof -
  have "{j. j < n \<and> get (set1 s i) j} = insert i {j. j < n \<and> get s j}"
    using assms by (auto simp: get_set)
  then show ?thesis using assms by simp
qed

lemma card_unset:
  assumes "i < n" and "get s i"
  shows "Suc (card {j. j < n \<and> get (unset1 s i) j}) = card {j. j < n \<and> get s j}"
proof -
  have "{j. j < n \<and> get s j} = insert i {j. j < n \<and> get (unset1 s i) j}"
    using assms by (auto simp: get_unset)
  moreover have "i \<notin> {j. j < n \<and> get (unset1 s i) j}" by (simp add: get_unset)
  ultimately show ?thesis by simp
qed

lemma card_bits_le: "card {j. j < n \<and> get s j} \<le> unat n"
proof -
  have "card {j. j < n \<and> get s j} \<le> card {..<n}" by (rule card_mono) auto
  also have "\<dots> = card (unat ` {..<n})"
    by (rule card_image [symmetric]) (auto intro!: inj_onI simp: word_unat_eq_iff)
  also have "\<dots> \<le> card {..<unat n}"
    by (rule card_mono) (auto simp: word_less_nat_alt)
  finally show ?thesis by simp
qed

end

section \<open>The bitmap is a bit array\<close>

lemma bitmap_base: "((idx :: u64) - idx mod 8) div 8 = idx div 8"
proof -
  have "idx - idx mod 8 = idx div 8 * 8" by (simp add: minus_mod_eq_div_mult)
  moreover have "unat (idx div 8) * 8 < 2 ^ 64"
    using u64_bound [of idx] by (simp add: unat_div)
  ultimately show ?thesis
    by (simp add: word_unat_eq_iff unat_div unat_word_ariths)
qed

lemma unat_mod8: "unat ((idx :: u64) mod 8) = unat idx mod 8"
  by (simp add: unat_mod)

lemma Bitmap_get_bit:
  "Bitmap_get b m idx = bit (m (bm_buf b + idx div 8)) (unat idx mod 8)"
proof -
  let ?r = "unat idx mod 8" and ?x = "m (bm_buf b + idx div 8)"
  have r: "?r < 8" by simp
  have "((ucast ?x AND push_bit ?r 1 :: 32 word) \<noteq> 0) \<longleftrightarrow> bit (ucast ?x :: 32 word) ?r"
    using test_bit_m_nonzero [of ?r "ucast ?x :: 32 word"] r
    by (simp add: test_bit_m_def)
  also have "\<dots> \<longleftrightarrow> bit ?x ?r" using r by (auto simp: bit_simps)
  finally show ?thesis by (simp add: Bitmap_get_def bitmap_base unat_mod8)
qed

lemma Bitmap_set_eq:
  "Bitmap_set b m idx = m(bm_buf b + idx div 8 :=
     set_bit_m (m (bm_buf b + idx div 8)) (unat idx mod 8))"
  by (simp add: Bitmap_set_def bitmap_base unat_mod8 Let_def)

lemma Bitmap_unset_eq:
  "Bitmap_unset b m idx = m(bm_buf b + idx div 8 :=
     clear_bit_m (m (bm_buf b + idx div 8)) (unat idx mod 8))"
  by (simp add: Bitmap_unset_def bitmap_base unat_mod8 Let_def)

lemma same_bit:
  assumes "(i :: u64) div 8 = j div 8" and "unat i mod 8 = unat j mod 8"
  shows "i = j"
proof -
  have "unat i div 8 = unat j div 8"
    using arg_cong [OF assms(1), of unat] by (simp add: unat_div)
  with assms(2) have "unat i = unat j" by (metis div_mult_mod_eq)
  then show ?thesis by (simp add: word_unat_eq_iff)
qed

lemma Bitmap_get_update:
  assumes "\<And>k. k < 8 \<Longrightarrow> bit v k \<longleftrightarrow> (if k = unat i mod 8 then x else bit (m (bm_buf b + i div 8)) k)"
  shows "Bitmap_get b (m(bm_buf b + i div 8 := v)) j \<longleftrightarrow> (if j = i then x else Bitmap_get b m j)"
proof (cases "i div 8 = j div 8")
  case True
  then have "j = i \<longleftrightarrow> unat j mod 8 = unat i mod 8" using same_bit [of i j] by auto
  with True assms [of "unat j mod 8"] show ?thesis by (simp add: Bitmap_get_bit)
next
  case False
  then show ?thesis by (auto simp: Bitmap_get_bit)
qed

interpretation bm: bit_array "Bitmap_get b" "Bitmap_set b" "Bitmap_unset b" for b
proof
  fix m and i j :: u64
  show "Bitmap_get b (Bitmap_set b m i) j \<longleftrightarrow> j = i \<or> Bitmap_get b m j"
    unfolding Bitmap_set_eq by (subst Bitmap_get_update [where x = True]) (auto simp: bit_set_bit_m)
  show "Bitmap_get b (Bitmap_unset b m i) j \<longleftrightarrow> j \<noteq> i \<and> Bitmap_get b m j"
    unfolding Bitmap_unset_eq by (subst Bitmap_get_update [where x = False]) (auto simp: bit_clear_bit_m)
qed

section \<open>Footprint\<close>

definition bm_span :: "Bitmap \<Rightarrow> u64 set" where
  "bm_span b = span (bm_buf b) (unat (bm_size b))"

text \<open>A bitmap of \<open>n\<close> bits: every index below \<open>n\<close> has its byte in the buffer.\<close>

definition bm_holds :: "Bitmap \<Rightarrow> u64 \<Rightarrow> bool" where
  "bm_holds b n \<longleftrightarrow> (\<forall>i < n. i div 8 < bm_size b)"

lemma bm_byte_in_span: "bm_holds b n \<Longrightarrow> i < n \<Longrightarrow> bm_buf b + i div 8 \<in> bm_span b"
  by (simp add: bm_holds_def bm_span_def span_iff word_less_nat_alt)

lemma Bitmap_set_outside: "bm_holds b n \<Longrightarrow> i < n \<Longrightarrow> x \<notin> bm_span b \<Longrightarrow> Bitmap_set b m i x = m x"
  using bm_byte_in_span by (auto simp: Bitmap_set_eq)

lemma Bitmap_unset_outside: "bm_holds b n \<Longrightarrow> i < n \<Longrightarrow> x \<notin> bm_span b \<Longrightarrow> Bitmap_unset b m i x = m x"
  using bm_byte_in_span by (auto simp: Bitmap_unset_eq)

lemma Bitmap_get_cong:
  assumes "bm_holds b n" and "i < n" and "\<And>x. x \<in> bm_span b \<Longrightarrow> m' x = m x"
  shows "Bitmap_get b m' i = Bitmap_get b m i"
  using bm_byte_in_span [OF assms(1,2)] assms(3) by (simp add: Bitmap_get_bit)

lemma Bitmap_init_holds:
  assumes "unat n + 7 < 2 ^ 64" and "Bitmap_init this buf n m = (b, m')"
  shows "bm_holds b n"
proof -
  have "unat (n + 7) = unat n + 7" using assms(1) by (simp add: unat_word_ariths)
  then have "unat (bm_size b) = (unat n + 7) div 8"
    using assms(2) by (auto simp: Bitmap_init_def Let_def unat_div)
  then show ?thesis by (auto simp: bm_holds_def word_less_nat_alt unat_div)
qed

lemma Bitmap_init_clear:
  assumes "unat n + 7 < 2 ^ 64" and "Bitmap_init this buf n m = (b, m')" and "i < n"
  shows "\<not> Bitmap_get b m' i"
proof -
  have buf: "bm_buf b = buf" "m' = memset m buf 0 (bm_size b)"
    using assms(2) by (auto simp: Bitmap_init_def Let_def)
  have "bm_buf b + i div 8 \<in> bm_span b"
    using Bitmap_init_holds [OF assms(1,2)] assms(3) by (rule bm_byte_in_span)
  then show ?thesis
    by (simp add: Bitmap_get_bit buf memset_apply bm_span_def span_iff)
qed

section \<open>Properties\<close>

text \<open>
  The bitmap of \<^verbatim>\<open>kutils/bitmap.cpp\<close> is an array of bits: after \<^verbatim>\<open>set\<close> or \<^verbatim>\<open>unset\<close> the bit has its
  new value and every other bit its old one, nothing outside the bitmap's bytes changes, and the
  constructor leaves every bit clear.\<close>

theorem bitmap_bits:
  assumes "unat n + 7 < 2 ^ 64" and "Bitmap_init this buf n m0 = (b, m1)" and "i < n"
  shows "\<not> Bitmap_get b m1 i \<and>
    (\<forall>m j. Bitmap_get b (Bitmap_set b m i) j \<longleftrightarrow> j = i \<or> Bitmap_get b m j) \<and>
    (\<forall>m j. Bitmap_get b (Bitmap_unset b m i) j \<longleftrightarrow> j \<noteq> i \<and> Bitmap_get b m j) \<and>
    (\<forall>m x. x \<notin> span buf ((unat n + 7) div 8) \<longrightarrow> Bitmap_set b m i x = m x \<and> Bitmap_unset b m i x = m x)"
proof -
  have holds: "bm_holds b n" using assms(1,2) by (rule Bitmap_init_holds)
  have "unat (n + 7) = unat n + 7" using assms(1) by (simp add: unat_word_ariths)
  then have span: "bm_span b = span buf ((unat n + 7) div 8)"
    using assms(2) by (auto simp: Bitmap_init_def Let_def unat_div bm_span_def)
  then show ?thesis
    using Bitmap_init_clear [OF assms] Bitmap_set_outside [OF holds assms(3)]
      Bitmap_unset_outside [OF holds assms(3)] bm.get_set bm.get_unset by simp
qed

theorem bitmap_bits_witness:
  "\<not> Bitmap_get (fst (Bitmap_init 0x500 0x1000 16 (\<lambda>_. 255))) (snd (Bitmap_init 0x500 0x1000 16 (\<lambda>_. 255))) 3 \<and>
   Bitmap_get (fst (Bitmap_init 0x500 0x1000 16 (\<lambda>_. 255)))
     (Bitmap_set (fst (Bitmap_init 0x500 0x1000 16 (\<lambda>_. 255))) (\<lambda>_. 0) 3) 3"
proof -
  have h: "unat (16 :: u64) + 7 < 2 ^ 64" "(3 :: u64) < 16" by simp_all
  have i: "Bitmap_init 0x500 0x1000 16 (\<lambda>_. 255) =
    (fst (Bitmap_init 0x500 0x1000 16 (\<lambda>_. 255)), snd (Bitmap_init 0x500 0x1000 16 (\<lambda>_. 255)))" by simp
  show ?thesis using bitmap_bits [OF h(1) i h(2)] by blast
qed

end
