(* ===== verification/PMem.thy ===== *)
theory PMem
  imports Mmap Bitmap
begin

text \<open>
  The physical memory manager, \<^verbatim>\<open>memory/pmem.cpp\<close>: a bitmap with one bit per page frame
  (set: locked), counters of free and locked frames, and the requests for one frame and
  for a run of frames. The state \<open>kst\<close> holds what the memory subsystem of the kernel
  changes: memory, the manager and the console output.

  The locale \<open>frame_pool\<close> states what locking and freeing promise; \<open>frame_source\<close>
  extends it with the request for one frame. Both are interpreted on the model.
\<close>

named_theorems kst_simps "state projections after the operations of the manager"

section \<open>The model\<close>

record PMem =
  last_free_idx :: u64
  free_frames :: u64
  locked_frames :: u64
  frames :: u64
  bitmap :: Bitmap

record kst =
  ram :: mem
  pmem :: PMem
  kout :: "u8 list"

definition bm_get :: "kst \<Rightarrow> u64 \<Rightarrow> bool" where
  "bm_get s idx = Bitmap_get (bitmap (pmem s)) (ram s) idx"

definition free_frame :: "u64 \<Rightarrow> kst \<Rightarrow> kst" where
  "free_frame idx s =
     (if bm_get s idx then
        s\<lparr>ram := Bitmap_unset (bitmap (pmem s)) (ram s) idx,
          pmem := (pmem s)\<lparr>free_frames := free_frames (pmem s) + 1,
                           locked_frames := locked_frames (pmem s) - 1\<rparr>\<rparr>
      else s)"

definition lock_frame :: "u64 \<Rightarrow> kst \<Rightarrow> kst" where
  "lock_frame idx s =
     (if \<not> bm_get s idx then
        s\<lparr>ram := Bitmap_set (bitmap (pmem s)) (ram s) idx,
          pmem := (pmem s)\<lparr>free_frames := free_frames (pmem s) - 1,
                           locked_frames := locked_frames (pmem s) + 1\<rparr>\<rparr>
      else s)"

definition ptr_to_frame_idx :: "u64 \<Rightarrow> u64" where
  "ptr_to_frame_idx ptr = ptr div FRAME_SZ"

definition idx_to_frame_ptr :: "u64 \<Rightarrow> u64" where
  "idx_to_frame_ptr idx = idx * FRAME_SZ"

function request_frame_loop :: "u64 \<Rightarrow> kst \<Rightarrow> u64 \<times> kst" where
  "request_frame_loop i s =
     (if i < frames (pmem s) then
        if \<not> bm_get s i then
          (let s1 = lock_frame i s
           in (idx_to_frame_ptr i, s1\<lparr>pmem := (pmem s1)\<lparr>last_free_idx := i\<rparr>\<rparr>))
        else request_frame_loop (i + 1) s
      else (0, s))"
  by pat_completeness auto
termination
  by (relation "measure (\<lambda>(i, s). 2 ^ 64 - unat i)") (use measure_up_less in auto)

definition request_frame :: "kst \<Rightarrow> (u64 \<times> kst) res" where
  "request_frame s =
     bind_res (ASSERT ''this->__free_frames > 0'' (free_frames (pmem s) > 0)) (\<lambda>_.
     Inr (request_frame_loop (last_free_idx (pmem s)) s))"

text \<open>The search of \<^verbatim>\<open>request_frames\<close>: its state is \<^verbatim>\<open>free_start_idx\<close> and \<^verbatim>\<open>free_end_idx\<close>.\<close>

function request_frames_scan :: "u64 \<Rightarrow> u64 \<Rightarrow> kst \<Rightarrow> u64 \<Rightarrow> u64 \<Rightarrow> u64 \<times> u64" where
  "request_frames_scan number i s free_start_idx free_end_idx =
     (if i < frames (pmem s) then
        if free_start_idx > 0 \<and> i - free_start_idx = number then (free_start_idx, i - 1)
        else if free_start_idx > 0 \<and> \<not> bm_get s i then
          request_frames_scan number (i + 1) s free_start_idx i
        else if bm_get s i then request_frames_scan number (i + 1) s 0 free_end_idx
        else if free_start_idx = 0 then request_frames_scan number (i + 1) s i i
        else request_frames_scan number (i + 1) s free_start_idx free_end_idx
      else (free_start_idx, free_end_idx))"
  by pat_completeness auto
termination
  by (relation "measure (\<lambda>(number, i, s, a, b). 2 ^ 64 - unat i)") (use measure_up_less in auto)

text \<open>The locking loop tests \<^verbatim>\<open>i <= free_end_idx\<close>; with the largest 64-bit end it would never
  stop.\<close>

function lock_upto :: "u64 \<Rightarrow> u64 \<Rightarrow> kst \<Rightarrow> kst res" where
  "lock_upto i e s =
     (if i \<le> e then
        if i + 1 = 0 then Inl Diverges else lock_upto (i + 1) e (lock_frame i s)
      else Inr s)"
  by pat_completeness auto
termination
  by (relation "measure (\<lambda>(i, e, s). 2 ^ 64 - unat i)") (use measure_up in auto)

definition request_frames :: "u64 \<Rightarrow> kst \<Rightarrow> (u64 \<times> kst) res" where
  "request_frames number s =
     bind_res (ASSERT ''number > 0'' (number > 0)) (\<lambda>_.
     let (free_start_idx, free_end_idx) =
           request_frames_scan number (last_free_idx (pmem s)) s 0 0 in
     bind_res (ASSERT ''free_start_idx > 0'' (free_start_idx > 0)) (\<lambda>_.
     bind_res (ASSERT ''free_end_idx > 0'' (free_end_idx > 0)) (\<lambda>_.
     bind_res (ASSERT ''free_start_idx - free_end_idx >= number''
                 (free_start_idx - free_end_idx \<ge> number)) (\<lambda>_.
     bind_res (kprintf (str ''%d, %d'' @ [10]) [VNum free_start_idx, VNum free_end_idx] (kout s)) (\<lambda>out.
     bind_res (lock_upto free_start_idx free_end_idx (s\<lparr>kout := out\<rparr>)) (\<lambda>s1.
     Inr (idx_to_frame_ptr free_start_idx, s1)))))))"

declare request_frame_loop.simps [simp del] request_frames_scan.simps [simp del]
  lock_upto.simps [simp del]

text \<open>
  The constructor, for an object at address \<open>this\<close>; the bitmap member is at offset 32.
\<close>

definition PMem_init_bitmap ::
  "u64 \<Rightarrow> MemoryMap \<Rightarrow> MemoryData \<Rightarrow> mem \<Rightarrow> (Bitmap \<times> mem) res" where
  "PMem_init_bitmap this mm memory m =
     (let (free_mem_sz, free_mem) = get_largest_free_seg m mm memory 0 in
      bind_res (ASSERT ''free_mem_sz > 0'' (free_mem_sz > 0)) (\<lambda>_.
      let page_frames = get_page_frames_number m mm in
      bind_res (ASSERT ''page_frames > 0'' (page_frames > 0)) (\<lambda>_.
      bind_res (ASSERT ''free_mem_sz > page_frames / 8'' (free_mem_sz > page_frames div 8)) (\<lambda>_.
      Inr (Bitmap_init (this + 32) free_mem page_frames m)))))"

definition free_desc_frames :: "u64 \<Rightarrow> kst \<Rightarrow> kst" where
  "free_desc_frames desc s =
     for_up 0 (\<lambda>s. d_pages (EfiMMapDesc_at (ram s) desc))
       (\<lambda>n s. free_frame (ptr_to_frame_idx (d_paddr (EfiMMapDesc_at (ram s) desc) + n * FRAME_SZ)) s) s"

definition free_usable_frames :: "MemoryMap \<Rightarrow> kst \<Rightarrow> kst" where
  "free_usable_frames mm s =
     for_up 0 (\<lambda>_. mm_entries mm)
       (\<lambda>i s. let desc = get_desc mm i in
          if is_usable_memory (EfiMMapDesc_at (ram s) desc) then free_desc_frames desc s else s) s"

definition lock_bitmap_frames :: "kst \<Rightarrow> kst" where
  "lock_bitmap_frames s =
     (let b = bitmap (pmem s);
          start_frame_idx = ptr_to_frame_idx (bm_public_buf b)
      in for_up 0 (\<lambda>_. Bitmap_get_mem_size b div FRAME_SZ)
           (\<lambda>i. lock_frame (start_frame_idx + i)) s)"

definition PMem_init ::
  "u64 \<Rightarrow> MemoryMap \<Rightarrow> MemoryData \<Rightarrow> u64 \<Rightarrow> mem \<Rightarrow> u8 list \<Rightarrow> kst res" where
  "PMem_init this mm memory stack m out =
     bind_res (PMem_init_bitmap this mm memory m) (\<lambda>(b, m1).
     let n = get_page_frames_number m1 mm;
         s0 = \<lparr>ram = m1,
               pmem = \<lparr>last_free_idx = 0, free_frames = n, locked_frames = 0, frames = n, bitmap = b\<rparr>,
               kout = out\<rparr>
     in
     bind_res (ASSERT ''this->__frames > 0'' (n > 0)) (\<lambda>_.
     let s1 = for_up 0 (\<lambda>s. frames (pmem s)) lock_frame s0;
         s2 = free_usable_frames mm s1;
         s3 = lock_frame 0 s2;
         s4 = lock_frame (ptr_to_frame_idx stack) s3;
         s5 = lock_bitmap_frames s4
     in
     bind_res (ASSERT ''this->locked_frames > 0'' (locked_frames (pmem s5) > 0)) (\<lambda>_.
     bind_res (ASSERT ''this->free_frames > 0'' (free_frames (pmem s5) > 0)) (\<lambda>_.
     bind_res (ASSERT ''this->__bitmap.get(0) == true'' (bm_get s5 0)) (\<lambda>_.
     Inr s5)))))"

section \<open>The contract of a pool of frames\<close>

lemma unat_frame_ptr:
  assumes "unat i < 2 ^ 52"
  shows "unat (i * FRAME_SZ) = unat i * 4096"
  using unat_mult_lem [of i FRAME_SZ] assms by (simp add: FRAME_SZ_def)

locale frame_pool =
  fixes locked :: "'s \<Rightarrow> u64 \<Rightarrow> bool" and lock free :: "u64 \<Rightarrow> 's \<Rightarrow> 's"
    and nframes :: "'s \<Rightarrow> u64" and inv :: "'s \<Rightarrow> bool"
  assumes locked_lock: "locked (lock i s) j \<longleftrightarrow> j = i \<or> locked s j"
    and locked_free: "locked (free i s) j \<longleftrightarrow> j \<noteq> i \<and> locked s j"
    and nframes_lock: "nframes (lock i s) = nframes s"
    and nframes_free: "nframes (free i s) = nframes s"
    and inv_lock: "inv s \<Longrightarrow> i < nframes s \<Longrightarrow> inv (lock i s)"
    and inv_free: "inv s \<Longrightarrow> i < nframes s \<Longrightarrow> inv (free i s)"
begin

lemma lock_run:
  assumes "inv s" and "\<And>i. i < n \<Longrightarrow> start + i < nframes s"
  shows "inv (for_up 0 (\<lambda>_. n) (\<lambda>i. lock (start + i)) s) \<and>
    nframes (for_up 0 (\<lambda>_. n) (\<lambda>i. lock (start + i)) s) = nframes s \<and>
    (\<forall>j. locked (for_up 0 (\<lambda>_. n) (\<lambda>i. lock (start + i)) s) j \<longleftrightarrow>
       (\<exists>i < n. j = start + i) \<or> locked s j)"
proof (rule for_up_rule [where I = "\<lambda>k t. inv t \<and> nframes t = nframes s \<and>
    (\<forall>j. locked t j \<longleftrightarrow> (\<exists>i < k. j = start + i) \<or> locked s j)"])
  fix k t
  assume "k < n" and "inv t \<and> nframes t = nframes s \<and>
    (\<forall>j. locked t j \<longleftrightarrow> (\<exists>i < k. j = start + i) \<or> locked s j)"
  then show "inv (lock (start + k) t) \<and> nframes (lock (start + k) t) = nframes s \<and>
    (\<forall>j. locked (lock (start + k) t) j \<longleftrightarrow> (\<exists>i < k + 1. j = start + i) \<or> locked s j)"
    using assms(2) by (auto simp: inv_lock nframes_lock locked_lock less_plus1_iff)
qed (use assms in auto)

lemma lock_run_counter:
  assumes "inv s"
  shows "inv (for_up 0 nframes lock s) \<and> nframes (for_up 0 nframes lock s) = nframes s \<and>
    (\<forall>j. locked (for_up 0 nframes lock s) j \<longleftrightarrow> j < nframes s \<or> locked s j)"
proof (rule for_up_rule [where I = "\<lambda>k t. inv t \<and> nframes t = nframes s \<and>
    (\<forall>j. locked t j \<longleftrightarrow> j < k \<or> locked s j)"])
  fix k t
  assume "k < nframes s" and "inv t \<and> nframes t = nframes s \<and> (\<forall>j. locked t j \<longleftrightarrow> j < k \<or> locked s j)"
  then show "inv (lock k t) \<and> nframes (lock k t) = nframes s \<and>
    (\<forall>j. locked (lock k t) j \<longleftrightarrow> j < k + 1 \<or> locked s j)"
    by (auto simp: inv_lock nframes_lock locked_lock less_plus1_iff)
qed (use assms in auto)

end

text \<open>A source of single frames: a request returns a frame that was free, and locks it and
  nothing else; a null pointer leaves the pool alone.\<close>

locale frame_source = frame_pool +
  fixes request :: "'s \<Rightarrow> (u64 \<times> 's) res"
  assumes request_frame:
    "inv s \<Longrightarrow> locked s 0 \<Longrightarrow> request s = Inr (p, s') \<Longrightarrow> p \<noteq> 0 \<Longrightarrow>
       inv s' \<and> nframes s' = nframes s \<and>
       (\<exists>i < nframes s. p = i * FRAME_SZ \<and> \<not> locked s i \<and>
          (\<forall>j. locked s' j \<longleftrightarrow> j = i \<or> locked s j))"
    and request_null: "inv s \<Longrightarrow> locked s 0 \<Longrightarrow> request s = Inr (0, s') \<Longrightarrow> s' = s"
    and small: "inv s \<Longrightarrow> unat (nframes s) \<le> 2 ^ 52"
begin

text \<open>Successive successful requests.\<close>

inductive requests :: "'s \<Rightarrow> u64 list \<Rightarrow> 's \<Rightarrow> bool" where
  none: "requests s [] s"
| more: "request s = Inr (p, s1) \<Longrightarrow> p \<noteq> 0 \<Longrightarrow> requests s1 ps s2 \<Longrightarrow> requests s (p # ps) s2"

lemma frame_ptr_inj:
  assumes "inv s" and "i < nframes s" and "j < nframes s" and "i * FRAME_SZ = j * FRAME_SZ"
  shows "i = j"
proof -
  have lt: "unat i < 2 ^ 52" "unat j < 2 ^ 52"
    using assms small [OF assms(1)] by (auto simp: word_less_nat_alt)
  then have "unat i * 4096 = unat j * 4096"
    using assms(4) by (metis unat_frame_ptr)
  then show ?thesis by (simp add: word_unat_eq_iff)
qed

lemma requests_fresh:
  "requests s ps s' \<Longrightarrow> inv s \<Longrightarrow> locked s 0 \<Longrightarrow>
     inv s' \<and> nframes s' = nframes s \<and> distinct ps \<and>
     (\<forall>p \<in> set ps. \<exists>i < nframes s. p = i * FRAME_SZ \<and> \<not> locked s i \<and> locked s' i) \<and>
     (\<forall>i. locked s i \<longrightarrow> locked s' i)"
proof (induction rule: requests.induct)
  case (none s)
  then show ?case by simp
next
  case (more s p s1 ps s2)
  from request_frame [OF more.prems more.hyps(1,2)] obtain i where
    i: "i < nframes s" "p = i * FRAME_SZ" "\<not> locked s i" and s1: "inv s1" "nframes s1 = nframes s"
      "\<And>j. locked s1 j \<longleftrightarrow> j = i \<or> locked s j" by blast
  note IH = more.IH [OF s1(1)]
  have "p \<notin> set ps"
  proof
    assume "p \<in> set ps"
    with IH s1 more.prems obtain k where k: "k < nframes s" "p = k * FRAME_SZ" "\<not> locked s1 k"
      by auto
    have "i = k" using frame_ptr_inj [OF more.prems(1) i(1) k(1)] i(2) k(2) by simp
    with k(3) s1(3) show False by blast
  qed
  moreover have "locked s1 0" using s1(3) more.prems(2) by blast
  ultimately show ?case
    using IH i s1(2,3) by (simp add: distinct.simps) metis
qed

end

section \<open>The manager fulfils it\<close>

lemma lock_frame_proj [simp, kst_simps]:
  "frames (pmem (lock_frame i s)) = frames (pmem s)"
  "bitmap (pmem (lock_frame i s)) = bitmap (pmem s)"
  "last_free_idx (pmem (lock_frame i s)) = last_free_idx (pmem s)"
  "kout (lock_frame i s) = kout s"
  by (simp_all add: lock_frame_def)

lemma free_frame_proj [simp, kst_simps]:
  "frames (pmem (free_frame i s)) = frames (pmem s)"
  "bitmap (pmem (free_frame i s)) = bitmap (pmem s)"
  "last_free_idx (pmem (free_frame i s)) = last_free_idx (pmem s)"
  "kout (free_frame i s) = kout s"
  by (simp_all add: free_frame_def)

lemma bm_get_lock_frame: "bm_get (lock_frame i s) j \<longleftrightarrow> j = i \<or> bm_get s j"
  by (auto simp: lock_frame_def bm_get_def bm.get_set)

lemma bm_get_free_frame: "bm_get (free_frame i s) j \<longleftrightarrow> j \<noteq> i \<and> bm_get s j"
  by (auto simp: free_frame_def bm_get_def bm.get_unset)

text \<open>
  The invariant: the bitmap has a byte for every frame, there are at most \<open>2 ^ 52\<close> frames,
  the counters add up to the number of frames, and the counter of locked frames is the
  number of set bits.
\<close>

definition pm_inv :: "kst \<Rightarrow> bool" where
  "pm_inv s \<longleftrightarrow> bm_holds (bitmap (pmem s)) (frames (pmem s)) \<and>
     unat (frames (pmem s)) \<le> 2 ^ 52 \<and>
     unat (free_frames (pmem s)) + unat (locked_frames (pmem s)) = unat (frames (pmem s)) \<and>
     unat (locked_frames (pmem s)) = card {i. i < frames (pmem s) \<and> bm_get s i}"

lemma card_locked_lt:
  assumes "i < frames (pmem s)" and "\<not> bm_get s i"
  shows "card {j. j < frames (pmem s) \<and> bm_get s j} < unat (frames (pmem s))"
  using bm.card_set [of i "frames (pmem s)" "bitmap (pmem s)" "ram s"] assms
    bm.card_bits_le [of "frames (pmem s)" "bitmap (pmem s)" "Bitmap_set (bitmap (pmem s)) (ram s) i"]
  by (simp add: bm_get_def)

lemma card_locked_pos:
  assumes "i < frames (pmem s)" and "bm_get s i"
  shows "0 < card {j. j < frames (pmem s) \<and> bm_get s j}"
  using assms by (auto simp: card_gt_0_iff)

lemma unat_sub1: "0 < unat (x :: u64) \<Longrightarrow> unat (x - 1) = unat x - 1"
  by (metis unat_minus_one unat_gt_0)

lemma unat_add1: "unat (x :: u64) < 2 ^ 52 \<Longrightarrow> unat (x + 1) = unat x + 1"
  by (simp add: unat_word_ariths)

lemma pm_inv_lock_frame:
  assumes "pm_inv s" and "i < frames (pmem s)"
  shows "pm_inv (lock_frame i s)"
proof (cases "bm_get s i")
  case False
  let ?f = "frames (pmem s)"
  have lt: "unat (locked_frames (pmem s)) < unat ?f"
    using assms card_locked_lt [OF assms(2) False] by (simp add: pm_inv_def)
  have card: "card {j. j < ?f \<and> bm_get (lock_frame i s) j} = Suc (card {j. j < ?f \<and> bm_get s j})"
    using bm.card_set [of i ?f "bitmap (pmem s)" "ram s"] assms(2) False
    by (simp add: bm_get_def lock_frame_def)
  have "unat (free_frames (pmem s) - 1) = unat (free_frames (pmem s)) - 1"
    using assms lt by (intro unat_sub1) (simp add: pm_inv_def)
  moreover have "unat (locked_frames (pmem s) + 1) = unat (locked_frames (pmem s)) + 1"
    using assms lt by (intro unat_add1) (simp add: pm_inv_def)
  ultimately show ?thesis
    using assms lt False card by (simp add: pm_inv_def) (simp add: lock_frame_def)
qed (use assms in \<open>simp add: lock_frame_def\<close>)

lemma pm_inv_free_frame:
  assumes "pm_inv s" and "i < frames (pmem s)"
  shows "pm_inv (free_frame i s)"
proof (cases "bm_get s i")
  case True
  let ?f = "frames (pmem s)"
  have pos: "0 < unat (locked_frames (pmem s))"
    using assms card_locked_pos [OF assms(2) True] by (simp add: pm_inv_def)
  have card: "Suc (card {j. j < ?f \<and> bm_get (free_frame i s) j}) = card {j. j < ?f \<and> bm_get s j}"
    using bm.card_unset [of i ?f "bitmap (pmem s)" "ram s"] assms(2) True
    by (simp add: bm_get_def free_frame_def)
  have "unat (locked_frames (pmem s) - 1) = unat (locked_frames (pmem s)) - 1"
    using pos by (rule unat_sub1)
  moreover have "unat (free_frames (pmem s) + 1) = unat (free_frames (pmem s)) + 1"
    using assms pos by (intro unat_add1) (simp add: pm_inv_def)
  ultimately show ?thesis
    using assms pos True card by (simp add: pm_inv_def) (simp add: free_frame_def)
qed (use assms in \<open>simp add: free_frame_def\<close>)

interpretation fp: frame_pool bm_get lock_frame free_frame "\<lambda>s. frames (pmem s)" pm_inv
  by unfold_locales
    (simp_all add: bm_get_lock_frame bm_get_free_frame pm_inv_lock_frame pm_inv_free_frame)

section \<open>One frame\<close>

text \<open>The state after frame \<open>i\<close> has been handed out.\<close>

definition take_frame :: "u64 \<Rightarrow> kst \<Rightarrow> kst" where
  "take_frame i s = (lock_frame i s)\<lparr>pmem := (pmem (lock_frame i s))\<lparr>last_free_idx := i\<rparr>\<rparr>"

lemma take_frame_proj [simp, kst_simps]:
  "frames (pmem (take_frame i s)) = frames (pmem s)"
  "bitmap (pmem (take_frame i s)) = bitmap (pmem s)"
  "last_free_idx (pmem (take_frame i s)) = i"
  "kout (take_frame i s) = kout s"
  "ram (take_frame i s) = ram (lock_frame i s)"
  by (simp_all add: take_frame_def)

lemma bm_get_take_frame: "bm_get (take_frame i s) j \<longleftrightarrow> j = i \<or> bm_get s j"
  using bm_get_lock_frame [of i s j] by (simp add: bm_get_def)

lemma pm_inv_take_frame:
  "pm_inv s \<Longrightarrow> i < frames (pmem s) \<Longrightarrow> pm_inv (take_frame i s)"
  using pm_inv_lock_frame [of s i] by (simp add: pm_inv_def bm_get_def take_frame_def)

text \<open>The loop hands out the first free frame from \<open>i\<close> on, or none when all are locked.\<close>

lemma request_frame_loop_spec:
  "(\<exists>k. i \<le> k \<and> k < frames (pmem s) \<and> \<not> bm_get s k \<and> (\<forall>j. i \<le> j \<and> j < k \<longrightarrow> bm_get s j) \<and>
      request_frame_loop i s = (idx_to_frame_ptr k, take_frame k s)) \<or>
   (\<forall>j. i \<le> j \<and> j < frames (pmem s) \<longrightarrow> bm_get s j) \<and> request_frame_loop i s = (0, s)"
proof (induction i s rule: request_frame_loop.induct)
  case (1 i s)
  show ?case
  proof (cases "i < frames (pmem s)")
    case False
    then show ?thesis by (subst (2) request_frame_loop.simps) auto
  next
    case lt: True
    show ?thesis
    proof (cases "bm_get s i")
      case False
      then have "request_frame_loop i s = (idx_to_frame_ptr i, take_frame i s)"
        using lt by (subst request_frame_loop.simps) (simp add: take_frame_def Let_def)
      with False lt show ?thesis by auto
    next
      case True
      then have eq: "request_frame_loop i s = request_frame_loop (i + 1) s"
        using lt by (subst request_frame_loop.simps) simp
      have le: "i \<le> j \<longleftrightarrow> j = i \<or> i + 1 \<le> j" if "j < frames (pmem s)" for j
        using that lt unat_Suc_less [OF lt]
        by (auto simp: word_le_nat_alt word_less_nat_alt word_unat_eq_iff)
      have "\<not> \<not> bm_get s i" using True by simp
      from "1.IH" [OF lt this] show ?thesis
      proof (elim disjE exE conjE)
        assume "\<forall>j. i + 1 \<le> j \<and> j < frames (pmem s) \<longrightarrow> bm_get s j"
        with True le have "\<forall>j. i \<le> j \<and> j < frames (pmem s) \<longrightarrow> bm_get s j" by blast
        moreover assume "request_frame_loop (i + 1) s = (0, s)"
        ultimately show ?thesis unfolding eq by blast
      next
        fix k assume k: "i + 1 \<le> k" "k < frames (pmem s)" "\<not> bm_get s k"
          "\<forall>j. i + 1 \<le> j \<and> j < k \<longrightarrow> bm_get s j"
          "request_frame_loop (i + 1) s = (idx_to_frame_ptr k, take_frame k s)"
        have "bm_get s j" if "i \<le> j" "j < k" for j
          using that k(4) True le [of j] order_less_trans [OF that(2) k(2)] by blast
        moreover have "i \<le> k" using le [OF k(2)] k(1) by blast
        ultimately show ?thesis unfolding eq using k by blast
      qed
    qed
  qed
qed

text \<open>What a request does, in every state in which it does not panic.\<close>

lemma request_frame_cases:
  assumes "request_frame s = Inr (p, s')"
  obtains (frame) i where "last_free_idx (pmem s) \<le> i" "i < frames (pmem s)" "\<not> bm_get s i"
      "\<And>j. last_free_idx (pmem s) \<le> j \<Longrightarrow> j < i \<Longrightarrow> bm_get s j"
      "p = idx_to_frame_ptr i" "s' = take_frame i s"
    | (none) "\<And>j. last_free_idx (pmem s) \<le> j \<Longrightarrow> j < frames (pmem s) \<Longrightarrow> bm_get s j"
      "p = 0" "s' = s"
proof -
  have "request_frame_loop (last_free_idx (pmem s)) s = (p, s')"
    using assms by (auto simp: request_frame_def bind_res_Inr_iff)
  note eq = this
  from request_frame_loop_spec [of "last_free_idx (pmem s)" s] show ?thesis
  proof (elim disjE exE conjE)
    fix k assume "last_free_idx (pmem s) \<le> k" "k < frames (pmem s)" "\<not> bm_get s k"
      "\<forall>j. last_free_idx (pmem s) \<le> j \<and> j < k \<longrightarrow> bm_get s j"
      "request_frame_loop (last_free_idx (pmem s)) s = (idx_to_frame_ptr k, take_frame k s)"
    then show ?thesis using eq by (intro frame [of k]) auto
  next
    assume "\<forall>j. last_free_idx (pmem s) \<le> j \<and> j < frames (pmem s) \<longrightarrow> bm_get s j"
      "request_frame_loop (last_free_idx (pmem s)) s = (0, s)"
    then show ?thesis using eq by (intro none) auto
  qed
qed

lemma request_frame_Inr_iff:
  "(\<exists>p s'. request_frame s = Inr (p, s')) \<longleftrightarrow> free_frames (pmem s) > 0"
  by (auto simp: request_frame_def ASSERT_def)

interpretation fs: frame_source bm_get lock_frame free_frame "\<lambda>s. frames (pmem s)" pm_inv request_frame
proof
  fix s p s'
  assume s: "pm_inv s" "bm_get s 0" and req: "request_frame s = Inr (p, s')" "p \<noteq> 0"
  from req(1) show "pm_inv s' \<and> frames (pmem s') = frames (pmem s) \<and>
      (\<exists>i < frames (pmem s). p = i * FRAME_SZ \<and> \<not> bm_get s i \<and>
         (\<forall>j. bm_get s' j \<longleftrightarrow> j = i \<or> bm_get s j))"
  proof (cases rule: request_frame_cases)
    case (frame i)
    with s req show ?thesis
      by (auto simp: bm_get_take_frame pm_inv_take_frame idx_to_frame_ptr_def)
  qed (use req in simp)
next
  fix s s'
  assume s: "pm_inv s" "bm_get s 0" and req: "request_frame s = Inr (0, s')"
  from req show "s' = s"
  proof (cases rule: request_frame_cases)
    case (frame i)
    have "unat i < 2 ^ 52" using frame(2) s(1) by (simp add: pm_inv_def word_less_nat_alt)
    then have "i = 0"
      using frame(5) unat_frame_ptr [of i] by (simp add: idx_to_frame_ptr_def unat_eq_zero)
    with frame s show ?thesis by simp
  qed
qed (simp add: pm_inv_def)

text \<open>The manager writes no memory but its bitmap.\<close>

lemma lock_frame_ram_outside:
  "pm_inv s \<Longrightarrow> i < frames (pmem s) \<Longrightarrow> x \<notin> bm_span (bitmap (pmem s)) \<Longrightarrow>
     ram (lock_frame i s) x = ram s x"
  by (auto simp: lock_frame_def pm_inv_def intro: Bitmap_set_outside)

lemma free_frame_ram_outside:
  "pm_inv s \<Longrightarrow> i < frames (pmem s) \<Longrightarrow> x \<notin> bm_span (bitmap (pmem s)) \<Longrightarrow>
     ram (free_frame i s) x = ram s x"
  by (auto simp: free_frame_def pm_inv_def intro: Bitmap_unset_outside)

lemma request_frame_ram_outside:
  assumes "pm_inv s" and "request_frame s = Inr (p, s')" and "x \<notin> bm_span (bitmap (pmem s))"
  shows "ram s' x = ram s x"
  using assms(2)
proof (cases rule: request_frame_cases)
  case (frame i)
  with assms show ?thesis by (simp add: lock_frame_ram_outside)
qed simp

text \<open>What every sequence of locks and releases keeps.\<close>

definition pm_evolves :: "kst \<Rightarrow> kst \<Rightarrow> bool" where
  "pm_evolves s s' \<longleftrightarrow> pm_inv s' \<and> frames (pmem s') = frames (pmem s) \<and>
     bitmap (pmem s') = bitmap (pmem s) \<and> last_free_idx (pmem s') = last_free_idx (pmem s) \<and>
     (\<forall>x. x \<notin> bm_span (bitmap (pmem s)) \<longrightarrow> ram s' x = ram s x)"

lemma pm_evolves_refl: "pm_inv s \<Longrightarrow> pm_evolves s s"
  by (simp add: pm_evolves_def)

lemma pm_evolves_trans: "pm_evolves s t \<Longrightarrow> pm_evolves t u \<Longrightarrow> pm_evolves s u"
  by (simp add: pm_evolves_def)

lemma pm_evolves_lock_frame:
  "pm_evolves s t \<Longrightarrow> i < frames (pmem s) \<Longrightarrow> pm_evolves s (lock_frame i t)"
  by (simp add: pm_evolves_def pm_inv_lock_frame lock_frame_ram_outside)

lemma pm_evolves_free_frame:
  "pm_evolves s t \<Longrightarrow> i < frames (pmem s) \<Longrightarrow> pm_evolves s (free_frame i t)"
  by (simp add: pm_evolves_def pm_inv_free_frame free_frame_ram_outside)

section \<open>A run of frames\<close>

lemma kprintf_two_numbers:
  "\<exists>out'. kprintf (str ''%d, %d'' @ [10]) [VNum a, VNum b] out = Inr out'"
proof -
  let ?f = "str ''%d, %d'' @ [10]" and ?tx = "num_text 10 a @ str '', '' @ num_text 10 b @ [10]"
  have r: "render ?f False [VNum a, VNum b] = Some ?tx" by (simp add: str_def)
  have "length (num_text 10 a) \<le> 64" "length (num_text 10 b) \<le> 64"
    by (simp_all add: length_num_text)
  then have "length ?tx < 4096" by (simp add: str_def)
  then have "printf_loop ?f False [VNum a, VNum b] t [] = Inr ?tx" for t
    using printf_loop_render [OF r, of "[]" t] by simp
  moreover have "length ?f < 2 ^ 16" by (simp add: str_def)
  ultimately show ?thesis unfolding kprintf_def printf_def by simp
qed

lemma lock_upto_spec:
  assumes "pm_inv s" and "a \<le> b" and "b < frames (pmem s)"
  shows "\<exists>s'. lock_upto a b s = Inr s' \<and> pm_evolves s s' \<and>
    (\<forall>j. bm_get s' j \<longleftrightarrow> a \<le> j \<and> j \<le> b \<or> bm_get s j)"
  using assms
proof (induction "unat b - unat a" arbitrary: a s)
  case 0
  then have ab: "a = b" by (simp add: word_le_nat_alt word_unat_eq_iff)
  have "a + 1 \<noteq> 0" using 0 ab by (intro less_imp_Suc_nonzero) auto
  moreover have "\<not> a + 1 \<le> b"
    using ab 0 unat_Suc_less [of b] by (simp add: word_le_nat_alt)
  ultimately have "lock_upto a b s = Inr (lock_frame a s)"
    using ab by (subst lock_upto.simps, subst lock_upto.simps) simp
  then show ?case
    using 0 ab by (auto simp: pm_evolves_lock_frame pm_evolves_refl bm_get_lock_frame)
next
  case (Suc d)
  then have lt: "a < b" by (simp add: word_less_nat_alt)
  let ?s = "lock_frame a s"
  have a: "a < frames (pmem s)" using lt Suc.prems by auto
  have ev: "pm_evolves s ?s" using Suc.prems a by (intro pm_evolves_lock_frame pm_evolves_refl)
  have "\<exists>s'. lock_upto (a + 1) b ?s = Inr s' \<and> pm_evolves ?s s' \<and>
    (\<forall>j. bm_get s' j \<longleftrightarrow> a + 1 \<le> j \<and> j \<le> b \<or> bm_get ?s j)"
    using Suc lt a by (intro Suc.hyps) (auto simp: unat_Suc_less pm_inv_lock_frame inc_le)
  moreover have "lock_upto a b s = lock_upto (a + 1) b ?s"
    using lt less_imp_Suc_nonzero [OF lt] by (subst lock_upto.simps) auto
  moreover have "a + 1 \<le> j \<and> j \<le> b \<or> j = a \<longleftrightarrow> a \<le> j \<and> j \<le> b" for j
    using lt unat_Suc_less [OF lt]
    by (auto simp: word_le_nat_alt word_less_nat_alt word_unat_eq_iff)
  ultimately show ?case
    using pm_evolves_trans [OF ev] by (auto simp: bm_get_lock_frame)
qed

text \<open>\<open>n\<close> consecutive free frames from index \<open>a\<close> on.\<close>

definition free_run :: "kst \<Rightarrow> nat \<Rightarrow> nat \<Rightarrow> bool" where
  "free_run s a n \<longleftrightarrow> (\<forall>j. a \<le> unat j \<and> unat j < a + n \<longrightarrow> \<not> bm_get s j)"

text \<open>The scan at index \<open>i\<close>: the current run \<open>a .. i - 1\<close> is free, no run of \<open>n\<close> frames starts
  at an earlier index from \<open>lo\<close> on (index 0 does not count: 0 stands for no run).\<close>

definition no_run_before :: "kst \<Rightarrow> nat \<Rightarrow> nat \<Rightarrow> nat \<Rightarrow> bool" where
  "no_run_before s lo n k \<longleftrightarrow> (\<forall>j. lo \<le> j \<and> 0 < j \<and> j < k \<longrightarrow> \<not> free_run s j n)"

definition scan_inv :: "kst \<Rightarrow> nat \<Rightarrow> nat \<Rightarrow> u64 \<Rightarrow> u64 \<Rightarrow> u64 \<Rightarrow> bool" where
  "scan_inv s lo n i a b \<longleftrightarrow>
     lo \<le> unat i \<and>
     (a \<noteq> 0 \<longrightarrow> lo \<le> unat a \<and> a < i \<and> b = i - 1 \<and> unat i - unat a \<le> n \<and> free_run s (unat a) (unat i - unat a)) \<and>
     no_run_before s lo n (if a = 0 then unat i else unat a)"

text \<open>The outcome: no run at all, the first run of \<open>n\<close> frames, or a shorter one that ends with the
  last frame.\<close>

definition scan_result :: "kst \<Rightarrow> nat \<Rightarrow> nat \<Rightarrow> u64 \<Rightarrow> u64 \<Rightarrow> bool" where
  "scan_result s lo n a b \<longleftrightarrow>
     (if a = 0 then no_run_before s lo n (unat (frames (pmem s)))
      else lo \<le> unat a \<and> a \<le> b \<and> b < frames (pmem s) \<and> free_run s (unat a) (unat b - unat a + 1) \<and>
        no_run_before s lo n (unat a) \<and>
        (unat b - unat a + 1 = n \<or>
         unat b + 1 = unat (frames (pmem s)) \<and> unat b - unat a + 1 < n))"

lemma free_run_Suc:
  "free_run s a (Suc n) \<longleftrightarrow> free_run s a n \<and> (\<forall>j. unat j = a + n \<longrightarrow> \<not> bm_get s j)"
  by (auto simp: free_run_def less_Suc_eq)

lemma free_run_locked:
  assumes "bm_get s i" and "k \<le> unat i" and "unat i < k + n"
  shows "\<not> free_run s k n"
  using assms by (auto simp: free_run_def)

lemma scan_inv_extend:
  assumes "scan_inv s lo n i a b" and "a \<noteq> 0" and "\<not> bm_get s i" and "i < frames (pmem s)"
    and "unat i - unat a \<noteq> n"
  shows "scan_inv s lo n (i + 1) a i"
proof -
  have a: "a < i" "unat i - unat a \<le> n" "free_run s (unat a) (unat i - unat a)"
    using assms(1,2) by (auto simp: scan_inv_def)
  have i1: "unat (i + 1) = Suc (unat i)" using assms(4) by (rule unat_Suc_less)
  have "free_run s (unat a) (Suc (unat i - unat a))"
    using a assms(3) by (auto simp: free_run_Suc word_less_nat_alt word_unat_eq_iff [symmetric])
  with a i1 assms show ?thesis
    by (auto simp: scan_inv_def word_less_nat_alt Suc_diff_le)
qed

lemma scan_inv_reset:
  assumes "scan_inv s lo n i a b" and "bm_get s i" and "i < frames (pmem s)" and "0 < n"
    and "a \<noteq> 0 \<Longrightarrow> unat i - unat a \<noteq> n"
  shows "scan_inv s lo n (i + 1) 0 b"
proof -
  have "\<not> free_run s j n" if "lo \<le> j" "0 < j" "j < Suc (unat i)" for j
  proof (cases "j < (if a = 0 then unat i else unat a)")
    case True
    then show ?thesis using that assms(1) by (auto simp: scan_inv_def no_run_before_def)
  next
    case False
    have "unat i < j + n"
      using False assms that by (auto simp: scan_inv_def split: if_splits)
    then show ?thesis using assms(2) that by (intro free_run_locked) auto
  qed
  then show ?thesis
    using unat_Suc_less [OF assms(3)] assms(1) by (auto simp: scan_inv_def no_run_before_def)
qed

lemma scan_inv_start:
  assumes "scan_inv s lo n i 0 b" and "\<not> bm_get s i" and "i < frames (pmem s)" and "0 < n"
  shows "scan_inv s lo n (i + 1) i i"
proof -
  have i1: "unat (i + 1) = Suc (unat i)" using assms(3) by (rule unat_Suc_less)
  have "free_run s (unat i) 1"
    using assms(2) by (auto simp: free_run_def less_Suc_eq_le word_unat_eq_iff [symmetric])
  with i1 assms show ?thesis
    by (auto simp: scan_inv_def word_less_nat_alt no_run_before_def)
qed

lemma scan_result_exact:
  assumes "scan_inv s lo n i a b" and "a \<noteq> 0" and "i < frames (pmem s)" and "unat i - unat a = n"
  shows "scan_result s lo n a (i - 1)"
proof -
  have "lo \<le> unat a" "a < i" "free_run s (unat a) n" "no_run_before s lo n (unat a)"
    using assms by (auto simp: scan_inv_def)
  moreover from this have "unat (i - 1) = unat i - 1"
    by (intro unat_sub1) (auto simp: word_less_nat_alt)
  ultimately show ?thesis
    using assms by (auto simp: scan_result_def word_less_nat_alt word_le_nat_alt Suc_diff_Suc)
qed

lemma scan_result_end:
  assumes "scan_inv s lo n (frames (pmem s)) a b"
  shows "scan_result s lo n a b"
proof (cases "a = 0")
  case True
  with assms show ?thesis by (simp add: scan_inv_def scan_result_def)
next
  case False
  let ?f = "frames (pmem s)"
  have a: "lo \<le> unat a" "a < ?f" "b = ?f - 1" "unat ?f - unat a \<le> n" "free_run s (unat a) (unat ?f - unat a)"
    "no_run_before s lo n (unat a)"
    using assms False by (auto simp: scan_inv_def)
  then have "unat b = unat ?f - 1"
    by (simp add: unat_sub1 word_less_nat_alt)
  with a False show ?thesis
    by (auto simp: scan_result_def word_less_nat_alt word_le_nat_alt Suc_diff_Suc)
qed

lemma request_frames_scan_spec:
  assumes "scan_inv s lo (unat number) i a b" and "i \<le> frames (pmem s)" and "0 < number"
  shows "case request_frames_scan number i s a b of (a', b') \<Rightarrow> scan_result s lo (unat number) a' b'"
  using assms
proof (induction number i s a b rule: request_frames_scan.induct)
  case (1 number i s a b)
  let ?n = "unat number"
  note unf = request_frames_scan.simps [of number i s a b]
  show ?case
  proof (cases "i < frames (pmem s)")
    case False
    then have "i = frames (pmem s)" using "1.prems"(2) by simp
    then show ?thesis
      using unf scan_result_end [of s lo ?n a b] "1.prems"(1) by simp
  next
    case lt: True
    have le: "i + 1 \<le> frames (pmem s)" using lt by (rule inc_le)
    have n0: "0 < ?n" using "1.prems"(3) by (simp add: word_less_nat_alt)
    have hit: "i - a = number \<longleftrightarrow> unat i - unat a = ?n" if "a \<noteq> 0"
      using that "1.prems"(1) by (auto simp: scan_inv_def word_unat_eq_iff unat_minus_le)
    consider (hit) "a > 0" "i - a = number" | (ext) "a > 0" "i - a \<noteq> number" "\<not> bm_get s i"
      | (reset) "\<not> (a > 0 \<and> i - a = number)" "bm_get s i" | (start) "a = 0" "\<not> bm_get s i"
      by (auto simp: word_gt_0)
    then show ?thesis
    proof cases
      case hit
      then show ?thesis
        using unf lt scan_result_exact [OF "1.prems"(1) _ lt] \<open>a \<noteq> 0 \<Longrightarrow> _\<close> by (simp add: word_gt_0)
    next
      case ext
      have "scan_inv s lo ?n (i + 1) a i"
        using ext hit "1.prems"(1) lt by (intro scan_inv_extend) (auto simp: word_gt_0)
      from "1.IH"(1) [OF lt _ _ this le "1.prems"(3)] ext show ?thesis
        using unf lt by simp
    next
      case reset
      have "scan_inv s lo ?n (i + 1) 0 b"
        using reset hit "1.prems"(1) lt n0 by (intro scan_inv_reset) (auto simp: word_gt_0)
      from "1.IH"(2) [OF lt _ _ _ this le "1.prems"(3)] reset show ?thesis
        using unf lt by auto
    next
      case start
      have "scan_inv s lo ?n (i + 1) i i"
        using start "1.prems"(1) lt n0 by (intro scan_inv_start) auto
      from "1.IH"(3) [OF lt _ _ _ _ this le "1.prems"(3)] start show ?thesis
        using unf lt by simp
    qed
  qed
qed


lemma no_run_beforeD:
  "no_run_before s lo n k \<Longrightarrow> lo \<le> j \<Longrightarrow> 0 < j \<Longrightarrow> free_run s j n \<Longrightarrow> k \<le> j"
  by (auto simp: no_run_before_def not_less [symmetric])

lemma scan_inv_init: "scan_inv s (unat i) n i 0 0"
  by (auto simp: scan_inv_def no_run_before_def)

lemma request_frames_scan_result:
  assumes "0 < number" and "request_frames_scan number (last_free_idx (pmem s)) s 0 0 = (a, b)"
  shows "scan_result s (unat (last_free_idx (pmem s))) (unat number) a b"
proof (cases "last_free_idx (pmem s) \<le> frames (pmem s)")
  case True
  from request_frames_scan_spec [OF scan_inv_init this assms(1)] assms(2) show ?thesis by simp
next
  case False
  then have "request_frames_scan number (last_free_idx (pmem s)) s 0 0 = (0, 0)"
    by (subst request_frames_scan.simps) auto
  with assms False show ?thesis
    by (auto simp: scan_result_def no_run_before_def word_le_nat_alt)
qed

text \<open>The run \<open>a .. a + m - 1\<close> has become locked, and nothing else has changed.\<close>

definition run_taken :: "nat \<Rightarrow> nat \<Rightarrow> kst \<Rightarrow> kst \<Rightarrow> bool" where
  "run_taken a m s s' \<longleftrightarrow> pm_evolves s s' \<and>
     (\<forall>j. bm_get s' j \<longleftrightarrow> a \<le> unat j \<and> unat j < a + m \<or> bm_get s j)"

text \<open>The range test of the source is on \<^verbatim>\<open>free_start_idx - free_end_idx\<close>, which is 0 for one frame
  and wraps around to a huge number for more.\<close>

lemma run_length_test:
  assumes "a \<le> (b :: u64)" and "unat b < 2 ^ 52" and "0 < number" and "unat number \<le> 2 ^ 52"
  shows "number \<le> a - b \<longleftrightarrow> a \<noteq> b"
proof (cases "a = b")
  case False
  have "unat (a - b) = 2 ^ 64 - (unat b - unat a)"
    using assms(1) False by (intro unat_minus_gt) (simp add: order_less_le)
  then show ?thesis using False assms by (simp add: word_le_nat_alt)
qed (use assms in \<open>simp add: word_gt_0\<close>)

lemma lock_run_taken:
  assumes "pm_inv s" and "a \<le> b" and "b < frames (pmem s)"
  shows "\<exists>s'. lock_upto a b (s\<lparr>kout := out\<rparr>) = Inr s' \<and>
    run_taken (unat a) (unat b - unat a + 1) s s'"
proof -
  let ?s = "s\<lparr>kout := out\<rparr>"
  have inv: "pm_inv ?s" using assms(1) by (simp add: pm_inv_def bm_get_def)
  have bg: "bm_get ?s j = bm_get s j" for j by (simp add: bm_get_def)
  have "a \<le> j \<and> j \<le> b \<longleftrightarrow> unat a \<le> unat j \<and> unat j < unat a + (unat b - unat a + 1)" for j
    using assms(2) by (auto simp: word_le_nat_alt)
  with lock_upto_spec [OF inv assms(2)] assms(3) show ?thesis
    by (auto simp: run_taken_def bg pm_evolves_def)
qed

lemma request_frames_eq:
  assumes "pm_inv s" and "0 < number" and "unat number \<le> 2 ^ 52"
    and "request_frames_scan number (last_free_idx (pmem s)) s 0 0 = (a, b)"
  shows "if a = 0 then request_frames number s = Inl (Assert ''free_start_idx > 0'')
    else if a = b then
      request_frames number s = Inl (Assert ''free_start_idx - free_end_idx >= number'')
    else \<exists>s'. request_frames number s = Inr (idx_to_frame_ptr a, s') \<and>
      run_taken (unat a) (unat b - unat a + 1) s s'"
proof (cases "a = 0")
  case True
  with assms show ?thesis by (simp add: request_frames_def)
next
  case False
  with request_frames_scan_result [OF assms(2,4)]
  have ab: "a \<le> b" "b < frames (pmem s)" by (auto simp: scan_result_def)
  have b: "unat b < 2 ^ 52" using ab(2) assms(1) by (simp add: pm_inv_def word_less_nat_alt)
  have b0: "b > 0" "a > 0" using False ab(1) by (auto simp: word_gt_0)
  obtain out' where out': "kprintf (str ''%d, %d'' @ [10]) [VNum a, VNum b] (kout s) = Inr out'"
    using kprintf_two_numbers by blast
  obtain s' where "lock_upto a b (s\<lparr>kout := out'\<rparr>) = Inr s'"
      "run_taken (unat a) (unat b - unat a + 1) s s'"
    using lock_run_taken [OF assms(1) ab] by blast
  then show ?thesis
    using b0 False assms(2,4) out' run_length_test [OF ab(1) b assms(2,3)]
    by (cases "a = b") (simp_all add: request_frames_def word_gt_0)
qed

section \<open>Initialisation\<close>

text \<open>The frames a descriptor covers, and those of all usable descriptors.\<close>

definition desc_frames :: "EfiMMapDesc \<Rightarrow> u64 set" where
  "desc_frames d = {j. \<exists>k < d_pages d. j = ptr_to_frame_idx (d_paddr d) + k}"

definition usable_frames :: "mem \<Rightarrow> MemoryMap \<Rightarrow> u64 \<Rightarrow> u64 set" where
  "usable_frames m mm n = {j. \<exists>i < n. is_usable_memory (EfiMMapDesc_at m (get_desc mm i)) \<and>
     j \<in> desc_frames (EfiMMapDesc_at m (get_desc mm i))}"

text \<open>A descriptor lies inside the \<open>n\<close> frames of memory.\<close>

definition desc_ok :: "u64 \<Rightarrow> EfiMMapDesc \<Rightarrow> bool" where
  "desc_ok n d \<longleftrightarrow> unat (d_paddr d) div 4096 + unat (d_pages d) \<le> unat n"

lemma unat_frame_idx: "unat (ptr_to_frame_idx p) = unat p div 4096"
  by (simp add: ptr_to_frame_idx_def FRAME_SZ_def unat_div)

lemma frame_idx_add:
  assumes "unat p div 4096 + unat k < 2 ^ 52"
  shows "ptr_to_frame_idx (p + k * FRAME_SZ) = ptr_to_frame_idx p + k"
proof -
  have k: "unat (k * FRAME_SZ) = unat k * 4096" using assms by (intro unat_frame_ptr) simp
  have "unat p < (unat p div 4096 + 1) * 4096" by simp
  with assms have lt: "unat p + unat k * 4096 < 2 ^ 64" by simp
  then have "unat (p + k * FRAME_SZ) = unat p + unat k * 4096"
    using k by (simp add: unat_word_ariths)
  moreover have "unat (ptr_to_frame_idx p + k) = unat p div 4096 + unat k"
    using assms unat_frame_idx [of p] by (simp add: unat_word_ariths)
  ultimately show ?thesis
    by (simp add: word_unat_eq_iff unat_frame_idx)
qed

lemma pm_inv_frames_lt: "pm_inv s \<Longrightarrow> i < frames (pmem s) \<Longrightarrow> unat i < 2 ^ 52"
  by (simp add: pm_inv_def word_less_nat_alt)

lemma free_desc_frames_spec:
  assumes "pm_inv s" and "span desc 40 \<inter> bm_span (bitmap (pmem s)) = {}"
    and "desc_ok (frames (pmem s)) (EfiMMapDesc_at (ram s) desc)"
  shows "pm_evolves s (free_desc_frames desc s) \<and>
    (\<forall>j. bm_get (free_desc_frames desc s) j \<longleftrightarrow>
       j \<notin> desc_frames (EfiMMapDesc_at (ram s) desc) \<and> bm_get s j)"
proof -
  let ?d = "EfiMMapDesc_at (ram s) desc"
  define I where "I k t \<longleftrightarrow> pm_evolves s t \<and>
    (\<forall>j. bm_get t j \<longleftrightarrow> (\<nexists>i. i < k \<and> j = ptr_to_frame_idx (d_paddr ?d) + i) \<and> bm_get s j)" for k t
  have desc: "EfiMMapDesc_at (ram t) desc = ?d" if "I k t" for k t
    using that assms(2) by (intro EfiMMapDesc_at_cong) (auto simp: I_def pm_evolves_def)
  have "I (d_pages ?d) (free_desc_frames desc s)"
    unfolding free_desc_frames_def
  proof (rule for_up_rule [where I = I])
    show "I 0 s" using assms(1) by (simp add: I_def pm_evolves_refl)
    fix k t assume k: "k < d_pages ?d" and I: "I k t"
    let ?i = "ptr_to_frame_idx (d_paddr ?d) + k"
    have lt: "unat (d_paddr ?d) div 4096 + unat k < unat (frames (pmem s))"
      using k assms(3) by (simp add: desc_ok_def word_less_nat_alt)
    have small: "unat (frames (pmem s)) \<le> 2 ^ 52" using assms(1) by (simp add: pm_inv_def)
    have eq: "ptr_to_frame_idx (d_paddr ?d + k * FRAME_SZ) = ?i"
      using lt small by (intro frame_idx_add) simp
    have "?i < frames (pmem s)"
      using lt small by (simp add: word_less_nat_alt unat_word_ariths unat_frame_idx)
    then have "pm_evolves s (free_frame ?i t)" using I by (auto simp: I_def intro: pm_evolves_free_frame)
    then show "I (k + 1) (free_frame (ptr_to_frame_idx
        (d_paddr (EfiMMapDesc_at (ram t) desc) + k * FRAME_SZ)) t)"
      unfolding desc [OF I] eq using I by (auto simp: I_def bm_get_free_frame less_plus1_iff [OF k])
  qed (simp_all add: desc)
  then show ?thesis by (auto simp: I_def desc_frames_def)
qed

text \<open>The descriptor table is outside the bitmap and describes existing frames only.\<close>

definition map_ok :: "MemoryMap \<Rightarrow> kst \<Rightarrow> bool" where
  "map_ok mm s \<longleftrightarrow> mm_span mm \<inter> bm_span (bitmap (pmem s)) = {} \<and>
     (\<forall>i < mm_entries mm. is_usable_memory (EfiMMapDesc_at (ram s) (get_desc mm i)) \<longrightarrow>
        desc_ok (frames (pmem s)) (EfiMMapDesc_at (ram s) (get_desc mm i)))"

lemma free_usable_frames_spec:
  assumes "pm_inv s" and "map_ok mm s"
  shows "pm_evolves s (free_usable_frames mm s) \<and>
    (\<forall>j. bm_get (free_usable_frames mm s) j \<longleftrightarrow>
       j \<notin> usable_frames (ram s) mm (mm_entries mm) \<and> bm_get s j)"
proof -
  define I where "I k t \<longleftrightarrow> pm_evolves s t \<and>
    (\<forall>j. bm_get t j \<longleftrightarrow> j \<notin> usable_frames (ram s) mm k \<and> bm_get s j)" for k t
  have "I (mm_entries mm) (free_usable_frames mm s)"
    unfolding free_usable_frames_def Let_def
  proof (rule for_up_rule [where I = I])
    show "I 0 s" using assms(1) by (simp add: I_def pm_evolves_refl usable_frames_def)
    fix k t assume k: "k < mm_entries mm" and I: "I k t"
    let ?p = "get_desc mm k"
    have ev: "pm_evolves s t" using I by (simp add: I_def)
    have desc: "EfiMMapDesc_at (ram t) ?p = EfiMMapDesc_at (ram s) ?p"
      using ev assms(2) k by (intro EfiMMapDesc_at_mm_cong) (auto simp: pm_evolves_def map_ok_def)
    have usable: "usable_frames (ram s) mm (k + 1) = usable_frames (ram s) mm k \<union>
        (if is_usable_memory (EfiMMapDesc_at (ram s) ?p) then desc_frames (EfiMMapDesc_at (ram s) ?p) else {})"
      by (auto simp: usable_frames_def less_plus1_iff [OF k])
    show "I (k + 1) (if is_usable_memory (EfiMMapDesc_at (ram t) ?p) then free_desc_frames ?p t else t)"
    proof (cases "is_usable_memory (EfiMMapDesc_at (ram s) ?p)")
      case False
      then show ?thesis using I by (simp add: desc I_def usable)
    next
      case True
      have "span ?p 40 \<subseteq> mm_span mm" using k by (auto simp: mm_span_def)
      then have "span ?p 40 \<inter> bm_span (bitmap (pmem t)) = {}"
        using assms(2) ev by (auto simp: map_ok_def pm_evolves_def)
      moreover have "desc_ok (frames (pmem t)) (EfiMMapDesc_at (ram t) ?p)"
        using assms(2) ev k True by (simp add: map_ok_def pm_evolves_def desc)
      ultimately show ?thesis
        using free_desc_frames_spec [of t ?p] I True pm_evolves_trans [OF ev]
        by (auto simp: I_def desc usable pm_evolves_def)
    qed
  qed simp_all
  then show ?thesis by (simp add: I_def)
qed


text \<open>The pool contract again, now for the relation to a starting state: the loops that lock
  frames keep everything \<open>pm_evolves\<close> promises.\<close>

interpretation fe: frame_pool bm_get lock_frame free_frame "\<lambda>s. frames (pmem s)" "pm_evolves s0" for s0
proof
  fix s i assume s: "pm_evolves s0 s" "i < frames (pmem s)"
  then have "i < frames (pmem s0)" by (simp add: pm_evolves_def)
  with s(1) show "pm_evolves s0 (lock_frame i s)" "pm_evolves s0 (free_frame i s)"
    by (rule pm_evolves_lock_frame, rule pm_evolves_free_frame)
qed (simp_all add: bm_get_lock_frame bm_get_free_frame)

text \<open>The frames the constructor locks after releasing the usable ones: frame 0, the frame of the
  stack, and the frames from the one of the bitmap \<^emph>\<open>object\<close> on.\<close>

definition reserved_frame :: "u64 \<Rightarrow> u64 \<Rightarrow> u64 \<Rightarrow> u64 \<Rightarrow> bool" where
  "reserved_frame this n stack j \<longleftrightarrow> j = 0 \<or> j = ptr_to_frame_idx stack \<or>
     (\<exists>k < (n + 7) div 8 div FRAME_SZ. j = ptr_to_frame_idx (this + 32) + k)"

text \<open>The boot environment the constructor needs: a memory map whose largest segment holds the
  bitmap and does not overlap the map itself, usable descriptors inside memory, the stack and
  the kernel image inside memory.\<close>

definition boot_ok :: "u64 \<Rightarrow> MemoryMap \<Rightarrow> MemoryData \<Rightarrow> u64 \<Rightarrow> mem \<Rightarrow> bool" where
  "boot_ok this mm memory stack m \<longleftrightarrow>
     (let n = get_page_frames_number m mm; (sz, seg) = get_largest_free_seg m mm memory 0 in
      0 < mm_entries mm \<and> 0 < n \<and> n div 8 < sz \<and>
      mm_span mm \<inter> span seg (unat ((n + 7) div 8)) = {} \<and>
      (\<forall>i < mm_entries mm. is_usable_memory (EfiMMapDesc_at m (get_desc mm i)) \<longrightarrow>
         desc_ok n (EfiMMapDesc_at m (get_desc mm i))) \<and>
      ptr_to_frame_idx stack < n \<and>
      unat (ptr_to_frame_idx (this + 32)) + unat ((n + 7) div 8 div FRAME_SZ) \<le> unat n)"

lemma frames_number_small: "unat (get_page_frames_number m mm) < 2 ^ 52"
proof -
  have "unat (x :: u64) div 4096 < 2 ^ 52" for x using u64_bound [of x] by simp
  then show ?thesis by (simp add: get_page_frames_number_def FRAME_SZ_def unat_div)
qed

lemma frames_number_cong:
  assumes "\<And>x. x \<in> mm_span mm \<Longrightarrow> m' x = m x" and "0 < mm_entries mm"
  shows "get_page_frames_number m' mm = get_page_frames_number m mm"
proof -
  have "mm_entries mm - 1 < mm_entries mm"
    using assms(2) unat_sub1 [of "mm_entries mm"] by (simp add: word_less_nat_alt)
  then show ?thesis
    using EfiMMapDesc_at_mm_cong [OF assms(1)]
    by (simp add: get_page_frames_number_def get_entire_memory_size_def)
qed

text \<open>The state at the start of the constructor body.\<close>

definition pm_start :: "u64 \<Rightarrow> u64 \<Rightarrow> u64 \<Rightarrow> mem \<Rightarrow> u8 list \<Rightarrow> kst" where
  "pm_start this seg n m out =
     \<lparr>ram = snd (Bitmap_init (this + 32) seg n m),
      pmem = \<lparr>last_free_idx = 0, free_frames = n, locked_frames = 0, frames = n,
              bitmap = fst (Bitmap_init (this + 32) seg n m)\<rparr>,
      kout = out\<rparr>"

lemma pm_start_clear:
  assumes "unat n < 2 ^ 52" and "j < n"
  shows "\<not> bm_get (pm_start this seg n m out) j"
  using Bitmap_init_clear [OF _ prod.collapse [symmetric] assms(2), of "this + 32" seg m] assms(1)
  by (simp add: bm_get_def pm_start_def)

lemma pm_inv_start:
  assumes "unat n < 2 ^ 52"
  shows "pm_inv (pm_start this seg n m out)"
proof -
  have "{i. i < n \<and> bm_get (pm_start this seg n m out) i} = {}"
    using pm_start_clear [OF assms] by auto
  moreover have "bm_holds (fst (Bitmap_init (this + 32) seg n m)) n"
    using assms by (intro Bitmap_init_holds [OF _ prod.collapse [symmetric]]) simp
  ultimately show ?thesis using assms by (simp add: pm_inv_def pm_start_def)
qed

text \<open>The body of the constructor, from the state in which all frames count as free.\<close>

definition pm_setup :: "MemoryMap \<Rightarrow> u64 \<Rightarrow> kst \<Rightarrow> kst" where
  "pm_setup mm stack s =
     lock_bitmap_frames (lock_frame (ptr_to_frame_idx stack) (lock_frame 0
       (free_usable_frames mm (for_up 0 (\<lambda>s. frames (pmem s)) lock_frame s))))"

lemma PMem_init_unfold:
  assumes "get_largest_free_seg m mm memory 0 = (sz, seg)" and "n = get_page_frames_number m mm"
    and "0 < n" and "n div 8 < sz" and "0 < mm_entries mm"
    and "mm_span mm \<inter> span seg (unat ((n + 7) div 8)) = {}"
  shows "PMem_init this mm memory stack m out =
    (let s = pm_setup mm stack (pm_start this seg n m out) in
     bind_res (ASSERT ''this->locked_frames > 0'' (locked_frames (pmem s) > 0)) (\<lambda>_.
     bind_res (ASSERT ''this->free_frames > 0'' (free_frames (pmem s) > 0)) (\<lambda>_.
     bind_res (ASSERT ''this->__bitmap.get(0) == true'' (bm_get s 0)) (\<lambda>_. Inr s))))"
proof -
  obtain b m1 where b: "Bitmap_init (this + 32) seg n m = (b, m1)" by fastforce
  have m1: "m1 = memset m seg 0 ((n + 7) div 8)" using b by (simp add: Bitmap_init_def Let_def)
  have "get_page_frames_number m1 mm = n"
    unfolding m1 assms(2)
    by (rule frames_number_cong) (use assms in \<open>auto simp: memset_apply span_iff disjoint_iff\<close>)
  moreover have "0 < sz" using assms(4) by (auto simp: word_less_nat_alt)
  ultimately show ?thesis
    using assms(1-4) b
    by (simp add: PMem_init_def PMem_init_bitmap_def pm_setup_def pm_start_def Let_def)
qed

lemma pm_setup_spec:
  assumes inv: "pm_inv s" and mm: "map_ok mm s" and n: "0 < frames (pmem s)"
    and stack: "ptr_to_frame_idx stack < frames (pmem s)"
    and size: "bm_size (bitmap (pmem s)) = (frames (pmem s) + 7) div 8"
    and obj: "bm_public_buf (bitmap (pmem s)) = this + 32"
      "unat (ptr_to_frame_idx (this + 32)) + unat ((frames (pmem s) + 7) div 8 div FRAME_SZ)
        \<le> unat (frames (pmem s))"
  shows "pm_evolves s (pm_setup mm stack s) \<and> (\<forall>j < frames (pmem s). bm_get (pm_setup mm stack s) j \<longleftrightarrow>
    j \<notin> usable_frames (ram s) mm (mm_entries mm) \<or> reserved_frame this (frames (pmem s)) stack j)"
proof -
  let ?n = "frames (pmem s)" and ?start = "ptr_to_frame_idx (this + 32)"
  let ?k = "(?n + 7) div 8 div FRAME_SZ"
  define s1 where "s1 = for_up 0 (\<lambda>s. frames (pmem s)) lock_frame s"
  define s2 where "s2 = free_usable_frames mm s1"
  define s4 where "s4 = lock_frame (ptr_to_frame_idx stack) (lock_frame 0 s2)"
  have s1: "pm_evolves s s1" "bm_get s1 j \<longleftrightarrow> j < ?n \<or> bm_get s j" for j
    using fe.lock_run_counter [OF pm_evolves_refl [OF inv]] by (simp_all add: s1_def)
  have agree: "ram s1 x = ram s x" if "x \<in> mm_span mm" for x
    using that s1(1) mm by (auto simp: pm_evolves_def map_ok_def)
  note desc = EfiMMapDesc_at_mm_cong [OF agree]
  have mm1: "map_ok mm s1"
    using mm s1(1) desc by (simp add: map_ok_def pm_evolves_def)
  have uf: "usable_frames (ram s1) mm (mm_entries mm) = usable_frames (ram s) mm (mm_entries mm)"
    using desc by (auto simp: usable_frames_def)
  have s2: "pm_evolves s s2" "bm_get s2 j \<longleftrightarrow> j \<notin> usable_frames (ram s) mm (mm_entries mm) \<and> bm_get s1 j" for j
    using free_usable_frames_spec [OF _ mm1] s1(1) pm_evolves_trans [OF s1(1)]
    by (simp_all add: s2_def uf pm_evolves_def)
  have s4: "pm_evolves s s4"
    unfolding s4_def using s2(1) n stack by (intro pm_evolves_lock_frame)
  have "?start + i < frames (pmem s4)" if "i < ?k" for i
  proof -
    have "unat ?start + unat i < unat ?n" using that obj(2) by (simp add: word_less_nat_alt)
    then show ?thesis
      using s4 u64_bound [of ?n] by (simp add: pm_evolves_def word_less_nat_alt unat_word_ariths)
  qed
  from fe.lock_run [OF s4 this]
  have "pm_evolves s (for_up 0 (\<lambda>_. ?k) (\<lambda>i. lock_frame (?start + i)) s4) \<and>
    (\<forall>j. bm_get (for_up 0 (\<lambda>_. ?k) (\<lambda>i. lock_frame (?start + i)) s4) j \<longleftrightarrow>
       (\<exists>i < ?k. j = ?start + i) \<or> bm_get s4 j)" by simp
  moreover have "pm_setup mm stack s = for_up 0 (\<lambda>_. ?k) (\<lambda>i. lock_frame (?start + i)) s4"
    using s4 size obj(1)
    by (simp add: pm_setup_def s4_def s2_def s1_def lock_bitmap_frames_def Bitmap_get_mem_size_def
        pm_evolves_def)
  ultimately show ?thesis
    using s2(2) s1(2) by (auto simp: s4_def bm_get_lock_frame reserved_frame_def)
qed




section \<open>Properties\<close>

text \<open>Two small memories: sixteen free frames, and the same with frame 5 locked.\<close>

definition pm_example :: kst where
  "pm_example = pm_start 0 0x1000 16 (\<lambda>_. 0) []"

lemma pm_example_props:
  "pm_inv pm_example" "frames (pmem pm_example) = 16" "last_free_idx (pmem pm_example) = 0"
  "free_frames (pmem pm_example) = 16" "j < 16 \<Longrightarrow> \<not> bm_get pm_example j"
  using pm_start_clear [of 16 j] by (auto simp: pm_example_def pm_inv_start) (simp_all add: pm_start_def)

lemma pm_example_scan:
  "request_frames_scan 3 (last_free_idx (pmem pm_example)) pm_example 0 0 = (1, 3)"
  by code_simp

text \<open>
  C12: a request for one frame, while the counter of free frames is positive, returns the first
  free frame from \<^verbatim>\<open>__last_free_idx\<close> on; that frame becomes locked and the new search start, no
  other frame changes state, no memory outside the bitmap is written and the invariant is kept.
\<close>

theorem request_frame_first_free:
  assumes "pm_inv s" and "last_free_idx (pmem s) \<le> k" and "k < frames (pmem s)" and "\<not> bm_get s k"
    and "0 < free_frames (pmem s)"
  shows "\<exists>i s'. request_frame s = Inr (idx_to_frame_ptr i, s') \<and>
    last_free_idx (pmem s) \<le> i \<and> i \<le> k \<and> \<not> bm_get s i \<and>
    (\<forall>j. last_free_idx (pmem s) \<le> j \<and> j < i \<longrightarrow> bm_get s j) \<and>
    pm_inv s' \<and> last_free_idx (pmem s') = i \<and> (\<forall>j. bm_get s' j \<longleftrightarrow> j = i \<or> bm_get s j) \<and>
    (\<forall>x. x \<notin> bm_span (bitmap (pmem s)) \<longrightarrow> ram s' x = ram s x)"
proof -
  obtain p s' where req: "request_frame s = Inr (p, s')"
    using request_frame_Inr_iff assms(5) by blast
  then show ?thesis
  proof (cases rule: request_frame_cases)
    case (frame i)
    have "i \<le> k" using frame(4) [OF assms(2)] assms(4) by (meson not_le)
    with frame req assms(1) request_frame_ram_outside [OF assms(1) req] show ?thesis
      by (auto simp: bm_get_take_frame pm_inv_take_frame)
  qed (use assms in simp)
qed

theorem request_frame_first_free_witness:
  "\<exists>i s'. request_frame pm_example = Inr (idx_to_frame_ptr i, s') \<and> i \<le> 3 \<and> bm_get s' i"
  using request_frame_first_free [OF pm_example_props(1), of 3] pm_example_props by auto

text \<open>
  C27: any number of successive requests for one frame, once frame 0 is locked, hand out pairwise
  different frames, all free before and locked after, and release nothing.
\<close>

theorem requests_hand_out_distinct_frames:
  assumes "fs.requests s ps s'" and "pm_inv s" and "bm_get s 0"
  shows "distinct ps \<and> pm_inv s' \<and>
    (\<forall>p \<in> set ps. \<exists>i < frames (pmem s). p = idx_to_frame_ptr i \<and> \<not> bm_get s i \<and> bm_get s' i) \<and>
    (\<forall>i. bm_get s i \<longrightarrow> bm_get s' i)"
  using fs.requests_fresh [OF assms] by (simp add: idx_to_frame_ptr_def)

lemma request_frame_next:
  assumes "free_frames (pmem s) > 0" and "last_free_idx (pmem s) \<le> k" and "k < frames (pmem s)"
    and "\<not> bm_get s k" and "\<And>j. last_free_idx (pmem s) \<le> j \<Longrightarrow> j < k \<Longrightarrow> bm_get s j"
  shows "request_frame s = Inr (idx_to_frame_ptr k, take_frame k s)"
proof -
  obtain p s' where req: "request_frame s = Inr (p, s')"
    using request_frame_Inr_iff assms(1) by blast
  then show ?thesis
  proof (cases rule: request_frame_cases)
    case (frame i)
    have "i = k" using frame assms by (metis linorder_neqE)
    with frame req show ?thesis by simp
  qed (use assms in simp)
qed

theorem requests_hand_out_distinct_frames_witness:
  "\<exists>s'. fs.requests (take_frame 0 pm_example) [idx_to_frame_ptr 1, idx_to_frame_ptr 2] s' \<and>
     distinct [idx_to_frame_ptr 1, idx_to_frame_ptr 2] \<and> pm_inv s'"
proof -
  let ?s0 = "take_frame 0 pm_example" let ?s1 = "take_frame 1 ?s0" let ?s2 = "take_frame 2 ?s1"
  have inv: "pm_inv ?s0" "pm_inv ?s1" "bm_get ?s0 0"
    by (simp_all add: pm_inv_take_frame pm_example_props bm_get_take_frame)
  have j: "j = 0" if "j < (1 :: u64)" for j using that by (simp add: word_less_nat_alt unat_eq_zero)
  have j2: "j = 1" if "1 \<le> j" "j < (2 :: u64)" for j
    using that by (simp add: word_less_nat_alt word_le_nat_alt word_unat_eq_iff)
  have r1: "request_frame ?s0 = Inr (idx_to_frame_ptr 1, ?s1)"
    by (rule request_frame_next)
      (auto simp: pm_example_props bm_get_take_frame dest: j, code_simp)
  have r2: "request_frame ?s1 = Inr (idx_to_frame_ptr 2, ?s2)"
    by (rule request_frame_next)
      (auto simp: pm_example_props bm_get_take_frame dest: j2, code_simp)
  have "fs.requests ?s0 [idx_to_frame_ptr 1, idx_to_frame_ptr 2] ?s2"
    by (rule fs.requests.more [OF r1 _ fs.requests.more [OF r2 _ fs.requests.none]])
      (simp_all add: idx_to_frame_ptr_def FRAME_SZ_def)
  then show ?thesis using requests_hand_out_distinct_frames [OF _ inv(1,3)] by blast
qed

text \<open>
  Frames released below \<^verbatim>\<open>__last_free_idx\<close> are lost to \<^verbatim>\<open>request_frame\<close>: when every frame from
  there on is locked it returns a null pointer and changes nothing, although its guard
  \<^verbatim>\<open>__free_frames > 0\<close> holds.
\<close>

theorem request_frame_null_despite_free_frames:
  assumes "0 < free_frames (pmem s)"
    and "\<And>j. last_free_idx (pmem s) \<le> j \<Longrightarrow> j < frames (pmem s) \<Longrightarrow> bm_get s j"
  shows "request_frame s = Inr (0, s)"
proof -
  obtain p s' where req: "request_frame s = Inr (p, s')"
    using request_frame_Inr_iff assms(1) by blast
  then show ?thesis by (cases rule: request_frame_cases) (use assms req in auto)
qed

theorem request_frame_null_despite_free_frames_witness:
  "0 < free_frames (pmem (take_frame 15 pm_example)) \<and>
   request_frame (take_frame 15 pm_example) = Inr (0, take_frame 15 pm_example)"
proof -
  have free: "0 < free_frames (pmem (take_frame 15 pm_example))" by code_simp
  have "j = 15" if "15 \<le> j" "j < (16 :: u64)" for j
    using that by (simp add: word_less_nat_alt word_le_nat_alt word_unat_eq_iff)
  then have "request_frame (take_frame 15 pm_example) = Inr (0, take_frame 15 pm_example)"
    by (intro request_frame_null_despite_free_frames free)
      (auto simp: pm_example_props bm_get_take_frame)
  with free show ?thesis by simp
qed

lemma request_frames_run:
  assumes "pm_inv s" and "2 \<le> unat number" and "unat number \<le> 2 ^ 52"
    and "unat (last_free_idx (pmem s)) \<le> k" and "0 < k"
    and "k + unat number \<le> unat (frames (pmem s))" and "free_run s k (unat number)"
  shows "\<exists>a s'. request_frames number s = Inr (idx_to_frame_ptr a, s') \<and>
    0 < a \<and> last_free_idx (pmem s) \<le> a \<and> unat a \<le> k \<and> free_run s (unat a) (unat number) \<and>
    run_taken (unat a) (unat number) s s' \<and>
    no_run_before s (unat (last_free_idx (pmem s))) (unat number) (unat a)"
proof -
  obtain a b where ab: "request_frames_scan number (last_free_idx (pmem s)) s 0 0 = (a, b)" by fastforce
  have n0: "0 < number" using assms(2) by (auto simp: word_less_nat_alt)
  note res = request_frames_scan_result [OF n0 ab]
  note before = no_run_beforeD [OF _ assms(4,5,7)]
  have a0: "a \<noteq> 0" using res assms(2,6) by (auto simp: scan_result_def dest!: before)
  have le: "unat a \<le> k" using res a0 by (auto simp: scan_result_def dest: before)
  have len: "unat b - unat a + 1 = unat number"
    using res a0 le assms(6) by (auto simp: scan_result_def)
  then have "a \<noteq> b" using assms(2) by auto
  with request_frames_eq [OF assms(1) n0 assms(3) ab] a0 obtain s' where
    "request_frames number s = Inr (idx_to_frame_ptr a, s')" "run_taken (unat a) (unat number) s s'"
    unfolding len by auto
  moreover have "free_run s (unat a) (unat number)" "last_free_idx (pmem s) \<le> a"
    "no_run_before s (unat (last_free_idx (pmem s))) (unat number) (unat a)"
    using res a0 unfolding scan_result_def len by (simp_all add: word_le_nat_alt)
  ultimately show ?thesis using le a0 by (auto simp: word_gt_0)
qed

text \<open>
  A request for at least two frames succeeds whenever such a run of free frames exists from
  \<^verbatim>\<open>__last_free_idx\<close> on (frame 0 excepted): it returns the first such run, locks exactly its
  frames, writes nothing outside the bitmap and keeps the invariant.
\<close>

theorem request_frames_first_run:
  assumes "pm_inv s" and "2 \<le> unat number" and "unat number \<le> 2 ^ 52"
    and "unat (last_free_idx (pmem s)) \<le> k" and "0 < k"
    and "k + unat number \<le> unat (frames (pmem s))" and "free_run s k (unat number)"
  shows "\<exists>a s'. request_frames number s = Inr (idx_to_frame_ptr a, s') \<and>
    0 < a \<and> last_free_idx (pmem s) \<le> a \<and> unat a \<le> k \<and> free_run s (unat a) (unat number) \<and>
    run_taken (unat a) (unat number) s s' \<and>
    no_run_before s (unat (last_free_idx (pmem s))) (unat number) (unat a)"
  using assms by (rule request_frames_run)

theorem request_frames_first_run_witness:
  "\<exists>a s'. request_frames 3 pm_example = Inr (idx_to_frame_ptr a, s') \<and>
    free_run pm_example (unat a) 3 \<and> run_taken (unat a) 3 pm_example s'"
proof -
  have "free_run pm_example 1 3"
    using pm_example_props(5) by (auto simp: free_run_def word_less_nat_alt)
  then show ?thesis
    using request_frames_first_run [of pm_example 3 1] pm_example_props by auto
qed

text \<open>
  What a successful request for a run of frames has done, in general: between two and
  \<open>number\<close> frames from the returned address on were free and are now locked. Fewer than \<open>number\<close>
  are handed out, with no sign to the caller, when no long enough run exists and the last frames
  of memory are free.
\<close>

theorem request_frames_result:
  assumes "pm_inv s" and "0 < number" and "unat number \<le> 2 ^ 52"
    and "request_frames number s = Inr (p, s')"
  shows "\<exists>a m. p = idx_to_frame_ptr a \<and> 0 < a \<and> 2 \<le> m \<and> m \<le> unat number \<and>
    unat a + m \<le> unat (frames (pmem s)) \<and> free_run s (unat a) m \<and> run_taken (unat a) m s s' \<and>
    (m < unat number \<longrightarrow> unat a + m = unat (frames (pmem s)))"
proof -
  obtain a b where ab: "request_frames_scan number (last_free_idx (pmem s)) s 0 0 = (a, b)" by fastforce
  note res = request_frames_scan_result [OF assms(2) ab] and eq = request_frames_eq [OF assms(1-3) ab]
  have a: "a \<noteq> 0" "a \<noteq> b" using eq assms(4) by (auto split: if_splits)
  with eq assms(4) have taken: "p = idx_to_frame_ptr a" "run_taken (unat a) (unat b - unat a + 1) s s'"
    by auto
  have le: "unat a < unat b" "unat b < unat (frames (pmem s))"
    and free: "free_run s (unat a) (unat b - unat a + 1)"
    and len: "unat b - unat a + 1 = unat number \<or>
      unat b + 1 = unat (frames (pmem s)) \<and> unat b - unat a + 1 < unat number"
    using res a by (auto simp: scan_result_def word_le_nat_alt word_less_nat_alt word_unat_eq_iff)
  show ?thesis
    using taken free le len a by (intro exI [of _ a] exI [of _ "unat b - unat a + 1"]) (auto simp: word_gt_0)
qed

theorem request_frames_result_witness:
  "\<exists>p s' a m. request_frames 3 pm_example = Inr (p, s') \<and> p = idx_to_frame_ptr a \<and>
    2 \<le> m \<and> m \<le> 3 \<and> run_taken (unat a) m pm_example s'"
proof -
  obtain s' where s': "request_frames 3 pm_example = Inr (idx_to_frame_ptr 1, s')"
    using request_frames_eq [OF pm_example_props(1) _ _ pm_example_scan] by auto
  show ?thesis
    using request_frames_result [OF pm_example_props(1) _ _ s'] s' by fastforce
qed

lemma request_frames_one:
  assumes "pm_inv s"
  shows "request_frames 1 s = Inl (Assert ''free_start_idx > 0'') \<or>
    request_frames 1 s = Inl (Assert ''free_start_idx - free_end_idx >= number'')"
proof -
  obtain a b where ab: "request_frames_scan 1 (last_free_idx (pmem s)) s 0 0 = (a, b)" by fastforce
  have "a = 0 \<or> a = b"
    using request_frames_scan_result [OF _ ab]
    by (auto simp: scan_result_def word_le_nat_alt word_unat_eq_iff [of a b] split: if_splits)
  then show ?thesis using request_frames_eq [OF assms _ _ ab] by (auto split: if_splits)
qed

text \<open>
  C40: a request for a single frame through \<^verbatim>\<open>request_frames(1)\<close> never succeeds: the test
  \<^verbatim>\<open>free_start_idx - free_end_idx >= number\<close> is \<open>0 \<ge> 1\<close>, and the kernel panics, however many frames
  are free.
\<close>

theorem request_frames_one_panics:
  assumes "pm_inv s"
  shows "request_frames 1 s = Inl (Assert ''free_start_idx > 0'') \<or>
    request_frames 1 s = Inl (Assert ''free_start_idx - free_end_idx >= number'')"
  using assms by (rule request_frames_one)

theorem request_frames_one_panics_witness:
  "request_frames 1 pm_example = Inl (Assert ''free_start_idx > 0'') \<or>
   request_frames 1 pm_example = Inl (Assert ''free_start_idx - free_end_idx >= number'')"
  by (rule request_frames_one_panics) (rule pm_example_props)

lemma PMem_init_spec:
  assumes "boot_ok this mm memory stack m" and "n = get_page_frames_number m mm" and "j0 < n"
    and "j0 \<in> usable_frames m mm (mm_entries mm)" and "\<not> reserved_frame this n stack j0"
  shows "\<exists>s. PMem_init this mm memory stack m out = Inr s \<and> pm_inv s \<and> frames (pmem s) = n \<and>
    last_free_idx (pmem s) = 0 \<and>
    bitmap (pmem s) = \<lparr>bm_buf = snd (get_largest_free_seg m mm memory 0), bm_size = (n + 7) div 8, bm_public_buf = this + 32\<rparr> \<and>
    (\<forall>x. x \<notin> bm_span (bitmap (pmem s)) \<longrightarrow> ram s x = m x) \<and>
    (\<forall>j < n. bm_get s j \<longleftrightarrow> j \<notin> usable_frames m mm (mm_entries mm) \<or> reserved_frame this n stack j)"
proof -
  obtain sz seg where seg: "get_largest_free_seg m mm memory 0 = (sz, seg)" by fastforce
  have env: "0 < mm_entries mm" "0 < n" "n div 8 < sz"
      "mm_span mm \<inter> span seg (unat ((n + 7) div 8)) = {}"
      "\<forall>i < mm_entries mm. is_usable_memory (EfiMMapDesc_at m (get_desc mm i)) \<longrightarrow>
         desc_ok n (EfiMMapDesc_at m (get_desc mm i))"
      "ptr_to_frame_idx stack < n"
      "unat (ptr_to_frame_idx (this + 32)) + unat ((n + 7) div 8 div FRAME_SZ) \<le> unat n"
    using assms(1) by (simp_all add: boot_ok_def seg assms(2) Let_def)
  define s where "s = pm_start this seg n m out"
  have small: "unat n < 2 ^ 52" unfolding assms(2) by (rule frames_number_small)
  have s: "frames (pmem s) = n" "bitmap (pmem s) = \<lparr>bm_buf = seg, bm_size = (n + 7) div 8, bm_public_buf = this + 32\<rparr>"
      "ram s = memset m seg 0 ((n + 7) div 8)" "last_free_idx (pmem s) = 0"
    by (simp_all add: s_def pm_start_def Bitmap_init_def Let_def)
  have agree: "ram s x = m x" if "x \<in> mm_span mm" for x
    using that env(4) by (auto simp: s memset_apply span_iff disjoint_iff)
  note desc = EfiMMapDesc_at_mm_cong [OF agree]
  have "map_ok mm s" using env(4,5) desc by (simp add: map_ok_def bm_span_def s)
  moreover have inv: "pm_inv s" unfolding s_def using small by (rule pm_inv_start)
  ultimately have spec: "pm_evolves s (pm_setup mm stack s) \<and> (\<forall>j < frames (pmem s). bm_get (pm_setup mm stack s) j \<longleftrightarrow>
      j \<notin> usable_frames (ram s) mm (mm_entries mm) \<or> reserved_frame this (frames (pmem s)) stack j)"
    using env s(1,2) by (intro pm_setup_spec) simp_all
  have uf: "usable_frames (ram s) mm (mm_entries mm) = usable_frames m mm (mm_entries mm)"
    using desc by (auto simp: usable_frames_def)
  let ?t = "pm_setup mm stack s"
  have t: "pm_evolves s ?t" and bits: "\<And>j. j < n \<Longrightarrow> bm_get ?t j \<longleftrightarrow>
      j \<notin> usable_frames m mm (mm_entries mm) \<or> reserved_frame this n stack j"
    using spec by (auto simp: uf s(1))
  have invt: "pm_inv ?t" "frames (pmem ?t) = n" using t s(1) by (auto simp: pm_evolves_def)
  have b0: "bm_get ?t 0" using bits [OF env(2)] by (simp add: reserved_frame_def)
  have j0: "\<not> bm_get ?t j0" using bits [OF assms(3)] assms(4,5) by simp
  have "0 < locked_frames (pmem ?t)" "0 < free_frames (pmem ?t)"
    using invt b0 j0 card_locked_pos [of 0 ?t] card_locked_lt [of j0 ?t] env(2) assms(3)
    by (auto simp: pm_inv_def word_less_nat_alt)
  moreover have "ram ?t x = m x" if "x \<notin> bm_span (bitmap (pmem ?t))" for x
    using that t by (auto simp: pm_evolves_def s(2,3) bm_span_def memset_apply span_iff)
  ultimately show ?thesis
    using PMem_init_unfold [OF seg assms(2) env(2,3,1,4), of this stack out] b0 invt bits t s(2,4) seg
    by (simp add: s_def [symmetric] pm_evolves_def)
qed


text \<open>
  C9: in a boot environment with a usable frame that is not reserved, the constructor of the
  memory manager succeeds, establishes its invariant, and a frame of memory ends up locked
  exactly when no usable memory descriptor covers it or it is reserved (frame 0, the stack, the
  range the code locks for the bitmap).
\<close>

theorem PMem_init_frames:
  assumes "boot_ok this mm memory stack m" and "n = get_page_frames_number m mm" and "j0 < n"
    and "j0 \<in> usable_frames m mm (mm_entries mm)" and "\<not> reserved_frame this n stack j0"
  shows "\<exists>s. PMem_init this mm memory stack m out = Inr s \<and> pm_inv s \<and> frames (pmem s) = n \<and>
    last_free_idx (pmem s) = 0 \<and>
    (\<forall>j < n. bm_get s j \<longleftrightarrow> j \<notin> usable_frames m mm (mm_entries mm) \<or> reserved_frame this n stack j)"
  using PMem_init_spec [OF assms, of out] by blast

text \<open>A boot environment: one conventional segment of 16 frames at \<open>0x1000\<close>, described by the
  map at \<open>0x100000\<close>; eighteen frames in all.\<close>

definition boot_mem :: mem where
  "boot_mem = (\<lambda>_. 0)(0x100000 := 7, 0x100009 := 0x10, 0x100018 := 16)"

definition boot_map :: MemoryMap where
  "boot_map = \<lparr>mm_mmap_sz = 48, mm_desc_sz = 48, mm_entries = 1, mm_mmap = 0x100000\<rparr>"

definition boot_data :: MemoryData where
  "boot_data = \<lparr>md_mmap = 0x100000, md_mmap_sz = 48, md_desc_sz = 48, md_entries = 1\<rparr>"

lemma boot_desc:
  "get_desc boot_map 0 = 0x100000" "mm_entries boot_map = 1"
  "EfiMMapDesc_at boot_mem 0x100000 = \<lparr>d_type = 7, d_pad = 0, d_paddr = 0x1000, d_vaddr = 0,
     d_pages = 16, d_attr = 0\<rparr>"
  by (simp_all add: get_desc_def boot_map_def EfiMMapDesc_at_def read32_def read64_def load_steps boot_mem_def)

lemma boot_sizes:
  "get_page_frames_number boot_mem boot_map = 18"
  "get_largest_free_seg boot_mem boot_map boot_data 0 = (0x10000, 0x1000)"
  by (simp_all add: get_page_frames_number_def get_entire_memory_size_def boot_desc FRAME_SZ_def
      get_largest_free_seg_def boot_data_def for_up.simps largest_step_def)

lemma word_lt_1 [simp]: "(i :: u64) < 1 \<longleftrightarrow> i = 0"
  by (simp add: word_less_nat_alt unat_eq_zero)

lemma boot_usable:
  "j \<in> usable_frames boot_mem boot_map (mm_entries boot_map) \<longleftrightarrow> (\<exists>k < 16. j = 1 + k)"
proof -
  have "ptr_to_frame_idx 0x1000 = 1" by (simp add: ptr_to_frame_idx_def FRAME_SZ_def)
  then show ?thesis
    by (simp add: usable_frames_def boot_desc is_usable_memory_def desc_frames_def)
qed

lemma boot_example: "boot_ok 0x6000 boot_map boot_data 0x5000 boot_mem"
proof -
  have "mm_span boot_map \<inter> span 0x1000 3 = {}"
    using span_disjoint [OF apartI(2) [of "0x1000 :: u64" 3 "0x100000 :: u64" 40]]
    by (simp add: mm_span_def boot_desc)
  moreover have "(18 + 7) div 8 = (3 :: u64)" "(18 :: u64) div 8 < 0x10000" "(0 :: u64) < 18" by simp_all
  moreover have "ptr_to_frame_idx 0x5000 < 18"
    "unat (ptr_to_frame_idx (0x6000 + 32)) + unat ((3 :: u64) div FRAME_SZ) \<le> unat (18 :: u64)"
    by (simp_all add: ptr_to_frame_idx_def FRAME_SZ_def)
  ultimately show ?thesis
    by (simp add: boot_ok_def boot_desc boot_sizes Let_def desc_ok_def)
qed

theorem PMem_init_frames_witness:
  "\<exists>s. PMem_init 0x6000 boot_map boot_data 0x5000 boot_mem [] = Inr s \<and> pm_inv s \<and>
     bm_get s 0 \<and> bm_get s 5 \<and> bm_get s 17 \<and> \<not> bm_get s 2"
proof -
  have u: "2 \<in> usable_frames boot_mem boot_map (mm_entries boot_map)"
    unfolding boot_usable by (rule exI [of _ 1]) simp
  have k: "\<not> (\<exists>k < (18 + 7) div 8 div FRAME_SZ. P k)" for P by (simp add: FRAME_SZ_def)
  have r: "reserved_frame 0x6000 18 0x5000 0" "reserved_frame 0x6000 18 0x5000 5"
    "\<not> reserved_frame 0x6000 18 0x5000 2" "\<not> reserved_frame 0x6000 18 0x5000 17"
    using k by (simp_all add: reserved_frame_def ptr_to_frame_idx_def FRAME_SZ_def)
  have "17 \<notin> usable_frames boot_mem boot_map (mm_entries boot_map)"
  proof
    assume "17 \<in> usable_frames boot_mem boot_map (mm_entries boot_map)"
    then obtain k :: u64 where "k < 16" "17 = 1 + k" by (auto simp: boot_usable)
    then have "k = 16" by (simp add: algebra_simps)
    with \<open>k < 16\<close> show False by simp
  qed
  with PMem_init_frames [OF boot_example boot_sizes(1) [symmetric], of 2 "[]"] u r show ?thesis
    by auto
qed


text \<open>
  The frame that holds the bitmap itself is left free: the constructor locks the frames of
  the bitmap \<^emph>\<open>object\<close> (its member \<^verbatim>\<open>buf\<close> is initialised with \<^verbatim>\<open>&__buf\<close>), so the first frame of
  the bitmap's buffer is released with the largest conventional segment and later handed out.
\<close>

theorem PMem_init_leaves_bitmap_free:
  assumes "boot_ok this mm memory stack m" and "mm_entries mm = md_entries memory"
    and "get_largest_free_seg m mm memory 0 = (sz, seg)"
    and "\<not> reserved_frame this (get_page_frames_number m mm) stack (ptr_to_frame_idx seg)"
  shows "\<exists>s. PMem_init this mm memory stack m out = Inr s \<and> bm_buf (bitmap (pmem s)) = seg \<and>
    \<not> bm_get s (ptr_to_frame_idx seg)"
proof -
  have "0 < sz" using assms(1,3) by (auto simp: boot_ok_def Let_def word_less_nat_alt)
  with get_largest_free_seg_largest [of m mm 0 memory] assms(2,3) obtain i where
    i: "i < mm_entries mm" and ty: "d_type (EfiMMapDesc_at m (get_desc mm i)) = 7"
    and sz: "sz = d_pages (EfiMMapDesc_at m (get_desc mm i)) * FRAME_SZ"
    and seg: "seg = d_paddr (EfiMMapDesc_at m (get_desc mm i))"
    by (auto simp: largest_upto_def)
  let ?d = "EfiMMapDesc_at m (get_desc mm i)"
  have usable: "is_usable_memory ?d" using ty by (simp add: is_usable_memory_def)
  have pages: "0 < d_pages ?d" using sz \<open>0 < sz\<close> by (auto simp: word_gt_0)
  then have "ptr_to_frame_idx seg \<in> desc_frames ?d"
    unfolding desc_frames_def seg by (auto intro!: exI [of _ 0])
  with usable i have "ptr_to_frame_idx seg \<in> usable_frames m mm (mm_entries mm)"
    by (auto simp: usable_frames_def)
  moreover have "ptr_to_frame_idx seg < get_page_frames_number m mm"
    using assms(1) i usable pages
    by (auto simp: boot_ok_def Let_def desc_ok_def seg word_less_nat_alt unat_frame_idx)
  ultimately show ?thesis
    using PMem_init_spec [OF assms(1) refl _ _ assms(4), of out] assms(3,4) by auto
qed

theorem PMem_init_leaves_bitmap_free_witness:
  "\<exists>s. PMem_init 0x6000 boot_map boot_data 0x5000 boot_mem [] = Inr s \<and>
     bm_buf (bitmap (pmem s)) = 0x1000 \<and> \<not> bm_get s 1"
proof -
  have "\<not> reserved_frame 0x6000 18 0x5000 1"
    by (auto simp: reserved_frame_def ptr_to_frame_idx_def FRAME_SZ_def)
  then show ?thesis
    using PMem_init_leaves_bitmap_free [OF boot_example _ boot_sizes(2), of "[]"]
    by (simp add: boot_desc boot_sizes boot_data_def ptr_to_frame_idx_def FRAME_SZ_def)
qed

end
