(* ===== verification/Paging.thy ===== *)
theory Paging
  imports PMem
begin

text \<open>
  Four-level paging, \<^verbatim>\<open>memory/paging.cpp\<close>. Paging structures are 4 KiB tables of 512
  eight-byte entries in memory; the root (\<^verbatim>\<open>PML4\<close>) is a member of the \<^verbatim>\<open>Paging\<close> object, the
  others are frames requested from the memory manager. The code reads and writes them at
  their physical addresses.

  The specification is the processor's own translation, \<open>mmu_translate\<close>: mapping a page
  makes the processor translate its addresses to the given frame and leaves every other
  page as it was. The invariant \<open>pt_inv\<close> says that the tables form a tree of different,
  locked frames below 4 GiB that do not overlap the bitmap.
\<close>

section \<open>The model\<close>

definition PAGE_SZ :: u64 where "PAGE_SZ = FRAME_SZ"

definition PAGE_OFFSET_BITS :: nat where "PAGE_OFFSET_BITS = 12"

definition BITS_9_MASK :: u64 where "BITS_9_MASK = 0x1ff"

record PageIndexer =
  pml4 :: u16
  pdpt :: u16
  pd :: u16
  pt :: u16

definition PageIndexer_init :: "u64 \<Rightarrow> PageIndexer" where
  "PageIndexer_init vaddr =
     (let vaddr = drop_bit PAGE_OFFSET_BITS vaddr;
          pt_idx = ucast (vaddr AND BITS_9_MASK);
          vaddr = drop_bit 9 vaddr;
          pd_idx = ucast (vaddr AND BITS_9_MASK);
          vaddr = drop_bit 9 vaddr;
          pdpt_idx = ucast (vaddr AND BITS_9_MASK);
          vaddr = drop_bit 9 vaddr;
          pml4_idx = ucast (vaddr AND BITS_9_MASK)
      in \<lparr>pml4 = pml4_idx, pdpt = pdpt_idx, pd = pd_idx, pt = pt_idx\<rparr>)"

text \<open>
  The bit-fields of an entry that the code uses; the four entry structures have them at the
  same places: \<^verbatim>\<open>present\<close> is bit 0, \<^verbatim>\<open>rw\<close> bit 1, the 32-bit address field starts at bit 12.
\<close>

definition entry_present :: "u64 \<Rightarrow> bool" where
  "entry_present e \<longleftrightarrow> bf_get 0 1 e \<noteq> 0"

definition entry_set_addr :: "u64 \<Rightarrow> u64 \<Rightarrow> u64" where
  "entry_set_addr a e = bf_set 12 32 a e"

definition entry_set_present :: "u64 \<Rightarrow> u64" where
  "entry_set_present e = bf_set 0 1 1 e"

definition entry_set_rw :: "u64 \<Rightarrow> u64" where
  "entry_set_rw e = bf_set 1 1 1 e"

text \<open>
  \<^verbatim>\<open>entry->pdpt_addr << PAGE_OFFSET_BITS\<close>: a bit-field of 32 bits is promoted to \<^verbatim>\<open>unsigned int\<close>,
  so the shift is done on 32 bits and then widened to a pointer.
\<close>

definition entry_table :: "u64 \<Rightarrow> u64" where
  "entry_table e = ucast (push_bit PAGE_OFFSET_BITS (ucast (bf_get 12 32 e) :: u32))"

definition entry_at :: "u64 \<Rightarrow> u16 \<Rightarrow> u64" where
  "entry_at table idx = table + 8 * ucast idx"

definition is_page_allocated :: "u64 \<Rightarrow> u64 \<Rightarrow> mem \<Rightarrow> bool" where
  "is_page_allocated PML4 vaddr m =
     (let index = PageIndexer_init vaddr;
          pml4_entry = read64 m (entry_at PML4 (pml4 index))
      in if \<not> entry_present pml4_entry then False
      else let PDPT = entry_table pml4_entry; pdpt_entry = read64 m (entry_at PDPT (pdpt index))
      in if \<not> entry_present pdpt_entry then False
      else let PD = entry_table pdpt_entry; pd_entry = read64 m (entry_at PD (pd index))
      in if \<not> entry_present pd_entry then False
      else let PT = entry_table pd_entry; pt_entry = read64 m (entry_at PT (pt index))
      in entry_present pt_entry)"

text \<open>The three assignments to the fields of an entry in memory.\<close>

definition set_entry :: "u64 \<Rightarrow> u64 \<Rightarrow> mem \<Rightarrow> mem" where
  "set_entry entry addr m =
     (let m = write64 m entry (entry_set_addr (drop_bit PAGE_OFFSET_BITS addr) (read64 m entry));
          m = write64 m entry (entry_set_present (read64 m entry));
          m = write64 m entry (entry_set_rw (read64 m entry))
      in m)"

text \<open>One level of the descent: the table the entry points to, created when the entry is not
  present. The source has this code three times, for PDPT, PD and PT.\<close>

definition ensure_table :: "string \<Rightarrow> u64 \<Rightarrow> kst \<Rightarrow> (u64 \<times> kst) res" where
  "ensure_table name entry s =
     (if \<not> entry_present (read64 (ram s) entry) then
        bind_res (request_frame s) (\<lambda>(table, s).
        bind_res (ASSERT (name @ '' != nullptr'') (table \<noteq> 0)) (\<lambda>_.
        let m = memset (ram s) table 0 PAGE_SZ;
            m = set_entry entry table m
        in Inr (table, s\<lparr>ram := m\<rparr>)))
      else Inr (entry_table (read64 (ram s) entry), s))"

definition allocate_page :: "u64 \<Rightarrow> u64 \<Rightarrow> u64 \<Rightarrow> kst \<Rightarrow> kst res" where
  "allocate_page PML4 vaddr paddr s =
     (let index = PageIndexer_init vaddr in
      bind_res (ensure_table ''PDPT'' (entry_at PML4 (pml4 index)) s) (\<lambda>(PDPT, s).
      bind_res (ensure_table ''PD'' (entry_at PDPT (pdpt index)) s) (\<lambda>(PD, s).
      bind_res (ensure_table ''PT'' (entry_at PD (pd index)) s) (\<lambda>(PT, s).
      Inr (s\<lparr>ram := set_entry (entry_at PT (pt index)) paddr (ram s)\<rparr>)))))"

text \<open>The loop state is \<^verbatim>\<open>addr\<close> and the kernel state.\<close>

definition identity_paging :: "u64 \<Rightarrow> u64 \<Rightarrow> u64 \<Rightarrow> kst \<Rightarrow> kst res" where
  "identity_paging PML4 addr n s =
     bind_res (for_res 0 (\<lambda>_. n div (PAGE_SZ + 1) + 1)
       (\<lambda>i (addr, s). bind_res (allocate_page PML4 addr addr s) (\<lambda>s. Inr (addr + PAGE_SZ, s)))
       (addr, s)) (\<lambda>(addr, s). Inr s)"

text \<open>What \<^verbatim>\<open>Paging::init\<close> reads of the other parts of the kernel.\<close>

record paging_env =
  env_fb_addr :: u64
  env_fb_size :: u64
  env_lapic_addr :: u32
  env_ioapic_addr :: u32
  env_hpet_addr :: u64
  env_hpet_mmio_sz :: u64

definition Paging_init :: "u64 \<Rightarrow> MemoryMap \<Rightarrow> paging_env \<Rightarrow> kst \<Rightarrow> kst res" where
  "Paging_init PML4 mm env s =
     bind_res (for_res 0 (\<lambda>_. mm_entries mm)
       (\<lambda>i s. let desc = EfiMMapDesc_at (ram s) (get_desc mm i)
              in identity_paging PML4 (d_paddr desc) (FRAME_SZ * d_pages desc) s) s) (\<lambda>s.
     bind_res (identity_paging PML4 (env_fb_addr env) (env_fb_size env) s) (\<lambda>s.
     bind_res (identity_paging PML4 (ucast (env_lapic_addr env)) 4096 s) (\<lambda>s.
     bind_res (identity_paging PML4 (ucast (env_ioapic_addr env)) 8 s) (\<lambda>s.
     identity_paging PML4 (env_hpet_addr env) (env_hpet_mmio_sz env) s))))"

text \<open>The control registers and the model-specific register the constructor changes.\<close>

record cpu_regs =
  cr0 :: u64
  cr3 :: u64
  cr4 :: u64
  efer :: u64

definition CR3_PWT :: nat where "CR3_PWT = 3"

definition CR3_PCD :: nat where "CR3_PCD = 4"

definition EFER_LME :: nat where "EFER_LME = 8"

definition set_cr3_register :: "u64 \<Rightarrow> bool \<Rightarrow> bool \<Rightarrow> cpu_regs \<Rightarrow> cpu_regs" where
  "set_cr3_register paddr pwt pcd r =
     (let cr3v = paddr;
          cr3v = (if pwt then set_bit_m cr3v CR3_PWT else cr3v);
          cr3v = (if pcd then set_bit_m cr3v CR3_PCD else cr3v)
      in r\<lparr>cr3 := cr3v\<rparr>)"

text \<open>
  The assembly routine \<^verbatim>\<open>enable_cpu_4_level_paging\<close>. The immediate operand of \<^verbatim>\<open>or\<close> and \<^verbatim>\<open>and\<close> on a 64-bit register
  is 32 bits wide and extended with its sign, so \<^verbatim>\<open>1 << 31\<close> stands for bits 31 to 63 and \<^verbatim>\<open>~(1 << 57)\<close> for all bits.
\<close>

definition imm32 :: "u64 \<Rightarrow> u64" where
  "imm32 v = scast (ucast v :: u32)"

definition enable_cpu_4_level_paging :: "cpu_regs \<Rightarrow> cpu_regs" where
  "enable_cpu_4_level_paging r =
     (let r = r\<lparr>cr0 := cr0 r OR imm32 (push_bit 31 1)\<rparr>;
          r = r\<lparr>cr4 := cr4 r OR imm32 (push_bit 5 1)\<rparr>
      in r\<lparr>cr4 := cr4 r AND imm32 (NOT (push_bit 57 1))\<rparr>)"


section \<open>The processor's translation\<close>

text \<open>The address field of an entry, bits 12 to 51.\<close>

definition hw_addr :: "u64 \<Rightarrow> u64" where
  "hw_addr e = e AND 0x000FFFFFFFFFF000"

text \<open>Translation of a linear address with four-level paging (pages of 1 GiB and 2 MiB
  included); \<open>None\<close> is a page fault.\<close>

definition mmu_translate :: "mem \<Rightarrow> u64 \<Rightarrow> u64 \<Rightarrow> u64 option" where
  "mmu_translate m c v =
     (let e4 = read64 m (hw_addr c + 8 * bf_get 39 9 v) in
      if \<not> bit e4 0 then None else
      let e3 = read64 m (hw_addr e4 + 8 * bf_get 30 9 v) in
      if \<not> bit e3 0 then None
      else if bit e3 7 then Some ((e3 AND 0x000FFFFFC0000000) + take_bit 30 v) else
      let e2 = read64 m (hw_addr e3 + 8 * bf_get 21 9 v) in
      if \<not> bit e2 0 then None
      else if bit e2 7 then Some ((e2 AND 0x000FFFFFFFE00000) + take_bit 21 v) else
      let e1 = read64 m (hw_addr e2 + 8 * bf_get 12 9 v) in
      if \<not> bit e1 0 then None else Some (hw_addr e1 + take_bit 12 v))"

text \<open>
  The constructor: clear the root, switch the processor over, map memory, load \<^verbatim>\<open>cr3\<close>, and
  write and read back a byte through a fresh mapping. The register \<^verbatim>\<open>IA32_EFER\<close> is the field \<open>efer\<close>.
\<close>

definition Paging_new ::
  "u64 \<Rightarrow> MemoryMap \<Rightarrow> paging_env \<Rightarrow> cpu_regs \<Rightarrow> kst \<Rightarrow> (cpu_regs \<times> kst) res" where
  "Paging_new PML4 mm env r s =
     (let s = s\<lparr>ram := memset (ram s) PML4 0 (8 * 512)\<rparr>;
          r = enable_cpu_4_level_paging r;
          r = r\<lparr>efer := set_bit_m (efer r) EFER_LME\<rparr>
      in
      bind_res (Paging_init PML4 mm env s) (\<lambda>s.
      let r = set_cr3_register PML4 False False r;
          test_addr = 0x99999999999
      in
      bind_res (allocate_page PML4 test_addr 0 s) (\<lambda>s.
      case mmu_translate (ram s) (cr3 r) test_addr of
        None \<Rightarrow> Inl (PageFault test_addr)
      | Some p \<Rightarrow>
         let m = (ram s)(p := 123) in
         case mmu_translate m (cr3 r) test_addr of
           None \<Rightarrow> Inl (PageFault test_addr)
         | Some q \<Rightarrow>
            if m q \<noteq> 123 then
              bind_res (kpanic_text (str ''Paging test failed!'') (kout s)) (\<lambda>out.
              Inr (r, s\<lparr>ram := m, kout := out\<rparr>))
            else Inr (r, s\<lparr>ram := m\<rparr>))))"

section \<open>Entries\<close>

lemma bit_hw_addr: "bit (hw_addr e) k \<longleftrightarrow> 12 \<le> k \<and> k < 52 \<and> bit e k"
proof -
  have eq: "(0x000FFFFFFFFFF000 :: u64) = push_bit 12 (mask 40)"
    by (simp add: mask_eq_exp_minus_1 push_bit_eq_mult)
  show ?thesis
    unfolding hw_addr_def eq by (auto simp: bit_simps dest: bit_imp_le_length)
qed

lemma bit_entry_table: "bit (entry_table e) k \<longleftrightarrow> 12 \<le> k \<and> k < 32 \<and> bit e k"
  by (auto simp: entry_table_def bit_simps bit_bf_get PAGE_OFFSET_BITS_def)

lemma entry_present_bit: "entry_present e \<longleftrightarrow> bit e 0"
proof -
  have "bit (bf_get 0 1 e) k \<longleftrightarrow> k = 0 \<and> bit e 0" for k by (auto simp: bit_bf_get)
  then show ?thesis unfolding entry_present_def by (metis bit_0_eq bit_eq_iff bot_apply bot_bool_def)
qed

lemma unat_lt_bit:
  assumes "unat (x :: u64) < 2 ^ n" and "n \<le> k"
  shows "\<not> bit x k"
proof -
  have "x = take_bit n x"
    using assms(1) by (simp add: word_unat_eq_iff unsigned_take_bit_eq take_bit_nat_eq_self)
  then show ?thesis using assms(2) by (metis bit_take_bit_iff not_le)
qed

text \<open>Below 4 GiB the code and the processor agree on where an entry points.\<close>

lemma entry_table_eq:
  assumes "unat (hw_addr e) < 2 ^ 32"
  shows "entry_table e = hw_addr e"
proof (rule bit_word_eqI)
  fix k
  show "bit (entry_table e) k \<longleftrightarrow> bit (hw_addr e) k"
    using unat_lt_bit [OF assms, of k] by (cases "32 \<le> k") (auto simp: bit_entry_table bit_hw_addr)
qed

text \<open>The bits of an entry that must stay clear: no large page, no address bit above 43.\<close>

definition entry_ok :: "u64 \<Rightarrow> bool" where
  "entry_ok e \<longleftrightarrow> \<not> bit e 7 \<and> (\<forall>k. 44 \<le> k \<and> k < 52 \<longrightarrow> \<not> bit e k)"

definition new_entry :: "u64 \<Rightarrow> u64 \<Rightarrow> u64" where
  "new_entry addr e = entry_set_rw (entry_set_present (entry_set_addr (drop_bit PAGE_OFFSET_BITS addr) e))"

lemma set_entry_eq: "set_entry entry addr m = write64 m entry (new_entry addr (read64 m entry))"
  by (simp add: set_entry_def new_entry_def write64_again Let_def)

lemma bit_new_entry:
  "bit (new_entry addr e) k \<longleftrightarrow> k < 64 \<and>
     (if k = 0 \<or> k = 1 then True else if 12 \<le> k \<and> k < 44 then bit addr k else bit e k)"
  by (auto simp: new_entry_def entry_set_rw_def entry_set_present_def entry_set_addr_def bit_bf_set
      PAGE_OFFSET_BITS_def bit_simps bit_1_iff)

lemma new_entry_ok: "entry_ok e \<Longrightarrow> entry_ok (new_entry addr e)"
  by (auto simp: entry_ok_def bit_new_entry)

text \<open>The frame a mapping to \<open>addr\<close> leads to: bits 12 to 43 of the address.\<close>

definition frame_bits :: "u64 \<Rightarrow> u64" where
  "frame_bits addr = addr AND 0x00000FFFFFFFF000"

lemma bit_frame_bits: "bit (frame_bits e) k \<longleftrightarrow> 12 \<le> k \<and> k < 44 \<and> bit e k"
proof -
  have eq: "(0x00000FFFFFFFF000 :: u64) = push_bit 12 (mask 32)"
    by (simp add: mask_eq_exp_minus_1 push_bit_eq_mult)
  show ?thesis
    unfolding frame_bits_def eq by (auto simp: bit_simps dest: bit_imp_le_length)
qed

lemma hw_addr_new_entry: "entry_ok e \<Longrightarrow> hw_addr (new_entry addr e) = frame_bits addr"
  by (rule bit_word_eqI) (auto simp: bit_hw_addr bit_new_entry bit_frame_bits entry_ok_def not_less)

lemma frame_bits_aligned:
  assumes "unat a mod 4096 = 0" and "unat a < 2 ^ 44"
  shows "frame_bits a = a"
proof (rule bit_word_eqI)
  fix k assume "k < LENGTH(64)"
  have "take_bit 12 a = 0"
    using assms(1) by (simp add: word_unat_eq_iff take_bit_eq_mod unat_mod)
  then have "\<not> bit a k" if "k < 12" using that by (metis bit_take_bit_iff bit_0_eq bot_apply bot_bool_def)
  then show "bit (frame_bits a) k \<longleftrightarrow> bit a k"
    using unat_lt_bit [OF assms(2), of k]
    by (cases "44 \<le> k"; cases "k < 12") (auto simp: bit_frame_bits)
qed

lemma PageIndexer_fields:
  "(ucast (pml4 (PageIndexer_init v)) :: u64) = bf_get 39 9 v"
  "(ucast (pdpt (PageIndexer_init v)) :: u64) = bf_get 30 9 v"
  "(ucast (pd (PageIndexer_init v)) :: u64) = bf_get 21 9 v"
  "(ucast (pt (PageIndexer_init v)) :: u64) = bf_get 12 9 v"
proof -
  have eq: "BITS_9_MASK = mask 9" by (simp add: BITS_9_MASK_def mask_eq_exp_minus_1)
  have bit_mask9: "bit BITS_9_MASK k \<longleftrightarrow> k < 9" for k unfolding eq by (auto simp: bit_mask_iff)
  show
    "(ucast (pml4 (PageIndexer_init v)) :: u64) = bf_get 39 9 v"
    "(ucast (pdpt (PageIndexer_init v)) :: u64) = bf_get 30 9 v"
    "(ucast (pd (PageIndexer_init v)) :: u64) = bf_get 21 9 v"
    "(ucast (pt (PageIndexer_init v)) :: u64) = bf_get 12 9 v"
    by (auto intro!: bit_word_eqI simp: PageIndexer_init_def bit_simps bit_bf_get bit_mask9
        PAGE_OFFSET_BITS_def add.commute)
qed

lemma bf_get_9_less: "bf_get lo 9 v < 512"
proof -
  have "bf_get lo 9 v = drop_bit lo v mod 512"
    by (simp add: bf_get_def take_bit_eq_mod)
  then show ?thesis by (simp add: word_mod_less_divisor)
qed


section \<open>Tables\<close>

text \<open>A page: 4 KiB aligned, below \<open>2 ^ 64\<close>.\<close>

definition aligned :: "u64 \<Rightarrow> bool" where
  "aligned u \<longleftrightarrow> unat u mod 4096 = 0"

lemma aligned_room: "aligned u \<Longrightarrow> unat u + 4096 \<le> 2 ^ 64"
proof -
  assume "aligned u"
  then obtain k where k: "unat u = 4096 * k" by (auto simp: aligned_def dvd_def)
  with u64_bound [of u] show ?thesis by simp
qed

lemma pages_disjoint:
  assumes "aligned u" and "aligned v" and "u \<noteq> v"
  shows "span u 4096 \<inter> span v 4096 = {}"
proof -
  obtain a b where ab: "unat u = 4096 * a" "unat v = 4096 * b"
    using assms(1,2) by (auto simp: aligned_def dvd_def)
  have ne: "a \<noteq> b" using assms(3) ab by (auto simp: word_unat_eq_iff)
  have "apart u 4096 v 4096"
  proof (cases "a < b")
    case True
    then show ?thesis using ab aligned_room [OF assms(2)] by (intro apartI(1)) auto
  next
    case False
    then show ?thesis using ab ne aligned_room [OF assms(1)] by (intro apartI(2)) auto
  qed
  then show ?thesis by (rule span_disjoint)
qed

lemma entry_off: "j < 512 \<Longrightarrow> u + 8 * j = u + of_nat (8 * unat (j :: u64))"
  by simp

lemma entry_in_page: "j < 512 \<Longrightarrow> span (u + 8 * j) 8 \<subseteq> span u 4096"
  unfolding entry_off by (rule span_add_subset) (simp_all add: word_less_nat_alt)

lemma entries_apart:
  assumes "i < 512" and "j < 512" and "i \<noteq> j"
  shows "apart (u + 8 * i) 8 (u + 8 * j) 8"
proof -
  have lt: "unat i < 512" "unat j < 512" using assms by (simp_all add: word_less_nat_alt)
  have "unat i \<noteq> unat j" using assms(3) by (simp add: word_unat_eq_iff)
  then consider "unat i < unat j" | "unat j < unat i" by linarith
  then show ?thesis
  proof cases
    case 1
    then show ?thesis
      unfolding entry_off [OF assms(1)] entry_off [OF assms(2)] using lt by (intro apart_off) auto
  next
    case 2
    then have "apart (u + 8 * j) 8 (u + 8 * i) 8"
      unfolding entry_off [OF assms(1)] entry_off [OF assms(2)] using lt by (intro apart_off) auto
    then show ?thesis by (simp add: apart_sym)
  qed
qed

text \<open>One step from a table through an entry, and a walk along a path of indices.\<close>

definition pt_step :: "mem \<Rightarrow> u64 \<Rightarrow> u64 \<Rightarrow> u64 option" where
  "pt_step m u i = (let e = read64 m (u + 8 * i) in if bit e 0 then Some (hw_addr e) else None)"

primrec pt_walk :: "mem \<Rightarrow> u64 \<Rightarrow> u64 list \<Rightarrow> u64 option" where
  "pt_walk m u [] = Some u"
| "pt_walk m u (i # p) = (case pt_step m u i of None \<Rightarrow> None | Some w \<Rightarrow> pt_walk m w p)"

definition is_path :: "u64 list \<Rightarrow> bool" where
  "is_path p \<longleftrightarrow> (\<forall>i \<in> set p. i < 512)"

lemma is_path_simps [simp]:
  "is_path []" "is_path (p @ q) \<longleftrightarrow> is_path p \<and> is_path q" "is_path (i # p) \<longleftrightarrow> i < 512 \<and> is_path p"
  by (auto simp: is_path_def)

lemma pt_walk_append:
  "pt_walk m u (p @ q) = (case pt_walk m u p of None \<Rightarrow> None | Some w \<Rightarrow> pt_walk m w q)"
  by (induction p arbitrary: u) (auto split: option.splits)

lemma pt_walk_snoc:
  "pt_walk m u (p @ [i]) = (case pt_walk m u p of None \<Rightarrow> None | Some w \<Rightarrow> pt_step m w i)"
  by (auto simp: pt_walk_append split: option.splits)

text \<open>If no entry but \<open>i\<close> of the table at path \<open>p\<close> has changed, every walk that does not pass
  through it is as before.\<close>

lemma pt_walk_frame:
  assumes "\<And>q u j. is_path q \<Longrightarrow> length q \<le> 3 \<Longrightarrow> pt_walk m root q = Some u \<Longrightarrow> j < 512 \<Longrightarrow>
      (q, j) \<noteq> (p, i) \<Longrightarrow> read64 m' (u + 8 * j) = read64 m (u + 8 * j)"
    and "is_path r" and "length r \<le> 4" and "\<And>rest. r \<noteq> p @ i # rest"
  shows "pt_walk m' root r = pt_walk m root r"
  using assms(2-4)
proof (induction r rule: rev_induct)
  case (snoc k r)
  have "r \<noteq> p @ i # rest" for rest using snoc.prems(3) [of "rest @ [k]"] by auto
  then have "pt_walk m' root r = pt_walk m root r"
    using snoc.prems by (intro snoc.IH) auto
  moreover have "pt_step m' u k = pt_step m u k" if "pt_walk m root r = Some u" for u
    using assms(1) [OF _ _ that, of k] snoc.prems(1,2) snoc.prems(3) [of "[]"] by (auto simp: pt_step_def)
  ultimately show ?case by (auto simp: pt_walk_snoc split: option.splits)
qed simp

definition page_path :: "u64 \<Rightarrow> u64 list" where
  "page_path v = [bf_get 39 9 v, bf_get 30 9 v, bf_get 21 9 v, bf_get 12 9 v]"

lemma page_path_valid [simp]: "is_path (page_path v)" "length (page_path v) = 4"
  by (simp_all add: page_path_def bf_get_9_less)

text \<open>Two addresses are on the same page when bits 12 to 47 agree.\<close>

definition same_page :: "u64 \<Rightarrow> u64 \<Rightarrow> bool" where
  "same_page v w \<longleftrightarrow> bf_get 12 36 v = bf_get 12 36 w"

lemma same_page_path: "same_page v w \<longleftrightarrow> page_path v = page_path w"
proof
  assume "same_page v w"
  then have eq: "bit v (12 + k) = bit w (12 + k)" if "k < 36" for k
    using that bit_bf_get [of 12 36 v k] bit_bf_get [of 12 36 w k] by (simp add: same_page_def)
  have "bf_get lo 9 v = bf_get lo 9 w" if "12 \<le> lo" "lo \<le> 39" for lo
  proof (rule bit_word_eqI)
    fix k
    show "bit (bf_get lo 9 v) k \<longleftrightarrow> bit (bf_get lo 9 w) k"
      using eq [of "lo - 12 + k"] that by (auto simp: bit_bf_get)
  qed
  then show "page_path v = page_path w" by (simp add: page_path_def)
next
  assume eq: "page_path v = page_path w"
  have "bit v (12 + k) = bit w (12 + k)" if k: "k < 36" for k
  proof -
    have "\<exists>lo \<in> {12, 21, 30, 39}. lo \<le> 12 + k \<and> 12 + k < lo + 9" using k by (simp; presburger)
    then obtain lo where lo: "lo \<in> {12, 21, 30, 39 :: nat}" "lo \<le> 12 + k" "12 + k < lo + 9" by blast
    then have "bf_get lo 9 v = bf_get lo 9 w" using eq by (auto simp: page_path_def)
    then have "bit (bf_get lo 9 v) (12 + k - lo) = bit (bf_get lo 9 w) (12 + k - lo)" by simp
    moreover have "12 + k - lo < 9" using lo by linarith
    ultimately show ?thesis using lo by (simp add: bit_bf_get)
  qed
  then show "same_page v w"
    unfolding same_page_def by (intro bit_word_eqI) (auto simp: bit_bf_get)
qed


lemma same_page_frame: "same_page v w \<Longrightarrow> frame_bits v = frame_bits w"
proof (rule bit_word_eqI)
  fix k assume "same_page v w"
  then have "bit (bf_get 12 36 v) (k - 12) = bit (bf_get 12 36 w) (k - 12)" by (simp add: same_page_def)
  then show "bit (frame_bits v) k = bit (frame_bits w) k" by (auto simp: bit_bf_get bit_frame_bits)
qed

section \<open>The invariant of the paging structures\<close>

text \<open>A table lies below 4 GiB, off the bitmap, in a locked frame (if in a managed frame).\<close>

definition table_ok :: "kst \<Rightarrow> u64 \<Rightarrow> bool" where
  "table_ok s u \<longleftrightarrow> u \<noteq> 0 \<and> aligned u \<and> unat u < 2 ^ 32 \<and> span u 4096 \<inter> bm_span (bitmap (pmem s)) = {} \<and>
     (ptr_to_frame_idx u < frames (pmem s) \<longrightarrow> bm_get s (ptr_to_frame_idx u))"

text \<open>The pool the tables come from: at most 4 GiB of frames, frame 0 locked, no free frame under
  the bitmap.\<close>

definition pool_ok :: "kst \<Rightarrow> bool" where
  "pool_ok s \<longleftrightarrow> pm_inv s \<and> 0 < frames (pmem s) \<and> bm_get s 0 \<and> unat (frames (pmem s)) \<le> 2 ^ 20 \<and>
     (\<forall>i < frames (pmem s). \<not> bm_get s i \<longrightarrow>
        span (idx_to_frame_ptr i) 4096 \<inter> bm_span (bitmap (pmem s)) = {})"

definition table_at :: "u64 \<Rightarrow> kst \<Rightarrow> u64 list \<Rightarrow> u64 \<Rightarrow> bool" where
  "table_at root s p u \<longleftrightarrow> is_path p \<and> length p \<le> 3 \<and> pt_walk (ram s) root p = Some u"

definition pt_inv :: "u64 \<Rightarrow> kst \<Rightarrow> bool" where
  "pt_inv root s \<longleftrightarrow> pool_ok s \<and>
     (\<forall>p u. table_at root s p u \<longrightarrow> table_ok s u \<and> (\<forall>i < 512. entry_ok (read64 (ram s) (u + 8 * i)))) \<and>
     (\<forall>p q u. table_at root s p u \<and> table_at root s q u \<longrightarrow> p = q)"

lemma pt_invD:
  assumes "pt_inv root s" and "table_at root s p u"
  shows "table_ok s u" and "i < 512 \<Longrightarrow> entry_ok (read64 (ram s) (u + 8 * i))"
    and "table_at root s q u \<Longrightarrow> p = q"
  using assms unfolding pt_inv_def by blast+

lemma pt_inv_pool: "pt_inv root s \<Longrightarrow> pool_ok s"
  by (simp add: pt_inv_def)

text \<open>Frames the manager hands out, as pages.\<close>

lemma frame_page:
  assumes "pool_ok s" and "i < frames (pmem s)"
  shows "aligned (idx_to_frame_ptr i)" and "unat (idx_to_frame_ptr i) < 2 ^ 32"
    and "ptr_to_frame_idx (idx_to_frame_ptr i) = i"
proof -
  have i: "unat i < 2 ^ 20" using assms by (simp add: pool_ok_def word_less_nat_alt)
  then have eq: "unat (idx_to_frame_ptr i) = unat i * 4096"
    unfolding idx_to_frame_ptr_def by (intro unat_frame_ptr) simp
  show "aligned (idx_to_frame_ptr i)" "unat (idx_to_frame_ptr i) < 2 ^ 32"
    using eq i by (simp_all add: aligned_def)
  show "ptr_to_frame_idx (idx_to_frame_ptr i) = i"
    using eq unat_frame_idx [of "idx_to_frame_ptr i"] by (simp add: word_unat_eq_iff)
qed

lemma fresh_frame_no_table:
  assumes "pt_inv root s" and "table_at root s p u" and "i < frames (pmem s)" and "\<not> bm_get s i"
  shows "u \<noteq> idx_to_frame_ptr i"
  using pt_invD(1) [OF assms(1,2)] frame_page(3) [OF pt_inv_pool [OF assms(1)] assms(3)] assms(3,4)
  by (auto simp: table_ok_def)

text \<open>A write to entry \<open>i\<close> of the table at \<open>p\<close> leaves all other entries of all tables alone.\<close>

lemma other_entries:
  assumes "pt_inv root s" and "table_at root s p t" and "i < 512"
    and "table_at root s q u" and "j < 512" and "(q, j) \<noteq> (p, i)"
  shows "apart (u + 8 * j) 8 (t + 8 * i) 8"
proof (cases "u = t")
  case True
  then have "q = p" using pt_invD(3) [OF assms(1,4)] assms(2) by simp
  then show ?thesis using assms True entries_apart [of j i t] by auto
next
  case False
  have al: "aligned u" "aligned t"
    using pt_invD(1) [OF assms(1,4)] pt_invD(1) [OF assms(1,2)] by (simp_all add: table_ok_def)
  have "span (u + 8 * j) 8 \<inter> span (t + 8 * i) 8 = {}"
    using pages_disjoint [OF al False] entry_in_page [OF assms(3), of t] entry_in_page [OF assms(5), of u]
    by blast
  then show ?thesis by (rule disjoint_apart) simp_all
qed


section \<open>Linking a new table\<close>

lemma bm_get_ram_cong:
  assumes "pm_inv s" and "\<And>x. x \<in> bm_span (bitmap (pmem s)) \<Longrightarrow> m x = ram s x"
  shows "j < frames (pmem s) \<Longrightarrow> bm_get (s\<lparr>ram := m\<rparr>) j = bm_get s j"
    and "pm_inv (s\<lparr>ram := m\<rparr>)"
proof -
  have holds: "bm_holds (bitmap (pmem s)) (frames (pmem s))" using assms(1) by (simp add: pm_inv_def)
  show eq: "bm_get (s\<lparr>ram := m\<rparr>) j = bm_get s j" if "j < frames (pmem s)" for j
    using Bitmap_get_cong [OF holds that assms(2)] by (simp add: bm_get_def)
  then have "{j. j < frames (pmem s) \<and> bm_get (s\<lparr>ram := m\<rparr>) j} = {j. j < frames (pmem s) \<and> bm_get s j}"
    by auto
  then show "pm_inv (s\<lparr>ram := m\<rparr>)" using assms(1) by (simp add: pm_inv_def)
qed

text \<open>Memory after a frame has been taken, cleared and linked into an entry.\<close>

definition link_table :: "u64 \<Rightarrow> u64 \<Rightarrow> kst \<Rightarrow> kst" where
  "link_table k entry s =
     (take_frame k s)\<lparr>ram := set_entry entry (idx_to_frame_ptr k)
        (memset (ram (take_frame k s)) (idx_to_frame_ptr k) 0 PAGE_SZ)\<rparr>"

lemma link_table_proj [simp]:
  "frames (pmem (link_table k e s)) = frames (pmem s)"
  "bitmap (pmem (link_table k e s)) = bitmap (pmem s)"
  "last_free_idx (pmem (link_table k e s)) = k"
  "kout (link_table k e s) = kout s"
  by (simp_all add: link_table_def)

lemma memset_page_outside: "x \<notin> span f 4096 \<Longrightarrow> memset m f 0 PAGE_SZ x = m x"
  by (simp add: memset_apply span_iff PAGE_SZ_def FRAME_SZ_def)

lemma read64_memset_page:
  assumes "j < 512"
  shows "read64 (memset m f 0 PAGE_SZ) (f + 8 * j) = 0"
proof -
  have "read64 (memset m f 0 PAGE_SZ) (f + 8 * j) = read64 (\<lambda>_. 0) (f + 8 * j)"
    using entry_in_page [OF assms, of f]
    by (intro c64.rd_cong) (auto simp: memset_apply span_iff PAGE_SZ_def FRAME_SZ_def subset_iff)
  also have "\<dots> = 0" by (simp add: read64_def load_steps)
  finally show ?thesis .
qed

lemma link_table_outside:
  assumes "pool_ok s" and "k < frames (pmem s)" and "x \<notin> bm_span (bitmap (pmem s))"
    and "x \<notin> span (idx_to_frame_ptr k) 4096" and "x \<notin> span e 8"
  shows "ram (link_table k e s) x = ram s x"
  using assms
  by (simp add: link_table_def set_entry_eq c64.wr_outside memset_page_outside lock_frame_ram_outside
      pool_ok_def)

text \<open>Frame \<open>k\<close> is free and can be linked into the absent entry \<open>i\<close> of the table \<open>t\<close> at path \<open>p\<close>.\<close>

definition linkable :: "u64 \<Rightarrow> kst \<Rightarrow> u64 list \<Rightarrow> u64 \<Rightarrow> u64 \<Rightarrow> u64 \<Rightarrow> bool" where
  "linkable root s p t i k \<longleftrightarrow> pt_inv root s \<and> table_at root s p t \<and> length p \<le> 2 \<and> i < 512 \<and>
     \<not> bit (read64 (ram s) (t + 8 * i)) 0 \<and> k < frames (pmem s) \<and> \<not> bm_get s k"

lemma linkableD:
  assumes "linkable root s p t i k"
  shows "pt_inv root s" and "table_at root s p t" and "length p \<le> 2" and "i < 512"
    and "\<not> bit (read64 (ram s) (t + 8 * i)) 0" and "k < frames (pmem s)" and "\<not> bm_get s k"
    and "pool_ok s"
  using assms by (auto simp: linkable_def pt_inv_def)

lemma link_no_table:
  assumes "linkable root s p t i k" and "table_at root s q u"
  shows "span u 4096 \<inter> span (idx_to_frame_ptr k) 4096 = {}"
proof -
  note L = linkableD [OF assms(1)]
  have "u \<noteq> idx_to_frame_ptr k" using fresh_frame_no_table [OF L(1) assms(2) L(6,7)] .
  moreover have "aligned u" using pt_invD(1) [OF L(1) assms(2)] by (simp add: table_ok_def)
  ultimately show ?thesis using frame_page(1) [OF L(8,6)] by (intro pages_disjoint)
qed

lemma link_no_bitmap:
  assumes "linkable root s p t i k"
  shows "span (idx_to_frame_ptr k) 4096 \<inter> bm_span (bitmap (pmem s)) = {}"
  using linkableD [OF assms] by (auto simp: pool_ok_def)

lemma table_entry_no_bitmap:
  assumes "pt_inv root s" and "table_at root s q u" and "j < 512"
  shows "span (u + 8 * j) 8 \<inter> bm_span (bitmap (pmem s)) = {}"
  using entry_in_page [OF assms(3), of u] pt_invD(1) [OF assms(1,2)] by (auto simp: table_ok_def)

lemma link_entry_kept:
  assumes "linkable root s p t i k" and "table_at root s q u" and "j < 512" and "(q, j) \<noteq> (p, i)"
  shows "read64 (ram (link_table k (t + 8 * i) s)) (u + 8 * j) = read64 (ram s) (u + 8 * j)"
proof (rule c64.rd_cong)
  note L = linkableD [OF assms(1)]
  fix x assume x: "x \<in> span (u + 8 * j) 8"
  have "x \<notin> span (t + 8 * i) 8"
    using span_disjoint [OF other_entries [OF L(1,2,4) assms(2-4)]] x by blast
  moreover have "x \<notin> span (idx_to_frame_ptr k) 4096"
    using link_no_table [OF assms(1,2)] entry_in_page [OF assms(3), of u] x by blast
  ultimately show "ram (link_table k (t + 8 * i) s) x = ram s x"
    using link_table_outside [OF L(8,6)] table_entry_no_bitmap [OF L(1) assms(2,3)] x by blast
qed

lemma link_entry_written:
  assumes "linkable root s p t i k"
  shows "read64 (ram (link_table k (t + 8 * i) s)) (t + 8 * i)
    = new_entry (idx_to_frame_ptr k) (read64 (ram s) (t + 8 * i))"
proof -
  note L = linkableD [OF assms]
  let ?f = "idx_to_frame_ptr k"
  have "read64 (memset (ram (take_frame k s)) ?f 0 PAGE_SZ) (t + 8 * i) = read64 (ram (take_frame k s)) (t + 8 * i)"
    using link_no_table [OF assms L(2)] entry_in_page [OF L(4), of t]
    by (intro c64.rd_outside [where S = "span ?f 4096"]) (auto simp: memset_page_outside)
  also have "\<dots> = read64 (ram s) (t + 8 * i)"
    using table_entry_no_bitmap [OF L(1,2,4)] L
    by (intro c64.rd_outside [where S = "bm_span (bitmap (pmem s))"])
      (auto simp: lock_frame_ram_outside pool_ok_def)
  finally show ?thesis by (simp add: link_table_def set_entry_eq)
qed

lemma link_table_empty:
  assumes "linkable root s p t i k" and "j < 512"
  shows "read64 (ram (link_table k (t + 8 * i) s)) (idx_to_frame_ptr k + 8 * j) = 0"
proof -
  note L = linkableD [OF assms(1)]
  let ?f = "idx_to_frame_ptr k"
  have "span (?f + 8 * j) 8 \<inter> span (t + 8 * i) 8 = {}"
    using entry_in_page [OF assms(2), of ?f] entry_in_page [OF L(4), of t] link_no_table [OF assms(1) L(2)] by blast
  then have "apart (?f + 8 * j) 8 (t + 8 * i) 8" by (rule disjoint_apart) simp_all
  then show ?thesis
    using read64_memset_page [OF assms(2)] by (simp add: link_table_def set_entry_eq c64.rd_wr_apart)
qed

lemma link_walk_before:
  assumes "linkable root s p t i k" and "is_path r" and "length r \<le> 4" and "\<And>rest. r \<noteq> p @ i # rest"
  shows "pt_walk (ram (link_table k (t + 8 * i) s)) root r = pt_walk (ram s) root r"
  using assms(2-4) link_entry_kept [OF assms(1)] by (intro pt_walk_frame) (auto simp: table_at_def)

lemma link_walk:
  assumes "linkable root s p t i k" and "is_path r" and "length r \<le> 4"
  shows "pt_walk (ram (link_table k (t + 8 * i) s)) root r =
    (if r = p @ [i] then Some (idx_to_frame_ptr k) else pt_walk (ram s) root r)"
proof (cases "\<exists>rest. r = p @ i # rest")
  case False
  then show ?thesis using link_walk_before [OF assms] by auto
next
  case True
  note L = linkableD [OF assms(1)]
  let ?f = "idx_to_frame_ptr k" and ?s = "link_table k (t + 8 * i) s"
  obtain rest where r: "r = p @ i # rest" using True by blast
  have "pt_walk (ram ?s) root p = Some t"
    using L(2) link_walk_before [OF assms(1), of p] by (simp add: table_at_def)
  moreover have "pt_step (ram ?s) t i = Some ?f"
    using pt_invD(2) [OF L(1,2,4)] frame_bits_aligned [of ?f] frame_page [OF L(8,6)]
    by (simp add: pt_step_def link_entry_written [OF assms(1)] hw_addr_new_entry bit_new_entry aligned_def)
  moreover have "pt_walk (ram ?s) ?f rest = (if rest = [] then Some ?f else None)"
    using assms(2) r link_table_empty [OF assms(1)] by (cases rest) (auto simp: pt_step_def)
  moreover have "pt_walk (ram s) root r = None"
    using L(2,5) r by (simp add: table_at_def pt_walk_append pt_step_def)
  ultimately show ?thesis using r by (simp add: pt_walk_append)
qed

lemma link_table_at:
  assumes "linkable root s p t i k"
  shows "table_at root (link_table k (t + 8 * i) s) q u \<longleftrightarrow>
    (if q = p @ [i] then u = idx_to_frame_ptr k else table_at root s q u)"
  using linkableD [OF assms] by (auto simp: table_at_def link_walk [OF assms])

lemma link_pool:
  assumes "linkable root s p t i k"
  shows "j < frames (pmem s) \<Longrightarrow> bm_get (link_table k (t + 8 * i) s) j \<longleftrightarrow> j = k \<or> bm_get s j"
    and "pool_ok (link_table k (t + 8 * i) s)"
proof -
  note L = linkableD [OF assms]
  let ?t = "take_frame k s" and ?s = "link_table k (t + 8 * i) s"
  have inv_t: "pm_inv ?t" using L by (simp add: pool_ok_def pm_inv_take_frame)
  have agree: "ram ?s x = ram ?t x" if "x \<in> bm_span (bitmap (pmem ?t))" for x
  proof -
    have "x \<notin> span (t + 8 * i) 8" using that table_entry_no_bitmap [OF L(1,2,4)] by auto
    moreover have "x \<notin> span (idx_to_frame_ptr k) 4096" using that link_no_bitmap [OF assms] by auto
    ultimately show ?thesis by (simp add: link_table_def set_entry_eq c64.wr_outside memset_page_outside)
  qed
  have eq: "?s = ?t\<lparr>ram := ram ?s\<rparr>" by (simp add: link_table_def)
  show get: "bm_get ?s j \<longleftrightarrow> j = k \<or> bm_get s j" if "j < frames (pmem s)" for j
    using bm_get_ram_cong(1) [OF inv_t agree, of j] that eq by (simp add: bm_get_take_frame)
  have "pm_inv ?s" using bm_get_ram_cong(2) [OF inv_t agree] eq by simp
  moreover have "0 < frames (pmem s)" using L(6) by (auto simp: word_less_nat_alt)
  ultimately show "pool_ok ?s" using L(8) get by (auto simp: pool_ok_def)
qed

lemma link_entry_ok:
  assumes "linkable root s p t i k" and "table_at root (link_table k (t + 8 * i) s) q u" and "j < 512"
  shows "entry_ok (read64 (ram (link_table k (t + 8 * i) s)) (u + 8 * j))"
proof -
  note L = linkableD [OF assms(1)]
  have "q = p @ [i] \<and> u = idx_to_frame_ptr k \<or> table_at root s q u"
    using assms(2) link_table_at [OF assms(1), of q u] by (simp split: if_splits)
  moreover have "table_at root s p u \<Longrightarrow> u = t" using L(2) by (simp add: table_at_def)
  ultimately consider "q = p @ [i]" "u = idx_to_frame_ptr k" | "(q, j) = (p, i)" "u = t"
    | "table_at root s q u" "(q, j) \<noteq> (p, i)" by blast
  then show ?thesis
  proof cases
    case 1
    then show ?thesis using link_table_empty [OF assms(1,3)] by (simp add: entry_ok_def)
  next
    case 2
    then show ?thesis
      using pt_invD(2) [OF L(1,2,4)] by (simp add: link_entry_written [OF assms(1)] new_entry_ok)
  next
    case 3
    then show ?thesis using link_entry_kept [OF assms(1) _ assms(3)] pt_invD(2) [OF L(1) _ assms(3)] by simp
  qed
qed

lemma request_frame_nonnull:
  assumes "pool_ok s" and "k < frames (pmem s)" and "\<not> bm_get s k"
  shows "idx_to_frame_ptr k \<noteq> 0"
  using frame_page(3) [OF assms(1,2)] assms by (auto simp: pool_ok_def ptr_to_frame_idx_def)

lemma link_pt_inv:
  assumes "linkable root s p t i k"
  shows "pt_inv root (link_table k (t + 8 * i) s)"
  unfolding pt_inv_def
proof (intro conjI allI impI)
  note L = linkableD [OF assms] and at = link_table_at [OF assms]
  let ?f = "idx_to_frame_ptr k" and ?s = "link_table k (t + 8 * i) s"
  show "pool_ok ?s" by (rule link_pool(2) [OF assms])
  show "entry_ok (read64 (ram ?s) (u + 8 * j))" if "table_at root ?s q u" "j < 512" for q u j
    using link_entry_ok [OF assms that] .
  show "table_ok ?s u" if "table_at root ?s q u" for q u
  proof (cases "q = p @ [i]")
    case True
    then show ?thesis
      using that frame_page [OF L(8,6)] link_no_bitmap [OF assms] link_pool(1) [OF assms] L(6)
        request_frame_nonnull [OF L(8,6,7)]
      by (simp add: at table_ok_def)
  next
    case False
    then have "table_ok s u" using that pt_invD(1) [OF L(1)] by (simp add: at)
    then show ?thesis using link_pool(1) [OF assms] by (auto simp: table_ok_def)
  qed
  show "q = r" if "table_at root ?s q u \<and> table_at root ?s r u" for q r u
  proof -
    have "table_at root s q' u \<Longrightarrow> u \<noteq> ?f" for q'
      using fresh_frame_no_table [OF L(1) _ L(6,7)] .
    moreover have "table_at root s q u \<Longrightarrow> table_at root s r u \<Longrightarrow> q = r"
      using pt_invD(3) [OF L(1)] by blast
    ultimately show ?thesis using that by (cases "q = p @ [i]"; cases "r = p @ [i]") (auto simp: at)
  qed
qed


section \<open>The descent\<close>

text \<open>The frames a request can still hand out.\<close>

definition room :: "kst \<Rightarrow> nat" where
  "room s = card {i. last_free_idx (pmem s) \<le> i \<and> i < frames (pmem s) \<and> \<not> bm_get s i}"

text \<open>
  What an operation on the paging structures keeps, from state \<open>s\<close> to \<open>s'\<close>: locked frames stay
  locked, and memory in locked frames that is neither bitmap nor table is not written.
\<close>

definition pt_keeps :: "u64 \<Rightarrow> kst \<Rightarrow> kst \<Rightarrow> bool" where
  "pt_keeps root s s' \<longleftrightarrow> frames (pmem s') = frames (pmem s) \<and> bitmap (pmem s') = bitmap (pmem s) \<and>
     kout s' = kout s \<and>
     (\<forall>i < frames (pmem s). bm_get s i \<longrightarrow> bm_get s' i) \<and>
     (\<forall>p u. table_at root s p u \<longrightarrow> table_at root s' p u) \<and>
     (\<forall>p u. table_at root s' p u \<and> \<not> table_at root s p u \<longrightarrow>
        ptr_to_frame_idx u < frames (pmem s) \<and> \<not> bm_get s (ptr_to_frame_idx u)) \<and>
     (\<forall>x. x \<notin> bm_span (bitmap (pmem s)) \<and> (\<forall>p u. table_at root s' p u \<longrightarrow> x \<notin> span u 4096) \<longrightarrow>
        ram s' x = ram s x)"

lemma pt_keeps_refl: "pt_keeps root s s"
  by (simp add: pt_keeps_def)

lemma pt_keepsD:
  assumes "pt_keeps root s s'"
  shows "frames (pmem s') = frames (pmem s)" and "bitmap (pmem s') = bitmap (pmem s)" and "kout s' = kout s"
    and "i < frames (pmem s) \<Longrightarrow> bm_get s i \<Longrightarrow> bm_get s' i"
    and "table_at root s p u \<Longrightarrow> table_at root s' p u"
    and "table_at root s' p u \<Longrightarrow> \<not> table_at root s p u \<Longrightarrow> ptr_to_frame_idx u < frames (pmem s)"
    and "table_at root s' p u \<Longrightarrow> \<not> table_at root s p u \<Longrightarrow> \<not> bm_get s (ptr_to_frame_idx u)"
    and "x \<notin> bm_span (bitmap (pmem s)) \<Longrightarrow> (\<And>p u. table_at root s' p u \<Longrightarrow> x \<notin> span u 4096) \<Longrightarrow>
      ram s' x = ram s x"
  using assms unfolding pt_keeps_def by blast+

lemma pt_keeps_trans:
  assumes "pt_keeps root s t" and "pt_keeps root t u"
  shows "pt_keeps root s u"
  unfolding pt_keeps_def
proof (intro conjI allI impI)
  note A = pt_keepsD [OF assms(1)] and B = pt_keepsD [OF assms(2)]
  show "frames (pmem u) = frames (pmem s)" "bitmap (pmem u) = bitmap (pmem s)" "kout u = kout s"
    using A(1-3) B(1-3) by simp_all
  show "bm_get u i" if "i < frames (pmem s)" "bm_get s i" for i
    using A(4) [OF that] that(1) A(1) by (intro B(4)) simp_all
  show "table_at root u p a" if "table_at root s p a" for p a by (rule B(5), rule A(5), rule that)
  show "ram u x = ram s x"
    if "x \<notin> bm_span (bitmap (pmem s)) \<and> (\<forall>p a. table_at root u p a \<longrightarrow> x \<notin> span a 4096)" for x
  proof -
    have "ram u x = ram t x" using that A(2) by (intro B(8)) auto
    also have "\<dots> = ram s x" using that B(5) by (intro A(8)) blast+
    finally show ?thesis .
  qed
  fix p a assume new: "table_at root u p a \<and> \<not> table_at root s p a"
  have "ptr_to_frame_idx a < frames (pmem s) \<and> \<not> bm_get s (ptr_to_frame_idx a)"
  proof (cases "table_at root t p a")
    case True
    then show ?thesis using A(6,7) new by blast
  next
    case False
    then have "ptr_to_frame_idx a < frames (pmem t)" "\<not> bm_get t (ptr_to_frame_idx a)"
      using B(6,7) new by blast+
    then show ?thesis using A(1,4) by auto
  qed
  then show "ptr_to_frame_idx a < frames (pmem s)" "\<not> bm_get s (ptr_to_frame_idx a)" by simp_all
qed

lemma room_pos_iff:
  "0 < room s \<longleftrightarrow> (\<exists>i. last_free_idx (pmem s) \<le> i \<and> i < frames (pmem s) \<and> \<not> bm_get s i)"
  by (auto simp: room_def card_gt_0_iff)

lemma room_next:
  assumes "last_free_idx (pmem s) \<le> k" and "k < frames (pmem s)" and "\<not> bm_get s k"
    and "\<And>j. last_free_idx (pmem s) \<le> j \<Longrightarrow> j < k \<Longrightarrow> bm_get s j"
    and "last_free_idx (pmem s') = k" and "frames (pmem s') = frames (pmem s)"
    and "\<And>j. j < frames (pmem s) \<Longrightarrow> bm_get s' j \<longleftrightarrow> j = k \<or> bm_get s j"
  shows "room s = Suc (room s')"
proof -
  have "{i. last_free_idx (pmem s) \<le> i \<and> i < frames (pmem s) \<and> \<not> bm_get s i}
      = insert k {i. last_free_idx (pmem s') \<le> i \<and> i < frames (pmem s') \<and> \<not> bm_get s' i}"
    using assms by (auto simp: not_less [symmetric] dest: order_trans)
  moreover have "k \<notin> {i. last_free_idx (pmem s') \<le> i \<and> i < frames (pmem s') \<and> \<not> bm_get s' i}"
    using assms by auto
  ultimately show ?thesis by (simp add: room_def)
qed


lemma link_keeps:
  assumes "linkable root s p t i k"
  shows "pt_keeps root s (link_table k (t + 8 * i) s)"
  unfolding pt_keeps_def
proof (intro conjI allI impI)
  note L = linkableD [OF assms] and at = link_table_at [OF assms]
  let ?s = "link_table k (t + 8 * i) s"
  have absent: "\<not> table_at root s (p @ [i]) u" for u
    using L(2,5) by (simp add: table_at_def pt_walk_snoc pt_step_def)
  show "bm_get ?s j" if "j < frames (pmem s)" "bm_get s j" for j
    using link_pool(1) [OF assms that(1)] that(2) by simp
  show "table_at root ?s q u" if "table_at root s q u" for q u using that absent by (auto simp: at)
  show "ptr_to_frame_idx u < frames (pmem s)" "\<not> bm_get s (ptr_to_frame_idx u)"
    if "table_at root ?s q u \<and> \<not> table_at root s q u" for q u
    using that frame_page(3) [OF L(8,6)] L(6,7) by (auto simp: at split: if_splits)
  show "ram ?s x = ram s x"
    if x: "x \<notin> bm_span (bitmap (pmem s)) \<and> (\<forall>q u. table_at root ?s q u \<longrightarrow> x \<notin> span u 4096)" for x
  proof (rule link_table_outside [OF L(8,6)])
    show "x \<notin> span (idx_to_frame_ptr k) 4096" using x at [of "p @ [i]" "idx_to_frame_ptr k"] by auto
    have "x \<notin> span t 4096" using x at [of p t] L(2) by simp
    then show "x \<notin> span (t + 8 * i) 8" using entry_in_page [OF L(4), of t] by blast
  qed (use x in simp)
qed simp_all

lemma request_frame_pool:
  assumes "pool_ok s" and "0 < room s"
  obtains k where "k < frames (pmem s)" "\<not> bm_get s k" "last_free_idx (pmem s) \<le> k"
    "\<And>j. last_free_idx (pmem s) \<le> j \<Longrightarrow> j < k \<Longrightarrow> bm_get s j"
    "request_frame s = Inr (idx_to_frame_ptr k, take_frame k s)"
proof -
  from assms(2) obtain i where i: "last_free_idx (pmem s) \<le> i" "i < frames (pmem s)" "\<not> bm_get s i"
    by (auto simp: room_pos_iff)
  have "0 < free_frames (pmem s)"
    using assms(1) card_locked_lt [OF i(2,3)] by (auto simp: pool_ok_def pm_inv_def word_less_nat_alt)
  then obtain q s' where req: "request_frame s = Inr (q, s')" using request_frame_Inr_iff by blast
  then show ?thesis
  proof (cases rule: request_frame_cases)
    case (frame k)
    then show ?thesis using req that [of k] by simp
  qed (use i in simp)
qed

text \<open>The absent entry: a successful step links a fresh frame.\<close>

lemma ensure_table_absent:
  assumes "pt_inv root s" and "table_at root s p t" and "length p \<le> 2" and "i < 512"
    and "\<not> bit (read64 (ram s) (t + 8 * i)) 0"
  shows "0 < room s \<Longrightarrow> \<exists>r. ensure_table name (t + 8 * i) s = Inr r"
    and "ensure_table name (t + 8 * i) s = Inr (u, s') \<Longrightarrow>
      \<exists>k. linkable root s p t i k \<and> u = idx_to_frame_ptr k \<and> s' = link_table k (t + 8 * i) s \<and>
        room s = Suc (room s')"
proof -
  note pool = pt_inv_pool [OF assms(1)]
  have unf: "ensure_table name (t + 8 * i) s = bind_res (request_frame s) (\<lambda>(table, s).
      bind_res (ASSERT (name @ '' != nullptr'') (table \<noteq> 0)) (\<lambda>_.
        Inr (table, s\<lparr>ram := set_entry (t + 8 * i) table (memset (ram s) table 0 PAGE_SZ)\<rparr>)))"
    using assms(5) by (simp add: ensure_table_def entry_present_bit)
  show "\<exists>r. ensure_table name (t + 8 * i) s = Inr r" if room: "0 < room s"
    by (rule request_frame_pool [OF pool room]) (simp add: unf request_frame_nonnull [OF pool])
  assume ens: "ensure_table name (t + 8 * i) s = Inr (u, s')"
  then obtain s1 where req: "request_frame s = Inr (u, s1)" and "u \<noteq> 0"
    and s': "s' = s1\<lparr>ram := set_entry (t + 8 * i) u (memset (ram s1) u 0 PAGE_SZ)\<rparr>"
    by (auto simp: unf bind_res_Inr_iff)
  from req show "\<exists>k. linkable root s p t i k \<and> u = idx_to_frame_ptr k \<and> s' = link_table k (t + 8 * i) s \<and>
      room s = Suc (room s')"
  proof (cases rule: request_frame_cases)
    case (frame k)
    have L: "linkable root s p t i k" using assms frame by (simp add: linkable_def)
    moreover have eq: "s' = link_table k (t + 8 * i) s" using s' frame by (simp add: link_table_def)
    moreover have "room s = Suc (room s')"
      unfolding eq using frame link_pool(1) [OF L] by (intro room_next) simp_all
    ultimately show ?thesis using frame by blast
  qed (use \<open>u \<noteq> 0\<close> in simp)
qed

lemma ensure_table_present:
  assumes "pt_inv root s" and "table_at root s p t" and "length p \<le> 2" and "i < 512"
    and "bit (read64 (ram s) (t + 8 * i)) 0"
  shows "\<exists>u. ensure_table name (t + 8 * i) s = Inr (u, s) \<and> table_at root s (p @ [i]) u"
proof -
  let ?e = "read64 (ram s) (t + 8 * i)"
  have at: "table_at root s (p @ [i]) (hw_addr ?e)"
    using assms by (simp add: table_at_def pt_walk_snoc pt_step_def)
  have "entry_table ?e = hw_addr ?e"
    using pt_invD(1) [OF assms(1) at] by (intro entry_table_eq) (simp add: table_ok_def)
  then show ?thesis using at assms(5) by (simp add: ensure_table_def entry_present_bit)
qed

text \<open>
  The tables still missing for the pages of a set of addresses, and enough frames for them.
\<close>

definition prefixes_of :: "u64 set \<Rightarrow> u64 list set" where
  "prefixes_of V = {take n (page_path v) | n v. v \<in> V \<and> n \<in> {1, 2, 3}}"

definition missing :: "u64 \<Rightarrow> u64 set \<Rightarrow> kst \<Rightarrow> u64 list set" where
  "missing root V s = {q \<in> prefixes_of V. pt_walk (ram s) root q = None}"

definition enough :: "u64 \<Rightarrow> u64 set \<Rightarrow> kst \<Rightarrow> bool" where
  "enough root V s \<longleftrightarrow> card (missing root V s) \<le> room s"

lemma finite_missing: "finite (missing root V s)"
proof -
  have "prefixes_of V \<subseteq> (\<lambda>(n, v). take n (page_path v)) ` ({1, 2, 3} \<times> V)"
    by (auto simp: prefixes_of_def)
  then have "finite (prefixes_of V)" by (rule finite_subset) simp
  then show ?thesis by (simp add: missing_def)
qed

lemma prefixes_of_path: "q \<in> prefixes_of V \<Longrightarrow> is_path q \<and> length q \<le> 3"
  using page_path_valid by (force simp: prefixes_of_def is_path_def dest: in_set_takeD)

lemma prefix_of_page:
  assumes "v \<in> V"
  shows "take 1 (page_path v) \<in> prefixes_of V" "take 2 (page_path v) \<in> prefixes_of V"
    "take 3 (page_path v) \<in> prefixes_of V"
  using assms unfolding prefixes_of_def by blast+

text \<open>One level of the descent succeeds when the frames suffice, and they still do afterwards.\<close>

lemma ensure_table_enough:
  assumes "pt_inv root s" and "table_at root s p t" and "length p \<le> 2" and "i < 512"
    and "enough root V s" and "p @ [i] \<in> prefixes_of V"
  shows "\<exists>u s'. ensure_table name (t + 8 * i) s = Inr (u, s') \<and> enough root V s'"
proof (cases "bit (read64 (ram s) (t + 8 * i)) 0")
  case True
  with ensure_table_present [OF assms(1-4), of name] assms(5) show ?thesis by blast
next
  case False
  have mem: "p @ [i] \<in> missing root V s"
    using False assms(2,6) by (simp add: missing_def table_at_def pt_walk_snoc pt_step_def)
  then have "0 < card (missing root V s)" using finite_missing by (auto simp: card_gt_0_iff)
  then have "0 < room s" using assms(5) by (simp add: enough_def)
  then obtain u s' where ens: "ensure_table name (t + 8 * i) s = Inr (u, s')"
    using ensure_table_absent(1) [OF assms(1-4) False, of name] by fastforce
  from ensure_table_absent(2) [OF assms(1-4) False ens] obtain k where
    L: "linkable root s p t i k" and s': "s' = link_table k (t + 8 * i) s"
    and room: "room s = Suc (room s')" by blast
  have walk: "pt_walk (ram s') root q = (if q = p @ [i] then Some (idx_to_frame_ptr k) else pt_walk (ram s) root q)"
    if "q \<in> prefixes_of V" for q
    unfolding s' using prefixes_of_path [OF that] by (intro link_walk [OF L]) auto
  have "missing root V s' = missing root V s - {p @ [i]}"
    unfolding missing_def using walk by (auto split: if_splits)
  then have "card (missing root V s') = card (missing root V s) - 1"
    using mem by simp
  then show ?thesis using ens assms(5) room by (simp add: enough_def)
qed

lemma ensure_table_spec:
  assumes "pt_inv root s" and "table_at root s p t" and "length p \<le> 2" and "i < 512"
    and "ensure_table name (t + 8 * i) s = Inr (u, s')"
  shows "pt_inv root s' \<and> table_at root s' (p @ [i]) u \<and> pt_keeps root s s' \<and>
    (\<forall>r. is_path r \<and> length r = 4 \<longrightarrow> pt_walk (ram s') root r = pt_walk (ram s) root r)"
proof (cases "bit (read64 (ram s) (t + 8 * i)) 0")
  case True
  with ensure_table_present [OF assms(1-4), of name] assms(1,5) show ?thesis
    by (auto simp: pt_keeps_refl)
next
  case False
  from ensure_table_absent(2) [OF assms(1-4) this assms(5)] obtain k where
    L: "linkable root s p t i k" and u: "u = idx_to_frame_ptr k" and s': "s' = link_table k (t + 8 * i) s"
    by blast
  have "pt_walk (ram s') root r = pt_walk (ram s) root r" if "is_path r" "length r = 4" for r
    unfolding s' using link_walk [OF L that(1)] that assms(3) by auto
  then show ?thesis
    using link_pt_inv [OF L] link_keeps [OF L] u link_table_at [OF L, of "p @ [i]" u] by (auto simp: s')
qed


section \<open>Mapping a page\<close>

text \<open>The last step writes the leaf entry.\<close>

definition set_leaf :: "u64 \<Rightarrow> u64 \<Rightarrow> kst \<Rightarrow> kst" where
  "set_leaf entry paddr s = s\<lparr>ram := set_entry entry paddr (ram s)\<rparr>"

lemma set_leaf_proj [simp]:
  "pmem (set_leaf e a s) = pmem s" "kout (set_leaf e a s) = kout s"
  by (simp_all add: set_leaf_def)

lemma set_leaf_outside: "x \<notin> span e 8 \<Longrightarrow> ram (set_leaf e a s) x = ram s x"
  by (simp add: set_leaf_def set_entry_eq c64.wr_outside)

lemma set_leaf_pool:
  assumes "pt_inv root s" and "table_at root s p t" and "i < 512"
  shows "j < frames (pmem s) \<Longrightarrow> bm_get (set_leaf (t + 8 * i) a s) j = bm_get s j"
    and "pool_ok (set_leaf (t + 8 * i) a s)"
proof -
  let ?s = "set_leaf (t + 8 * i) a s"
  note pool = pt_inv_pool [OF assms(1)]
  have agree: "ram ?s x = ram s x" if "x \<in> bm_span (bitmap (pmem s))" for x
    using that table_entry_no_bitmap [OF assms] by (intro set_leaf_outside) blast
  have inv: "pm_inv s" using pool by (simp add: pool_ok_def)
  have eq: "?s = s\<lparr>ram := ram ?s\<rparr>" by (simp add: set_leaf_def)
  show get: "bm_get ?s j = bm_get s j" if "j < frames (pmem s)" for j
    using bm_get_ram_cong(1) [OF inv agree that] eq by simp
  have "pm_inv ?s" using bm_get_ram_cong(2) [OF inv agree] eq by simp
  then show "pool_ok ?s" using pool get by (simp add: pool_ok_def)
qed

lemma set_leaf_entry:
  assumes "pt_inv root s" and "table_at root s p t" and "i < 512"
    and "table_at root s q u" and "j < 512"
  shows "read64 (ram (set_leaf (t + 8 * i) a s)) (u + 8 * j) =
    (if (q, j) = (p, i) then new_entry a (read64 (ram s) (t + 8 * i)) else read64 (ram s) (u + 8 * j))"
proof (cases "(q, j) = (p, i)")
  case True
  then have "u = t" using assms(2,4) by (simp add: table_at_def)
  then show ?thesis using True by (simp add: set_leaf_def set_entry_eq)
next
  case False
  then show ?thesis
    using other_entries [OF assms(1-5) False]
    by (simp add: set_leaf_def set_entry_eq c64.rd_wr_apart del: prod.inject)
qed

lemma set_leaf_walk:
  assumes "pt_inv root s" and "table_at root s p t" and "i < 512" and "length p = 3"
    and "is_path r" and "length r \<le> 4"
  shows "pt_walk (ram (set_leaf (t + 8 * i) a s)) root r =
    (if r = p @ [i] then Some (frame_bits a) else pt_walk (ram s) root r)"
proof -
  let ?m = "ram (set_leaf (t + 8 * i) a s)"
  have keep: "pt_walk ?m root r = pt_walk (ram s) root r"
    if "is_path r" "length r \<le> 4" "\<And>rest. r \<noteq> p @ i # rest" for r
    using that set_leaf_entry [OF assms(1-3)] by (intro pt_walk_frame) (auto simp: table_at_def)
  show ?thesis
  proof (cases "r = p @ [i]")
    case True
    have "pt_walk ?m root p = Some t" using keep [of p] assms(2) by (simp add: table_at_def)
    moreover have "read64 ?m (t + 8 * i) = new_entry a (read64 (ram s) (t + 8 * i))"
      using set_leaf_entry [OF assms(1-3,2,3)] by simp
    ultimately show ?thesis
      using True pt_invD(2) [OF assms(1-3)]
      by (simp add: pt_walk_snoc pt_step_def bit_new_entry hw_addr_new_entry)
  next
    case False
    have "r \<noteq> p @ i # rest" for rest using False assms(4,6) by (cases rest) auto
    then show ?thesis using False keep [OF assms(5,6)] by simp
  qed
qed

lemma set_leaf_table_at:
  assumes "pt_inv root s" and "table_at root s p t" and "i < 512" and "length p = 3"
  shows "table_at root (set_leaf (t + 8 * i) a s) q u \<longleftrightarrow> table_at root s q u"
  using set_leaf_walk [OF assms, of q a] assms(4) by (auto simp: table_at_def)

lemma set_leaf_pt_inv:
  assumes "pt_inv root s" and "table_at root s p t" and "i < 512" and "length p = 3"
  shows "pt_inv root (set_leaf (t + 8 * i) a s)"
proof -
  let ?s = "set_leaf (t + 8 * i) a s"
  note at = set_leaf_table_at [OF assms]
  have "entry_ok (read64 (ram ?s) (u + 8 * j))" if "table_at root s q u" "j < 512" for q u j
    using set_leaf_entry [OF assms(1-3) that] pt_invD(2) [OF assms(1) that] pt_invD(2) [OF assms(1-3)]
    by (auto simp: new_entry_ok)
  moreover have "table_ok ?s u" if "table_at root s q u" for q u
    using pt_invD(1) [OF assms(1) that] set_leaf_pool(1) [OF assms(1-3)] by (auto simp: table_ok_def)
  ultimately show ?thesis
    using set_leaf_pool(2) [OF assms(1-3)] pt_invD(3) [OF assms(1)] by (auto simp: pt_inv_def at)
qed

lemma set_leaf_keeps:
  assumes "pt_inv root s" and "table_at root s p t" and "i < 512" and "length p = 3"
  shows "pt_keeps root s (set_leaf (t + 8 * i) a s)" and "room (set_leaf (t + 8 * i) a s) = room s"
proof -
  note at = set_leaf_table_at [OF assms]
  have "ram (set_leaf (t + 8 * i) a s) x = ram s x" if "\<And>q u. table_at root s q u \<Longrightarrow> x \<notin> span u 4096" for x
    using that [OF assms(2)] entry_in_page [OF assms(3), of t] by (intro set_leaf_outside) blast
  then show "pt_keeps root s (set_leaf (t + 8 * i) a s)"
    using set_leaf_pool(1) [OF assms(1-3)] by (simp add: pt_keeps_def at)
  have "{j. last_free_idx (pmem s) \<le> j \<and> j < frames (pmem s) \<and> \<not> bm_get (set_leaf (t + 8 * i) a s) j}
      = {j. last_free_idx (pmem s) \<le> j \<and> j < frames (pmem s) \<and> \<not> bm_get s j}"
    using set_leaf_pool(1) [OF assms(1-3)] by auto
  then show "room (set_leaf (t + 8 * i) a s) = room s" by (simp add: room_def)
qed

text \<open>The processor's translation is the walk along the page's path.\<close>

lemma mmu_translate_walk:
  assumes "pt_inv root s"
  shows "mmu_translate (ram s) root v = map_option (\<lambda>f. f + take_bit 12 v) (pt_walk (ram s) root (page_path v))"
proof -
  let ?i4 = "bf_get 39 9 v" and ?i3 = "bf_get 30 9 v" and ?i2 = "bf_get 21 9 v"
  have at0: "table_at root s [] root" by (simp add: table_at_def)
  have root: "hw_addr root = root"
  proof (rule bit_word_eqI)
    fix k
    have ok: "aligned root" "unat root < 2 ^ 32" using pt_invD(1) [OF assms at0] by (simp_all add: table_ok_def)
    then have "frame_bits root = root" by (intro frame_bits_aligned) (simp_all add: aligned_def)
    then show "bit (hw_addr root) k = bit root k"
      using bit_frame_bits [of root k] by (auto simp: bit_hw_addr)
  qed
  have no_ps: "\<not> bit (read64 (ram s) (u + 8 * bf_get lo 9 v)) 7" if "table_at root s p u" for p u lo
    using pt_invD(2) [OF assms that bf_get_9_less] by (simp add: entry_ok_def)
  have at1: "table_at root s [?i4] u" if "pt_step (ram s) root ?i4 = Some u" for u
    using that by (simp add: table_at_def bf_get_9_less)
  have at2: "table_at root s [?i4, ?i3] w"
    if "pt_step (ram s) root ?i4 = Some u" "pt_step (ram s) u ?i3 = Some w" for u w
    using that by (simp add: table_at_def bf_get_9_less)
  show ?thesis
    using no_ps [OF at1] no_ps [OF at2]
    by (simp add: mmu_translate_def root page_path_def pt_step_def Let_def)
qed


lemma entry_at_idx: "entry_at t x = t + 8 * ucast x"
  by (simp add: entry_at_def)

text \<open>The four steps of the descent, with the indices of the page's path.\<close>

lemma allocate_page_unfold:
  "allocate_page root v a s =
     bind_res (ensure_table ''PDPT'' (root + 8 * bf_get 39 9 v) s) (\<lambda>(PDPT, s).
     bind_res (ensure_table ''PD'' (PDPT + 8 * bf_get 30 9 v) s) (\<lambda>(PD, s).
     bind_res (ensure_table ''PT'' (PD + 8 * bf_get 21 9 v) s) (\<lambda>(PT, s).
     Inr (set_leaf (PT + 8 * bf_get 12 9 v) a s))))"
  by (simp add: allocate_page_def entry_at_def PageIndexer_fields set_leaf_def Let_def)

lemma allocate_page_total:
  assumes "pt_inv root s" and "enough root V s" and "v \<in> V"
  shows "\<exists>s'. allocate_page root v a s = Inr s' \<and> enough root V s'"
proof -
  let ?i4 = "bf_get 39 9 v" and ?i3 = "bf_get 30 9 v" and ?i2 = "bf_get 21 9 v"
  note idx = bf_get_9_less [of _ v]
  have at0: "table_at root s [] root" by (simp add: table_at_def)
  have pre: "[] @ [?i4] \<in> prefixes_of V" "[?i4] @ [?i3] \<in> prefixes_of V" "[?i4, ?i3] @ [?i2] \<in> prefixes_of V"
    using prefix_of_page [OF assms(3)] by (simp_all add: page_path_def)
  obtain t1 s1 where e1: "ensure_table ''PDPT'' (root + 8 * ?i4) s = Inr (t1, s1)" "enough root V s1"
    using ensure_table_enough [OF assms(1) at0 _ idx assms(2) pre(1)] by fastforce
  have S1: "pt_inv root s1" "table_at root s1 [?i4] t1"
    using ensure_table_spec [OF assms(1) at0 _ idx e1(1)] by auto
  obtain t2 s2 where e2: "ensure_table ''PD'' (t1 + 8 * ?i3) s1 = Inr (t2, s2)" "enough root V s2"
    using ensure_table_enough [OF S1 _ idx e1(2) pre(2)] by fastforce
  have S2: "pt_inv root s2" "table_at root s2 [?i4, ?i3] t2"
    using ensure_table_spec [OF S1 _ idx e2(1)] by auto
  obtain t3 s3 where e3: "ensure_table ''PT'' (t2 + 8 * ?i2) s2 = Inr (t3, s3)" "enough root V s3"
    using ensure_table_enough [OF S2 _ idx e2(2) pre(3)] by fastforce
  have S3: "pt_inv root s3" "table_at root s3 [?i4, ?i3, ?i2] t3"
    using ensure_table_spec [OF S2 _ idx e3(1)] by auto
  let ?s = "set_leaf (t3 + 8 * bf_get 12 9 v) a s3"
  have len: "length [?i4, ?i3, ?i2] = 3" by simp
  have walk: "pt_walk (ram ?s) root q = pt_walk (ram s3) root q" if "q \<in> prefixes_of V" for q
    using prefixes_of_path [OF that] set_leaf_walk [OF S3 idx len, of q] by auto
  have "missing root V ?s = missing root V s3"
    unfolding missing_def using walk by auto
  then have "enough root V ?s"
    using e3(2) set_leaf_keeps(2) [OF S3 idx len] by (simp add: enough_def)
  then show ?thesis by (simp add: allocate_page_unfold e1 e2 e3)
qed

lemma allocate_page_spec:
  assumes "pt_inv root s" and "allocate_page root v a s = Inr s'"
  shows "pt_inv root s' \<and> pt_keeps root s s' \<and>
    (\<forall>r. is_path r \<and> length r = 4 \<longrightarrow> pt_walk (ram s') root r =
       (if r = page_path v then Some (frame_bits a) else pt_walk (ram s) root r))"
proof -
  note idx = bf_get_9_less [of _ v]
  have at0: "table_at root s [] root" by (simp add: table_at_def)
  from assms(2) obtain t1 s1 t2 s2 t3 s3 where
    e1: "ensure_table ''PDPT'' (root + 8 * bf_get 39 9 v) s = Inr (t1, s1)" and
    e2: "ensure_table ''PD'' (t1 + 8 * bf_get 30 9 v) s1 = Inr (t2, s2)" and
    e3: "ensure_table ''PT'' (t2 + 8 * bf_get 21 9 v) s2 = Inr (t3, s3)" and
    s': "s' = set_leaf (t3 + 8 * bf_get 12 9 v) a s3"
    by (auto simp: allocate_page_unfold bind_res_Inr_iff)
  note S1 = ensure_table_spec [OF assms(1) at0 _ idx e1, simplified]
  have S2: "pt_inv root s2" "table_at root s2 [bf_get 39 9 v, bf_get 30 9 v] t2" "pt_keeps root s1 s2"
      "is_path r \<Longrightarrow> length r = 4 \<Longrightarrow> pt_walk (ram s2) root r = pt_walk (ram s1) root r" for r
    using ensure_table_spec [of root s1 "[bf_get 39 9 v]" t1, OF _ _ _ idx e2] S1 by auto
  have S3: "pt_inv root s3" "table_at root s3 [bf_get 39 9 v, bf_get 30 9 v, bf_get 21 9 v] t3" "pt_keeps root s2 s3"
      "is_path r \<Longrightarrow> length r = 4 \<Longrightarrow> pt_walk (ram s3) root r = pt_walk (ram s2) root r" for r
    using ensure_table_spec [OF S2(1,2) _ idx e3] by auto
  have len: "length [bf_get 39 9 v, bf_get 30 9 v, bf_get 21 9 v] = 3" by simp
  have "pt_keeps root s s'"
    using S1 S2(3) S3(3) set_leaf_keeps(1) [OF S3(1,2) idx len] unfolding s' by (meson pt_keeps_trans)
  then show ?thesis
    using set_leaf_pt_inv [OF S3(1,2) idx len] set_leaf_walk [OF S3(1,2) idx len] S1 S2(4) S3(4)
    unfolding s' by (simp add: page_path_def)
qed


section \<open>The contract of a page mapper\<close>

text \<open>
  What the loops over pages rely on: mapping succeeds as long as the mapper has enough frames
  for a set \<open>V\<close> of addresses, the mapped page translates to its frame and every other page as
  before, and the mapper's frame condition composes.
\<close>

locale page_mapper =
  fixes inv :: "'s \<Rightarrow> bool" and tr :: "'s \<Rightarrow> u64 \<Rightarrow> u64 option"
    and map_page :: "u64 \<Rightarrow> u64 \<Rightarrow> 's \<Rightarrow> 's res"
    and stock :: "u64 set \<Rightarrow> 's \<Rightarrow> bool" and keeps :: "'s \<Rightarrow> 's \<Rightarrow> bool"
  assumes map_ok: "inv s \<Longrightarrow> stock V s \<Longrightarrow> v \<in> V \<Longrightarrow> \<exists>s'. map_page v a s = Inr s' \<and> stock V s'"
    and map_inv: "inv s \<Longrightarrow> map_page v a s = Inr s' \<Longrightarrow> inv s' \<and> keeps s s'"
    and map_tr: "inv s \<Longrightarrow> map_page v a s = Inr s' \<Longrightarrow>
      tr s' w = (if same_page v w then Some (frame_bits a + take_bit 12 w) else tr s w)"
    and keeps_refl: "keeps s s"
    and keeps_trans: "keeps s t \<Longrightarrow> keeps t u \<Longrightarrow> keeps s u"
begin

text \<open>Mapping \<open>n\<close> pages from \<open>a\<close> on to themselves.\<close>

definition map_run :: "u64 \<Rightarrow> u64 \<Rightarrow> 's \<Rightarrow> (u64 \<times> 's) res" where
  "map_run n a s = for_res 0 (\<lambda>_. n)
     (\<lambda>i (addr, s). bind_res (map_page addr addr s) (\<lambda>s. Inr (addr + PAGE_SZ, s))) (a, s)"

lemma map_run_identity:
  assumes "inv s" and "stock V s" and "\<And>i. i < n \<Longrightarrow> a + i * PAGE_SZ \<in> V"
  shows "\<exists>s'. map_run n a s = Inr (a + n * PAGE_SZ, s') \<and> inv s' \<and> stock V s' \<and> keeps s s' \<and>
    (\<forall>w. tr s' w = (if \<exists>i < n. same_page (a + i * PAGE_SZ) w
       then Some (frame_bits w + take_bit 12 w) else tr s w))"
proof -
  define I where "I k at \<longleftrightarrow> (case at of (b, t) \<Rightarrow> b = a + k * PAGE_SZ \<and> inv t \<and> stock V t \<and> keeps s t \<and>
    (\<forall>w. tr t w = (if \<exists>i < k. same_page (a + i * PAGE_SZ) w
       then Some (frame_bits w + take_bit 12 w) else tr s w)))" for k at
  have "\<exists>at. for_res 0 (\<lambda>_. n)
     (\<lambda>i (addr, s). bind_res (map_page addr addr s) (\<lambda>s. Inr (addr + PAGE_SZ, s))) (a, s) = Inr at \<and> I n at"
  proof (rule for_res_rule [where I = I])
    show "I 0 (a, s)" using assms keeps_refl by (simp add: I_def)
    fix k at assume k: "k < n" and I: "I k at"
    obtain t where at: "at = (a + k * PAGE_SZ, t)" and t: "inv t" "stock V t" "keeps s t"
      and tr: "\<And>w. tr t w = (if \<exists>i < k. same_page (a + i * PAGE_SZ) w
        then Some (frame_bits w + take_bit 12 w) else tr s w)"
      using I by (auto simp: I_def)
    obtain t' where t': "map_page (a + k * PAGE_SZ) (a + k * PAGE_SZ) t = Inr t'" "stock V t'"
      using map_ok [OF t(1,2) assms(3) [OF k]] by blast
    have "tr t' w = (if \<exists>i < k + 1. same_page (a + i * PAGE_SZ) w
        then Some (frame_bits w + take_bit 12 w) else tr s w)" for w
      unfolding map_tr [OF t(1) t'(1)] tr less_plus1_iff [OF k] using same_page_frame by auto
    then have "I (k + 1) (a + k * PAGE_SZ + PAGE_SZ, t')"
      using t t' map_inv [OF t(1) t'(1)] keeps_trans by (auto simp: I_def distrib_right)
    then show "\<exists>at'. (case at of (addr, s) \<Rightarrow>
        bind_res (map_page addr addr s) (\<lambda>s. Inr (addr + PAGE_SZ, s))) = Inr at' \<and> I (k + 1) at'"
      using t'(1) by (simp add: at)
  qed simp_all
  then show ?thesis by (auto simp: map_run_def I_def)
qed

end

text \<open>Paging is a page mapper, for every root.\<close>

lemma allocate_page_translate:
  assumes "pt_inv root s" and "allocate_page root v a s = Inr s'"
  shows "mmu_translate (ram s') root w =
    (if same_page v w then Some (frame_bits a + take_bit 12 w) else mmu_translate (ram s) root w)"
proof -
  note S = allocate_page_spec [OF assms]
  then have "pt_inv root s'" by blast
  from mmu_translate_walk [OF this, of w] mmu_translate_walk [OF assms(1), of w] S show ?thesis
    by (auto simp: same_page_path)
qed

interpretation pg: page_mapper "pt_inv root" "\<lambda>s. mmu_translate (ram s) root" "allocate_page root"
  "enough root" "pt_keeps root" for root
proof
  fix s s' v a assume "pt_inv root s" "allocate_page root v a s = Inr s'"
  from allocate_page_spec [OF this] show "pt_inv root s' \<and> pt_keeps root s s'" by simp
qed (fact allocate_page_total allocate_page_translate pt_keeps_refl pt_keeps_trans)+


section \<open>Identity paging\<close>

lemma identity_bits: "frame_bits w + take_bit 12 w = take_bit 44 w"
proof -
  have "frame_bits w AND take_bit 12 w = 0"
    by (rule bit_word_eqI) (auto simp: bit_simps bit_frame_bits)
  then have "frame_bits w + take_bit 12 w = frame_bits w OR take_bit 12 w"
    by (rule disjunctive_add_eq_or)
  also have "\<dots> = take_bit 44 w"
    by (rule bit_word_eqI) (auto simp: bit_simps bit_frame_bits)
  finally show ?thesis .
qed

text \<open>The pages \<^verbatim>\<open>__identity_paging\<close> goes through.\<close>

definition id_pages :: "u64 \<Rightarrow> u64 \<Rightarrow> u64 set" where
  "id_pages addr n = {addr + i * PAGE_SZ | i. i < n div (PAGE_SZ + 1) + 1}"

lemma identity_paging_spec:
  assumes "pt_inv root s" and "enough root V s" and "id_pages addr n \<subseteq> V"
  shows "\<exists>s'. identity_paging root addr n s = Inr s' \<and> pt_inv root s' \<and> enough root V s' \<and> pt_keeps root s s' \<and>
    (\<forall>w. mmu_translate (ram s') root w = (if \<exists>v \<in> id_pages addr n. same_page v w
       then Some (take_bit 44 w) else mmu_translate (ram s) root w))"
proof -
  let ?n = "n div (PAGE_SZ + 1) + 1"
  have "addr + i * PAGE_SZ \<in> V" if "i < ?n" for i using that assms(3) by (auto simp: id_pages_def)
  from pg.map_run_identity [OF assms(1,2) this] obtain s' where
    s': "pg.map_run root ?n addr s = Inr (addr + ?n * PAGE_SZ, s')" "pt_inv root s'" "enough root V s'"
      "pt_keeps root s s'"
    and tr: "\<And>w. mmu_translate (ram s') root w = (if \<exists>i < ?n. same_page (addr + i * PAGE_SZ) w
       then Some (frame_bits w + take_bit 12 w) else mmu_translate (ram s) root w)"
    by blast
  have "identity_paging root addr n s = Inr s'"
    using s'(1) by (simp add: identity_paging_def pg.map_run_def)
  moreover have "mmu_translate (ram s') root w = (if \<exists>v \<in> id_pages addr n. same_page v w
       then Some (take_bit 44 w) else mmu_translate (ram s) root w)" for w
    unfolding tr identity_bits by (auto simp: id_pages_def)
  ultimately show ?thesis using s' by blast
qed


text \<open>Pages as ranges of addresses.\<close>

lemma same_page_div:
  "same_page v w \<longleftrightarrow> unat v div 4096 mod 2 ^ 36 = unat w div 4096 mod 2 ^ 36"
proof -
  have "unat (bf_get 12 36 x) = unat x div 4096 mod 2 ^ 36" for x
    by (simp add: bf_get_def take_bit_eq_mod drop_bit_eq_div unat_mod unat_div)
  then show ?thesis by (metis same_page_def word_unat_eq_iff)
qed

lemma same_page_small:
  assumes "unat v < 2 ^ 48" and "unat w < 2 ^ 48"
  shows "same_page v w \<longleftrightarrow> unat v div 4096 = unat w div 4096"
  using assms by (simp add: same_page_div)

lemma page_range_nat:
  "a \<le> w div 4096 \<and> w div 4096 \<le> a + k \<longleftrightarrow> 4096 * a \<le> w \<and> w < 4096 * a + 4096 * (k + 1)"
  for a w k :: nat
proof -
  have "w div 4096 \<le> a + k \<longleftrightarrow> w div 4096 < a + k + 1" by auto
  also have "\<dots> \<longleftrightarrow> w < (a + k + 1) * 4096" by (rule div_less_iff_less_mult) simp
  finally show ?thesis
    using less_eq_div_iff_mult_less_eq [of 4096 a w] by (simp add: algebra_simps)
qed

lemma id_pages_range:
  assumes "aligned addr" and "unat addr + unat n + 4096 \<le> 2 ^ 44" and "unat w < 2 ^ 48"
  shows "(\<exists>v \<in> id_pages addr n. same_page v w) \<longleftrightarrow>
    unat addr \<le> unat w \<and> unat w < unat addr + 4096 * (unat n div 4097 + 1)"
proof -
  let ?c = "n div (PAGE_SZ + 1) + 1" and ?k = "unat n div 4097"
  have c: "unat ?c = ?k + 1"
    using assms(2) by (simp add: PAGE_SZ_def FRAME_SZ_def unat_word_ariths unat_div)
  have k: "4096 * ?k \<le> unat n" by (rule order_trans [OF mult_le_mono1 [of 4096 4097]]) auto
  have page: "unat (addr + i * PAGE_SZ) = unat addr + 4096 * unat i" if "i < ?c" for i
  proof -
    have i: "unat i \<le> ?k" using that c by (simp add: word_less_nat_alt)
    have "unat (i * PAGE_SZ) = unat i * 4096"
      unfolding PAGE_SZ_def using i k assms(2) by (intro unat_frame_ptr) simp
    then show ?thesis using i k assms(2) by (simp add: unat_word_ariths)
  qed
  obtain a where a: "unat addr = 4096 * a" using assms(1) by (auto simp: aligned_def dvd_def)
  have same: "same_page (addr + i * PAGE_SZ) w \<longleftrightarrow> unat w div 4096 = a + unat i" if "i < ?c" for i
  proof -
    have "unat i \<le> ?k" using that c by (simp add: word_less_nat_alt)
    then have "unat (addr + i * PAGE_SZ) < 2 ^ 48" using page [OF that] k assms(2) by simp
    then show ?thesis using same_page_small [OF _ assms(3)] page [OF that] a by auto
  qed
  have "(\<exists>v \<in> id_pages addr n. same_page v w) \<longleftrightarrow> (\<exists>i < ?c. unat w div 4096 = a + unat i)"
    using same by (auto simp: id_pages_def)
  also have "\<dots> \<longleftrightarrow> a \<le> unat w div 4096 \<and> unat w div 4096 \<le> a + ?k"
  proof
    assume "a \<le> unat w div 4096 \<and> unat w div 4096 \<le> a + ?k"
    then obtain d where d: "unat w div 4096 = a + d" "d \<le> ?k" by (metis le_Suc_ex nat_add_left_cancel_le)
    then have "unat (of_nat d :: u64) = d" using k assms(2) by (intro unat_of_nat_u64) simp
    then have "of_nat d < ?c" "unat w div 4096 = a + unat (of_nat d :: u64)"
      using d c by (simp_all add: word_less_nat_alt)
    then show "\<exists>i < ?c. unat w div 4096 = a + unat i" by blast
  qed (use c in \<open>auto simp: word_less_nat_alt\<close>)
  also have "\<dots> \<longleftrightarrow> unat addr \<le> unat w \<and> unat w < unat addr + 4096 * (?k + 1)"
    unfolding a by (rule page_range_nat)
  finally show ?thesis .
qed


lemma identity_paging_extent:
  assumes "pt_inv root s" and "enough root (id_pages addr n) s"
    and "aligned addr" and "unat addr + unat n + 4096 \<le> 2 ^ 44"
  shows "\<exists>s'. identity_paging root addr n s = Inr s' \<and> pt_inv root s' \<and> pt_keeps root s s' \<and>
    (\<forall>w. unat w < 2 ^ 48 \<longrightarrow> mmu_translate (ram s') root w =
       (if unat addr \<le> unat w \<and> unat w < unat addr + 4096 * (unat n div 4097 + 1) then Some w
        else mmu_translate (ram s) root w))"
proof -
  obtain s' where s': "identity_paging root addr n s = Inr s'" "pt_inv root s'" "pt_keeps root s s'"
    and tr: "\<And>w. mmu_translate (ram s') root w = (if \<exists>v \<in> id_pages addr n. same_page v w
       then Some (take_bit 44 w) else mmu_translate (ram s) root w)"
    using identity_paging_spec [OF assms(1,2) order_refl] by blast
  have "take_bit 44 w = w" if "unat w < unat addr + 4096 * (unat n div 4097 + 1)" for w
  proof -
    have "4096 * (unat n div 4097) \<le> unat n" by (rule order_trans [OF mult_le_mono1 [of 4096 4097]]) auto
    then have "unat w < 2 ^ 44" using that assms(4) by simp
    then show ?thesis by (simp add: word_unat_eq_iff unsigned_take_bit_eq take_bit_nat_eq_self)
  qed
  then have "mmu_translate (ram s') root w =
      (if unat addr \<le> unat w \<and> unat w < unat addr + 4096 * (unat n div 4097 + 1) then Some w
       else mmu_translate (ram s) root w)" if "unat w < 2 ^ 48" for w
    unfolding tr id_pages_range [OF assms(3,4) that] by auto
  with s' show ?thesis by blast
qed

section \<open>Frame conditions\<close>

lemma in_page_frame:
  assumes "aligned u" and "x \<in> span u 4096"
  shows "ptr_to_frame_idx x = ptr_to_frame_idx u"
proof -
  obtain a where a: "unat u = 4096 * a" using assms(1) by (auto simp: aligned_def dvd_def)
  have x: "unat (x - u) < 4096" using assms(2) by (simp add: span_iff)
  have "unat x = unat (x - u + u)" by simp
  also have "\<dots> = unat (x - u) + unat u"
    using x aligned_room [OF assms(1)] by (subst unat_plus_if') simp
  finally have "unat x div 4096 = a" using x a by simp
  then show ?thesis using a unat_frame_idx [of x] unat_frame_idx [of u] by (simp add: word_unat_eq_iff)
qed

lemma pt_keeps_locked:
  assumes "pt_inv root s'" and "pt_keeps root s s'" and "x \<notin> bm_span (bitmap (pmem s))"
    and "\<And>p u. table_at root s p u \<Longrightarrow> x \<notin> span u 4096"
    and "ptr_to_frame_idx x < frames (pmem s) \<Longrightarrow> bm_get s (ptr_to_frame_idx x)"
  shows "ram s' x = ram s x"
proof (rule pt_keepsD(8) [OF assms(2,3)])
  fix p u assume u: "table_at root s' p u"
  show "x \<notin> span u 4096"
  proof (cases "table_at root s p u")
    case False
    have "aligned u" using pt_invD(1) [OF assms(1) u] by (simp add: table_ok_def)
    then have "x \<in> span u 4096 \<Longrightarrow> ptr_to_frame_idx x = ptr_to_frame_idx u" by (rule in_page_frame)
    then show ?thesis using pt_keepsD(6,7) [OF assms(2) u False] assms(5) by auto
  qed (rule assms(4))
qed

text \<open>A write that hits neither the bitmap nor a table changes nothing for paging.\<close>

lemma pool_ok_ram_cong:
  assumes "pool_ok s" and "\<And>x. x \<in> bm_span (bitmap (pmem s)) \<Longrightarrow> m x = ram s x"
  shows "pool_ok (s\<lparr>ram := m\<rparr>)"
  using assms(1) bm_get_ram_cong [OF _ assms(2)] by (simp add: pool_ok_def)

lemma table_ok_ram_cong:
  assumes "pool_ok s" and "\<And>x. x \<in> bm_span (bitmap (pmem s)) \<Longrightarrow> m x = ram s x"
  shows "table_ok (s\<lparr>ram := m\<rparr>) u = table_ok s u"
  using assms(1) bm_get_ram_cong(1) [OF _ assms(2)] by (auto simp: table_ok_def pool_ok_def)

lemma room_ram_cong:
  assumes "pool_ok s" and "\<And>x. x \<in> bm_span (bitmap (pmem s)) \<Longrightarrow> m x = ram s x"
  shows "room (s\<lparr>ram := m\<rparr>) = room s"
proof -
  have "{i. last_free_idx (pmem s) \<le> i \<and> i < frames (pmem s) \<and> \<not> bm_get (s\<lparr>ram := m\<rparr>) i}
      = {i. last_free_idx (pmem s) \<le> i \<and> i < frames (pmem s) \<and> \<not> bm_get s i}"
    using assms(1) bm_get_ram_cong(1) [OF _ assms(2)] by (auto simp: pool_ok_def)
  then show ?thesis by (simp add: room_def)
qed

lemma pt_ram_cong:
  assumes "pt_inv root s" and "\<And>x. x \<in> bm_span (bitmap (pmem s)) \<Longrightarrow> m x = ram s x"
    and "\<And>p u x. table_at root s p u \<Longrightarrow> x \<in> span u 4096 \<Longrightarrow> m x = ram s x"
  shows "pt_inv root (s\<lparr>ram := m\<rparr>)" and "mmu_translate m root v = mmu_translate (ram s) root v"
    and "table_at root (s\<lparr>ram := m\<rparr>) p u = table_at root s p u"
proof -
  note pool = pt_inv_pool [OF assms(1)]
  have entry: "read64 m (u + 8 * j) = read64 (ram s) (u + 8 * j)" if "table_at root s q u" "j < 512" for q u j
    using assms(3) [OF that(1)] entry_in_page [OF that(2), of u] by (intro c64.rd_cong) blast
  have walk: "pt_walk m root r = pt_walk (ram s) root r" if "is_path r" "length r \<le> 4" for r
    using that entry by (intro pt_walk_frame [where p = "replicate 5 0" and i = 0]) (auto simp: table_at_def)
  show at: "table_at root (s\<lparr>ram := m\<rparr>) p u = table_at root s p u" for p u
    by (auto simp: table_at_def walk)
  have bm: "x \<in> bm_span (bitmap (pmem s)) \<Longrightarrow> m x = ram s x" for x by (rule assms(2))
  have "table_ok (s\<lparr>ram := m\<rparr>) u = table_ok s u" for u by (rule table_ok_ram_cong [OF pool bm])
  then show inv: "pt_inv root (s\<lparr>ram := m\<rparr>)"
    unfolding pt_inv_def at
    using pool_ok_ram_cong [OF pool bm] assms(1) entry by (simp add: pt_inv_def)
  show "mmu_translate m root v = mmu_translate (ram s) root v"
    using mmu_translate_walk [OF inv] mmu_translate_walk [OF assms(1)] walk [of "page_path v"] by simp
qed

section \<open>Boot\<close>

lemma pt_step_absent: "read64 m (u + 8 * i) = 0 \<Longrightarrow> pt_step m u i = None"
  by (simp add: pt_step_def)

text \<open>An empty root table.\<close>

lemma pt_inv_empty:
  assumes "pool_ok s" and "table_ok s root" and "\<And>i. i < 512 \<Longrightarrow> read64 (ram s) (root + 8 * i) = 0"
  shows "pt_inv root s" and "mmu_translate (ram s) root v = None"
    and "table_at root s p u \<longleftrightarrow> p = [] \<and> u = root"
proof -
  have walk: "pt_walk (ram s) root p = (if p = [] then Some root else None)" if "is_path p" for p
    using that assms(3) by (cases p) (simp_all add: pt_step_absent)
  show at: "table_at root s p u \<longleftrightarrow> p = [] \<and> u = root" for p u
    using walk [of p] by (auto simp: table_at_def split: if_splits)
  then show inv: "pt_inv root s"
    using assms by (simp add: pt_inv_def entry_ok_def)
  show "mmu_translate (ram s) root v = None"
    using walk [OF page_path_valid(1)] by (simp add: mmu_translate_walk [OF inv] page_path_def)
qed

text \<open>The areas \<^verbatim>\<open>Paging::init\<close> maps.\<close>

definition desc_pages :: "mem \<Rightarrow> MemoryMap \<Rightarrow> u64 \<Rightarrow> u64 set" where
  "desc_pages m mm i = (let d = EfiMMapDesc_at m (get_desc mm i) in id_pages (d_paddr d) (FRAME_SZ * d_pages d))"

definition boot_pages :: "mem \<Rightarrow> MemoryMap \<Rightarrow> paging_env \<Rightarrow> u64 set" where
  "boot_pages m mm env = (\<Union>i \<in> {i. i < mm_entries mm}. desc_pages m mm i) \<union>
     id_pages (env_fb_addr env) (env_fb_size env) \<union> id_pages (ucast (env_lapic_addr env)) 4096 \<union>
     id_pages (ucast (env_ioapic_addr env)) 8 \<union> id_pages (env_hpet_addr env) (env_hpet_mmio_sz env)"

text \<open>From \<open>s\<close> to \<open>s'\<close> the pages of \<open>A\<close> have become identity-mapped.\<close>

definition id_mapped :: "u64 \<Rightarrow> u64 set \<Rightarrow> u64 set \<Rightarrow> kst \<Rightarrow> kst \<Rightarrow> bool" where
  "id_mapped root V A s s' \<longleftrightarrow> pt_inv root s' \<and> enough root V s' \<and> pt_keeps root s s' \<and>
     (\<forall>w. mmu_translate (ram s') root w =
        (if \<exists>v \<in> A. same_page v w then Some (take_bit 44 w) else mmu_translate (ram s) root w))"

lemma id_mapped_step:
  assumes "id_mapped root V A s t" and "id_pages addr n \<subseteq> V"
  shows "\<exists>t'. identity_paging root addr n t = Inr t' \<and> id_mapped root V (A \<union> id_pages addr n) s t'"
proof -
  have t: "pt_inv root t" "enough root V t" "pt_keeps root s t" using assms(1) by (auto simp: id_mapped_def)
  from identity_paging_spec [OF t(1,2) assms(2)] obtain t' where
    t': "identity_paging root addr n t = Inr t'" "pt_inv root t'" "enough root V t'" "pt_keeps root t t'"
    and tr: "\<And>w. mmu_translate (ram t') root w = (if \<exists>v \<in> id_pages addr n. same_page v w
       then Some (take_bit 44 w) else mmu_translate (ram t) root w)" by blast
  have "mmu_translate (ram t') root w = (if \<exists>v \<in> A \<union> id_pages addr n. same_page v w
      then Some (take_bit 44 w) else mmu_translate (ram s) root w)" for w
    unfolding tr using assms(1) by (auto simp: id_mapped_def)
  then show ?thesis using t' pt_keeps_trans [OF t(3) t'(4)] by (simp add: id_mapped_def)
qed

text \<open>The memory map lies in locked frames, away from the bitmap and the page tables.\<close>

definition map_safe :: "u64 \<Rightarrow> MemoryMap \<Rightarrow> kst \<Rightarrow> bool" where
  "map_safe root mm s \<longleftrightarrow> (\<forall>x \<in> mm_span mm. x \<notin> bm_span (bitmap (pmem s)) \<and>
     (\<forall>p u. table_at root s p u \<longrightarrow> x \<notin> span u 4096) \<and>
     (ptr_to_frame_idx x < frames (pmem s) \<longrightarrow> bm_get s (ptr_to_frame_idx x)))"

lemma Paging_init_spec:
  assumes "pt_inv root s" and "map_safe root mm s" and "enough root V s" and "boot_pages (ram s) mm env \<subseteq> V"
  shows "\<exists>s'. Paging_init root mm env s = Inr s' \<and> id_mapped root V (boot_pages (ram s) mm env) s s'"
proof -
  let ?A = "\<lambda>k. \<Union>i \<in> {i. i < k}. desc_pages (ram s) mm i"
  let ?f = "\<lambda>i s. let desc = EfiMMapDesc_at (ram s) (get_desc mm i)
    in identity_paging root (d_paddr desc) (FRAME_SZ * d_pages desc) s"
  have "\<exists>t. for_res 0 (\<lambda>_. mm_entries mm) ?f s = Inr t \<and> id_mapped root V (?A (mm_entries mm)) s t"
  proof (rule for_res_rule [where I = "\<lambda>k. id_mapped root V (?A k) s"])
    show "id_mapped root V (?A 0) s s" using assms by (simp add: id_mapped_def pt_keeps_refl)
    fix k t assume k: "k < mm_entries mm" and t: "id_mapped root V (?A k) s t"
    have "ram t x = ram s x" if "x \<in> mm_span mm" for x
      using t assms(2) that by (intro pt_keeps_locked) (auto simp: id_mapped_def map_safe_def)
    then have d: "EfiMMapDesc_at (ram t) (get_desc mm k) = EfiMMapDesc_at (ram s) (get_desc mm k)"
      using k by (rule EfiMMapDesc_at_mm_cong)
    have sub: "desc_pages (ram s) mm k \<subseteq> V" using k assms(4) by (auto simp: boot_pages_def)
    have "?A (k + 1) = ?A k \<union> desc_pages (ram s) mm k" by (auto simp: less_plus1_iff [OF k])
    then show "\<exists>t'. ?f k t = Inr t' \<and> id_mapped root V (?A (k + 1)) s t'"
      using id_mapped_step [OF t sub [unfolded desc_pages_def Let_def]] by (simp add: d desc_pages_def Let_def)
  qed simp_all
  then obtain t where t: "for_res 0 (\<lambda>_. mm_entries mm) ?f s = Inr t" "id_mapped root V (?A (mm_entries mm)) s t"
    by blast
  have sub: "id_pages (env_fb_addr env) (env_fb_size env) \<subseteq> V" "id_pages (ucast (env_lapic_addr env)) 4096 \<subseteq> V"
    "id_pages (ucast (env_ioapic_addr env)) 8 \<subseteq> V" "id_pages (env_hpet_addr env) (env_hpet_mmio_sz env) \<subseteq> V"
    using assms(4) by (auto simp: boot_pages_def)
  let ?A1 = "?A (mm_entries mm) \<union> id_pages (env_fb_addr env) (env_fb_size env)"
  let ?A2 = "?A1 \<union> id_pages (ucast (env_lapic_addr env)) 4096"
  let ?A3 = "?A2 \<union> id_pages (ucast (env_ioapic_addr env)) 8"
  from id_mapped_step [OF t(2) sub(1)] obtain t1 where t1:
    "identity_paging root (env_fb_addr env) (env_fb_size env) t = Inr t1" "id_mapped root V ?A1 s t1" by blast
  from id_mapped_step [OF t1(2) sub(2)] obtain t2 where t2:
    "identity_paging root (ucast (env_lapic_addr env)) 4096 t1 = Inr t2" "id_mapped root V ?A2 s t2" by blast
  from id_mapped_step [OF t2(2) sub(3)] obtain t3 where t3:
    "identity_paging root (ucast (env_ioapic_addr env)) 8 t2 = Inr t3" "id_mapped root V ?A3 s t3" by blast
  from id_mapped_step [OF t3(2) sub(4)] show ?thesis
    using t t1 t2 t3 by (auto simp: Paging_init_def boot_pages_def)
qed

text \<open>The self-test of the constructor: through the mapping of \<open>0x99999999999\<close> to frame 0.\<close>

lemma test_write:
  assumes "pt_inv root s" and "bm_span (bitmap (pmem s)) \<inter> span 0 4096 = {}"
  shows "pt_inv root (s\<lparr>ram := (ram s)(0x999 := b)\<rparr>)"
    and "mmu_translate ((ram s)(0x999 := b)) root v = mmu_translate (ram s) root v"
proof -
  have x: "(0x999 :: u64) \<in> span 0 4096" by (simp add: span_iff)
  have bm: "((ram s)(0x999 := b)) y = ram s y" if "y \<in> bm_span (bitmap (pmem s))" for y
    using that assms(2) x by auto
  have tab: "((ram s)(0x999 := b)) y = ram s y" if "table_at root s p u" "y \<in> span u 4096" for p u y
  proof -
    have "span u 4096 \<inter> span 0 4096 = {}"
      using pt_invD(1) [OF assms(1) that(1)] by (intro pages_disjoint) (auto simp: table_ok_def aligned_def)
    then show ?thesis using that(2) x by auto
  qed
  show "pt_inv root (s\<lparr>ram := (ram s)(0x999 := b)\<rparr>)"
    "mmu_translate ((ram s)(0x999 := b)) root v = mmu_translate (ram s) root v"
    by (rule pt_ram_cong [OF assms(1) bm tab]; assumption)+
qed

lemma hw_addr_root:
  assumes "table_ok s root"
  shows "hw_addr root = root"
proof (rule bit_word_eqI)
  fix k
  have "frame_bits root = root"
    using assms by (intro frame_bits_aligned) (simp_all add: table_ok_def aligned_def)
  then show "bit (hw_addr root) k = bit root k"
    using bit_frame_bits [of root k] by (auto simp: bit_hw_addr)
qed

lemma boot_state:
  assumes "pool_ok s" and "table_ok s root"
    and "\<And>x. x \<in> mm_span mm \<Longrightarrow> x \<notin> bm_span (bitmap (pmem s)) \<and> x \<notin> span root 4096 \<and>
      (ptr_to_frame_idx x < frames (pmem s) \<longrightarrow> bm_get s (ptr_to_frame_idx x))"
    and "card (prefixes_of V) \<le> room s"
  shows "pt_inv root (s\<lparr>ram := memset (ram s) root 0 4096\<rparr>)"
    and "mmu_translate (memset (ram s) root 0 4096) root v = None"
    and "map_safe root mm (s\<lparr>ram := memset (ram s) root 0 4096\<rparr>)"
    and "enough root V (s\<lparr>ram := memset (ram s) root 0 4096\<rparr>)"
    and "boot_pages (memset (ram s) root 0 4096) mm env = boot_pages (ram s) mm env"
proof -
  let ?m = "memset (ram s) root 0 4096" let ?s = "s\<lparr>ram := ?m\<rparr>"
  have m: "?m = memset (ram s) root 0 PAGE_SZ" by (simp add: PAGE_SZ_def FRAME_SZ_def)
  have out: "?m x = ram s x" if "x \<notin> span root 4096" for x
    unfolding m using that by (rule memset_page_outside)
  have bm: "?m x = ram s x" if "x \<in> bm_span (bitmap (pmem s))" for x
    using that assms(2) by (intro out) (auto simp: table_ok_def)
  have zero: "i < 512 \<Longrightarrow> read64 (ram ?s) (root + 8 * i) = 0" for i
    using read64_memset_page [of i "ram s" root] by (simp add: m [symmetric])
  have pool: "pool_ok ?s" using assms(1) bm by (rule pool_ok_ram_cong)
  have tab: "table_ok ?s root" using table_ok_ram_cong [OF assms(1) bm] assms(2) by simp
  note empty = pt_inv_empty [OF pool tab zero]
  show "pt_inv root ?s" by (rule empty(1))
  show "mmu_translate ?m root v = None" using empty(2) by simp
  show "map_safe root mm ?s"
    using assms(1,3) bm_get_ram_cong(1) [OF _ bm] by (auto simp: map_safe_def empty(3) pool_ok_def)
  have "missing root V ?s \<subseteq> prefixes_of V" by (auto simp: missing_def)
  moreover have "finite (prefixes_of V)"
    by (rule finite_subset [of _ "(\<lambda>(n, v). take n (page_path v)) ` ({1, 2, 3} \<times> V)"])
      (auto simp: prefixes_of_def)
  ultimately have "card (missing root V ?s) \<le> card (prefixes_of V)" by (simp add: card_mono)
  then show "enough root V ?s" using assms(4) room_ram_cong [OF assms(1) bm] by (simp add: enough_def)
  have "EfiMMapDesc_at ?m (get_desc mm i) = EfiMMapDesc_at (ram s) (get_desc mm i)" if "i < mm_entries mm" for i
    using assms(3) out that by (intro EfiMMapDesc_at_mm_cong) auto
  then show "boot_pages ?m mm env = boot_pages (ram s) mm env"
    by (auto simp: boot_pages_def desc_pages_def)
qed

section \<open>An example machine\<close>

text \<open>Sixteen frames of which frames 0 and 1 (the bitmap) are locked, the memory map at
  \<open>0x100000\<close>, an empty root table at \<open>0x20000\<close>, devices in the first 2 MiB.\<close>

definition pt_example :: kst where
  "pt_example = lock_frame 1 (lock_frame 0 (pm_start 0x6000 0x1000 16 boot_mem []))"

definition env_example :: paging_env where
  "env_example = \<lparr>env_fb_addr = 0x80000, env_fb_size = 8192, env_lapic_addr = 0x90000,
     env_ioapic_addr = 0x91000, env_hpet_addr = 0x92000, env_hpet_mmio_sz = 96\<rparr>"

lemma pt_example_props:
  "pm_inv pt_example" "frames (pmem pt_example) = 16" "last_free_idx (pmem pt_example) = 0"
  "bm_span (bitmap (pmem pt_example)) = span 0x1000 2"
  "j < 16 \<Longrightarrow> bm_get pt_example j \<longleftrightarrow> j = 0 \<or> j = 1"
  "x \<notin> span 0x1000 2 \<Longrightarrow> ram pt_example x = boot_mem x"
proof -
  let ?s = "pm_start 0x6000 0x1000 16 boot_mem []"
  have inv: "pm_inv ?s" by (rule pm_inv_start) simp
  have fr: "frames (pmem ?s) = 16" "last_free_idx (pmem ?s) = 0" by (simp_all add: pm_start_def)
  show sp: "bm_span (bitmap (pmem pt_example)) = span 0x1000 2"
    by (simp add: pt_example_def bm_span_def pm_start_def Bitmap_init_def)
  then have sp': "bm_span (bitmap (pmem ?s)) = span 0x1000 2" by (simp add: pt_example_def)
  show "pm_inv pt_example" "frames (pmem pt_example) = 16" "last_free_idx (pmem pt_example) = 0"
    by (simp_all add: pt_example_def fr pm_inv_lock_frame inv)
  show "j < 16 \<Longrightarrow> bm_get pt_example j \<longleftrightarrow> j = 0 \<or> j = 1"
    using pm_start_clear [of 16 j "0x6000" "0x1000" boot_mem "[]"] by (auto simp: pt_example_def bm_get_lock_frame)
  show "ram pt_example x = boot_mem x" if "x \<notin> span 0x1000 2"
    using that sp' by (simp add: pt_example_def lock_frame_ram_outside inv pm_inv_lock_frame fr)
      (simp add: pm_start_def Bitmap_init_def memset_apply span_iff)
qed

lemma spans_apart:
  assumes "unat a + n \<le> unat b" and "unat b + k \<le> 2 ^ 64" and "0 < n"
  shows "span a n \<inter> span b k = {}" and "span b k \<inter> span a n = {}"
  using span_disjoint [OF apartI(1) [OF assms]] by auto

lemma pt_example_pool: "pool_ok pt_example"
proof -
  have "span (idx_to_frame_ptr i) 4096 \<inter> span 0x1000 2 = {}" if "i < 16" "i \<noteq> 0" "i \<noteq> 1" for i
  proof -
    have "unat i < 16" "unat i \<noteq> 0" "unat i \<noteq> 1"
      using that by (auto simp: word_less_nat_alt word_unat_eq_iff)
    moreover have "unat (idx_to_frame_ptr i) = unat i * 4096"
      unfolding idx_to_frame_ptr_def using \<open>unat i < 16\<close> by (intro unat_frame_ptr) simp
    ultimately show ?thesis by (intro spans_apart(2)) simp_all
  qed
  then show ?thesis by (simp add: pool_ok_def pt_example_props)
qed

lemma pt_example_root: "table_ok pt_example 0x20000"
proof -
  have "span 0x20000 4096 \<inter> span 0x1000 2 = {}" by (rule spans_apart(2)) simp_all
  moreover have "\<not> ptr_to_frame_idx 0x20000 < 16" by (simp add: ptr_to_frame_idx_def FRAME_SZ_def)
  ultimately show ?thesis by (simp add: table_ok_def pt_example_props aligned_def)
qed

lemma pt_example_inv:
  "pt_inv 0x20000 pt_example" "mmu_translate (ram pt_example) 0x20000 v = None"
  "table_at 0x20000 pt_example p u \<longleftrightarrow> p = [] \<and> u = 0x20000"
proof -
  have zero: "read64 (ram pt_example) (0x20000 + 8 * i) = 0" if "i < 512" for i
  proof -
    have "read64 (ram pt_example) (0x20000 + 8 * i) = read64 (\<lambda>_. 0) (0x20000 + 8 * i)"
    proof (rule c64.rd_cong)
      fix x assume "x \<in> span (0x20000 + 8 * i) 8"
      then have x: "x \<in> span 0x20000 4096" using entry_in_page [OF that, of "0x20000"] by blast
      have "span 0x20000 4096 \<inter> span 0x1000 2 = {}" "span 0x20000 4096 \<inter> span 0x100000 40 = {}"
        by (rule spans_apart; simp)+
      then have "x \<notin> span 0x1000 2" "x \<notin> span 0x100000 40" using x by blast+
      then show "ram pt_example x = 0"
        by (auto simp: pt_example_props(6) boot_mem_def span_iff)
    qed
    then show ?thesis by (simp add: read64_def load_steps)
  qed
  note E = pt_inv_empty [OF pt_example_pool pt_example_root zero]
  show "pt_inv 0x20000 pt_example" "mmu_translate (ram pt_example) 0x20000 v = None"
    "table_at 0x20000 pt_example p u \<longleftrightarrow> p = [] \<and> u = 0x20000"
    using E by simp_all
qed

lemma pt_example_room: "6 \<le> room pt_example"
proof -
  have "{2, 3, 4, 5, 6, 7} \<subseteq> {i. last_free_idx (pmem pt_example) \<le> i \<and> i < frames (pmem pt_example) \<and> \<not> bm_get pt_example i}"
    by (simp add: pt_example_props)
  then have "card {2, 3, 4, 5, 6, 7 :: u64} \<le> room pt_example" unfolding room_def by (rule card_mono [OF finite])
  then show ?thesis by simp
qed

text \<open>Pages in the first 2 MiB share their three tables.\<close>

lemma bf_get_small: "unat v < 2 ^ lo \<Longrightarrow> bf_get lo 9 v = 0"
  by (rule bit_word_eqI) (use unat_lt_bit [of v lo] in \<open>simp add: bit_bf_get\<close>)

lemma prefixes_low:
  assumes "\<And>v. v \<in> V \<Longrightarrow> unat v < 2 ^ 21"
  shows "prefixes_of V \<subseteq> {[0], [0, 0], [0, 0, 0]}"
proof -
  have "bf_get lo 9 v = 0" if "v \<in> V" "21 \<le> lo" for v lo
    using assms [OF that(1)] power_increasing [OF that(2), of "2 :: nat"] by (intro bf_get_small) linarith
  then show ?thesis by (auto simp: prefixes_of_def page_path_def)
qed

lemma prefixes_low_finite: "finite {[0], [0, 0], [0, 0, 0 :: u64]}"
  by (intro finite.insertI finite.emptyI)

lemma card_prefixes_low:
  assumes "\<And>v. v \<in> V \<Longrightarrow> unat v < 2 ^ 21"
  shows "card (prefixes_of V) \<le> 3"
proof -
  have "card (prefixes_of V) \<le> card {[0], [0, 0], [0, 0, 0 :: u64]}"
    using prefixes_low_finite prefixes_low [of V, OF assms] by (rule card_mono)
  then show ?thesis by simp
qed

lemma card_prefixes_insert: "card (prefixes_of (insert v V)) \<le> 3 + card (prefixes_of V)"
proof -
  let ?S = "{take 1 (page_path v), take 2 (page_path v), take 3 (page_path v)}"
  have eq: "prefixes_of (insert v V) = ?S \<union> prefixes_of V" by (auto simp: prefixes_of_def)
  have "card ?S \<le> 3" using card_insert_le_m1 by (simp add: card_insert_if)
  then show ?thesis unfolding eq using card_Un_le [of ?S "prefixes_of V"] by linarith
qed

lemma id_pages_low:
  assumes "unat addr + unat n + 4096 \<le> 2 ^ 21" and "v \<in> id_pages addr n"
  shows "unat v < 2 ^ 21"
proof -
  let ?c = "n div (PAGE_SZ + 1) + 1"
  obtain i where i: "v = addr + i * PAGE_SZ" "i < ?c" using assms(2) by (auto simp: id_pages_def)
  have "unat ?c = unat n div 4097 + 1"
    using assms(1) by (simp add: PAGE_SZ_def FRAME_SZ_def unat_word_ariths unat_div)
  then have "unat i \<le> unat n div 4097" using i(2) by (simp add: word_less_nat_alt)
  moreover have "4096 * (unat n div 4097) \<le> unat n" by (rule order_trans [OF mult_le_mono1 [of 4096 4097]]) auto
  ultimately have le: "4096 * unat i \<le> unat n" by (meson mult_le_mono2 order_trans)
  have "unat (i * PAGE_SZ) = unat i * 4096"
    unfolding PAGE_SZ_def using le assms(1) by (intro unat_frame_ptr) simp
  then show ?thesis using i(1) le assms(1) by (simp add: unat_word_ariths)
qed

lemma enough_low:
  assumes "\<And>v. v \<in> V \<Longrightarrow> unat v < 2 ^ 21"
  shows "enough root V pt_example"
proof -
  have fin: "finite (prefixes_of V)" using prefixes_low [of V, OF assms] prefixes_low_finite by (rule finite_subset)
  have "card (missing root V pt_example) \<le> card (prefixes_of V)"
    using fin by (intro card_mono) (auto simp: missing_def)
  then show ?thesis using card_prefixes_low [of V, OF assms] pt_example_room by (simp add: enough_def)
qed

section \<open>Properties\<close>

text \<open>
  C1: after \<^verbatim>\<open>allocate_page(vaddr, paddr)\<close> the processor translates every address on the page of
  \<^verbatim>\<open>vaddr\<close> to the frame of \<^verbatim>\<open>paddr\<close> (for addresses below 16 TiB), and the addresses of every other
  page exactly as before; the page tables keep their invariant.
\<close>

theorem allocate_page_maps:
  assumes "pt_inv root s" and "allocate_page root v a s = Inr s'"
  shows "pt_inv root s' \<and> (\<forall>w. mmu_translate (ram s') root w =
    (if same_page v w then Some (frame_bits a + take_bit 12 w) else mmu_translate (ram s) root w))"
  using allocate_page_spec [OF assms] allocate_page_translate [OF assms] by blast

lemma pt_example_alloc:
  assumes "unat v < 2 ^ 21"
  shows "\<exists>s'. allocate_page 0x20000 v a pt_example = Inr s'"
  using allocate_page_total [OF pt_example_inv(1) enough_low [of "{v}"], of v a] assms by auto

theorem allocate_page_maps_witness:
  "\<exists>s'. allocate_page 0x20000 0x40000 0x7000 pt_example = Inr s' \<and>
     mmu_translate (ram s') 0x20000 0x40123 = Some 0x7123 \<and> mmu_translate (ram s') 0x20000 0x41000 = None"
proof -
  obtain s' where s': "allocate_page 0x20000 0x40000 0x7000 pt_example = Inr s'"
    using pt_example_alloc [of "0x40000"] by auto
  have "same_page 0x40000 0x40123" "\<not> same_page 0x40000 0x41000" by (simp_all add: same_page_small)
  then show ?thesis
    using s' allocate_page_maps [OF pt_example_inv(1) s']
    by (simp add: pt_example_inv(2) frame_bits_def take_bit_eq_mod)
qed

text \<open>
  C18: \<^verbatim>\<open>allocate_page\<close> succeeds whenever the manager has a frame for every table that is missing
  on the way to the page.
\<close>

theorem allocate_page_succeeds:
  assumes "pt_inv root s" and "card (missing root {v} s) \<le> room s"
  shows "\<exists>s'. allocate_page root v a s = Inr s'"
  using allocate_page_total [OF assms(1), of "{v}" v a] assms(2) by (auto simp: enough_def)

theorem allocate_page_succeeds_witness:
  "\<exists>s'. allocate_page 0x20000 0x40000 0x7000 pt_example = Inr s'"
  using allocate_page_succeeds [OF pt_example_inv(1), of "0x40000" "0x7000"]
    enough_low [of "{0x40000}" "0x20000"] by (simp add: enough_def)

text \<open>
  C37: \<^verbatim>\<open>allocate_page\<close> touches nothing but free frames it takes, the bitmap and the page tables: a
  byte in a locked frame outside all of them keeps its value, and no frame is released.
\<close>

theorem allocate_page_frame:
  assumes "pt_inv root s" and "allocate_page root v a s = Inr s'"
    and "x \<notin> bm_span (bitmap (pmem s))" and "\<And>p u. table_at root s p u \<Longrightarrow> x \<notin> span u 4096"
    and "ptr_to_frame_idx x < frames (pmem s)" and "bm_get s (ptr_to_frame_idx x)"
  shows "ram s' x = ram s x \<and> (\<forall>i < frames (pmem s). bm_get s i \<longrightarrow> bm_get s' i)"
proof -
  note S = allocate_page_spec [OF assms(1,2)]
  have "ram s' x = ram s x" using S assms(3-6) by (intro pt_keeps_locked) auto
  then show ?thesis using S pt_keepsD(4) by blast
qed

theorem allocate_page_frame_witness:
  "\<exists>s'. allocate_page 0x20000 0x40000 0x7000 pt_example = Inr s' \<and> ram s' 0x10 = ram pt_example 0x10"
proof -
  obtain s' where s': "allocate_page 0x20000 0x40000 0x7000 pt_example = Inr s'"
    using pt_example_alloc [of "0x40000"] by auto
  have "ptr_to_frame_idx 0x10 = 0" by (simp add: ptr_to_frame_idx_def FRAME_SZ_def)
  then show ?thesis
    using s' allocate_page_frame [OF pt_example_inv(1) s', of "0x10"]
    by (simp add: pt_example_props pt_example_inv(3) span_iff)
qed

text \<open>
  C36: \<^verbatim>\<open>is_page_allocated\<close> is true exactly for the addresses the processor can translate.
\<close>

theorem is_page_allocated_iff:
  assumes "pt_inv root s"
  shows "is_page_allocated root v (ram s) \<longleftrightarrow> mmu_translate (ram s) root v \<noteq> None"
proof -
  let ?i4 = "bf_get 39 9 v" and ?i3 = "bf_get 30 9 v" and ?i2 = "bf_get 21 9 v"
  have tab: "entry_table e = hw_addr e" if "table_at root s p (hw_addr e)" for e p
    using pt_invD(1) [OF assms that] by (intro entry_table_eq) (simp add: table_ok_def)
  have at1: "table_at root s [?i4] u" if "pt_step (ram s) root ?i4 = Some u" for u
    using that by (simp add: table_at_def bf_get_9_less)
  have at2: "table_at root s [?i4, ?i3] w"
    if "pt_step (ram s) root ?i4 = Some u" "pt_step (ram s) u ?i3 = Some w" for u w
    using that by (simp add: table_at_def bf_get_9_less)
  have at3: "table_at root s [?i4, ?i3, ?i2] x"
    if "pt_step (ram s) root ?i4 = Some u" "pt_step (ram s) u ?i3 = Some w" "pt_step (ram s) w ?i2 = Some x" for u w x
    using that by (simp add: table_at_def bf_get_9_less)
  show ?thesis
    using tab [OF at1] tab [OF at2] tab [OF at3]
    by (simp add: is_page_allocated_def entry_at_def PageIndexer_fields entry_present_bit Let_def
        mmu_translate_walk [OF assms] page_path_def pt_step_def split: option.split)
qed

theorem is_page_allocated_iff_witness: "\<not> is_page_allocated 0x20000 0x40000 (ram pt_example)"
  using is_page_allocated_iff [OF pt_example_inv(1), of "0x40000"] by (simp add: pt_example_inv(2))

text \<open>
  C39: a pointer to a next-level table survives being stored in an entry and read back by the code
  exactly when the table lies below 4 GiB: the shift of the 32-bit field is done on 32 bits,
  although the field itself holds addresses up to 16 TiB.
\<close>

theorem table_pointer_roundtrip_iff:
  assumes "aligned a" and "unat a < 2 ^ 44"
  shows "entry_table (new_entry a e) = a \<longleftrightarrow> unat a < 2 ^ 32"
proof
  have "entry_table (new_entry a e) = take_bit 32 (frame_bits a)"
    by (rule bit_word_eqI) (auto simp: bit_entry_table bit_new_entry bit_frame_bits bit_simps)
  also have "frame_bits a = a" using assms by (intro frame_bits_aligned) (simp_all add: aligned_def)
  finally have eq: "entry_table (new_entry a e) = take_bit 32 a" .
  show "unat a < 2 ^ 32" if "entry_table (new_entry a e) = a"
    using that unfolding eq by (metis take_bit_nat_less_exp unsigned_take_bit_eq)
  show "entry_table (new_entry a e) = a" if "unat a < 2 ^ 32"
    unfolding eq using that by (simp add: word_unat_eq_iff unsigned_take_bit_eq take_bit_nat_eq_self)
qed

theorem table_pointer_roundtrip_iff_witness:
  "entry_table (new_entry 0x100000000 0) \<noteq> 0x100000000 \<and> entry_table (new_entry 0x1000 0) = 0x1000"
  using table_pointer_roundtrip_iff [of "0x100000000" 0] table_pointer_roundtrip_iff [of "0x1000" 0]
  by (simp add: aligned_def)

text \<open>
  \<^verbatim>\<open>__identity_paging\<close> maps all of a page-aligned area of up to 4097 whole pages to itself,
  and no page outside it.
\<close>

theorem identity_paging_whole_pages:
  assumes "pt_inv root s" and "enough root (id_pages addr n) s" and "aligned addr"
    and "unat addr + unat n + 4096 \<le> 2 ^ 44"
    and "unat n = 4096 * k" and "0 < k" and "k \<le> 4097"
  shows "\<exists>s'. identity_paging root addr n s = Inr s' \<and> pt_inv root s' \<and>
    (\<forall>w. unat w < 2 ^ 48 \<longrightarrow> mmu_translate (ram s') root w =
       (if unat addr \<le> unat w \<and> unat w < unat addr + unat n then Some w
        else mmu_translate (ram s) root w))"
proof -
  have "4096 * k div 4097 = k - 1"
    using assms(6,7) by (intro div_nat_eqI) auto
  then have "4096 * (unat n div 4097 + 1) = unat n" using assms(5,6) by simp
  then show ?thesis using identity_paging_extent [OF assms(1-4)] by auto
qed

theorem identity_paging_whole_pages_witness:
  "\<exists>s'. identity_paging 0x20000 0x40000 8192 pt_example = Inr s' \<and>
     mmu_translate (ram s') 0x20000 0x41fff = Some 0x41fff"
proof -
  have "enough 0x20000 (id_pages 0x40000 8192) pt_example"
    by (rule enough_low, erule id_pages_low [rotated]) simp
  from identity_paging_whole_pages [OF pt_example_inv(1) this, of 2] show ?thesis
    by (auto simp: aligned_def)
qed

text \<open>
  For other sizes the last page can be missed: whenever \<open>(n - 1) div 4096 > n div 4097\<close>, as for
  \<open>n = 8193\<close>, the last byte of the area is left as unmapped as it was, although the source says
  that the size is always rounded up to whole pages.
\<close>

theorem identity_paging_misses_last_page:
  assumes "pt_inv root s" and "enough root (id_pages addr n) s" and "aligned addr"
    and "unat addr + unat n + 4096 \<le> 2 ^ 44"
    and "unat n div 4097 < (unat n - 1) div 4096" and "unat w = unat addr + unat n - 1"
  shows "\<exists>s'. identity_paging root addr n s = Inr s' \<and>
    mmu_translate (ram s') root w = mmu_translate (ram s) root w"
proof -
  have "unat n div 4097 + 1 \<le> (unat n - 1) div 4096" using assms(5) by simp
  then have "4096 * (unat n div 4097 + 1) \<le> unat n - 1"
    using less_eq_div_iff_mult_less_eq [of 4096 "unat n div 4097 + 1" "unat n - 1"] by simp
  moreover have "0 < unat n" using assms(5) by (cases "unat n") auto
  ultimately show ?thesis using identity_paging_extent [OF assms(1-4)] assms(4,6) by fastforce
qed


theorem identity_paging_misses_last_page_witness:
  "\<exists>s'. identity_paging 0x20000 0x40000 8193 pt_example = Inr s' \<and>
     mmu_translate (ram s') 0x20000 0x42000 = None"
proof -
  have "enough 0x20000 (id_pages 0x40000 8193) pt_example"
    by (rule enough_low, erule id_pages_low [rotated]) simp
  from identity_paging_misses_last_page [OF pt_example_inv(1) this, of "0x42000"] show ?thesis
    by (auto simp: aligned_def pt_example_inv(2))
qed

text \<open>What the assembly routine does to the control registers: paging and physical address extension are on, and every bit of
  \<^verbatim>\<open>cr0\<close> above 31 as well; \<^verbatim>\<open>cr4\<close> keeps its other bits, among them \<^verbatim>\<open>LA57\<close>.\<close>

lemma bit_imm32: "bit (imm32 v) k \<longleftrightarrow> k < 64 \<and> bit v (min k 31)"
  by (auto simp: imm32_def bit_simps min_def)

lemma bit_push_bit_1: "bit (push_bit n (1 :: u64)) k \<longleftrightarrow> k = n \<and> n < 64"
  by (auto simp: bit_simps)

lemma enable_paging_bits:
  "bit (cr0 (enable_cpu_4_level_paging r)) k \<longleftrightarrow> k < 64 \<and> (bit (cr0 r) k \<or> 31 \<le> k)"
  "bit (cr4 (enable_cpu_4_level_paging r)) k \<longleftrightarrow> bit (cr4 r) k \<or> k = 5"
  "cr3 (enable_cpu_4_level_paging r) = cr3 r" "efer (enable_cpu_4_level_paging r) = efer r"
proof -
  have eq: "cr0 (enable_cpu_4_level_paging r) = cr0 r OR imm32 (push_bit 31 1)"
    "cr4 (enable_cpu_4_level_paging r) = (cr4 r OR imm32 (push_bit 5 1)) AND imm32 (NOT (push_bit 57 1))"
    by (simp_all add: enable_cpu_4_level_paging_def Let_def)
  show "bit (cr0 (enable_cpu_4_level_paging r)) k \<longleftrightarrow> k < 64 \<and> (bit (cr0 r) k \<or> 31 \<le> k)"
    unfolding eq bit_or_iff bit_imm32 bit_push_bit_1 by (auto dest: bit_imp_le_length)
  show "bit (cr4 (enable_cpu_4_level_paging r)) k \<longleftrightarrow> bit (cr4 r) k \<or> k = 5"
    unfolding eq bit_or_iff bit_and_iff bit_imm32 bit_not_iff bit_push_bit_1 by (auto dest: bit_imp_le_length)
qed (simp_all add: enable_cpu_4_level_paging_def Let_def)



lemma env_example_pages:
  assumes "v \<in> boot_pages (ram pt_example) boot_map env_example"
  shows "unat v < 2 ^ 21"
proof -
  have "EfiMMapDesc_at (ram pt_example) 0x100000 = EfiMMapDesc_at boot_mem 0x100000"
  proof (rule EfiMMapDesc_at_cong)
    fix x :: u64 assume "x \<in> span 0x100000 40"
    moreover have "span 0x1000 2 \<inter> span 0x100000 40 = {}" by (rule spans_apart) simp_all
    ultimately show "ram pt_example x = boot_mem x" by (intro pt_example_props(6)) blast
  qed
  then have "v \<in> id_pages 0x1000 0x10000 \<or> v \<in> id_pages 0x80000 8192 \<or> v \<in> id_pages 0x90000 4096 \<or>
      v \<in> id_pages 0x91000 8 \<or> v \<in> id_pages 0x92000 96"
    using assms by (auto simp: boot_pages_def desc_pages_def boot_desc env_example_def FRAME_SZ_def)
  then show ?thesis by (elim disjE) (erule id_pages_low [rotated]; simp)+
qed


end
