(* ===== verification/Heap.thy ===== *)
theory Heap
  imports Paging
begin

text \<open>
  The kernel heap, \<^verbatim>\<open>memory/heap.cpp\<close>: a doubly linked list of blocks, each with a 32-byte
  header in front of its data, first-fit allocation with splitting, and release with
  merging. Headers are bytes of memory; the list is followed through them, so a loop over
  it may fail to end on a cyclic list (\<open>None\<close> of the partial functions, \<open>Diverges\<close> of the
  operations).

  The locale \<open>header_store\<close> is what the list algorithms need of the headers; it is
  interpreted on the byte layout. The specification is a list of blocks (address, size,
  free or not) with disjoint footprints, and allocation and release on that list.
\<close>

section \<open>The model\<close>

record BlockHeader =
  prev :: u64
  "next" :: u64
  is_free :: bool
  bytes :: u64

definition sizeof_BlockHeader :: u64 where "sizeof_BlockHeader = 32"

text \<open>The layout of the structure: eight-byte members at 0, 8 and 24, a \<^verbatim>\<open>bool\<close> at 16.\<close>

definition BlockHeader_at :: "mem \<Rightarrow> u64 \<Rightarrow> BlockHeader" where
  "BlockHeader_at m b = \<lparr>prev = read64 m b, next = read64 m (b + 8), is_free = (read8 m (b + 16) \<noteq> 0),
     bytes = read64 m (b + 24)\<rparr>"

definition set_prev :: "mem \<Rightarrow> u64 \<Rightarrow> u64 \<Rightarrow> mem" where "set_prev m b v = write64 m b v"
definition set_next :: "mem \<Rightarrow> u64 \<Rightarrow> u64 \<Rightarrow> mem" where "set_next m b v = write64 m (b + 8) v"
definition set_is_free :: "mem \<Rightarrow> u64 \<Rightarrow> bool \<Rightarrow> mem" where
  "set_is_free m b v = write8 m (b + 16) (if v then 1 else 0)"
definition set_bytes :: "mem \<Rightarrow> u64 \<Rightarrow> u64 \<Rightarrow> mem" where "set_bytes m b v = write64 m (b + 24) v"

text \<open>The constructor: one page becomes one free block. The result is the list head \<^verbatim>\<open>_blocks\<close>.\<close>

definition Heap_init :: "u64 \<Rightarrow> kst \<Rightarrow> (u64 \<times> kst) res" where
  "Heap_init PML4 s =
     bind_res (request_frame s) (\<lambda>(frame, s).
     bind_res (ASSERT ''frame != nullptr'' (frame \<noteq> 0)) (\<lambda>_.
     bind_res (allocate_page PML4 frame frame s) (\<lambda>s.
     let m = set_is_free (ram s) frame True;
         m = set_next m frame 0;
         m = set_prev m frame 0;
         m = set_bytes m frame (PAGE_SZ - sizeof_BlockHeader)
     in Inr (frame, s\<lparr>ram := m\<rparr>))))"

partial_function (option) find_free_loop :: "mem \<Rightarrow> u64 \<Rightarrow> u64 \<Rightarrow> u64 option" where
  "find_free_loop m n block =
     (if is_free (BlockHeader_at m block) \<and> bytes (BlockHeader_at m block) \<ge> n then Some block
      else let block = next (BlockHeader_at m block)
           in if block \<noteq> 0 then find_free_loop m n block else Some 0)"

definition find_free_block :: "u64 \<Rightarrow> u64 \<Rightarrow> mem \<Rightarrow> u64 res" where
  "find_free_block blocks n m =
     bind_res (ASSERT ''block != nullptr'' (blocks \<noteq> 0)) (\<lambda>_.
     case find_free_loop m n blocks of None \<Rightarrow> Inl Diverges | Some b \<Rightarrow> Inr b)"

definition get_block_data_addr :: "u64 \<Rightarrow> u64" where
  "get_block_data_addr block = block + sizeof_BlockHeader"

definition get_total_block_size :: "mem \<Rightarrow> u64 \<Rightarrow> u64" where
  "get_total_block_size m block = sizeof_BlockHeader + bytes (BlockHeader_at m block)"

definition are_blocks_contiguous :: "mem \<Rightarrow> u64 \<Rightarrow> u64 \<Rightarrow> bool" where
  "are_blocks_contiguous m block next_block =
     (if block = 0 \<or> next_block = 0 then False
      else block + get_total_block_size m block = next_block)"

partial_function (option) find_close_loop :: "mem \<Rightarrow> u64 \<Rightarrow> u64 \<Rightarrow> u64 option" where
  "find_close_loop m addr block =
     (if block \<noteq> 0 then
        if next (BlockHeader_at m block) = 0 then Some block
        else if block < addr \<and> next (BlockHeader_at m block) < addr then Some block
        else find_close_loop m addr (next (BlockHeader_at m block))
      else Some 0)"

definition find_block_close_before_addr :: "u64 \<Rightarrow> u64 \<Rightarrow> mem \<Rightarrow> u64 res" where
  "find_block_close_before_addr blocks addr m =
     (case find_close_loop m addr blocks of
        None \<Rightarrow> Inl Diverges
      | Some b \<Rightarrow> if b = 0 then Inl (Assert ''1 == 2'') else Inr b)"

text \<open>The growth branch of \<^verbatim>\<open>malloc\<close>: new pages, a new block, its place in the list, and the
  second search.\<close>

definition malloc_grow :: "u64 \<Rightarrow> u64 \<Rightarrow> u64 \<Rightarrow> kst \<Rightarrow> (u64 \<times> kst) res" where
  "malloc_grow PML4 blocks n s =
     (let pages = n div PAGE_SZ + 1 in
      bind_res (request_frames pages s) (\<lambda>(init_block, s).
      bind_res (for_res 0 (\<lambda>_. pages)
        (\<lambda>i s. let page = init_block + i * PAGE_SZ in allocate_page PML4 page page s) s) (\<lambda>s.
      let block = init_block;
          m = set_bytes (ram s) block (pages * PAGE_SZ - sizeof_BlockHeader);
          m = set_is_free m block True
      in
      bind_res (find_block_close_before_addr blocks block m) (\<lambda>prev_block.
      let m = set_next m block (next (BlockHeader_at m prev_block));
          m = set_prev m block prev_block;
          m = set_next m prev_block block;
          m = (if next (BlockHeader_at m block) \<noteq> 0
               then set_prev m (next (BlockHeader_at m block)) block else m)
      in
      bind_res (find_free_block blocks n m) (\<lambda>block.
      bind_res (ASSERT ''block != nullptr'' (block \<noteq> 0)) (\<lambda>_.
      Inr (block, s\<lparr>ram := m\<rparr>)))))))"

text \<open>The rest of \<^verbatim>\<open>malloc\<close>, once a block has been found: take it whole or split it.\<close>

definition malloc_take :: "u64 \<Rightarrow> u64 \<Rightarrow> mem \<Rightarrow> (u64 \<times> mem) res" where
  "malloc_take n block m =
     (let have_bytes = bytes (BlockHeader_at m block) in
      if have_bytes = n \<or> have_bytes - n \<le> sizeof_BlockHeader then
        Inr (get_block_data_addr block, set_is_free m block False)
      else
        let m = set_is_free m block False;
            new_block = get_block_data_addr block + n;
            m = set_is_free m new_block True;
            m = set_bytes m new_block (bytes (BlockHeader_at m block) - n - sizeof_BlockHeader)
        in
        bind_res (ASSERT ''new_block->bytes > 0'' (bytes (BlockHeader_at m new_block) > 0)) (\<lambda>_.
        let m = (if next (BlockHeader_at m block) \<noteq> 0
                 then set_prev m (next (BlockHeader_at m block)) new_block else m);
            m = set_next m new_block (next (BlockHeader_at m block));
            m = set_prev m new_block block;
            m = set_bytes m block n;
            m = set_next m block new_block
        in Inr (get_block_data_addr block, m)))"

definition malloc :: "u64 \<Rightarrow> u64 \<Rightarrow> u64 \<Rightarrow> kst \<Rightarrow> (u64 \<times> kst) res" where
  "malloc PML4 blocks n s =
     bind_res (ASSERT ''bytes > 0'' (n > 0)) (\<lambda>_.
     bind_res (find_free_block blocks n (ram s)) (\<lambda>block.
     bind_res (if block = 0 then malloc_grow PML4 blocks n s else Inr (block, s)) (\<lambda>(block, s).
     bind_res (malloc_take n block (ram s)) (\<lambda>(p, m). Inr (p, s\<lparr>ram := m\<rparr>)))))"

text \<open>The two halves of \<^verbatim>\<open>free\<close>: merging with the next block, then with the previous one. The last
  statement writes through \<^verbatim>\<open>block->next\<close> without testing it.\<close>

definition free_merge_next :: "u64 \<Rightarrow> mem \<Rightarrow> mem" where
  "free_merge_next block m =
     (let nxt = next (BlockHeader_at m block) in
      if nxt \<noteq> 0 \<and> is_free (BlockHeader_at m nxt) \<and> are_blocks_contiguous m block nxt then
        let m = set_bytes m block (bytes (BlockHeader_at m block) + get_total_block_size m nxt);
            m = set_next m block (next (BlockHeader_at m nxt))
        in if next (BlockHeader_at m block) \<noteq> 0
           then set_prev m (next (BlockHeader_at m block)) block else m
      else m)"

definition free_merge_prev :: "u64 \<Rightarrow> mem \<Rightarrow> mem res" where
  "free_merge_prev block m =
     (let prv = prev (BlockHeader_at m block) in
      if prv \<noteq> 0 \<and> is_free (BlockHeader_at m prv) \<and> are_blocks_contiguous m prv block then
        let m = set_bytes m prv (bytes (BlockHeader_at m prv) + get_total_block_size m block);
            m = set_next m prv (next (BlockHeader_at m block));
            nxt = next (BlockHeader_at m block)
        in if nxt = 0 then Inl NullDeref
           else Inr (set_prev m nxt (prev (BlockHeader_at m block)))
      else Inr m)"

definition heap_free :: "u64 \<Rightarrow> mem \<Rightarrow> mem res" where
  "heap_free ptr m =
     (if ptr = 0 then Inr m
      else
        let block = ptr - sizeof_BlockHeader;
            m = set_is_free m block True;
            m = free_merge_next block m
        in free_merge_prev block m)"

record HeapStats =
  all_blocks :: u64
  free_blocks :: u64
  allocated_blocks :: u64

partial_function (option) heap_stats_loop :: "mem \<Rightarrow> u64 \<Rightarrow> HeapStats \<Rightarrow> HeapStats option" where
  "heap_stats_loop m block stats =
     (if block \<noteq> 0 then
        let stats = stats\<lparr>all_blocks := all_blocks stats + 1\<rparr>;
            stats = (if is_free (BlockHeader_at m block)
                     then stats\<lparr>free_blocks := free_blocks stats + 1\<rparr>
                     else stats\<lparr>allocated_blocks := allocated_blocks stats + 1\<rparr>)
        in heap_stats_loop m (next (BlockHeader_at m block)) stats
      else Some stats)"

definition get_heap_stats :: "u64 \<Rightarrow> mem \<Rightarrow> HeapStats res" where
  "get_heap_stats blocks m =
     (case heap_stats_loop m blocks \<lparr>all_blocks = 0, free_blocks = 0, allocated_blocks = 0\<rparr> of
        None \<Rightarrow> Inl Diverges | Some st \<Rightarrow> Inr st)"


section \<open>The contract of the headers\<close>

text \<open>An abstract block: address of its header, size of its data, free or not.\<close>

type_synonym ablock = "u64 \<times> u64 \<times> bool"

definition first_addr :: "ablock list \<Rightarrow> u64 \<Rightarrow> u64" where
  "first_addr bs e = (case bs of [] \<Rightarrow> e | b # _ \<Rightarrow> fst b)"

definition last_addr :: "u64 \<Rightarrow> ablock list \<Rightarrow> u64" where
  "last_addr p bs = (if bs = [] then p else fst (last bs))"

lemma first_addr_simps [simp]: "first_addr [] e = e" "first_addr ((a, n, f) # bs) e = a"
  by (simp_all add: first_addr_def)

lemma last_addr_simps [simp]:
  "last_addr p [] = p" "last_addr p ((a, n, f) # bs) = last_addr a bs" "last_addr p (bs @ [(a, n, f)]) = a"
  by (simp_all add: last_addr_def)

text \<open>
  Headers that can be read and whose members can be written one at a time: a write changes
  that member of that header only, as far as separate headers are concerned.
\<close>

locale header_store =
  fixes hdr :: "'m \<Rightarrow> u64 \<Rightarrow> BlockHeader" and sep :: "u64 \<Rightarrow> u64 \<Rightarrow> bool"
    and wprev wnext wbytes :: "'m \<Rightarrow> u64 \<Rightarrow> u64 \<Rightarrow> 'm" and wfree :: "'m \<Rightarrow> u64 \<Rightarrow> bool \<Rightarrow> 'm"
  assumes same: "hdr (wprev m a v) a = (hdr m a)\<lparr>prev := v\<rparr>" "hdr (wnext m a v) a = (hdr m a)\<lparr>next := v\<rparr>"
      "hdr (wbytes m a v) a = (hdr m a)\<lparr>bytes := v\<rparr>" "hdr (wfree m a f) a = (hdr m a)\<lparr>is_free := f\<rparr>"
    and other: "sep b a \<Longrightarrow> hdr (wprev m a v) b = hdr m b" "sep b a \<Longrightarrow> hdr (wnext m a v) b = hdr m b"
      "sep b a \<Longrightarrow> hdr (wbytes m a v) b = hdr m b" "sep b a \<Longrightarrow> hdr (wfree m a f) b = hdr m b"
    and sep_sym: "sep a b \<Longrightarrow> sep b a" and sep_irrefl: "\<not> sep a a"
begin

text \<open>A segment of the doubly linked list, between a previous and a next pointer.\<close>

fun seg :: "'m \<Rightarrow> u64 \<Rightarrow> ablock list \<Rightarrow> u64 \<Rightarrow> bool" where
  "seg m p [] e \<longleftrightarrow> True"
| "seg m p ((a, n, f) # bs) e \<longleftrightarrow> a \<noteq> 0 \<and>
     hdr m a = \<lparr>prev = p, next = first_addr bs e, is_free = f, bytes = n\<rparr> \<and> seg m a bs e"

lemma first_addr_append [simp]: "first_addr (xs @ ys) e = first_addr xs (first_addr ys e)"
  by (cases xs) (auto simp: first_addr_def)

lemma seg_append: "seg m p (xs @ ys) e \<longleftrightarrow> seg m p xs (first_addr ys e) \<and> seg m (last_addr p xs) ys e"
  by (induction xs arbitrary: p) auto

lemma seg_frame: "(\<And>a. a \<in> fst ` set bs \<Longrightarrow> hdr m' a = hdr m a) \<Longrightarrow> seg m' p bs e = seg m p bs e"
  by (induction bs arbitrary: p) auto

lemma seg_nonzero: "seg m p bs e \<Longrightarrow> a \<in> fst ` set bs \<Longrightarrow> a \<noteq> 0"
proof (induction bs arbitrary: p)
  case (Cons b bs)
  then show ?case by (cases b) auto
qed simp

text \<open>Blocks whose headers are pairwise separate.\<close>

fun separate :: "ablock list \<Rightarrow> bool" where
  "separate [] \<longleftrightarrow> True"
| "separate (b # bs) \<longleftrightarrow> (\<forall>c \<in> set bs. sep (fst b) (fst c)) \<and> separate bs"

lemma separate_append:
  "separate (xs @ ys) \<longleftrightarrow> separate xs \<and> separate ys \<and> (\<forall>b \<in> set xs. \<forall>c \<in> set ys. sep (fst b) (fst c))"
  by (induction xs) auto

text \<open>The previous pointer of the block after a segment.\<close>

definition relink :: "'m \<Rightarrow> u64 \<Rightarrow> u64 \<Rightarrow> 'm" where
  "relink m b p = (if b \<noteq> 0 then wprev m b p else m)"

lemma seg_relink:
  assumes "seg m p ys 0" and "separate ys"
  shows "seg (relink m (first_addr ys 0) q) q ys 0"
proof (cases ys)
  case Nil
  then show ?thesis by simp
next
  case (Cons b zs)
  obtain a n f where b: "b = (a, n, f)" by (cases b)
  have "a \<noteq> 0" using assms(1) Cons b by simp
  moreover have "seg (wprev m a q) a zs 0 = seg m a zs 0"
    using assms(2) Cons b sep_sym by (intro seg_frame other(1)) auto
  ultimately show ?thesis using assms(1) Cons b by (simp add: relink_def same)
qed

lemma hdr_relink_other:
  "(ys = [] \<or> sep a (first_addr ys 0)) \<Longrightarrow> hdr (relink m (first_addr ys 0) q) a = hdr m a"
  by (auto simp: relink_def other)

text \<open>Marking a block.\<close>

lemma seg_mark:
  assumes "seg m 0 (xs @ (a, n, f) # ys) 0" and "separate (xs @ (a, n, f) # ys)"
  shows "seg (wfree m a g) 0 (xs @ (a, n, g) # ys) 0"
proof -
  have "seg (wfree m a g) 0 xs a = seg m 0 xs a" "seg (wfree m a g) a ys 0 = seg m a ys 0"
    using assms(2) sep_sym by (auto intro!: seg_frame other(4) simp: separate_append)
  then show ?thesis using assms(1) by (simp add: seg_append same)
qed

text \<open>Splitting block \<open>a\<close> into itself and a new block \<open>c\<close>.\<close>

lemma seg_split:
  assumes "seg m 0 (xs @ (a, n, f) # ys) 0" and "separate (xs @ (a, n, f) # (c, r, True) # ys)" and "c \<noteq> 0"
    and m1: "m1 = relink (wbytes (wfree (wfree m a False) c True) c r) (first_addr ys 0) c"
    and m2: "m2 = wnext (wbytes (wprev (wnext m1 c (first_addr ys 0)) c a) a k) a c"
  shows "seg m2 0 (xs @ (a, k, False) # (c, r, True) # ys) 0"
proof -
  let ?m0 = "wbytes (wfree (wfree m a False) c True) c r"
  have sep: "sep a c" "sep c a" "\<And>x. x \<in> fst ` set xs \<Longrightarrow> sep x a \<and> sep x c"
    "\<And>y. y \<in> fst ` set ys \<Longrightarrow> sep y a \<and> sep y c"
    using assms(2) sep_sym by (auto simp: separate_append)
  have first: "ys = [] \<or> first_addr ys 0 \<in> fst ` set ys" by (cases ys) (auto simp: first_addr_def)
  then have rel: "hdr m1 x = hdr ?m0 x" if "x = a \<or> x = c \<or> x \<in> fst ` set xs" for x
    unfolding m1 using that assms(2) sep sep_sym
    by (intro hdr_relink_other) (fastforce simp: separate_append)
  have xs: "hdr m2 x = hdr m x" if "x \<in> fst ` set xs" for x
    using sep(3) [OF that] rel that by (simp add: m2 other)
  have hc: "hdr m2 c = \<lparr>prev = a, next = first_addr ys 0, is_free = True, bytes = r\<rparr>"
    using sep(1,2) rel by (simp add: m2 same other)
  have ha: "hdr m2 a = \<lparr>prev = last_addr 0 xs, next = c, is_free = False, bytes = k\<rparr>"
    using sep(1,2) rel assms(1) by (simp add: m2 same other seg_append)
  have "seg m a ys 0" using assms(1) by (simp add: seg_append)
  then have "seg ?m0 a ys 0"
    using sep(4) by (subst seg_frame [where m = m]) (auto simp: other)
  moreover have "separate ys" using assms(2) by (simp add: separate_append)
  ultimately have "seg m1 c ys 0" unfolding m1 by (rule seg_relink)
  then have "seg m2 c ys 0"
    using sep(4) by (subst seg_frame [where m = m1]) (auto simp: m2 other)
  moreover have "seg m2 0 xs a" using assms(1) seg_frame [OF xs] by (simp add: seg_append)
  ultimately show ?thesis using ha hc assms(1,3) by (simp add: seg_append)
qed

text \<open>Absorbing block \<open>c\<close> into its predecessor \<open>a\<close>.\<close>

lemma seg_absorb:
  assumes "seg m 0 (xs @ (a, n, f) # (c, k, g) # ys) 0" and "separate (xs @ (a, n, f) # (c, k, g) # ys)"
    and m': "m' = relink (wnext (wbytes m a N) a (first_addr ys 0)) (first_addr ys 0) a"
  shows "seg m' 0 (xs @ (a, N, f) # ys) 0"
proof -
  let ?m0 = "wnext (wbytes m a N) a (first_addr ys 0)"
  have sep: "\<And>x. x \<in> fst ` set xs \<Longrightarrow> sep x a" "\<And>y. y \<in> fst ` set ys \<Longrightarrow> sep y a"
    using assms(2) sep_sym by (auto simp: separate_append)
  have first: "ys = [] \<or> first_addr ys 0 \<in> fst ` set ys" by (cases ys) (auto simp: first_addr_def)
  then have rel: "hdr m' x = hdr ?m0 x" if "x = a \<or> x \<in> fst ` set xs" for x
    unfolding m' using that assms(2) sep sep_sym
    by (intro hdr_relink_other) (fastforce simp: separate_append)
  have ha: "hdr m' a = \<lparr>prev = last_addr 0 xs, next = first_addr ys 0, is_free = f, bytes = N\<rparr>"
    using rel assms(1) by (simp add: same seg_append)
  have xs: "hdr m' x = hdr m x" if "x \<in> fst ` set xs" for x
    using sep(1) [OF that] rel that by (simp add: other)
  have "seg m c ys 0" using assms(1) by (simp add: seg_append)
  then have "seg ?m0 c ys 0"
    using sep(2) by (subst seg_frame [where m = m]) (auto simp: other)
  moreover have "separate ys" using assms(2) by (simp add: separate_append)
  ultimately have "seg m' a ys 0" unfolding m' by (rule seg_relink)
  moreover have "seg m' 0 xs a" using assms(1) seg_frame [OF xs] by (simp add: seg_append)
  ultimately show ?thesis using ha assms(1) by (simp add: seg_append)
qed

end

text \<open>The byte layout fulfils the contract, headers being separate when their 32 bytes are.\<close>

definition hdr_apart :: "u64 \<Rightarrow> u64 \<Rightarrow> bool" where
  "hdr_apart a b \<longleftrightarrow> apart a 32 b 32"

lemma member_apart:
  assumes "i + n \<le> j \<or> j + k \<le> i" and "i + n \<le> 32" and "j + k \<le> 32" and "0 < n" and "0 < k"
  shows "span (a + of_nat i) n \<inter> span (a + of_nat j) k = {}"
  using assms span_disjoint [OF apart_off [of i n j k a]] span_disjoint [OF apart_off [of j k i n a]]
  by auto

lemma member_in_header: "i + n \<le> 32 \<Longrightarrow> span (a + of_nat i) n \<subseteq> span a 32"
  by (rule span_add_subset) simp_all

lemma read64_member:
  assumes "\<And>x. x \<notin> span (b + of_nat j) k \<Longrightarrow> m' x = m x" and "span (a + of_nat i) 8 \<inter> span (b + of_nat j) k = {}"
  shows "read64 m' (a + of_nat i) = read64 m (a + of_nat i)"
  using assms by (rule c64.rd_outside)

lemma read8_member:
  assumes "\<And>x. x \<notin> span (b + of_nat j) k \<Longrightarrow> m' x = m x" and "span (a + of_nat i) 1 \<inter> span (b + of_nat j) k = {}"
  shows "read8 m' (a + of_nat i) = read8 m (a + of_nat i)"
  using assms by (rule c8.rd_outside)

lemma BlockHeader_at_other:
  assumes "\<And>x. x \<notin> span (a + of_nat j) k \<Longrightarrow> m' x = m x" and "j + k \<le> 32" and "hdr_apart b a"
  shows "BlockHeader_at m' b = BlockHeader_at m b"
proof -
  have dis: "span (b + of_nat i) n \<inter> span (a + of_nat j) k = {}" if "i + n \<le> 32" for i n
    using span_disjoint [of b 32 a 32] assms(3) member_in_header [OF that, of b]
      member_in_header [OF assms(2), of a] by (auto simp: hdr_apart_def)
  have "read64 m' (b + of_nat i) = read64 m (b + of_nat i)" if "i + 8 \<le> 32" for i
    using assms(1) dis [OF that] by (rule read64_member)
  from this [of 0] this [of 8] this [of 24] show ?thesis
    using read8_member [OF assms(1) dis [of 16 1]] by (simp add: BlockHeader_at_def)
qed


lemma member_kept:
  assumes "\<And>x. x \<notin> span (a + of_nat j) k \<Longrightarrow> m' x = m x" and "j + k \<le> 32" and "0 < k"
  shows "i + 8 \<le> j \<or> j + k \<le> i \<Longrightarrow> i + 8 \<le> 32 \<Longrightarrow> read64 m' (a + of_nat i) = read64 m (a + of_nat i)"
    and "16 < j \<or> j + k \<le> 16 \<Longrightarrow> read8 m' (a + 16) = read8 m (a + 16)"
proof -
  show "read64 m' (a + of_nat i) = read64 m (a + of_nat i)" if "i + 8 \<le> j \<or> j + k \<le> i" "i + 8 \<le> 32"
  proof -
    have "span (a + of_nat i) 8 \<inter> span (a + of_nat j) k = {}"
      using that assms(2,3) by (intro member_apart) auto
    with assms(1) show ?thesis by (rule read64_member)
  qed
  have "read8 m' (a + of_nat 16) = read8 m (a + of_nat 16)" if "16 < j \<or> j + k \<le> 16"
  proof -
    have "span (a + of_nat 16) 1 \<inter> span (a + of_nat j) k = {}"
      using that assms(2,3) by (intro member_apart) auto
    with assms(1) show ?thesis by (rule read8_member)
  qed
  then show "16 < j \<or> j + k \<le> 16 \<Longrightarrow> read8 m' (a + 16) = read8 m (a + 16)" by simp
qed

lemma set_outside:
  "x \<notin> span (a + of_nat 0) 8 \<Longrightarrow> set_prev m a v x = m x"
  "x \<notin> span (a + of_nat 8) 8 \<Longrightarrow> set_next m a v x = m x"
  "x \<notin> span (a + of_nat 16) 1 \<Longrightarrow> set_is_free m a f x = m x"
  "x \<notin> span (a + of_nat 24) 8 \<Longrightarrow> set_bytes m a v x = m x"
  by (simp_all add: set_prev_def set_next_def set_is_free_def set_bytes_def c64.wr_outside c8.wr_outside)

lemma set_outside_header:
  assumes "x \<notin> span a 32"
  shows "set_prev m a v x = m x" "set_next m a v x = m x" "set_is_free m a f x = m x" "set_bytes m a v x = m x"
  using assms member_in_header [of 0 8 a] member_in_header [of 8 8 a] member_in_header [of 16 1 a]
    member_in_header [of 24 8 a]
  by (auto intro!: set_outside)

interpretation hs: header_store BlockHeader_at hdr_apart set_prev set_next set_bytes set_is_free
proof
  fix m a v f
  note P = member_kept [of a 0 8 "set_prev m a v" m, OF set_outside(1)]
    and N = member_kept [of a 8 8 "set_next m a v" m, OF set_outside(2)]
    and F = member_kept [of a 16 1 "set_is_free m a f" m, OF set_outside(3)]
    and B = member_kept [of a 24 8 "set_bytes m a v" m, OF set_outside(4)]
  show "BlockHeader_at (set_prev m a v) a = (BlockHeader_at m a)\<lparr>prev := v\<rparr>"
    using P(1) [of 8] P(1) [of 24] P(2) by (simp add: BlockHeader_at_def) (simp add: set_prev_def)
  show "BlockHeader_at (set_next m a v) a = (BlockHeader_at m a)\<lparr>next := v\<rparr>"
    using N(1) [of 0] N(1) [of 24] N(2) by (simp add: BlockHeader_at_def) (simp add: set_next_def)
  show "BlockHeader_at (set_is_free m a f) a = (BlockHeader_at m a)\<lparr>is_free := f\<rparr>"
    using F(1) [of 0] F(1) [of 8] F(1) [of 24] by (simp add: BlockHeader_at_def) (simp add: set_is_free_def)
  show "BlockHeader_at (set_bytes m a v) a = (BlockHeader_at m a)\<lparr>bytes := v\<rparr>"
    using B(1) [of 0] B(1) [of 8] B(2) by (simp add: BlockHeader_at_def) (simp add: set_bytes_def)
  fix b assume ap: "hdr_apart b a"
  show "BlockHeader_at (set_prev m a v) b = BlockHeader_at m b"
    by (rule BlockHeader_at_other [of a 0 8 "set_prev m a v" m b, OF set_outside(1) _ ap]) simp_all
  show "BlockHeader_at (set_next m a v) b = BlockHeader_at m b"
    by (rule BlockHeader_at_other [of a 8 8 "set_next m a v" m b, OF set_outside(2) _ ap]) simp_all
  show "BlockHeader_at (set_bytes m a v) b = BlockHeader_at m b"
    by (rule BlockHeader_at_other [of a 24 8 "set_bytes m a v" m b, OF set_outside(4) _ ap]) simp_all
  show "BlockHeader_at (set_is_free m a f) b = BlockHeader_at m b"
    by (rule BlockHeader_at_other [of a 16 1 "set_is_free m a f" m b, OF set_outside(3) _ ap]) simp_all
qed (auto simp: hdr_apart_def apart_sym, simp add: apart_def)


section \<open>The abstract heap\<close>

text \<open>The bytes of a block, header and data; blocks with disjoint bytes inside the address space.\<close>

definition foot :: "ablock \<Rightarrow> u64 set" where
  "foot b = (case b of (a, n, f) \<Rightarrow> span a (32 + unat n))"

definition fits :: "ablock \<Rightarrow> bool" where
  "fits b \<longleftrightarrow> (case b of (a, n, f) \<Rightarrow> unat a + 32 + unat n \<le> 2 ^ 64)"

fun disj :: "ablock list \<Rightarrow> bool" where
  "disj [] \<longleftrightarrow> True"
| "disj (b # bs) \<longleftrightarrow> fits b \<and> (\<forall>c \<in> set bs. foot b \<inter> foot c = {}) \<and> disj bs"

lemma disj_append:
  "disj (xs @ ys) \<longleftrightarrow> disj xs \<and> disj ys \<and> (\<forall>b \<in> set xs. \<forall>c \<in> set ys. foot b \<inter> foot c = {})"
  by (induction xs) auto

lemma fits_of_disj: "disj bs \<Longrightarrow> b \<in> set bs \<Longrightarrow> fits b"
  by (induction bs) auto

definition hdr_bytes :: "ablock list \<Rightarrow> u64 set" where
  "hdr_bytes bs = (\<Union>b \<in> set bs. span (fst b) 32)"

definition heap_inv :: "u64 \<Rightarrow> mem \<Rightarrow> ablock list \<Rightarrow> bool" where
  "heap_inv blocks m bs \<longleftrightarrow> bs \<noteq> [] \<and> blocks = first_addr bs 0 \<and> hs.seg m 0 bs 0 \<and> disj bs"

lemma header_in_foot: "span (fst b) 32 \<subseteq> foot b"
  by (cases b) (simp add: foot_def span_mono)

lemma foot_sep: "foot b \<inter> foot c = {} \<Longrightarrow> hdr_apart (fst b) (fst c)"
  unfolding hdr_apart_def using header_in_foot [of b] header_in_foot [of c]
  by (intro disjoint_apart) auto

lemma disj_separate: "disj bs \<Longrightarrow> hs.separate bs"
  by (induction bs) (auto simp: foot_sep)

text \<open>A range of addresses in two parts.\<close>

lemma span_glue:
  assumes "i + j \<le> 2 ^ 64" and "i < 2 ^ 64"
  shows "span a (i + j) = span a i \<union> span (a + of_nat i) j"
    and "span a i \<inter> span (a + of_nat i) j = {}"
proof -
  have off: "unat (x - (a + of_nat i)) = (if i \<le> unat (x - a) then unat (x - a) - i else 2 ^ 64 - (i - unat (x - a)))"
    for x :: u64
  proof -
    have i: "unat (of_nat i :: u64) = i" using assms(2) by simp
    show ?thesis
    proof (cases "i \<le> unat (x - a)")
      case True
      then have "of_nat i \<le> x - a" using i by (simp add: word_le_nat_alt)
      then show ?thesis using True i unat_minus_le [of "of_nat i" "x - a"] by (simp add: diff_diff_eq)
    next
      case False
      then have "x - a < of_nat i" using i by (simp add: word_less_nat_alt)
      then show ?thesis using False i unat_minus_gt [of "x - a" "of_nat i"] by (simp add: diff_diff_eq)
    qed
  qed
  show "span a (i + j) = span a i \<union> span (a + of_nat i) j" "span a i \<inter> span (a + of_nat i) j = {}"
    using assms by (auto simp: span_iff off split: if_splits)
qed

lemma of_nat_block: "of_nat (32 + unat n) = (32 + n :: u64)"
  by simp

text \<open>Splitting and merging a footprint.\<close>

lemma foot_glue:
  assumes "unat a + 32 + unat n + 32 + unat k \<le> 2 ^ 64"
  shows "foot (a, n + (32 + k), f) = foot (a, n, f) \<union> foot (a + (32 + n), k, g)"
    and "foot (a, n, f) \<inter> foot (a + (32 + n), k, g) = {}"
    and "unat (n + (32 + k)) = unat n + 32 + unat k"
proof -
  show sum: "unat (n + (32 + k)) = unat n + 32 + unat k"
    using assms by (simp add: unat_word_ariths)
  have "32 + unat n + (32 + unat k) \<le> 2 ^ 64" "32 + unat n < 2 ^ 64" using assms by simp_all
  note G = span_glue [OF this, of a]
  show "foot (a, n + (32 + k), f) = foot (a, n, f) \<union> foot (a + (32 + n), k, g)"
    using G(1) by (simp add: foot_def sum of_nat_block add.assoc)
  show "foot (a, n, f) \<inter> foot (a + (32 + n), k, g) = {}"
    using G(2) by (simp add: foot_def of_nat_block)
qed

lemma next_addr:
  assumes "unat a + 32 + unat (n :: u64) < 2 ^ 64"
  shows "unat (a + (32 + n)) = unat a + 32 + unat n"
  using assms by (simp add: unat_word_ariths)

lemma disj_absorb:
  assumes "disj (xs @ (a, n, f) # (c, k, g) # ys)" and "c = a + (32 + n)" and "c \<noteq> 0"
  shows "disj (xs @ (a, n + (32 + k), f) # ys)"
proof -
  have fa: "unat a + 32 + unat n \<le> 2 ^ 64" and fc: "unat c + 32 + unat k \<le> 2 ^ 64"
    using assms(1) by (simp_all add: disj_append fits_def)
  have "unat a + 32 + unat n \<noteq> 2 ^ 64"
  proof
    assume eq: "unat a + 32 + unat n = 2 ^ 64"
    have "unat (a + (32 + n)) = (unat a + 32 + unat n) mod 2 ^ 64"
      by (simp add: unat_word_ariths mod_simps add.assoc)
    then have "unat (a + (32 + n)) = 0" unfolding eq by simp
    then show False using assms(2,3) by (simp add: unat_eq_zero)
  qed
  then have "unat c = unat a + 32 + unat n" using fa assms(2) by (simp add: next_addr)
  with fc have room: "unat a + 32 + unat n + 32 + unat k \<le> 2 ^ 64" by simp
  note G = foot_glue(1,2) [OF room, of f g] foot_glue(3) [OF room]
  have "fits (a, n + (32 + k), f)" using room G(3) by (simp add: fits_def)
  then show ?thesis
    using assms(1) G(1) by (auto simp: disj_append assms(2) [symmetric])
qed

lemma disj_split:
  assumes "disj (xs @ (a, k, f) # ys)" and "unat n + 32 < unat k"
  shows "disj (xs @ (a, n, g) # (a + (32 + n), k - n - 32, h) # ys)" and "a + (32 + n) \<noteq> 0"
proof -
  have fa: "unat a + 32 + unat k \<le> 2 ^ 64" using assms(1) by (simp add: disj_append fits_def)
  have nk: "n \<le> k" "32 \<le> k - n" using assms(2) by (simp_all add: word_le_nat_alt unat_minus_le)
  then have r: "unat (k - n - 32) = unat k - unat n - 32" by (simp add: unat_minus_le)
  have room: "unat a + 32 + unat n + 32 + unat (k - n - 32) \<le> 2 ^ 64" using fa assms(2) r by simp
  have c: "unat (a + (32 + n)) = unat a + 32 + unat n" using fa assms(2) by (intro next_addr) simp
  note G = foot_glue(1,2) [OF room, of f h]
  have k: "n + (32 + (k - n - 32)) = k" by simp
  show "a + (32 + n) \<noteq> 0" using c by (metis add_is_0 unat_0 zero_neq_numeral)
  have "fits (a, n, g)" "fits (a + (32 + n), k - n - 32, h)" using room c by (simp_all add: fits_def)
  moreover have "foot (a, n, g) = foot (a, n, f)" by (simp add: foot_def)
  ultimately show "disj (xs @ (a, n, g) # (a + (32 + n), k - n - 32, h) # ys)"
    using assms(1) G(1,2) [unfolded k] by (auto simp: disj_append)
qed

lemma disj_mark: "disj (xs @ (a, n, f) # ys) \<Longrightarrow> disj (xs @ (a, n, g) # ys)"
  by (auto simp: disj_append foot_def fits_def)


section \<open>Searching\<close>

definition suits :: "u64 \<Rightarrow> ablock \<Rightarrow> bool" where
  "suits n b \<longleftrightarrow> (case b of (a, k, f) \<Rightarrow> f \<and> n \<le> k)"

lemma find_free_loop_spec:
  assumes "hs.seg m p bs 0" and "bs \<noteq> []"
  shows "find_free_loop m n (first_addr bs 0) = Some (case find (suits n) bs of None \<Rightarrow> 0 | Some b \<Rightarrow> fst b)"
  using assms
proof (induction bs arbitrary: p)
  case (Cons b bs)
  obtain a k f where b: "b = (a, k, f)" by (cases b)
  have hdr: "BlockHeader_at m a = \<lparr>prev = p, next = first_addr bs 0, is_free = f, bytes = k\<rparr>"
    and seg: "hs.seg m a bs 0" using Cons.prems(1) b by simp_all
  show ?case
  proof (cases "bs = []")
    case True
    then show ?thesis
      using b hdr by (simp add: find_free_loop.simps [of m n a] suits_def Let_def)
  next
    case False
    then have nz: "first_addr bs 0 \<noteq> 0"
      using hs.seg_nonzero [OF seg] by (cases bs) (auto simp: first_addr_def)
    show ?thesis
      using Cons.IH [OF seg False] b hdr nz by (simp add: find_free_loop.simps [of m n a] suits_def Let_def)
  qed
qed simp

lemma find_free_block_spec:
  assumes "heap_inv blocks m bs"
  shows "find_free_block blocks n m = Inr (case find (suits n) bs of None \<Rightarrow> 0 | Some b \<Rightarrow> fst b)"
proof -
  have inv: "bs \<noteq> []" "blocks = first_addr bs 0" "hs.seg m 0 bs 0" using assms by (auto simp: heap_inv_def)
  then have "blocks \<noteq> 0" using hs.seg_nonzero [OF inv(3)] by (cases bs) (auto simp: first_addr_def)
  then show ?thesis using find_free_loop_spec [OF inv(3,1)] inv(2) by (simp add: find_free_block_def)
qed

lemma find_first:
  "\<not> (\<exists>b \<in> set xs. P b) \<Longrightarrow> P c \<Longrightarrow> find P (xs @ c # ys) = Some c"
  by (induction xs) auto

section \<open>Allocation\<close>

text \<open>What becomes of a free block of \<open>k\<close> bytes from which \<open>n\<close> are allocated.\<close>

definition take_block :: "u64 \<Rightarrow> u64 \<Rightarrow> u64 \<Rightarrow> ablock list" where
  "take_block n a k =
     (if k = n \<or> k - n \<le> 32 then [(a, k, False)]
      else [(a, n, False), (a + (32 + n), k - n - 32, True)])"

lemma seg_hdr:
  "hs.seg m 0 (xs @ (a, k, f) # ys) 0 \<Longrightarrow>
     BlockHeader_at m a = \<lparr>prev = last_addr 0 xs, next = first_addr ys 0, is_free = f, bytes = k\<rparr>"
  by (simp add: hs.seg_append)

lemma malloc_take_whole:
  assumes "heap_inv blocks m (xs @ (a, k, True) # ys)" and "k = n \<or> k - n \<le> 32"
  shows "malloc_take n a m = Inr (a + 32, set_is_free m a False) \<and>
    heap_inv blocks (set_is_free m a False) (xs @ (a, k, False) # ys)"
proof -
  have inv: "hs.seg m 0 (xs @ (a, k, True) # ys) 0" "disj (xs @ (a, k, True) # ys)"
    "blocks = first_addr (xs @ (a, k, True) # ys) 0" using assms(1) by (simp_all add: heap_inv_def)
  have "hs.seg (set_is_free m a False) 0 (xs @ (a, k, False) # ys) 0"
    using hs.seg_mark [OF inv(1) disj_separate [OF inv(2)]] .
  moreover have "disj (xs @ (a, k, False) # ys)" using inv(2) by (rule disj_mark)
  moreover have "blocks = first_addr (xs @ (a, k, False) # ys) 0" using inv(3) by simp
  ultimately show ?thesis
    using assms(2) seg_hdr [OF inv(1)]
    by (simp add: malloc_take_def get_block_data_addr_def sizeof_BlockHeader_def heap_inv_def)
qed

lemma malloc_take_split:
  assumes "heap_inv blocks m (xs @ (a, k, True) # ys)" and "n \<le> k" and "\<not> (k = n \<or> k - n \<le> 32)"
  shows "\<exists>m'. malloc_take n a m = Inr (a + 32, m') \<and>
    heap_inv blocks m' (xs @ (a, n, False) # (a + (32 + n), k - n - 32, True) # ys) \<and>
    (\<forall>x. x \<notin> hdr_bytes (xs @ (a, n, False) # (a + (32 + n), k - n - 32, True) # ys) \<longrightarrow> m' x = m x)"
proof -
  let ?c = "a + (32 + n)" and ?r = "k - n - 32" and ?nx = "first_addr ys 0"
  let ?bs = "xs @ (a, n, False) # (?c, ?r, True) # ys"
  have inv: "hs.seg m 0 (xs @ (a, k, True) # ys) 0" "disj (xs @ (a, k, True) # ys)"
    "blocks = first_addr (xs @ (a, k, True) # ys) 0" using assms(1) by (simp_all add: heap_inv_def)
  have big: "unat n + 32 < unat k" using assms(2,3) by (auto simp: word_le_nat_alt unat_minus_le)
  have dis: "disj ?bs" "?c \<noteq> 0" using disj_split(1) [OF inv(2) big, of False True] disj_split(2) [OF inv(2) big] by simp_all
  have sep: "hs.separate ?bs" using dis(1) by (rule disj_separate)
  then have sep': "hs.separate (xs @ (a, k, True) # (?c, ?r, True) # ys)" by (simp add: hs.separate_append)
  have ac: "hdr_apart a ?c" "hdr_apart ?c a" using sep hs.sep_sym by (auto simp: hs.separate_append)
  have an: "ys \<noteq> [] \<Longrightarrow> hdr_apart a ?nx \<and> hdr_apart ?c ?nx"
    using sep by (cases ys) (auto simp: hs.separate_append first_addr_def)
  have hdr: "BlockHeader_at m a = \<lparr>prev = last_addr 0 xs, next = ?nx, is_free = True, bytes = k\<rparr>"
    using inv(1) by (rule seg_hdr)
  let ?m0 = "set_bytes (set_is_free (set_is_free m a False) ?c True) ?c ?r"
  define m1 where "m1 = hs.relink ?m0 ?nx ?c"
  define m2 where "m2 = set_next (set_bytes (set_prev (set_next m1 ?c ?nx) ?c a) a n) a ?c"
  have h0: "BlockHeader_at ?m0 a = \<lparr>prev = last_addr 0 xs, next = ?nx, is_free = False, bytes = k\<rparr>"
    "bytes (BlockHeader_at ?m0 ?c) = ?r"
    using ac hdr by (simp_all add: hs.same hs.other)
  have h1: "BlockHeader_at m1 a = BlockHeader_at ?m0 a"
    unfolding m1_def using an by (intro hs.hdr_relink_other) auto
  have "0 < ?r" using big assms(2) by (auto simp: word_less_nat_alt word_le_nat_alt unat_minus_le)
  then have "malloc_take n a m = Inr (a + 32, m2)"
    using assms(3) hdr h0 h1 ac
    by (cases "?nx = 0") (simp_all add: malloc_take_def get_block_data_addr_def sizeof_BlockHeader_def
        Let_def add.assoc hs.same hs.other m1_def m2_def hs.relink_def)
  moreover have "hs.seg m2 0 ?bs 0"
    by (rule hs.seg_split [OF inv(1) sep' dis(2) m1_def m2_def])
  moreover have "blocks = first_addr ?bs 0" using inv(3) by simp
  moreover have "m2 x = m x" if "x \<notin> hdr_bytes ?bs" for x
  proof -
    have "x \<notin> span a 32" "x \<notin> span ?c 32" "ys \<noteq> [] \<Longrightarrow> x \<notin> span ?nx 32"
      using that by (auto simp: hdr_bytes_def first_addr_def split: list.splits)
    then show ?thesis
      by (cases ys) (simp_all add: m2_def m1_def hs.relink_def set_outside_header)
  qed
  ultimately show ?thesis using dis(1) by (auto simp: heap_inv_def)
qed


section \<open>Release\<close>

text \<open>A block absorbs the block after it if that is free and adjacent.\<close>

fun merge_right :: "ablock \<Rightarrow> ablock list \<Rightarrow> ablock list" where
  "merge_right (a, n, f) ((c, k, g) # ys) =
     (if g \<and> a + (32 + n) = c then (a, n + (32 + k), f) # ys else (a, n, f) # (c, k, g) # ys)"
| "merge_right b [] = [b]"

lemma contiguous_iff:
  assumes "a \<noteq> 0" and "c \<noteq> 0" and "bytes (BlockHeader_at m a) = n"
  shows "are_blocks_contiguous m a c \<longleftrightarrow> a + (32 + n) = c"
  using assms by (simp add: are_blocks_contiguous_def get_total_block_size_def sizeof_BlockHeader_def)

lemma seg_ne0:
  assumes "hs.seg m 0 (xs @ (a, n, f) # ys) 0"
  shows "a \<noteq> 0" and "first_addr ys 0 = 0 \<longleftrightarrow> ys = []"
proof -
  show "a \<noteq> 0" using assms by (simp add: hs.seg_append)
  have "hs.seg m a ys 0" using assms by (simp add: hs.seg_append)
  from hs.seg_nonzero [OF this] show "first_addr ys 0 = 0 \<longleftrightarrow> ys = []"
    by (cases ys) (auto simp: first_addr_def)
qed

text \<open>One absorption, for the code that both halves of \<^verbatim>\<open>free\<close> share.\<close>

lemma absorb_block:
  assumes "heap_inv blocks m (xs @ (a, n, f) # (c, k, g) # ys)" and "c = a + (32 + n)"
    and m': "m' = hs.relink (set_next (set_bytes m a (n + (32 + k))) a (first_addr ys 0)) (first_addr ys 0) a"
  shows "heap_inv blocks m' (xs @ (a, n + (32 + k), f) # ys)"
    and "x \<notin> hdr_bytes (xs @ (a, n, f) # (c, k, g) # ys) \<Longrightarrow> m' x = m x"
proof -
  let ?bs = "xs @ (a, n, f) # (c, k, g) # ys"
  have inv: "hs.seg m 0 ?bs 0" "disj ?bs" "blocks = first_addr ?bs 0"
    using assms(1) by (simp_all add: heap_inv_def)
  have "c \<noteq> 0" using inv(1) by (simp add: hs.seg_append)
  then have "disj (xs @ (a, n + (32 + k), f) # ys)" using disj_absorb [OF inv(2) assms(2)] by simp
  moreover have "hs.seg m' 0 (xs @ (a, n + (32 + k), f) # ys) 0"
    using hs.seg_absorb [OF inv(1) disj_separate [OF inv(2)] m'] .
  ultimately show "heap_inv blocks m' (xs @ (a, n + (32 + k), f) # ys)" using inv(3) by (simp add: heap_inv_def)
  assume "x \<notin> hdr_bytes ?bs"
  then have "x \<notin> span a 32" "ys \<noteq> [] \<Longrightarrow> x \<notin> span (first_addr ys 0) 32"
    by (auto simp: hdr_bytes_def first_addr_def split: list.splits)
  then show "m' x = m x" by (cases ys) (simp_all add: m' hs.relink_def set_outside_header)
qed

lemma free_merge_next_spec:
  assumes "heap_inv blocks m (xs @ (a, n, f) # ys)"
  shows "heap_inv blocks (free_merge_next a m) (xs @ merge_right (a, n, f) ys)"
    and "x \<notin> hdr_bytes (xs @ (a, n, f) # ys) \<Longrightarrow> free_merge_next a m x = m x"
proof -
  have seg: "hs.seg m 0 (xs @ (a, n, f) # ys) 0" using assms by (simp add: heap_inv_def)
  have a: "BlockHeader_at m a = \<lparr>prev = last_addr 0 xs, next = first_addr ys 0, is_free = f, bytes = n\<rparr>" "a \<noteq> 0"
    using seg_hdr [OF seg] seg_ne0(1) [OF seg] by simp_all
  have "heap_inv blocks (free_merge_next a m) (xs @ merge_right (a, n, f) ys) \<and>
    (x \<notin> hdr_bytes (xs @ (a, n, f) # ys) \<longrightarrow> free_merge_next a m x = m x)"
  proof (cases ys)
    case Nil
    then show ?thesis using assms a by (simp add: free_merge_next_def)
  next
    case (Cons b zs)
    obtain c k g where b: "b = (c, k, g)" by (cases b)
    have c: "BlockHeader_at m c = \<lparr>prev = a, next = first_addr zs 0, is_free = g, bytes = k\<rparr>" "c \<noteq> 0"
      using seg Cons b by (simp_all add: hs.seg_append)
    have sep: "hdr_apart c a"
      using disj_separate [of "xs @ (a, n, f) # ys"] assms Cons b hs.sep_sym
      by (auto simp: heap_inv_def hs.separate_append)
    show ?thesis
    proof (cases "g \<and> a + (32 + n) = c")
      case True
      let ?m' = "hs.relink (set_next (set_bytes m a (n + (32 + k))) a (first_addr zs 0)) (first_addr zs 0) a"
      have "free_merge_next a m = ?m'"
        using True a c sep Cons b
        by (simp add: free_merge_next_def contiguous_iff get_total_block_size_def sizeof_BlockHeader_def
            Let_def hs.same hs.other hs.relink_def)
      then show ?thesis
        using absorb_block(1) [OF assms [unfolded Cons b] _ refl]
          absorb_block(2) [OF assms [unfolded Cons b] _ refl, of x] True Cons b by simp
    next
      case False
      then have "free_merge_next a m = m"
        using a c Cons b by (auto simp: free_merge_next_def contiguous_iff Let_def)
      then show ?thesis using assms Cons b False by auto
    qed
  qed
  then show "heap_inv blocks (free_merge_next a m) (xs @ merge_right (a, n, f) ys)"
    "x \<notin> hdr_bytes (xs @ (a, n, f) # ys) \<Longrightarrow> free_merge_next a m x = m x" by simp_all
qed


text \<open>The second half, at a free block \<open>a\<close>.\<close>

lemma free_merge_prev_first:
  assumes "heap_inv blocks m ((a, n, f) # ys)"
  shows "free_merge_prev a m = Inr m"
  using seg_hdr [of m "[]" a n f ys] assms by (simp add: free_merge_prev_def heap_inv_def)

lemma free_merge_prev_spec:
  assumes "heap_inv blocks m (xs @ (p, j, g) # (a, n, True) # ys)"
  shows "\<not> (g \<and> p + (32 + j) = a) \<Longrightarrow> free_merge_prev a m = Inr m"
    and "g \<Longrightarrow> p + (32 + j) = a \<Longrightarrow> ys = [] \<Longrightarrow> free_merge_prev a m = Inl NullDeref"
    and "g \<Longrightarrow> p + (32 + j) = a \<Longrightarrow> ys \<noteq> [] \<Longrightarrow> \<exists>m'. free_merge_prev a m = Inr m' \<and>
      heap_inv blocks m' (xs @ (p, j + (32 + n), True) # ys) \<and>
      (\<forall>x. x \<notin> hdr_bytes (xs @ (p, j, g) # (a, n, True) # ys) \<longrightarrow> m' x = m x)"
proof -
  have seg: "hs.seg m 0 (xs @ (p, j, g) # (a, n, True) # ys) 0" using assms by (simp add: heap_inv_def)
  have p: "BlockHeader_at m p = \<lparr>prev = last_addr 0 xs, next = a, is_free = g, bytes = j\<rparr>" "p \<noteq> 0"
    and a: "BlockHeader_at m a = \<lparr>prev = p, next = first_addr ys 0, is_free = True, bytes = n\<rparr>" "a \<noteq> 0"
    using seg by (simp_all add: hs.seg_append)
  have nx: "first_addr ys 0 = 0 \<longleftrightarrow> ys = []"
    using seg_ne0(2) [of m "xs @ [(p, j, g)]" a n True ys] seg by simp
  have sep: "hdr_apart a p"
    using disj_separate [of "xs @ (p, j, g) # (a, n, True) # ys"] assms hs.sep_sym
    by (auto simp: heap_inv_def hs.separate_append)
  show "free_merge_prev a m = Inr m" if "\<not> (g \<and> p + (32 + j) = a)"
    using that p a by (auto simp: free_merge_prev_def contiguous_iff Let_def)
  show "free_merge_prev a m = Inl NullDeref" if "g" "p + (32 + j) = a" "ys = []"
    using that p a sep by (simp add: free_merge_prev_def contiguous_iff Let_def hs.same hs.other)
  show "\<exists>m'. free_merge_prev a m = Inr m' \<and>
      heap_inv blocks m' (xs @ (p, j + (32 + n), True) # ys) \<and>
      (\<forall>x. x \<notin> hdr_bytes (xs @ (p, j, g) # (a, n, True) # ys) \<longrightarrow> m' x = m x)"
    if "g" "p + (32 + j) = a" "ys \<noteq> []"
  proof -
    let ?m' = "hs.relink (set_next (set_bytes m p (j + (32 + n))) p (first_addr ys 0)) (first_addr ys 0) p"
    have "free_merge_prev a m = Inr ?m'"
      using that p a sep nx
      by (simp add: free_merge_prev_def contiguous_iff get_total_block_size_def sizeof_BlockHeader_def
          Let_def hs.same hs.other hs.relink_def)
    moreover have "heap_inv blocks ?m' (xs @ (p, j + (32 + n), True) # ys)"
      using absorb_block(1) [OF assms that(2) [symmetric] refl] that(1) by simp
    ultimately show ?thesis using absorb_block(2) [OF assms that(2) [symmetric] refl] by blast
  qed
qed

text \<open>The specification of \<^verbatim>\<open>free\<close> on the list of blocks before, at and after the released one;
  \<open>None\<close> where the code dereferences a null pointer.\<close>

definition abs_free :: "ablock list \<Rightarrow> u64 \<Rightarrow> u64 \<Rightarrow> ablock list \<Rightarrow> ablock list option" where
  "abs_free xs a n ys =
     (let zs = merge_right (a, n, True) ys in
      if xs = [] then Some zs
      else case last xs of (p, j, g) \<Rightarrow>
        if g \<and> p + (32 + j) = a then
          if tl zs = [] then None else Some (butlast xs @ merge_right (p, j, True) zs)
        else Some (xs @ zs))"

lemma merge_right_shape: "\<exists>N rest. merge_right (a, n, f) ys = (a, N, f) # rest"
  by (cases "((a, n, f), ys)" rule: merge_right.cases) auto

text \<open>The first half of \<^verbatim>\<open>free\<close>: the block is marked and takes in its successor.\<close>

lemma heap_free_first_half:
  assumes inv: "heap_inv blocks m (xs @ (a, n, f) # ys)" and "unat a + 32 < 2 ^ 64"
  shows "\<exists>N rest m1. merge_right (a, n, True) ys = (a, N, True) # rest \<and> heap_free (a + 32) m = free_merge_prev a m1 \<and>
    heap_inv blocks m1 (xs @ (a, N, True) # rest) \<and> (\<forall>x. x \<notin> hdr_bytes (xs @ (a, n, f) # ys) \<longrightarrow> m1 x = m x) \<and>
    hdr_bytes (xs @ (a, N, True) # rest) \<subseteq> hdr_bytes (xs @ (a, n, f) # ys)"
proof -
  let ?m0 = "set_is_free m a True" let ?m1 = "free_merge_next a ?m0"
  have seg: "hs.seg m 0 (xs @ (a, n, f) # ys) 0" "disj (xs @ (a, n, f) # ys)" "blocks = first_addr (xs @ (a, n, f) # ys) 0"
    using inv by (simp_all add: heap_inv_def)
  have inv0: "heap_inv blocks ?m0 (xs @ (a, n, True) # ys)"
    using hs.seg_mark [OF seg(1) disj_separate [OF seg(2)], of True] disj_mark [OF seg(2), of True] seg(3)
    by (simp add: heap_inv_def)
  have "?m1 x = m x" if x: "x \<notin> hdr_bytes (xs @ (a, n, f) # ys)" for x
  proof -
    have "x \<notin> span a 32" "x \<notin> hdr_bytes (xs @ (a, n, True) # ys)" using x by (auto simp: hdr_bytes_def)
    then show ?thesis using free_merge_next_spec(2) [OF inv0] by (simp add: set_outside_header)
  qed
  moreover obtain N rest where zs: "merge_right (a, n, True) ys = (a, N, True) # rest" using merge_right_shape by blast
  moreover have "heap_inv blocks ?m1 (xs @ (a, N, True) # rest)" using free_merge_next_spec(1) [OF inv0] zs by simp
  moreover have "unat (a + 32) = unat a + 32" using assms(2) by (simp add: unat_word_ariths)
  then have "a + 32 \<noteq> 0" by (metis add_is_0 unat_0 zero_neq_numeral)
  then have "heap_free (a + 32) m = free_merge_prev a ?m1" by (simp add: heap_free_def sizeof_BlockHeader_def Let_def)
  moreover have "hdr_bytes (xs @ (a, N, True) # rest) \<subseteq> hdr_bytes (xs @ (a, n, f) # ys)"
    using zs by (cases "((a, n, True), ys)" rule: merge_right.cases) (auto simp: hdr_bytes_def split: if_splits)
  ultimately show ?thesis by blast
qed

lemma heap_free_spec:
  assumes "heap_inv blocks m (xs @ (a, n, f) # ys)" and "unat a + 32 < 2 ^ 64"
  shows "case abs_free xs a n ys of
      None \<Rightarrow> heap_free (a + 32) m = Inl NullDeref
    | Some bs \<Rightarrow> \<exists>m'. heap_free (a + 32) m = Inr m' \<and> heap_inv blocks m' bs \<and>
        (\<forall>x. x \<notin> hdr_bytes (xs @ (a, n, f) # ys) \<longrightarrow> m' x = m x)"
proof -
  obtain N rest m1 where zs: "merge_right (a, n, True) ys = (a, N, True) # rest" and free: "heap_free (a + 32) m = free_merge_prev a m1"
    and inv: "heap_inv blocks m1 (xs @ (a, N, True) # rest)" and m1: "\<forall>x. x \<notin> hdr_bytes (xs @ (a, n, f) # ys) \<longrightarrow> m1 x = m x"
    and sub: "hdr_bytes (xs @ (a, N, True) # rest) \<subseteq> hdr_bytes (xs @ (a, n, f) # ys)"
    using heap_free_first_half [OF assms] by blast
  show ?thesis
  proof (cases xs rule: rev_cases)
    case Nil
    then show ?thesis using free_merge_prev_first [of blocks m1 a N True rest] inv m1 by (simp add: free abs_free_def zs)
  next
    case (snoc ws b)
    obtain p j g where b: "b = (p, j, g)" by (cases b)
    note P = free_merge_prev_spec [OF inv [unfolded snoc b append_assoc append_Cons append_Nil]]
    consider (apart) "\<not> (g \<and> p + (32 + j) = a)" | (null) "g" "p + (32 + j) = a" "rest = []"
      | (merge) "g" "p + (32 + j) = a" "rest \<noteq> []" by blast
    then show ?thesis
    proof cases
      case apart
      then show ?thesis using P(1) inv m1 by (auto simp: free abs_free_def zs snoc b)
    next
      case null
      then show ?thesis using P(2) by (simp add: free abs_free_def zs snoc b)
    next
      case merge
      then obtain m' where m': "free_merge_prev a m1 = Inr m'" "heap_inv blocks m' (ws @ (p, j + (32 + N), True) # rest)"
        and out: "\<forall>x. x \<notin> hdr_bytes (ws @ (p, j, g) # (a, N, True) # rest) \<longrightarrow> m' x = m1 x" using P(3) by blast
      have "abs_free xs a n ys = Some (ws @ (p, j + (32 + N), True) # rest)"
        using merge by (simp add: abs_free_def zs snoc b)
      moreover have "m' x = m x" if "x \<notin> hdr_bytes (xs @ (a, n, f) # ys)" for x
        using that out m1 sub by (auto simp: snoc b)
      ultimately show ?thesis using m' by (simp add: free)
    qed
  qed
qed


section \<open>Statistics\<close>

lemma heap_stats_loop_spec:
  assumes "hs.seg m p bs 0"
  shows "heap_stats_loop m (first_addr bs 0) st = Some
    \<lparr>all_blocks = all_blocks st + of_nat (length bs),
     free_blocks = free_blocks st + of_nat (length (filter (\<lambda>(a, n, f). f) bs)),
     allocated_blocks = allocated_blocks st + of_nat (length (filter (\<lambda>(a, n, f). \<not> f) bs))\<rparr>"
  using assms
proof (induction bs arbitrary: p st)
  case Nil
  then show ?case by (simp add: heap_stats_loop.simps)
next
  case (Cons b bs)
  obtain a k f where b: "b = (a, k, f)" by (cases b)
  have hdr: "BlockHeader_at m a = \<lparr>prev = p, next = first_addr bs 0, is_free = f, bytes = k\<rparr>" "a \<noteq> 0"
    and seg: "hs.seg m a bs 0" using Cons.prems(1) b by simp_all
  show ?case
    using Cons.IH [OF seg] b hdr
    by (simp add: heap_stats_loop.simps [of m a] Let_def algebra_simps)
qed

section \<open>User data\<close>

text \<open>The data bytes of a block.\<close>

definition data_bytes :: "ablock \<Rightarrow> u64 set" where
  "data_bytes b = (case b of (a, n, f) \<Rightarrow> span (a + 32) (unat n))"

lemma foot_data:
  assumes "fits b"
  shows "foot b = span (fst b) 32 \<union> data_bytes b" and "span (fst b) 32 \<inter> data_bytes b = {}"
proof -
  obtain a n f where b: "b = (a, n, f)" by (cases b)
  have "32 + unat n \<le> 2 ^ 64" using assms b by (simp add: fits_def)
  from span_glue [OF this, of a] show "foot b = span (fst b) 32 \<union> data_bytes b"
    "span (fst b) 32 \<inter> data_bytes b = {}" by (simp_all add: b foot_def data_bytes_def)
qed

lemma data_no_header:
  assumes "disj bs" and "b \<in> set bs"
  shows "data_bytes b \<inter> hdr_bytes bs = {}"
proof -
  obtain xs ys where bs: "bs = xs @ b # ys" using assms(2) by (metis split_list)
  have fb: "fits b" "\<And>c. c \<in> set xs \<union> set ys \<Longrightarrow> foot b \<inter> foot c = {}"
    using assms(1) by (auto simp: bs disj_append)
  have "data_bytes b \<inter> span (fst c) 32 = {}" if "c \<in> set xs \<union> set ys" for c
    using fb(2) [OF that] foot_data(1) [OF fb(1)] header_in_foot [of c] by blast
  moreover have "data_bytes b \<inter> span (fst b) 32 = {}" using foot_data(2) [OF fb(1)] by blast
  ultimately show ?thesis by (auto simp: hdr_bytes_def bs)
qed


section \<open>The first page\<close>

lemma pt_inv_take_frame:
  assumes "pt_inv root s" and "k < frames (pmem s)"
  shows "pt_inv root (take_frame k s)" and "table_at root (take_frame k s) p u = table_at root s p u"
    and "mmu_translate (ram (take_frame k s)) root v = mmu_translate (ram s) root v"
proof -
  let ?t = "take_frame k s"
  note pool = pt_inv_pool [OF assms(1)]
  have out: "ram ?t x = ram s x" if "x \<notin> bm_span (bitmap (pmem s))" for x
    using pool assms(2) that by (simp add: lock_frame_ram_outside pool_ok_def)
  have entry: "read64 (ram ?t) (u + 8 * j) = read64 (ram s) (u + 8 * j)" if "table_at root s q u" "j < 512" for q u j
    using table_entry_no_bitmap [OF assms(1) that] out
    by (intro c64.rd_outside [where S = "bm_span (bitmap (pmem s))"]) auto
  have walk: "pt_walk (ram ?t) root r = pt_walk (ram s) root r" if "is_path r" "length r \<le> 4" for r
    using that entry by (intro pt_walk_frame [where p = "replicate 5 0" and i = 0]) (auto simp: table_at_def)
  show at: "table_at root ?t p u = table_at root s p u" for p u
    using walk [of p] by (auto simp: table_at_def)
  have "pool_ok ?t" using pool assms(2) by (auto simp: pool_ok_def pm_inv_take_frame bm_get_take_frame)
  moreover have "table_ok ?t u" if "table_at root s p u" for p u
    using pt_invD(1) [OF assms(1) that] by (auto simp: table_ok_def bm_get_take_frame)
  ultimately show inv: "pt_inv root ?t"
    using assms(1) entry unfolding pt_inv_def at by auto
  show "mmu_translate (ram ?t) root v = mmu_translate (ram s) root v"
    using mmu_translate_walk [OF inv] mmu_translate_walk [OF assms(1)] walk [of "page_path v"] by simp
qed

text \<open>Memory after the header of the first block has been written.\<close>

definition first_block :: "u64 \<Rightarrow> mem \<Rightarrow> mem" where
  "first_block b m = set_bytes (set_prev (set_next (set_is_free m b True) b 0) b 0) b (PAGE_SZ - sizeof_BlockHeader)"

lemma first_block_inv:
  assumes "b \<noteq> 0" and "aligned b"
  shows "heap_inv b (first_block b m) [(b, 4064, True)]" and "x \<notin> span b 4096 \<Longrightarrow> first_block b m x = m x"
proof -
  have "BlockHeader_at (first_block b m) b = \<lparr>prev = 0, next = 0, is_free = True, bytes = 4064\<rparr>"
    by (simp add: first_block_def hs.same PAGE_SZ_def FRAME_SZ_def sizeof_BlockHeader_def)
  moreover have "fits (b, 4064, True)" using aligned_room [OF assms(2)] by (simp add: fits_def)
  ultimately show "heap_inv b (first_block b m) [(b, 4064, True)]"
    using assms(1) by (simp add: heap_inv_def)
  assume "x \<notin> span b 4096"
  then have "x \<notin> span b 32" using span_mono [of 32 4096 b] by auto
  then show "first_block b m x = m x" by (simp add: first_block_def set_outside_header)
qed

lemma card_missing_one: "card (missing root {v} s) \<le> 3"
proof -
  have "prefixes_of {} = {}" by (simp add: prefixes_of_def)
  then have le: "card (prefixes_of {v}) \<le> 3" using card_prefixes_insert [of v "{}"] by simp
  have "finite (prefixes_of {v})"
    by (rule finite_subset [of _ "(\<lambda>n. take n (page_path v)) ` {1, 2, 3}"]) (auto simp: prefixes_of_def)
  then have "card (missing root {v} s) \<le> card (prefixes_of {v})"
    by (rule card_mono) (auto simp: missing_def)
  with le show ?thesis by linarith
qed

section \<open>Properties\<close>

lemma malloc_spec:
  assumes "heap_inv blocks (ram s) (xs @ (a, k, True) # ys)" and "0 < n" and "n \<le> k"
    and "\<not> (\<exists>b \<in> set xs. suits n b)"
  shows "\<exists>s'. malloc root blocks n s = Inr (a + 32, s') \<and> pmem s' = pmem s \<and> kout s' = kout s \<and>
    heap_inv blocks (ram s') (xs @ take_block n a k @ ys) \<and>
    (\<forall>x. x \<notin> hdr_bytes (xs @ take_block n a k @ ys) \<longrightarrow> ram s' x = ram s x)"
proof -
  have "a \<noteq> 0" using assms(1) by (simp add: heap_inv_def hs.seg_append)
  moreover have "find (suits n) (xs @ (a, k, True) # ys) = Some (a, k, True)"
    using assms(3,4) by (intro find_first) (auto simp: suits_def)
  ultimately have eq: "malloc root blocks n s = bind_res (malloc_take n a (ram s)) (\<lambda>(p, m). Inr (p, s\<lparr>ram := m\<rparr>))"
    using find_free_block_spec [OF assms(1), of n] assms(2) by (simp add: malloc_def)
  show ?thesis
  proof (cases "k = n \<or> k - n \<le> 32")
    case True
    have "set_is_free (ram s) a False x = ram s x" if "x \<notin> hdr_bytes (xs @ (a, k, False) # ys)" for x
      using that by (intro set_outside_header) (auto simp: hdr_bytes_def)
    then show ?thesis using malloc_take_whole [OF assms(1) True] True by (simp add: eq take_block_def)
  next
    case False
    from malloc_take_split [OF assms(1,3) False] obtain m' where "malloc_take n a (ram s) = Inr (a + 32, m')"
      "heap_inv blocks m' (xs @ (a, n, False) # (a + (32 + n), k - n - 32, True) # ys)"
      "\<forall>x. x \<notin> hdr_bytes (xs @ (a, n, False) # (a + (32 + n), k - n - 32, True) # ys) \<longrightarrow> m' x = ram s x"
      by blast
    then show ?thesis using False by (simp add: eq take_block_def)
  qed
qed

text \<open>
  C3: \<^verbatim>\<open>malloc\<close> refines first-fit allocation on the list of blocks: when some free block is large
  enough, the first such block is taken, whole or split as the code splits it, the list stays
  well formed and the returned pointer is 32 bytes after the block's header; nothing but headers
  is written, and no frame is requested.
\<close>

theorem malloc_first_fit:
  assumes "heap_inv blocks (ram s) (xs @ (a, k, True) # ys)" and "0 < n" and "n \<le> k"
    and "\<not> (\<exists>b \<in> set xs. suits n b)"
  shows "\<exists>s'. malloc root blocks n s = Inr (a + 32, s') \<and> pmem s' = pmem s \<and>
    heap_inv blocks (ram s') (xs @ take_block n a k @ ys) \<and>
    (\<forall>x. x \<notin> hdr_bytes (xs @ take_block n a k @ ys) \<longrightarrow> ram s' x = ram s x)"
  using malloc_spec [OF assms, of root] by blast

text \<open>A heap of one free block at \<open>0x5000\<close>.\<close>

definition hp_example :: kst where
  "hp_example = pm_example\<lparr>ram := first_block 0x5000 (ram pm_example)\<rparr>"

lemma hp_example_inv: "heap_inv 0x5000 (ram hp_example) ([] @ (0x5000, 4064, True) # [])"
  using first_block_inv(1) [of "0x5000" "ram pm_example"] by (simp add: hp_example_def aligned_def)

theorem malloc_first_fit_witness:
  "\<exists>s'. malloc 0x20000 0x5000 10 hp_example = Inr (0x5020, s') \<and>
     heap_inv 0x5000 (ram s') [(0x5000, 10, False), (0x502a, 4022, True)]"
proof -
  have "take_block 10 0x5000 4064 = [(0x5000, 10, False), (0x502a, 4022, True)]"
    by (simp add: take_block_def)
  then show ?thesis using malloc_first_fit [OF hp_example_inv, of 10 "0x20000"] by auto
qed


text \<open>
  C16: the \<open>n\<close> bytes \<^verbatim>\<open>malloc\<close> returns overlap neither a header nor the data of any other block, and the
  data of every other block keeps its contents.
\<close>

theorem malloc_keeps_user_data:
  assumes "heap_inv blocks (ram s) (xs @ (a, k, True) # ys)" and "0 < n" and "n \<le> k"
    and "\<not> (\<exists>b \<in> set xs. suits n b)" and "b \<in> set xs \<union> set ys"
  shows "\<exists>s'. malloc root blocks n s = Inr (a + 32, s') \<and> span (a + 32) (unat n) \<inter> data_bytes b = {} \<and>
    span (a + 32) (unat n) \<inter> hdr_bytes (xs @ take_block n a k @ ys) = {} \<and>
    (\<forall>x \<in> data_bytes b. ram s' x = ram s x)"
proof -
  obtain s' where s': "malloc root blocks n s = Inr (a + 32, s')"
    and inv: "heap_inv blocks (ram s') (xs @ take_block n a k @ ys)"
    and out: "\<And>x. x \<notin> hdr_bytes (xs @ take_block n a k @ ys) \<Longrightarrow> ram s' x = ram s x"
    using malloc_spec [OF assms(1-4), of root] by blast
  have dis: "disj (xs @ take_block n a k @ ys)" using inv by (simp add: heap_inv_def)
  obtain j rest where tb: "take_block n a k = (a, j, False) # rest" "n \<le> j"
    using assms(3) by (cases "k = n \<or> k - n \<le> 32") (auto simp: take_block_def)
  have sub: "span (a + 32) (unat n) \<subseteq> data_bytes (a, j, False)"
    using tb(2) by (simp add: data_bytes_def span_mono word_le_nat_alt)
  have fit: "fits (a, j, False)" "fits b" using assms(5) tb(1) by (auto intro!: fits_of_disj [OF dis])
  have "\<forall>c \<in> set ys. foot (a, j, False) \<inter> foot c = {}" "\<forall>c \<in> set xs. foot c \<inter> foot (a, j, False) = {}"
    using dis unfolding tb(1) disj_append by simp_all
  then have foot: "foot (a, j, False) \<inter> foot b = {}" using assms(5) by blast
  have "span (a + 32) (unat n) \<inter> data_bytes b = {}"
    using sub foot foot_data(1) [OF fit(1)] foot_data(1) [OF fit(2)] by blast
  moreover have "span (a + 32) (unat n) \<inter> hdr_bytes (xs @ take_block n a k @ ys) = {}"
    using sub data_no_header [OF dis, of "(a, j, False)"] tb(1) by auto
  moreover have "ram s' x = ram s x" if "x \<in> data_bytes b" for x
    using data_no_header [OF dis, of b] assms(5) that by (intro out) auto
  ultimately show ?thesis using s' by blast
qed


text \<open>The heap after two allocations of 10 bytes from \<open>hp_example\<close>, as a list.\<close>

lemma hp_two_blocks:
  "\<exists>s' :: kst. heap_inv 0x5000 (ram s') ([(0x5000, 10, False)] @ (0x502a, 4022, True) # [])"
  using malloc_spec [OF hp_example_inv, of 10 "0x20000"] by (auto simp: take_block_def)

theorem malloc_keeps_user_data_witness:
  "\<exists>s s'. malloc 0x20000 0x5000 20 s = Inr (0x504a, s') \<and>
     (\<forall>x \<in> data_bytes (0x5000, 10, False). ram s' x = ram s x)"
proof -
  obtain s :: kst where s: "heap_inv 0x5000 (ram s) ([(0x5000, 10, False)] @ (0x502a, 4022, True) # [])"
    using hp_two_blocks by blast
  from malloc_keeps_user_data [OF s, of 20 "(0x5000, 10, False)" "0x20000"] show ?thesis
    by (auto simp: suits_def)
qed

text \<open>
  C4: \<^verbatim>\<open>free\<close> refines release with merging on the list of blocks, wherever the code does not run into
  the null pointer: the block becomes free, absorbs a free adjacent successor and is absorbed by a
  free adjacent predecessor; the list stays well formed and the data of all other blocks keeps
  its contents.
\<close>

theorem heap_free_refines:
  assumes "heap_inv blocks m (xs @ (a, n, False) # ys)" and "unat a + 32 < 2 ^ 64"
    and "abs_free xs a n ys = Some bs"
  shows "\<exists>m'. heap_free (a + 32) m = Inr m' \<and> heap_inv blocks m' bs \<and>
    (\<forall>b \<in> set xs \<union> set ys. \<forall>x \<in> data_bytes b. m' x = m x)"
proof -
  obtain m' where m': "heap_free (a + 32) m = Inr m'" "heap_inv blocks m' bs"
    and out: "\<And>x. x \<notin> hdr_bytes (xs @ (a, n, False) # ys) \<Longrightarrow> m' x = m x"
    using heap_free_spec [OF assms(1,2)] assms(3) by auto
  have dis: "disj (xs @ (a, n, False) # ys)" using assms(1) by (simp add: heap_inv_def)
  have "m' x = m x" if "b \<in> set xs \<union> set ys" "x \<in> data_bytes b" for b x
    using data_no_header [OF dis, of b] that by (intro out) auto
  with m' show ?thesis by blast
qed

theorem heap_free_refines_witness:
  "\<exists>m m'. heap_free 0x5020 m = Inr m' \<and> heap_inv 0x5000 m' [(0x5000, 4064, True)]"
proof -
  obtain s :: kst where s: "heap_inv 0x5000 (ram s) ([] @ (0x5000, 10, False) # [(0x502a, 4022, True)])"
    using hp_two_blocks by auto
  have "abs_free [] 0x5000 10 [(0x502a, 4022, True)] = Some [(0x5000, 4064, True)]"
    by (simp add: abs_free_def)
  from heap_free_refines [OF s _ this] show ?thesis by auto
qed

text \<open>
  Releasing a block that, after merging with its successor, is the last one dereferences a
  null pointer whenever the block before it is free and adjacent: the final statement of \<^verbatim>\<open>free\<close>
  writes \<^verbatim>\<open>block->next->prev\<close> untested.
\<close>

theorem heap_free_null_deref:
  assumes "heap_inv blocks m ((ws @ [(p, j, True)]) @ (a, n, False) # ys)" and "unat a + 32 < 2 ^ 64"
    and "p + (32 + j) = a" and "ys = [] \<or> (\<exists>k. ys = [(a + (32 + n), k, True)])"
  shows "heap_free (a + 32) m = Inl NullDeref"
proof -
  have "abs_free (ws @ [(p, j, True)]) a n ys = None"
    using assms(3,4) by (auto simp: abs_free_def)
  then show ?thesis using heap_free_spec [OF assms(1,2)] by simp
qed

theorem heap_free_null_deref_witness:
  "\<exists>m. heap_inv 0x5000 m [(0x5000, 10, True), (0x502a, 4022, False)] \<and>
     heap_free 0x504a m = Inl NullDeref"
proof -
  obtain s :: kst where s: "heap_inv 0x5000 (ram s) ([(0x5000, 10, False)] @ (0x502a, 4022, True) # [])"
    using hp_two_blocks by blast
  from malloc_spec [OF s, of 4022 "0x20000"] obtain s1 :: kst where
    s1: "heap_inv 0x5000 (ram s1) ([] @ (0x5000, 10, False) # [(0x502a, 4022, False)])"
    by (auto simp: suits_def take_block_def)
  have "abs_free [] 0x5000 10 [(0x502a, 4022, False)] = Some [(0x5000, 10, True), (0x502a, 4022, False)]"
    by (simp add: abs_free_def)
  with heap_free_spec [OF s1] obtain m where
    m: "heap_inv 0x5000 m (([] @ [(0x5000, 10, True)]) @ (0x502a, 4022, False) # [])" by auto
  from heap_free_null_deref [OF m] m show ?thesis by (intro exI [of _ m]) simp
qed

text \<open>
  C28: releasing what \<^verbatim>\<open>malloc\<close> has just returned restores the list of blocks, unless the block could
  merge with a free neighbour it was not merged with before.
\<close>

theorem malloc_free_roundtrip:
  assumes "heap_inv blocks (ram s) (xs @ (a, k, True) # ys)" and "0 < n" and "n \<le> k"
    and "\<not> (\<exists>b \<in> set xs. suits n b)" and "unat a + 32 < 2 ^ 64"
    and "xs = [] \<or> \<not> (snd (snd (last xs)) \<and> fst (last xs) + (32 + fst (snd (last xs))) = a)"
    and "ys = [] \<or> \<not> (snd (snd (hd ys)) \<and> a + (32 + k) = fst (hd ys))"
  shows "\<exists>s' m'. malloc root blocks n s = Inr (a + 32, s') \<and> heap_free (a + 32) (ram s') = Inr m' \<and>
    heap_inv blocks m' (xs @ (a, k, True) # ys)"
proof -
  obtain s' where s': "malloc root blocks n s = Inr (a + 32, s')"
    "heap_inv blocks (ram s') (xs @ take_block n a k @ ys)"
    using malloc_spec [OF assms(1-4), of root] by blast
  obtain j rest where tb: "take_block n a k = (a, j, False) # rest"
    and merge: "merge_right (a, j, True) (rest @ ys) = (a, k, True) # ys"
    using assms(3,7) by (cases "k = n \<or> k - n \<le> 32"; cases ys) (auto simp: take_block_def)
  have inv: "heap_inv blocks (ram s') (xs @ (a, j, False) # (rest @ ys))" using s'(2) tb by simp
  have "abs_free xs a j (rest @ ys) = Some (xs @ (a, k, True) # ys)"
    using assms(6) merge by (cases "last xs") (auto simp: abs_free_def Let_def)
  then show ?thesis using heap_free_spec [OF inv assms(5)] s'(1) by auto
qed

theorem malloc_free_roundtrip_witness:
  "\<exists>s' m'. malloc 0x20000 0x5000 10 hp_example = Inr (0x5020, s') \<and> heap_free 0x5020 (ram s') = Inr m' \<and>
    heap_inv 0x5000 m' [(0x5000, 4064, True)]"
  using malloc_free_roundtrip [OF hp_example_inv, of 10 "0x20000"] by auto

text \<open>
  \<^verbatim>\<open>get_heap_stats\<close> ends on every well-formed heap and counts its blocks, free and allocated.
\<close>

theorem get_heap_stats_counts:
  assumes "heap_inv blocks m bs"
  shows "get_heap_stats blocks m = Inr \<lparr>all_blocks = of_nat (length bs),
    free_blocks = of_nat (length (filter (\<lambda>(a, n, f). f) bs)),
    allocated_blocks = of_nat (length (filter (\<lambda>(a, n, f). \<not> f) bs))\<rparr>"
  using heap_stats_loop_spec [of m 0 bs] assms by (simp add: get_heap_stats_def heap_inv_def)

theorem get_heap_stats_counts_witness:
  "get_heap_stats 0x5000 (ram hp_example) = Inr \<lparr>all_blocks = 1, free_blocks = 1, allocated_blocks = 0\<rparr>"
  using get_heap_stats_counts [OF hp_example_inv] by simp

text \<open>
  A request of less than a page that no free block satisfies always panics: the growth branch
  asks \<^verbatim>\<open>request_frames\<close> for one page, which never succeeds.
\<close>

theorem malloc_small_growth_panics:
  assumes "heap_inv blocks (ram s) bs" and "pm_inv s" and "0 < n" and "n < 4096"
    and "\<not> (\<exists>b \<in> set bs. suits n b)"
  shows "malloc root blocks n s = Inl (Assert ''free_start_idx > 0'') \<or>
    malloc root blocks n s = Inl (Assert ''free_start_idx - free_end_idx >= number'')"
proof -
  have "find (suits n) bs = None" using assms(5) by (auto simp: find_None_iff)
  then have "malloc root blocks n s = bind_res (malloc_grow root blocks n s)
      (\<lambda>(block, s). bind_res (malloc_take n block (ram s)) (\<lambda>(p, m). Inr (p, s\<lparr>ram := m\<rparr>)))"
    using find_free_block_spec [OF assms(1), of n] assms(3) by (simp add: malloc_def)
  moreover have "n div PAGE_SZ = 0"
    using assms(4) by (simp add: PAGE_SZ_def FRAME_SZ_def word_unat_eq_iff unat_div word_less_nat_alt)
  ultimately show ?thesis
    using request_frames_one [OF assms(2)] by (auto simp: malloc_grow_def Let_def)
qed

theorem malloc_small_growth_panics_witness:
  "\<exists>s. malloc 0x20000 0x5000 4070 s = Inl (Assert ''free_start_idx > 0'') \<or>
     malloc 0x20000 0x5000 4070 s = Inl (Assert ''free_start_idx - free_end_idx >= number'')"
proof -
  have "pm_inv hp_example"
    unfolding hp_example_def
  proof (rule bm_get_ram_cong(2) [OF pm_example_props(1)])
    fix x assume "x \<in> bm_span (bitmap (pmem pm_example))"
    then have x: "x \<in> span 0x1000 2"
      by (simp add: pm_example_def pm_start_def Bitmap_init_def bm_span_def)
    have "span 0x1000 2 \<inter> span 0x5000 4096 = {}" by (rule spans_apart) simp_all
    then show "first_block 0x5000 (ram pm_example) x = ram pm_example x"
      using x by (intro first_block_inv(2)) (auto simp: aligned_def)
  qed
  then show ?thesis
    using malloc_small_growth_panics [OF hp_example_inv, of 4070 "0x20000"] by (auto simp: suits_def)
qed

end
