(* ===== verification/Cpu.thy ===== *)
theory Cpu
  imports Memory
begin

text \<open>
  The processor's self-description, \<^verbatim>\<open>cpu/cpu.cpp\<close>: \<^verbatim>\<open>get_info\<close> and \<^verbatim>\<open>check_state\<close> over the answers of the
  \<^verbatim>\<open>cpuid\<close> instruction, which are a parameter (the assembly routine \<^verbatim>\<open>get_cpuid\<close> stores the four result
  registers through the pointers that are not null), and the functions \<^verbatim>\<open>read_msr\<close> and \<^verbatim>\<open>write_msr\<close>. The
  routines themselves are in the theory of the assembly code.
\<close>

section \<open>The model\<close>

type_synonym cpuid = "u32 \<Rightarrow> u32 \<times> u32 \<times> u32 \<times> u32"

text \<open>The model-specific registers are a file of 64-bit words.\<close>

type_synonym msrs = "u32 \<Rightarrow> u64"

definition read_msr :: "u32 \<Rightarrow> msrs \<Rightarrow> u64" where
  "read_msr msr_no r = r msr_no"

definition write_msr :: "u32 \<Rightarrow> u64 \<Rightarrow> msrs \<Rightarrow> msrs" where
  "write_msr msr_no value r = r(msr_no := value)"

datatype cpu_State = ERROR | SUCCESS | NO_LONG_MODE | NO_FPU | NO_LAPIC | NO_MSR

record cpu_Info =
  manufacturer :: "u8 list"
  stepping_id :: u8
  cpu_type :: u8
  model_id :: u16
  family_id :: u16
  brand :: "u8 list"
  hyperthreading :: bool
  physical_cores :: u8
  logical_cores :: u8

text \<open>The four bytes \<^verbatim>\<open>memcpy(dst, &v, 4)\<close> copies.\<close>

definition word_bytes :: "u32 \<Rightarrow> u8 list" where
  "word_bytes v = [ucast v, ucast (drop_bit 8 v), ucast (drop_bit 16 v), ucast (drop_bit 24 v)]"

text \<open>The call passes its variables \<^verbatim>\<open>edx\<close> and \<^verbatim>\<open>ecx\<close> in each other's place, and copies them in that order.\<close>

definition brand_part :: "cpuid \<Rightarrow> u32 \<Rightarrow> u8 list" where
  "brand_part get_cpuid leaf =
     (let (eax, ebx, edx, ecx) = get_cpuid leaf
      in word_bytes eax @ word_bytes ebx @ word_bytes edx @ word_bytes ecx)"

definition get_cpu_brand :: "cpuid \<Rightarrow> u8 list" where
  "get_cpu_brand get_cpuid =
     brand_part get_cpuid 0x80000002 @ brand_part get_cpuid 0x80000003 @ brand_part get_cpuid 0x80000004 @ [0]"

definition get_info :: "cpuid \<Rightarrow> cpu_Info" where
  "get_info get_cpuid =
     (let (_, ebx, ecx, edx) = get_cpuid 0x0;
          manufacturer_v = word_bytes ebx @ word_bytes edx @ word_bytes ecx @ [0];
          (eax, ebx, _, edx) = get_cpuid 0x1;
          stepping = eax AND 0xf;
          eax = drop_bit 4 eax;
          model = ucast (eax AND 0xf) :: u16;
          eax = drop_bit 4 eax;
          family = ucast (eax AND 0xf) :: u16;
          eax = drop_bit 4 eax;
          typ = eax AND 0x3;
          eax = drop_bit 4 eax;
          model = (if model = 0xf then model + ucast (eax AND 0xf) else model);
          eax = drop_bit 4 eax;
          family = (if family = 0xf then family + ucast (eax AND 0xff) else family);
          brand_v = get_cpu_brand get_cpuid;
          (_, _, ecx, _) = get_cpuid 0x80000008
      in \<lparr>manufacturer = manufacturer_v, stepping_id = ucast stepping, cpu_type = ucast typ,
          model_id = model, family_id = family, brand = brand_v,
          hyperthreading = (test_bit_m edx 28 \<noteq> 0), physical_cores = ucast ecx + 1,
          logical_cores = ucast (drop_bit 16 ebx AND 0xff)\<rparr>)"

definition check_state :: "cpuid \<Rightarrow> cpu_State" where
  "check_state get_cpuid =
     (let (_, _, _, edx) = get_cpuid 0x1
      in if test_bit_m edx 0 = 0 then NO_FPU
         else if test_bit_m edx 5 = 0 then NO_MSR
         else if test_bit_m edx 9 = 0 then NO_LAPIC
         else let (_, _, _, edx) = get_cpuid 0x80000001
              in if test_bit_m edx 29 = 0 then NO_LONG_MODE else SUCCESS)"

section \<open>Properties\<close>

text \<open>The result registers of a leaf.\<close>

definition leaf_edx :: "cpuid \<Rightarrow> u32 \<Rightarrow> u32" where
  "leaf_edx get_cpuid leaf = (case get_cpuid leaf of (_, _, _, edx) \<Rightarrow> edx)"

text \<open>
  \<^verbatim>\<open>cpu::check_state\<close> reports success exactly for a processor with an FPU, model-specific registers, a
  local APIC and long mode, by their feature bits, and otherwise the first of them that is missing.\<close>

theorem check_state_features:
  "check_state get_cpuid =
    (if \<not> bit (leaf_edx get_cpuid 0x1) 0 then NO_FPU
     else if \<not> bit (leaf_edx get_cpuid 0x1) 5 then NO_MSR
     else if \<not> bit (leaf_edx get_cpuid 0x1) 9 then NO_LAPIC
     else if \<not> bit (leaf_edx get_cpuid 0x80000001) 29 then NO_LONG_MODE else SUCCESS)"
proof -
  have t: "(test_bit_m (v :: u32) n = 0) = (\<not> bit v n)" if "n < 31" for v n
    using test_bit_m_nonzero [of n v] that by auto
  show ?thesis
    by (simp add: check_state_def leaf_edx_def t Let_def split: prod.split)
qed

text \<open>The texts have the sizes of the arrays that hold them and end with a null byte.\<close>

lemma get_cpu_brand_text: "length (get_cpu_brand get_cpuid) = 49 \<and> last (get_cpu_brand get_cpuid) = 0"
  by (simp add: get_cpu_brand_def brand_part_def word_bytes_def case_prod_beta)

lemma get_info_brand: "brand (get_info get_cpuid) = get_cpu_brand get_cpuid"
  by (simp add: get_info_def case_prod_beta Let_def)

end
