(* ===== verification/Kprint.thy ===== *)
theory Kprint
  imports Console Heap Cpu
begin

text \<open>
  Kernel messages on the console, the second half of \<^verbatim>\<open>kutils/console.cpp\<close> and
  \<^verbatim>\<open>kutils/assertions.cpp\<close>: \<^verbatim>\<open>__printf\<close> formats into a buffer on the stack and prints it, and the reports
  and panics are sequences of such prints. The address of the buffer is a parameter \<open>buf\<close> of every
  operation. The locale \<open>text_sink\<close> is the contract of a device for text; it is interpreted by the
  console on the screen and by the output log the memory managers write to, so that what is proved of
  a sequence of messages holds of both. Theorems: a message is printed as the text its format stands
  for; a panic leaves white text on blue from the origin on, and returns.
\<close>

section \<open>The model\<close>

text \<open>Statements one after the other.\<close>

fun seq_res :: "('s \<Rightarrow> 's res) list \<Rightarrow> 's \<Rightarrow> 's res" where
  "seq_res [] s = Inr s"
| "seq_res (f # fs) s = bind_res (f s) (seq_res fs)"

lemma seq_res_append: "seq_res (fs @ gs) s = bind_res (seq_res fs s) (seq_res gs)"
proof (induction fs arbitrary: s)
  case (Cons f fs)
  then show ?case by (cases "f s") auto
qed simp

text \<open>What a function without a value does that may stop in an endless loop: return, or spin forever in
  a state.\<close>

datatype 's outcome = Returns 's | Spins 's

text \<open>The end of \<^verbatim>\<open>__printf\<close>: the buffer was cleared, holds the text and its null byte, and is printed.\<close>

definition con_print_text :: "u64 \<Rightarrow> u8 list \<Rightarrow> Console \<times> mem \<Rightarrow> (Console \<times> mem) res" where
  "con_print_text buf t s =
     (case print_str buf (fst s, put_bytes (memset (snd s) buf 0 4096) buf (t @ [0])) of
        None \<Rightarrow> Inl Diverges | Some s' \<Rightarrow> Inr s')"

definition con_kprintf :: "u64 \<Rightarrow> u8 list \<Rightarrow> vararg list \<Rightarrow> Console \<times> mem \<Rightarrow> (Console \<times> mem) res" where
  "con_kprintf buf fmt args s = bind_res (printf fmt args) (\<lambda>t. con_print_text buf t s)"

definition con_kprint_err :: "u64 \<Rightarrow> u8 list \<Rightarrow> Console \<times> mem \<Rightarrow> (Console \<times> mem) res" where
  "con_kprint_err buf msg = con_kprintf buf (str ''[!] Kernel error: %s '' @ [10]) [VStr msg]"

definition con_kprint_succ :: "u64 \<Rightarrow> u8 list \<Rightarrow> Console \<times> mem \<Rightarrow> (Console \<times> mem) res" where
  "con_kprint_succ buf msg = con_kprintf buf (str ''[+] Kernel success: %s '' @ [10]) [VStr msg]"

definition con_kprint_info :: "u64 \<Rightarrow> u8 list \<Rightarrow> Console \<times> mem \<Rightarrow> (Console \<times> mem) res" where
  "con_kprint_info buf msg = con_kprintf buf (str ''[*] Kernel info: %s '' @ [10]) [VStr msg]"

definition kprint_pmem_info :: "u64 \<Rightarrow> PMem \<Rightarrow> Console \<times> mem \<Rightarrow> (Console \<times> mem) res" where
  "kprint_pmem_info buf pm = seq_res
     [con_kprint_info buf (str ''physical memory info (provided by the UEFI Memory Map):''),
      con_kprintf buf ([9] @ str '' all: frames = %d, memory = %dMB (holes and MMIO included) '' @ [10])
        [VNum (frames pm), VNum (frames pm * FRAME_SZ div 1024 div 1024)],
      con_kprintf buf ([9] @ str '' free: frames = %d, memory = %dMB '' @ [10])
        [VNum (free_frames pm), VNum (free_frames pm * FRAME_SZ div 1024 div 1024)],
      con_kprintf buf ([9] @ str '' locked: frames = %d, memory = %dMB '' @ [10])
        [VNum (locked_frames pm), VNum (locked_frames pm * FRAME_SZ div 1024 div 1024)]]"

text \<open>The string in a character array ends at its first null byte.\<close>

definition array_str :: "u8 list \<Rightarrow> u8 list" where
  "array_str = takeWhile (\<lambda>c. c \<noteq> 0)"

definition kprint_cpu_info :: "u64 \<Rightarrow> cpu_Info \<Rightarrow> Console \<times> mem \<Rightarrow> (Console \<times> mem) res" where
  "kprint_cpu_info buf info = seq_res
     [con_kprint_info buf (str ''CPU info:''),
      con_kprintf buf ([9] @ str '' - manufacturer:   %s '' @ [10]) [VStr (array_str (manufacturer info))],
      con_kprintf buf ([9] @ str '' - stepping id:    %d '' @ [10]) [VNum (ucast (stepping_id info))],
      con_kprintf buf ([9] @ str '' - family id:      %d '' @ [10]) [VNum (ucast (family_id info))],
      con_kprintf buf ([9] @ str '' - model id:       %d '' @ [10]) [VNum (ucast (model_id info))],
      con_kprintf buf ([9] @ str '' - type:           %d '' @ [10]) [VNum (ucast (cpu_type info))],
      con_kprintf buf ([9] @ str '' - brand:          %s '' @ [10]) [VStr (array_str (brand info))],
      con_kprintf buf ([9] @ str '' - logical cores:  %d '' @ [10]) [VNum (ucast (logical_cores info))],
      con_kprintf buf ([9] @ str '' - physical cores: %d '' @ [10]) [VNum (ucast (physical_cores info))],
      con_kprintf buf ([9] @ str '' - hyperthreading: %d '' @ [10]) [VNum (if hyperthreading info then 1 else 0)]]"

definition kprint_heap_info :: "u64 \<Rightarrow> u64 \<Rightarrow> Console \<times> mem \<Rightarrow> (Console \<times> mem) res" where
  "kprint_heap_info buf blocks s =
     bind_res (get_heap_stats blocks (snd s)) (\<lambda>stats.
     con_kprintf buf (str ''Heap blocks: all = %d, free = %d, allocated: %d'' @ [10])
       [VNum (all_blocks stats), VNum (free_blocks stats), VNum (allocated_blocks stats)] s)"

definition prepare_kpanic :: "u64 \<Rightarrow> Console \<times> mem \<Rightarrow> (Console \<times> mem) res" where
  "prepare_kpanic buf s =
     (let m1 = set_all_pixels (con_fb (fst s)) BLUE (snd s);
          c = cursor_set_fg WHITE (cursor_set_bg BLUE (cursor_gotoxy 0 0 (con_cursor (fst s))))
      in con_kprintf buf (str ''===== Kernel panic ===== '' @ [10]) [] ((fst s)\<lparr>con_cursor := c\<rparr>, m1))"

definition kpanic :: "u64 \<Rightarrow> u8 list \<Rightarrow> Console \<times> mem \<Rightarrow> (Console \<times> mem) res" where
  "kpanic buf msg = seq_res [prepare_kpanic buf, con_kprintf buf (str ''Error: %s'') [VStr msg]]"

definition kpanic_at ::
  "u64 \<Rightarrow> u8 list \<Rightarrow> u8 list \<Rightarrow> u64 \<Rightarrow> u8 list \<Rightarrow> Console \<times> mem \<Rightarrow> (Console \<times> mem) res" where
  "kpanic_at buf msg file line func = seq_res
     [prepare_kpanic buf,
      con_kprintf buf (str ''Message: %s'' @ [10]) [VStr msg],
      con_kprintf buf (str ''File: %s'' @ [10]) [VStr file],
      con_kprintf buf (str ''Line: %d'' @ [10]) [VNum line],
      con_kprintf buf (str ''Func: %s'' @ [10]) [VStr func]]"

definition assertion_failed ::
  "u64 \<Rightarrow> u8 list \<Rightarrow> u8 list \<Rightarrow> u64 \<Rightarrow> u8 list \<Rightarrow> Console \<times> mem \<Rightarrow> (Console \<times> mem) outcome res" where
  "assertion_failed buf msg file line func s =
     bind_res (kpanic_at buf msg file line func s) (\<lambda>s'. Inr (Spins s'))"

section \<open>Devices for text\<close>

text \<open>A text with no null byte and no backspace.\<close>

definition good_text :: "u8 list \<Rightarrow> bool" where
  "good_text t \<longleftrightarrow> 0 \<notin> set t \<and> 8 \<notin> set t"

lemma good_text_append [simp]: "good_text (s @ t) \<longleftrightarrow> good_text s \<and> good_text t"
  by (auto simp: good_text_def)

lemma text_ok_good: "8 \<notin> set t \<Longrightarrow> text_ok p t"
  by (induction t arbitrary: p) auto

text \<open>A statement that prints a text: from every good state it ends in a good state, with the position
  moved by the text, and leaves the rest alone.\<close>

definition prints ::
  "('s \<Rightarrow> bool) \<Rightarrow> ('s \<Rightarrow> nat) \<Rightarrow> ('s \<Rightarrow> 's \<Rightarrow> bool) \<Rightarrow> ('s \<Rightarrow> 's res) \<Rightarrow> u8 list \<Rightarrow> bool" where
  "prints ok pos keeps f t \<longleftrightarrow>
     (\<forall>s. ok s \<longrightarrow> (\<exists>s'. f s = Inr s' \<and> ok s' \<and> pos s' = fold text_pos t (pos s) \<and> keeps s s'))"

locale text_sink =
  fixes put :: "u8 list \<Rightarrow> 's \<Rightarrow> 's res" and ok :: "'s \<Rightarrow> bool" and pos :: "'s \<Rightarrow> nat"
    and keeps :: "'s \<Rightarrow> 's \<Rightarrow> bool"
  assumes put_prints: "good_text t \<Longrightarrow> length t < 4096 \<Longrightarrow> prints ok pos keeps (put t) t"
    and keeps_refl: "keeps s s"
    and keeps_trans: "keeps s s1 \<Longrightarrow> keeps s1 s2 \<Longrightarrow> keeps s s2"
begin

lemma printf_prints:
  assumes "render fmt False args = Some t" and "length fmt < 2 ^ 16" and "length t < 4096" and "good_text t"
  shows "prints ok pos keeps (\<lambda>s. bind_res (printf fmt args) (\<lambda>t. put t s)) t"
proof -
  have "printf fmt args = Inr t"
    using printf_loop_render [OF assms(1), of "[]"] assms(2,3) by (simp add: printf_def)
  then show ?thesis using put_prints [OF assms(4,3)] by simp
qed

lemma skip_prints: "prints ok pos keeps Inr []"
  by (simp add: prints_def keeps_refl)

lemma seq_prints:
  "list_all2 (prints ok pos keeps) fs ts \<Longrightarrow> prints ok pos keeps (seq_res fs) (concat ts)"
proof (induction fs ts rule: list_all2_induct)
  case Nil
  then show ?case using keeps_refl by (simp add: prints_def)
next
  case (Cons f fs t ts)
  show ?case unfolding prints_def
  proof (intro allI impI)
    fix s assume "ok s"
    then obtain s1 where 1: "f s = Inr s1" "ok s1" "pos s1 = fold text_pos t (pos s)" "keeps s s1"
      using Cons.hyps(1) unfolding prints_def by blast
    obtain s2 where "seq_res fs s1 = Inr s2" "ok s2" "pos s2 = fold text_pos (concat ts) (pos s1)" "keeps s1 s2"
      using Cons.IH 1(2) unfolding prints_def by blast
    with 1 keeps_trans [OF 1(4)] show "\<exists>s'. seq_res (f # fs) s = Inr s' \<and> ok s' \<and>
        pos s' = fold text_pos (concat (t # ts)) (pos s) \<and> keeps s s'" by auto
  qed
qed

lemma seq_prints_some:
  assumes "list_all (\<lambda>f. \<exists>t. prints ok pos keeps f t) fs"
  shows "\<exists>t. prints ok pos keeps (seq_res fs) t"
proof -
  have "\<exists>ts. list_all2 (prints ok pos keeps) fs ts"
    using assms
  proof (induction fs)
    case (Cons f fs)
    then obtain t ts where "prints ok pos keeps f t" "list_all2 (prints ok pos keeps) fs ts" by auto
    then show ?case by (intro exI [of _ "t # ts"]) simp
  qed auto
  then show ?thesis using seq_prints by blast
qed

end

subsection \<open>The log\<close>

text \<open>The output log of the memory managers, which keeps the text itself.\<close>

interpretation log: text_sink "\<lambda>t out. Inr (out @ t)" "\<lambda>_. True" "\<lambda>out. fold text_pos out 0"
  "\<lambda>out out'. \<exists>t. out' = out @ t"
  by unfold_locales (auto simp: prints_def)

lemma log_printf: "bind_res (printf fmt args) (\<lambda>t. Inr (out @ t)) = kprintf fmt args out"
  by (simp add: kprintf_def)

subsection \<open>The console\<close>

text \<open>Printing keeps the colours.\<close>

definition colours :: "Console \<times> mem \<Rightarrow> u64 \<times> u64" where
  "colours s = (c_fg (con_cursor (fst s)), c_bg (con_cursor (fst s)))"

lemma move_cursor_colours [simp]:
  "colours (move_cursor cursor_next s) = colours s" "colours (move_cursor cursor_back s) = colours s"
  "colours (move_cursor cursor_cr s) = colours s" "colours (move_cursor cursor_lf s) = colours s"
  by (simp_all add: colours_def cursor_defs)

lemma scroll_if_full_colours [simp]: "colours (scroll_if_full s) = colours s"
  by (cases s) (simp add: colours_def scroll_if_full_def scroll_down_eq cursor_gotoxy_def)

lemma print_printable_colours [simp]: "colours (print_printable chr s) = colours s"
  by (cases s) (simp add: print_printable_def colours_def cursor_next_def move_cursor_def)

lemma print_char_colours: "colours (print_char chr s) = colours s"
proof -
  have plain: "colours (print_char c s) = colours s" if "c \<noteq> 8" for c s
    using that by (simp add: print_char_plain Let_def)
  show ?thesis
    by (cases "chr = 8") (simp_all add: plain print_char.simps [of 8] printable_def ASCII_PRINTABLE_MIN_def Let_def)
qed

lemma print_loop_colours: "print_loop p s = Some s' \<Longrightarrow> colours s' = colours s"
  by (rule print_loop.raw_induct [where P = "\<lambda>p s s'. colours s' = colours s"])
    (auto simp: print_char_colours split: if_splits)

lemma print_str_colours: "print_str p s = Some s' \<Longrightarrow> colours s' = colours s"
  using print_loop_colours by (fastforce simp: print_str_def colours_def)

text \<open>The buffer lies outside the screen and its copy.\<close>

definition buf_free :: "u64 \<Rightarrow> Framebuffer \<Rightarrow> bool" where
  "buf_free buf fb \<longleftrightarrow> span buf 4096 \<inter> (fb_span fb \<union> front_span fb) = {}"

definition kcon_ok :: "u64 \<Rightarrow> Console \<times> mem \<Rightarrow> bool" where
  "kcon_ok buf s \<longleftrightarrow> con_ok (fst s) \<and> buf_free buf (con_fb (fst s)) \<and> shown (con_fb (fst s)) (snd s)"

definition kcon_keeps :: "u64 \<Rightarrow> Console \<times> mem \<Rightarrow> Console \<times> mem \<Rightarrow> bool" where
  "kcon_keeps buf s s' \<longleftrightarrow> con_font (fst s') = con_font (fst s) \<and> con_fb (fst s') = con_fb (fst s) \<and>
     colours s' = colours s \<and>
     (\<forall>a. a \<notin> fb_span (con_fb (fst s)) \<union> front_span (con_fb (fst s)) \<union> span buf 4096 \<longrightarrow> snd s' a = snd s a)"

lemma con_print_text_spec:
  assumes ok: "con_ok (fst s)" and buf: "buf_free buf (con_fb (fst s))"
    and t: "good_text t" and len: "length t < 4096"
  shows "\<exists>s'. con_print_text buf t s = Inr s' \<and> kcon_ok buf s' \<and>
    pos_of s' = fold text_pos t (pos_of s) \<and> kcon_keeps buf s s'"
proof -
  let ?fb = "con_fb (fst s)"
  define m1 where "m1 = put_bytes (memset (snd s) buf 0 4096) buf (t @ [0])"
  have cstr: "cstr m1 buf t" using t len by (simp add: m1_def cstr_def good_text_def)
  have m1: "m1 a = snd s a" if "a \<notin> span buf 4096" for a
  proof -
    have "a \<notin> span buf (Suc (length t))" using that span_mono [of "Suc (length t)" 4096 buf] len by auto
    then show ?thesis
      using that len unfolding m1_def
      by (subst put_bytes_outside) (simp_all add: memset_apply span_iff)
  qed
  have disj: "span buf (Suc (length t)) \<inter> (fb_span ?fb \<union> front_span ?fb) = {}"
    using buf span_mono [of "Suc (length t)" 4096 buf] len unfolding buf_free_def by auto
  obtain con' m' where p: "print_loop buf (fst s, m1) = Some (con', m')" "con_ok con'"
      "cursor_pos (con_cursor con') = fold text_pos t (pos_of s)" "con_keeps (fst s, m1) (con', m')"
    using print_loop_spec [of "(fst s, m1)" t buf] ok text_ok_good t len cstr disj
    unfolding good_text_def by fastforce
  have fb: "con_fb con' = ?fb" "con_font con' = con_font (fst s)" "kept_outside ?fb m1 m'"
    using p(4) by (simp_all add: con_keeps_def)
  have scr: "screen_ok (con_font (fst s)) ?fb" using ok by (simp add: con_ok_def)
  have kept: "kept_outside ?fb m1 (draw ?fb m')"
    using fb(3) draw_kept(1) [OF screen_buffers(1,2) [OF scr]] by (rule kept_outside_trans)
  have col: "colours (con', m') = colours s"
    using print_loop_colours [OF p(1)] by (simp add: colours_def)
  have "con_print_text buf t s = Inr (con', draw ?fb m')"
    using p(1) fb(1) by (simp add: con_print_text_def print_str_def m1_def)
  moreover have "kcon_ok buf (con', draw ?fb m')"
    using p(2) fb(1) buf draw_shown [OF screen_buffers(1,2) [OF scr]] by (simp add: kcon_ok_def)
  moreover have "kcon_keeps buf s (con', draw ?fb m')"
    using fb kept m1 col by (simp add: kcon_keeps_def kept_outside_def colours_def)
  ultimately show ?thesis using p(3) by auto
qed

interpretation con: text_sink "con_print_text buf" "kcon_ok buf" pos_of "kcon_keeps buf" for buf
proof unfold_locales
  fix t :: "u8 list"
  assume "good_text t" "length t < 4096"
  then show "prints (kcon_ok buf) pos_of (kcon_keeps buf) (con_print_text buf t) t"
    using con_print_text_spec [of _ buf t] by (simp add: prints_def kcon_ok_def)
qed (auto simp: kcon_keeps_def)

lemma con_kprintf_prints:
  assumes "render fmt False args = Some t" and "length fmt < 2 ^ 16" and "length t < 4096" and "good_text t"
  shows "prints (kcon_ok buf) pos_of (kcon_keeps buf) (con_kprintf buf fmt args) t"
  using con.printf_prints [OF assms, of buf] by (simp add: con_kprintf_def [abs_def])

section \<open>Panics\<close>

abbreviation con_prints :: "u64 \<Rightarrow> (Console \<times> mem \<Rightarrow> (Console \<times> mem) res) \<Rightarrow> u8 list \<Rightarrow> bool" where
  "con_prints buf \<equiv> prints (kcon_ok buf) pos_of (kcon_keeps buf)"

definition panic_banner :: "u8 list" where
  "panic_banner = str ''===== Kernel panic ===== '' @ [10]"

lemma panic_banner_facts:
  "render panic_banner False [] = Some panic_banner" "length panic_banner = 26" "good_text panic_banner"
  "fold text_pos panic_banner 0 = 100"
  by code_simp+

text \<open>Whatever the cursor was, as long as it has the size of the grid.\<close>

lemma prepare_kpanic_spec:
  assumes scr: "screen_ok (con_font con) (con_fb con)" and fb: "width (con_fb con) = px_per_scan (con_fb con)"
      "2 \<le> unat (width (con_fb con))"
    and cur: "c_max_col (con_cursor con) = 100" "c_max_row (con_cursor con) = 37"
    and buf: "buf_free buf (con_fb con)"
  shows "\<exists>s'. prepare_kpanic buf (con, m) = Inr s' \<and> kcon_ok buf s' \<and> pos_of s' = 100 \<and>
    colours s' = (WHITE, BLUE) \<and> con_font (fst s') = con_font con \<and> con_fb (fst s') = con_fb con \<and>
    (\<forall>a. a \<notin> fb_span (con_fb con) \<union> front_span (con_fb con) \<union> span buf 4096 \<longrightarrow> snd s' a = m a)"
proof -
  define c where "c = cursor_set_fg WHITE (cursor_set_bg BLUE (cursor_gotoxy 0 0 (con_cursor con)))"
  define s1 where "s1 = (con\<lparr>con_cursor := c\<rparr>, set_all_pixels (con_fb con) BLUE m)"
  have s1: "con_fb (fst s1) = con_fb con" "con_font (fst s1) = con_font con" "con_cursor (fst s1) = c"
      "snd s1 = set_all_pixels (con_fb con) BLUE m" by (simp_all add: s1_def)
  have c: "cursor_ok c" "cursor_pos c = 0" "c_fg c = WHITE" "c_bg c = BLUE"
    using cur by (simp_all add: c_def cursor_defs cursor_ok_def cursor_pos_def)
  have p: "printf panic_banner [] = Inr panic_banner"
    using printf_loop_render [OF panic_banner_facts(1), of "[]"] panic_banner_facts(2) by (simp add: printf_def)
  have eq: "prepare_kpanic buf (con, m) = con_print_text buf panic_banner s1"
    by (simp add: prepare_kpanic_def con_kprintf_def panic_banner_def [symmetric] p s1_def c_def)
  obtain s' where s': "con_print_text buf panic_banner s1 = Inr s'" "kcon_ok buf s'" "pos_of s' = 100"
      "kcon_keeps buf s1 s'"
    using con_print_text_spec [of s1 buf panic_banner] scr buf c s1 panic_banner_facts by (auto simp: con_ok_def)
  have h: "0 < unat (height (con_fb con))" using scr by (auto simp: screen_ok_def word_less_nat_alt)
  have out: "snd s1 a = m a" if "a \<notin> fb_span (con_fb con)" for a
    using set_all_pixels_facts(3) [OF screen_buffers(3) [OF scr] fb, of 0 0 a] fb(2) h that s1(4) by simp
  have "colours s' = (WHITE, BLUE)" using s'(4) c s1(3) by (simp add: kcon_keeps_def colours_def)
  then show ?thesis using eq s' s1 out by (auto simp: kcon_keeps_def)
qed

lemma kpanic_prints:
  "good_text msg \<Longrightarrow> length msg < 4000 \<Longrightarrow> con_prints buf (con_kprintf buf (str ''Error: %s'') [VStr msg]) (str ''Error: '' @ msg)"
  "good_text msg \<Longrightarrow> length msg < 4000 \<Longrightarrow>
     con_prints buf (con_kprintf buf (str ''Message: %s'' @ [10]) [VStr msg]) (str ''Message: '' @ msg @ [10])"
  "good_text msg \<Longrightarrow> length msg < 4000 \<Longrightarrow>
     con_prints buf (con_kprintf buf (str ''File: %s'' @ [10]) [VStr msg]) (str ''File: '' @ msg @ [10])"
  "good_text msg \<Longrightarrow> length msg < 4000 \<Longrightarrow>
     con_prints buf (con_kprintf buf (str ''Func: %s'' @ [10]) [VStr msg]) (str ''Func: '' @ msg @ [10])"
  by - (rule con_kprintf_prints; simp add: str_def good_text_def)+

lemma num_text_good: "good_text (num_text 10 n)" "length (num_text 10 n) \<le> 64"
proof -
  have "cstr (put_bytes (\<lambda>_. 0) 0 (num_text 10 n @ [0])) 0 (num_text 10 n)" by (rule cstr_put_num_text) simp_all
  moreover have "8 \<notin> set (num_text 10 n)"
  proof
    assume "8 \<in> set (num_text 10 n)"
    then obtain d where d: "d \<in> set (digits 10 (unat n))" "digit_char d = 8" by (auto simp: num_text_def)
    then have "d < 10" using digits_bound [of 10 d "unat n"] by simp
    then show False using unat_digit_char [of d] d(2) by simp
  qed
  ultimately show "good_text (num_text 10 n)" by (simp add: good_text_def cstr_def)
  show "length (num_text 10 n) \<le> 64" by (rule length_num_text) simp
qed

lemma kpanic_line_prints:
  "con_prints buf (con_kprintf buf (str ''Line: %d'' @ [10]) [VNum n]) (str ''Line: '' @ num_text 10 n @ [10])"
  using num_text_good [of n] by (intro con_kprintf_prints; simp add: str_def good_text_def)

lemma seq_after_panic:
  assumes "screen_ok (con_font con) (con_fb con)" and "width (con_fb con) = px_per_scan (con_fb con)"
      "2 \<le> unat (width (con_fb con))"
    and "c_max_col (con_cursor con) = 100" "c_max_row (con_cursor con) = 37" and "buf_free buf (con_fb con)"
    and fs: "list_all2 (con_prints buf) fs ts"
  shows "\<exists>s'. seq_res (prepare_kpanic buf # fs) (con, m) = Inr s' \<and> kcon_ok buf s' \<and>
    pos_of s' = fold text_pos (concat ts) 100 \<and> colours s' = (WHITE, BLUE) \<and> con_fb (fst s') = con_fb con \<and>
    (\<forall>a. a \<notin> fb_span (con_fb con) \<union> front_span (con_fb con) \<union> span buf 4096 \<longrightarrow> snd s' a = m a)"
proof -
  obtain s1 where 1: "prepare_kpanic buf (con, m) = Inr s1" "kcon_ok buf s1" "pos_of s1 = 100"
      "colours s1 = (WHITE, BLUE)" "con_fb (fst s1) = con_fb con"
      "\<forall>a. a \<notin> fb_span (con_fb con) \<union> front_span (con_fb con) \<union> span buf 4096 \<longrightarrow> snd s1 a = m a"
    using prepare_kpanic_spec [OF assms(1-6)] by blast
  obtain s2 where "seq_res fs s1 = Inr s2" "kcon_ok buf s2" "pos_of s2 = fold text_pos (concat ts) (pos_of s1)"
      "kcon_keeps buf s1 s2"
    using con.seq_prints [OF fs] 1(2) unfolding prints_def by blast
  with 1 show ?thesis by (auto simp: kcon_keeps_def)
qed

section \<open>Reports\<close>

text \<open>The reports print whatever the numbers are.\<close>

lemma con_kprint_msg_prints:
  "good_text msg \<Longrightarrow> length msg < 4000 \<Longrightarrow>
     con_prints buf (con_kprint_info buf msg) (str ''[*] Kernel info: '' @ msg @ str '' '' @ [10])"
  "good_text msg \<Longrightarrow> length msg < 4000 \<Longrightarrow>
     con_prints buf (con_kprint_succ buf msg) (str ''[+] Kernel success: '' @ msg @ str '' '' @ [10])"
  "good_text msg \<Longrightarrow> length msg < 4000 \<Longrightarrow>
     con_prints buf (con_kprint_err buf msg) (str ''[!] Kernel error: '' @ msg @ str '' '' @ [10])"
  unfolding con_kprint_info_def con_kprint_succ_def con_kprint_err_def
  by - (rule con_kprintf_prints; simp add: str_def good_text_def)+

lemma pmem_info_lines:
  "con_prints buf (con_kprintf buf ([9] @ str '' all: frames = %d, memory = %dMB (holes and MMIO included) '' @ [10])
       [VNum a, VNum b]) ([9] @ str '' all: frames = '' @ num_text 10 a @ str '', memory = '' @ num_text 10 b @
       str ''MB (holes and MMIO included) '' @ [10])"
  "con_prints buf (con_kprintf buf ([9] @ str '' free: frames = %d, memory = %dMB '' @ [10])
       [VNum a, VNum b]) ([9] @ str '' free: frames = '' @ num_text 10 a @ str '', memory = '' @ num_text 10 b @
       str ''MB '' @ [10])"
  "con_prints buf (con_kprintf buf ([9] @ str '' locked: frames = %d, memory = %dMB '' @ [10])
       [VNum a, VNum b]) ([9] @ str '' locked: frames = '' @ num_text 10 a @ str '', memory = '' @ num_text 10 b @
       str ''MB '' @ [10])"
  using num_text_good [of a] num_text_good [of b]
  by - (rule con_kprintf_prints; simp add: str_def good_text_def)+

lemma kprint_pmem_info_prints: "\<exists>t. con_prints buf (kprint_pmem_info buf pm) t"
proof -
  let ?h = "str ''physical memory info (provided by the UEFI Memory Map):''"
  have "good_text ?h \<and> length ?h < 4000" by code_simp
  note h = con_kprint_msg_prints(1) [OF conjunct1 [OF this] conjunct2 [OF this], of buf]
  note l = pmem_info_lines(1) [of buf "frames pm" "frames pm * FRAME_SZ div 1024 div 1024"]
    pmem_info_lines(2) [of buf "free_frames pm" "free_frames pm * FRAME_SZ div 1024 div 1024"]
    pmem_info_lines(3) [of buf "locked_frames pm" "locked_frames pm * FRAME_SZ div 1024 div 1024"]
  show ?thesis
    unfolding kprint_pmem_info_def by (rule con.seq_prints_some) (use h l in \<open>simp; blast\<close>)
qed

lemma heap_info_line:
  "con_prints buf (con_kprintf buf (str ''Heap blocks: all = %d, free = %d, allocated: %d'' @ [10])
       [VNum a, VNum b, VNum c]) (str ''Heap blocks: all = '' @ num_text 10 a @ str '', free = '' @ num_text 10 b @
       str '', allocated: '' @ num_text 10 c @ [10])"
  using num_text_good [of a] num_text_good [of b] num_text_good [of c]
  by (intro con_kprintf_prints; simp add: str_def good_text_def)

lemma cpu_info_lines:
  "\<exists>t. con_prints buf (con_kprintf buf ([9] @ str '' - stepping id:    %d '' @ [10]) [VNum n]) t"
  "\<exists>t. con_prints buf (con_kprintf buf ([9] @ str '' - family id:      %d '' @ [10]) [VNum n]) t"
  "\<exists>t. con_prints buf (con_kprintf buf ([9] @ str '' - model id:       %d '' @ [10]) [VNum n]) t"
  "\<exists>t. con_prints buf (con_kprintf buf ([9] @ str '' - type:           %d '' @ [10]) [VNum n]) t"
  "\<exists>t. con_prints buf (con_kprintf buf ([9] @ str '' - logical cores:  %d '' @ [10]) [VNum n]) t"
  "\<exists>t. con_prints buf (con_kprintf buf ([9] @ str '' - physical cores: %d '' @ [10]) [VNum n]) t"
  "\<exists>t. con_prints buf (con_kprintf buf ([9] @ str '' - hyperthreading: %d '' @ [10]) [VNum n]) t"
  using num_text_good [of n]
  by - (rule exI, rule con_kprintf_prints, simp add: str_def, simp add: str_def, simp add: str_def,
      simp add: str_def good_text_def)+

lemma cpu_info_strings:
  assumes "good_text x" and "length x < 4000"
  shows "\<exists>t. con_prints buf (con_kprintf buf ([9] @ str '' - manufacturer:   %s '' @ [10]) [VStr x]) t"
    and "\<exists>t. con_prints buf (con_kprintf buf ([9] @ str '' - brand:          %s '' @ [10]) [VStr x]) t"
  using assms
  by - (rule exI, rule con_kprintf_prints, simp add: str_def, simp add: str_def, simp add: str_def,
      simp add: str_def good_text_def)+

lemma array_str_good: "8 \<notin> set xs \<Longrightarrow> good_text (array_str xs)"
  by (auto simp: good_text_def array_str_def dest: set_takeWhileD)

lemma length_array_str: "length (array_str xs) \<le> length xs"
  by (simp add: array_str_def length_takeWhile_le)

lemma kprint_cpu_info_prints:
  assumes "8 \<notin> set (manufacturer info)" and "8 \<notin> set (brand info)"
    and "length (manufacturer info) < 4000" and "length (brand info) < 4000"
  shows "\<exists>t. con_prints buf (kprint_cpu_info buf info) t"
proof -
  have h: "good_text (str ''CPU info:'')" "length (str ''CPU info:'') < 4000" by code_simp+
  have "length (array_str (manufacturer info)) < 4000" "length (array_str (brand info)) < 4000"
    using length_array_str [of "manufacturer info"] length_array_str [of "brand info"] assms(3,4) by simp_all
  note s = cpu_info_strings(1) [OF array_str_good [OF assms(1)] this(1)]
    cpu_info_strings(2) [OF array_str_good [OF assms(2)] this(2)]
  have hd: "\<exists>t. con_prints buf (con_kprint_info buf (str ''CPU info:'')) t" using con_kprint_msg_prints(1) [OF h] by blast
  show ?thesis
    unfolding kprint_cpu_info_def
    by (rule con.seq_prints_some) (unfold list.pred_inject, intro conjI cpu_info_lines s hd, simp)
qed

section \<open>Properties\<close>


lemma buf_free_example: "buf_free 0x1000 screen_example"
proof -
  have "apart (0x1000 :: u64) 4096 0x200000 14804" "apart (0x1000 :: u64) 4096 0x100000 14800"
    by (simp_all add: apart_def)
  then show ?thesis using span_disjoint by (auto simp: buf_free_def example_spans Int_Un_distrib)
qed




text \<open>A failed assertion shows its four lines and never returns.\<close>

lemma assertion_failed_spins:
  assumes "screen_ok (con_font con) (con_fb con)" and "width (con_fb con) = px_per_scan (con_fb con)"
      and "2 \<le> unat (width (con_fb con))"
    and "c_max_col (con_cursor con) = 100" and "c_max_row (con_cursor con) = 37" and "buf_free buf (con_fb con)"
    and "good_text msg" "length msg < 4000" "good_text file" "length file < 4000" "good_text func" "length func < 4000"
  shows "\<exists>s'. assertion_failed buf msg file line func (con, m) = Inr (Spins s') \<and> kcon_ok buf s'"
proof -
  let ?fs = "[con_kprintf buf (str ''Message: %s'' @ [10]) [VStr msg], con_kprintf buf (str ''File: %s'' @ [10]) [VStr file],
      con_kprintf buf (str ''Line: %d'' @ [10]) [VNum line], con_kprintf buf (str ''Func: %s'' @ [10]) [VStr func]]"
  have "list_all2 (con_prints buf) ?fs
      [str ''Message: '' @ msg @ [10], str ''File: '' @ file @ [10], str ''Line: '' @ num_text 10 line @ [10],
       str ''Func: '' @ func @ [10]]"
    using kpanic_prints(2,3,4) kpanic_line_prints assms(7-12) by simp
  from seq_after_panic [OF assms(1-6) this, of m] show ?thesis
    by (auto simp: assertion_failed_def kpanic_at_def)
qed

end
