(* ===== verification/Acpi.thy ===== *)
theory Acpi
  imports Printf
begin

text \<open>
  The ACPI tables: \<^verbatim>\<open>acpi/acpi.cpp\<close> (version, signatures, the search of the RSDT) and
  \<^verbatim>\<open>acpi/apic/madt.cpp\<close> (the search of the interrupt controller structures of the MADT). The packed
  structures of the headers are records read from memory at their offsets; pointers are 64-bit
  addresses, and the string constants of the source are addresses of bytes in memory, with what they
  hold as a hypothesis where it matters. Theorems: both searches return the first match, in terms
  of lists; the search of the MADT knows no end of its table.
\<close>

section \<open>The structures\<close>

record RSDP =
  rsdp_signature :: "u8 list"
  rsdp_checksum :: u8
  rsdp_oem_id :: "u8 list"
  rsdp_revision :: u8
  rsdt_addr :: u32

definition RSDP_at :: "mem \<Rightarrow> u64 \<Rightarrow> RSDP" where
  "RSDP_at m p = \<lparr>rsdp_signature = get_bytes m p 8, rsdp_checksum = m (p + 8),
     rsdp_oem_id = get_bytes m (p + 9) 6, rsdp_revision = m (p + 15), rsdt_addr = read32 m (p + 16)\<rparr>"

record GAS =
  address_space_id :: u8
  reg_bit_width :: u8
  reg_bit_offset :: u8
  access_size :: u8
  address :: u64

definition GAS_at :: "mem \<Rightarrow> u64 \<Rightarrow> GAS" where
  "GAS_at m p = \<lparr>address_space_id = m p, reg_bit_width = m (p + 1), reg_bit_offset = m (p + 2),
     access_size = m (p + 3), address = read64 m (p + 4)\<rparr>"

record sdt_Header =
  h_signature :: "u8 list"
  h_length :: u32
  h_revision :: u8
  h_checksum :: u8
  h_oem_id :: "u8 list"
  h_oem_table_id :: "u8 list"
  h_oem_revision :: u32
  h_creator_id :: u32
  h_creator_revision :: u32

definition sizeof_sdt_Header :: u64 where "sizeof_sdt_Header = 36"

definition sdt_Header_at :: "mem \<Rightarrow> u64 \<Rightarrow> sdt_Header" where
  "sdt_Header_at m p = \<lparr>h_signature = get_bytes m p 4, h_length = read32 m (p + 4), h_revision = m (p + 8),
     h_checksum = m (p + 9), h_oem_id = get_bytes m (p + 10) 6, h_oem_table_id = get_bytes m (p + 16) 8,
     h_oem_revision = read32 m (p + 24), h_creator_id = read32 m (p + 28), h_creator_revision = read32 m (p + 32)\<rparr>"

text \<open>\<^verbatim>\<open>RSDT::sdt_table[i]\<close>, behind the header.\<close>

definition sdt_table :: "mem \<Rightarrow> u64 \<Rightarrow> u64 \<Rightarrow> u32" where
  "sdt_table m rsdt i = read32 m (rsdt + sizeof_sdt_Header + 4 * i)"

record ics_Header =
  ics_type :: u8
  ics_length :: u8

definition ics_Header_at :: "mem \<Rightarrow> u64 \<Rightarrow> ics_Header" where
  "ics_Header_at m p = \<lparr>ics_type = m p, ics_length = m (p + 1)\<rparr>"

record CPU_LAPIC_Struct =
  lapic_header :: ics_Header
  acpi_cpu_uid :: u8
  apic_id :: u8
  lapic_flags :: u32

definition CPU_LAPIC_Struct_at :: "mem \<Rightarrow> u64 \<Rightarrow> CPU_LAPIC_Struct" where
  "CPU_LAPIC_Struct_at m p = \<lparr>lapic_header = ics_Header_at m p, acpi_cpu_uid = m (p + 2),
     apic_id = m (p + 3), lapic_flags = read32 m (p + 4)\<rparr>"

record IO_APIC_Struct =
  ioapic_header :: ics_Header
  io_apic_id :: u8
  io_apic_addr :: u32
  gsib :: u32

definition IO_APIC_Struct_at :: "mem \<Rightarrow> u64 \<Rightarrow> IO_APIC_Struct" where
  "IO_APIC_Struct_at m p = \<lparr>ioapic_header = ics_Header_at m p, io_apic_id = m (p + 2),
     io_apic_addr = read32 m (p + 4), gsib = read32 m (p + 8)\<rparr>"

datatype ics_Type = CPU_LAPIC | IO_APIC | LAPIC_ADDR_OVERRIDE

fun ics_type_code :: "ics_Type \<Rightarrow> u8" where
  "ics_type_code CPU_LAPIC = 0x00"
| "ics_type_code IO_APIC = 0x01"
| "ics_type_code LAPIC_ADDR_OVERRIDE = 0x05"

record madt_SDT_Table =
  madt_header :: sdt_Header
  lapic_addr :: u32
  madt_flags :: u32

definition madt_SDT_Table_at :: "mem \<Rightarrow> u64 \<Rightarrow> madt_SDT_Table" where
  "madt_SDT_Table_at m p = \<lparr>madt_header = sdt_Header_at m p, lapic_addr = read32 m (p + 36),
     madt_flags = read32 m (p + 40)\<rparr>"

definition ics_table :: "u64 \<Rightarrow> u64" where
  "ics_table madt = madt + 44"

section \<open>The operations\<close>

datatype Version = VER_1 | VER_2 | UNKNOWN

definition get_version :: "mem \<Rightarrow> u64 \<Rightarrow> Version" where
  "get_version m rsdp =
     (if rsdp_revision (RSDP_at m rsdp) = 0 then VER_1
      else if rsdp_revision (RSDP_at m rsdp) = 2 then VER_2 else UNKNOWN)"

definition verify_rsdp :: "u64 \<Rightarrow> mem \<Rightarrow> u64 \<Rightarrow> bool" where
  "verify_rsdp RSDP_SIG m rsdp = (strncmp m rsdp RSDP_SIG 8 = 0)"

definition verify_rsdt :: "u64 \<Rightarrow> mem \<Rightarrow> u64 \<Rightarrow> bool" where
  "verify_rsdt RSDT_SIG m rsdp = (strncmp m (ucast (rsdt_addr (RSDP_at m rsdp))) RSDT_SIG 4 = 0)"

text \<open>\<^verbatim>\<open>header.length\<close> has 32 bits, \<^verbatim>\<open>sizeof\<close> 64: the subtraction is unsigned in 64 bits.\<close>

definition sdt_entries :: "mem \<Rightarrow> u64 \<Rightarrow> u64" where
  "sdt_entries m rsdt = (ucast (h_length (sdt_Header_at m rsdt)) - sizeof_sdt_Header) div 4"

function sdt_search :: "mem \<Rightarrow> u64 \<Rightarrow> u64 \<Rightarrow> u64 \<Rightarrow> u64" where
  "sdt_search m rsdt signature i =
     (if i < sdt_entries m rsdt then
        let sdt = ucast (sdt_table m rsdt i)
        in if strncmp m sdt signature 4 = 0 then sdt else sdt_search m rsdt signature (i + 1)
      else 0)"
  by pat_completeness auto
termination
  by (relation "measure (\<lambda>(m, rsdt, signature, i). 2 ^ 64 - unat i)") (use measure_up_less in auto)

declare sdt_search.simps [simp del]

definition sdt_get_header :: "mem \<Rightarrow> u64 \<Rightarrow> u64 \<Rightarrow> u64" where
  "sdt_get_header m rsdp signature = sdt_search m (ucast (rsdt_addr (RSDP_at m rsdp))) signature 0"

text \<open>The loop over the structures of the MADT runs at most 15 times.\<close>

fun ics_search :: "mem \<Rightarrow> u8 \<Rightarrow> nat \<Rightarrow> u64 \<Rightarrow> u64" where
  "ics_search m ty 0 header = 0"
| "ics_search m ty (Suc n) header =
     (if ics_type (ics_Header_at m header) = ty then header
      else ics_search m ty n (header + ucast (ics_length (ics_Header_at m header))))"

definition ics_get_header :: "mem \<Rightarrow> u64 \<Rightarrow> ics_Type \<Rightarrow> u64" where
  "ics_get_header m madt ty = ics_search m (ics_type_code ty) 15 (ics_table madt)"

definition dbg_print_lapic_info :: "mem \<Rightarrow> u64 \<Rightarrow> u8 list \<Rightarrow> u8 list res" where
  "dbg_print_lapic_info m madt out =
     (let apic = ics_get_header m madt CPU_LAPIC
      in if apic = 0 then Inl NullDeref
         else let a = CPU_LAPIC_Struct_at m apic
              in kprintf (str ''ACPI CPU UID: %d, APIC ID: %d, flags: %d'' @ [10])
                   [VNum (ucast (acpi_cpu_uid a)), VNum (ucast (apic_id a)), VNum (ucast (lapic_flags a))] out)"

section \<open>The search of the RSDT\<close>

text \<open>Signature constants: four bytes, none of them null.\<close>

definition sig4 :: "mem \<Rightarrow> u64 \<Rightarrow> u8 list \<Rightarrow> bool" where
  "sig4 m p sig \<longleftrightarrow> length sig = 4 \<and> 0 \<notin> set sig \<and> get_bytes m p 4 = sig"

lemma strncmp_sig4:
  assumes "sig4 m p sig"
  shows "strncmp m a p 4 = 0 \<longleftrightarrow> h_signature (sdt_Header_at m a) = sig"
proof -
  have u: "unat (4 :: u64) = 4" by simp
  have "0 \<notin> set (get_bytes m p (unat (4 :: u64)))" using assms unfolding u by (simp add: sig4_def)
  from strncmp_spec [OF this, of a] show ?thesis
    using assms unfolding u by (simp add: sdt_Header_at_def sig4_def)
qed

definition sdt_tables :: "mem \<Rightarrow> u64 \<Rightarrow> u64 list" where
  "sdt_tables m rsdt = map (\<lambda>i. ucast (sdt_table m rsdt (of_nat i))) [0..<unat (sdt_entries m rsdt)]"

lemma sdt_search_find:
  assumes "sig4 m signature sig"
  shows "sdt_search m rsdt signature i =
    (case find (\<lambda>t. h_signature (sdt_Header_at m t) = sig)
       (map (\<lambda>i. ucast (sdt_table m rsdt (of_nat i))) [unat i..<unat (sdt_entries m rsdt)])
     of None \<Rightarrow> 0 | Some t \<Rightarrow> t)"
proof (induction "unat (sdt_entries m rsdt) - unat i" arbitrary: i)
  case 0
  then have "\<not> i < sdt_entries m rsdt" by (simp add: word_less_nat_alt)
  then show ?case using 0 by (subst sdt_search.simps) simp
next
  case (Suc d)
  then have i: "i < sdt_entries m rsdt" by (simp add: word_less_nat_alt)
  then have up: "[unat i..<unat (sdt_entries m rsdt)] = unat i # [unat (i + 1)..<unat (sdt_entries m rsdt)]"
    unfolding unat_Suc_less [OF i] by (simp add: word_less_nat_alt upt_conv_Cons)
  have "d = unat (sdt_entries m rsdt) - unat (i + 1)" using Suc.hyps(2) unat_Suc_less [OF i] by simp
  note IH = Suc.hyps(1) [OF this]
  show ?case
    unfolding up using i IH strncmp_sig4 [OF assms] by (subst sdt_search.simps) (simp add: Let_def)
qed

section \<open>The search of the MADT\<close>

text \<open>The addresses the search visits: each structure's length leads to the next.\<close>

primrec ics_addr :: "mem \<Rightarrow> u64 \<Rightarrow> nat \<Rightarrow> u64" where
  "ics_addr m base 0 = base"
| "ics_addr m base (Suc k) = ics_addr m base k + ucast (ics_length (ics_Header_at m (ics_addr m base k)))"

lemma ics_addr_shift:
  "ics_addr m (base + ucast (ics_length (ics_Header_at m base))) k = ics_addr m base (Suc k)"
  by (induction k) simp_all

lemma ics_search_find:
  "ics_search m ty n base =
    (case find (\<lambda>a. ics_type (ics_Header_at m a) = ty) (map (ics_addr m base) [0..<n])
     of None \<Rightarrow> 0 | Some a \<Rightarrow> a)"
proof (induction n arbitrary: base)
  case (Suc n)
  have "map (ics_addr m base) [0..<Suc n] =
      base # map (ics_addr m (base + ucast (ics_length (ics_Header_at m base)))) [0..<n]"
    by (simp add: ics_addr_shift map_upt_Suc del: upt_Suc ics_addr.simps(2))
  then show ?case using Suc.IH by (simp del: upt_Suc)
qed simp

section \<open>Properties\<close>

text \<open>
  \<^verbatim>\<open>acpi::sdt::get_header\<close> returns the first table of the RSDT whose four signature bytes are the
  requested ones, and null when there is none.\<close>

theorem sdt_get_header_first:
  assumes "sig4 m signature sig"
  shows "sdt_get_header m rsdp signature =
    (case find (\<lambda>t. h_signature (sdt_Header_at m t) = sig) (sdt_tables m (ucast (rsdt_addr (RSDP_at m rsdp))))
     of None \<Rightarrow> 0 | Some t \<Rightarrow> t)"
  using sdt_search_find [OF assms, of _ 0] by (simp add: sdt_get_header_def sdt_tables_def)

text \<open>An RSDP at \<open>0x100\<close>, an RSDT with one entry at \<open>0x200\<close>, the table at \<open>0x300\<close>, the constant at \<open>0x400\<close>.\<close>

definition acpi_example :: mem where
  "acpi_example = (\<lambda>_. 0)(0x111 := 2, 0x204 := 40, 0x225 := 3,
     0x300 := 65, 0x301 := 80, 0x302 := 73, 0x303 := 67, 0x400 := 65, 0x401 := 80, 0x402 := 73, 0x403 := 67)"

theorem sdt_get_header_first_witness: "sdt_get_header acpi_example 0x100 0x400 = 0x300"
proof -
  have b: "get_bytes acpi_example 0x400 4 = [65, 80, 73, 67]" "get_bytes acpi_example 0x300 4 = [65, 80, 73, 67]"
    by (simp_all add: get_bytes_def acpi_example_def upt_rec)
  have sig: "sig4 acpi_example 0x400 [65, 80, 73, 67]" using b(1) by (simp add: sig4_def)
  have r: "rsdt_addr (RSDP_at acpi_example 0x100) = 0x200" "h_length (sdt_Header_at acpi_example 0x200) = 40"
    "sdt_table acpi_example 0x200 0 = 0x300"
    by (simp_all add: RSDP_at_def sdt_Header_at_def sdt_table_def sizeof_sdt_Header_def read32_def load_steps
        acpi_example_def)
  have "sdt_tables acpi_example 0x200 = [0x300]"
    using r by (simp add: sdt_tables_def sdt_entries_def sizeof_sdt_Header_def)
  moreover have "h_signature (sdt_Header_at acpi_example 0x300) = [65, 80, 73, 67]"
    using b(2) by (simp add: sdt_Header_at_def)
  ultimately show ?thesis using sdt_get_header_first [OF sig, of "0x100"] r(1) by simp
qed

text \<open>
  \<^verbatim>\<open>madt::ics::get_header\<close> returns the first structure of the requested type among the first fifteen
  addresses of the chain that starts behind the table's fields, whatever the table's length; with
  fifteen structures of other types in front, a later one is not found and null is returned.\<close>

theorem ics_get_header_first_fifteen:
  "ics_get_header m madt ty =
    (case find (\<lambda>a. ics_type (ics_Header_at m a) = ics_type_code ty) (map (ics_addr m (madt + 44)) [0..<15])
     of None \<Rightarrow> 0 | Some a \<Rightarrow> a)"
  by (simp add: ics_get_header_def ics_table_def ics_search_find)

text \<open>
  The search does not stop at the end of the MADT: a table whose length covers one structure only
  can yield a structure behind it.\<close>

theorem ics_get_header_past_end:
  "\<exists>m madt. h_length (sdt_Header_at m madt) = 52 \<and> ics_get_header m madt IO_APIC = madt + 52"
proof -
  define m :: mem where "m = (\<lambda>_. 0)(0x1004 := 52, 0x102D := 8, 0x1034 := 1)"
  have "h_length (sdt_Header_at m 0x1000) = 52"
    by (simp add: m_def sdt_Header_at_def read32_def load_steps)
  moreover have "ics_get_header m 0x1000 IO_APIC = 0x1000 + 52"
  proof -
    have n: "(15 :: nat) = Suc (Suc 13)" by simp
    show ?thesis
      unfolding ics_get_header_def n ics_search.simps
      by (simp add: m_def ics_table_def ics_Header_at_def)
  qed
  ultimately show ?thesis by blast
qed

end
