(* ===== verification/BitStruct.thy ===== *)
theory BitStruct
  imports Memory
begin

text \<open>
  Packed structures of bit-fields, as the source declares them for entries of page tables and for registers of devices: a structure is
  the list of its members with their widths, from the lowest bit up. The locale \<open>packed_struct\<close> is the interface of a structure that fills
  64 bits: a member reads back what was written, no other member changes, and the word is determined by its
  members. It is interpreted in the theories of the components for each structure of the source.
\<close>

section \<open>Structures\<close>

type_synonym bit_struct = "(string \<times> nat) list"

text \<open>The lowest bit and the width of a member.\<close>

fun struct_member :: "bit_struct \<Rightarrow> nat \<Rightarrow> string \<Rightarrow> (nat \<times> nat) option" where
  "struct_member [] lo n = None"
| "struct_member ((k, w) # L) lo n = (if k = n then Some (lo, w) else struct_member L (lo + w) n)"

definition get_member :: "bit_struct \<Rightarrow> string \<Rightarrow> u64 \<Rightarrow> u64" where
  "get_member L n e = (case struct_member L 0 n of None \<Rightarrow> 0 | Some (lo, w) \<Rightarrow> bf_get lo w e)"

definition set_member :: "bit_struct \<Rightarrow> string \<Rightarrow> u64 \<Rightarrow> u64 \<Rightarrow> u64" where
  "set_member L n v e = (case struct_member L 0 n of None \<Rightarrow> e | Some (lo, w) \<Rightarrow> bf_set lo w v e)"

definition total_width :: "bit_struct \<Rightarrow> nat" where
  "total_width L = sum_list (map snd L)"

text \<open>The offset of a member in bytes and the size of a structure, for members that are whole bytes.\<close>

definition member_off :: "bit_struct \<Rightarrow> string \<Rightarrow> nat" where
  "member_off L n = (case struct_member L 0 n of None \<Rightarrow> 0 | Some (lo, w) \<Rightarrow> lo div 8)"

definition sizeof_struct :: "bit_struct \<Rightarrow> nat" where
  "sizeof_struct L = total_width L div 8"

section \<open>Members\<close>

lemma member_bounds:
  "struct_member L lo n = Some (p, w) \<Longrightarrow> lo \<le> p \<and> p + w \<le> lo + total_width L"
proof (induction L lo n rule: struct_member.induct)
  case (2 k v L lo n)
  then show ?case by (fastforce simp: total_width_def split: if_splits)
qed simp

lemma members_apart:
  "struct_member L lo n = Some (p, w) \<Longrightarrow> struct_member L lo n' = Some (p', w') \<Longrightarrow> n \<noteq> n' \<Longrightarrow> p + w \<le> p' \<or> p' + w' \<le> p"
proof (induction L lo n rule: struct_member.induct)
  case (2 k v L lo n)
  show ?case
  proof (cases "k = n")
    case True
    then have "struct_member L (lo + v) n' = Some (p', w')" "p = lo" "w = v" using 2 by auto
    then show ?thesis using member_bounds [of L "lo + v" n' p' w'] by simp
  next
    case n: False
    show ?thesis
    proof (cases "k = n'")
      case True
      then have "struct_member L (lo + v) n = Some (p, w)" "p' = lo" "w' = v" using 2 n by auto
      then show ?thesis using member_bounds [of L "lo + v" n p w] by simp
    next
      case False
      then show ?thesis using 2 n by auto
    qed
  qed
qed simp

text \<open>Every bit below the total width belongs to a member.\<close>

lemma member_of_bit:
  "distinct (map fst L) \<Longrightarrow> lo \<le> b \<Longrightarrow> b < lo + total_width L \<Longrightarrow> \<exists>n p w. struct_member L lo n = Some (p, w) \<and> p \<le> b \<and> b < p + w"
proof (induction L arbitrary: lo)
  case (Cons kw L)
  obtain k w where kw: "kw = (k, w)" by fastforce
  show ?case
  proof (cases "b < lo + w")
    case True
    then show ?thesis using Cons.prems kw by (intro exI [of _ k] exI [of _ lo] exI [of _ w]) simp
  next
    case False
    then have "lo + w \<le> b" "b < lo + w + total_width L" using Cons.prems(3) kw by (simp_all add: total_width_def)
    then obtain n p v where m: "struct_member L (lo + w) n = Some (p, v)" "p \<le> b" "b < p + v" using Cons.IH Cons.prems(1) by fastforce
    have "n \<in> fst ` set L" using m(1) by (induction L "lo + w" n arbitrary: lo w rule: struct_member.induct) (force split: if_splits)+
    then have "n \<noteq> k" using Cons.prems(1) kw by auto
    then show ?thesis using m kw by auto
  qed
qed (simp add: total_width_def)

section \<open>Structures of 64 bits\<close>

locale packed_struct =
  fixes L :: bit_struct
  assumes fills: "total_width L = 64" and names: "distinct (map fst L)"
begin

lemma get_set:
  assumes "struct_member L 0 n = Some (p, w)"
  shows "get_member L n (set_member L n v e) = take_bit w v"
  using assms member_bounds [OF assms] fills by (simp add: get_member_def set_member_def)

lemma get_set_other:
  assumes "n \<noteq> n'"
  shows "get_member L n (set_member L n' v e) = get_member L n e"
proof (cases "struct_member L 0 n = None \<or> struct_member L 0 n' = None")
  case False
  then obtain p w p' w' where m: "struct_member L 0 n = Some (p, w)" "struct_member L 0 n' = Some (p', w')" by auto
  then show ?thesis
    using fills member_bounds [OF m(1)] members_apart [OF m assms]
    by (simp add: get_member_def set_member_def bf_get_set_other)
qed (auto simp: get_member_def set_member_def split: option.splits)

lemma members_determine:
  assumes "\<And>n. get_member L n e = get_member L n e'"
  shows "e = e'"
proof (rule bit_word_eqI)
  fix b assume "b < LENGTH(64)"
  then obtain n p w where m: "struct_member L 0 n = Some (p, w)" "p \<le> b" "b < p + w"
    using member_of_bit [OF names, of 0 b] fills by auto
  have "bf_get p w e = bf_get p w e'" using assms [of n] m(1) by (simp add: get_member_def)
  then have "bit (bf_get p w e) (b - p) = bit (bf_get p w e') (b - p)" by simp
  then show "bit e b = bit e' b" using m by (auto simp: bit_bf_get)
qed

end

lemma member_simps:
  "struct_member L 0 n = Some (p, w) \<Longrightarrow> get_member L n e = bf_get p w e"
  "struct_member L 0 n = Some (p, w) \<Longrightarrow> set_member L n v e = bf_set p w v e"
  by (simp_all add: get_member_def set_member_def)

end
