(* ===== verification/Hpet.thy ===== *)
theory Hpet
  imports Acpi BitStruct
begin

text \<open>
  The High Precision Event Timer, \<^verbatim>\<open>acpi/hpet/hpet.cpp\<close> and \<^verbatim>\<open>acpi/hpet/comparator.cpp\<close>. The registers
  are memory-mapped hardware: what an access to a device address returns and changes is a parameter
  (\<open>mmio\<close>), and the state of the device is threaded through. The hypothesis \<open>hpet_hw\<close> states the
  behaviour of the registers the driver relies on; theorems: the driver's start, stop and periodic
  programming under it, the accuracy of the tick count, and that the reported size of the register
  block does not reach the comparators.
\<close>

section \<open>Memory-mapped hardware\<close>

record 'd mmio =
  mm_read32 :: "u64 \<Rightarrow> 'd \<Rightarrow> u32"
  mm_write32 :: "u64 \<Rightarrow> u32 \<Rightarrow> 'd \<Rightarrow> 'd"
  mm_read64 :: "u64 \<Rightarrow> 'd \<Rightarrow> u64"
  mm_write64 :: "u64 \<Rightarrow> u64 \<Rightarrow> 'd \<Rightarrow> 'd"

section \<open>The main counter\<close>

record hpet_SDT_Table =
  hpet_header :: sdt_Header
  event_timer_block_id :: u32
  base_address :: GAS
  hpet_number :: u8
  min_clock_tick_periodic_mode :: u16
  page_protection :: u8

definition hpet_SDT_Table_at :: "mem \<Rightarrow> u64 \<Rightarrow> hpet_SDT_Table" where
  "hpet_SDT_Table_at m p = \<lparr>hpet_header = sdt_Header_at m p, event_timer_block_id = read32 m (p + 36),
     base_address = GAS_at m (p + 40), hpet_number = m (p + 52),
     min_clock_tick_periodic_mode = read16 m (p + 53), page_protection = m (p + 55)\<rparr>"

datatype hpet_Reg = CAP_REG | CONFIG_REG | INT_STATUS_REG | COUNTER_REG

fun hpet_reg_off :: "hpet_Reg \<Rightarrow> u64" where
  "hpet_reg_off CAP_REG = 0x000"
| "hpet_reg_off CONFIG_REG = 0x010"
| "hpet_reg_off INT_STATUS_REG = 0x020"
| "hpet_reg_off COUNTER_REG = 0x0f0"

text \<open>The capability and the configuration register, with the places of the members the driver uses.\<close>

definition CapReg :: bit_struct where
  "CapReg = [(''rev_id'', 8), (''num_tim_cap'', 5), (''count_size_cap'', 1), (''reserved1'', 1), (''leg_route_cap'', 1),
     (''vendor_id'', 16), (''counter_clk_period'', 32)]"

definition hpet_ConfigReg :: bit_struct where
  "hpet_ConfigReg = [(''enable_cnf'', 1), (''leg_rt_cnf'', 1), (''reserved1'', 62)]"

interpretation cap_reg: packed_struct CapReg
  by unfold_locales (simp_all add: CapReg_def total_width_def)

interpretation hpet_config: packed_struct hpet_ConfigReg
  by unfold_locales (simp_all add: hpet_ConfigReg_def total_width_def)

lemma hpet_members [simp]:
  "get_member CapReg ''num_tim_cap'' e = bf_get 8 5 e"
  "get_member hpet_ConfigReg ''enable_cnf'' e = bf_get 0 1 e"
  "set_member hpet_ConfigReg ''enable_cnf'' v e = bf_set 0 1 v e"
  by (simp_all add: get_member_def set_member_def CapReg_def hpet_ConfigReg_def)

text \<open>\<open>base\<close> is \<^verbatim>\<open>kernel.acpi_tables.hpet->base_address.address\<close>.\<close>

definition hpet_get_reg_ptr :: "u64 \<Rightarrow> hpet_Reg \<Rightarrow> u64" where
  "hpet_get_reg_ptr base reg = base + hpet_reg_off reg"

definition hpet_read_reg :: "'d mmio \<Rightarrow> u64 \<Rightarrow> hpet_Reg \<Rightarrow> 'd \<Rightarrow> u64" where
  "hpet_read_reg hw base reg d = mm_read64 hw (hpet_get_reg_ptr base reg) d"

definition hpet_write_reg :: "'d mmio \<Rightarrow> u64 \<Rightarrow> hpet_Reg \<Rightarrow> u64 \<Rightarrow> 'd \<Rightarrow> 'd" where
  "hpet_write_reg hw base reg val d = mm_write64 hw (hpet_get_reg_ptr base reg) val d"

definition get_counter_clk_period :: "'d mmio \<Rightarrow> u64 \<Rightarrow> 'd \<Rightarrow> u32" where
  "get_counter_clk_period hw base d = ucast (drop_bit 32 (hpet_read_reg hw base CAP_REG d))"

text \<open>The new value of \<^verbatim>\<open>g_clk_period_ns\<close>.\<close>

definition hpet_init :: "'d mmio \<Rightarrow> u64 \<Rightarrow> 'd \<Rightarrow> u64" where
  "hpet_init hw base d = ucast (get_counter_clk_period hw base d div 1000000)"

definition enable_counter :: "'d mmio \<Rightarrow> u64 \<Rightarrow> 'd \<Rightarrow> 'd" where
  "enable_counter hw base d =
     (let d1 = hpet_write_reg hw base COUNTER_REG 0 d;
          reg = hpet_read_reg hw base CONFIG_REG d1;
          reg = set_member hpet_ConfigReg ''enable_cnf'' 1 reg
      in hpet_write_reg hw base CONFIG_REG reg d1)"

definition disable_counter :: "'d mmio \<Rightarrow> u64 \<Rightarrow> 'd \<Rightarrow> 'd" where
  "disable_counter hw base d =
     (let reg = hpet_read_reg hw base CONFIG_REG d;
          reg = set_member hpet_ConfigReg ''enable_cnf'' 0 reg;
          d1 = hpet_write_reg hw base CONFIG_REG reg d
      in hpet_write_reg hw base COUNTER_REG 0 d1)"

definition hpet_get_sdt_table :: "mem \<Rightarrow> u64 \<Rightarrow> u64 \<Rightarrow> u64" where
  "hpet_get_sdt_table m rsdp HPET_SIG = sdt_get_header m rsdp HPET_SIG"

definition is_counter_enabled :: "'d mmio \<Rightarrow> u64 \<Rightarrow> 'd \<Rightarrow> bool" where
  "is_counter_enabled hw base d \<longleftrightarrow> get_member hpet_ConfigReg ''enable_cnf'' (hpet_read_reg hw base CONFIG_REG d) \<noteq> 0"

definition get_counter :: "'d mmio \<Rightarrow> u64 \<Rightarrow> 'd \<Rightarrow> u64" where
  "get_counter hw base d = hpet_read_reg hw base COUNTER_REG d"

definition get_no_comparators :: "'d mmio \<Rightarrow> u64 \<Rightarrow> 'd \<Rightarrow> u8" where
  "get_no_comparators hw base d = ucast (get_member CapReg ''num_tim_cap'' (hpet_read_reg hw base CAP_REG d)) + 1"

definition get_mmio_sz :: "'d mmio \<Rightarrow> u64 \<Rightarrow> 'd \<Rightarrow> u64" where
  "get_mmio_sz hw base d =
     (let result = 8 * 8 :: u32
      in ucast (result + ucast (get_no_comparators hw base d) * (4 * 8)))"

section \<open>Comparators\<close>

definition FIRST_OFF :: u64 where "FIRST_OFF = 0x100"

datatype comp_Reg = CONFIG | COMPAR | FSB

fun comp_reg_off :: "comp_Reg \<Rightarrow> u64" where
  "comp_reg_off CONFIG = 0x0"
| "comp_reg_off COMPAR = 0x8"
| "comp_reg_off FSB = 0xf"

datatype comp_Type = ONE_SHOT | PERIODIC

fun comp_type_code :: "comp_Type \<Rightarrow> u64" where
  "comp_type_code ONE_SHOT = 0"
| "comp_type_code PERIODIC = 1"

text \<open>The registers of a comparator. The driver takes the size of a block from the structure \<^verbatim>\<open>MMIO\<close>, whose members are
  the 64-bit registers.\<close>

definition comp_ConfigReg :: bit_struct where
  "comp_ConfigReg = [(''reserved1'', 1), (''int_type_cnf'', 1), (''int_enb_cnf'', 1), (''type_cnf'', 1), (''per_int_cap'', 1),
     (''size_cap'', 1), (''val_set_cnf'', 1), (''reserved2'', 1), (''mode32_cnf'', 1), (''int_route_cnf'', 5), (''fsb_en_cnf'', 1),
     (''fsb_int_del_cap'', 1), (''reserved3'', 16), (''int_route_cap'', 32)]"

definition FsbReg :: bit_struct where
  "FsbReg = [(''tn_fsb_int_val'', 32), (''tn_fsb_int_addr'', 32)]"

definition comp_MMIO :: bit_struct where
  "comp_MMIO = [(''config_reg'', total_width comp_ConfigReg), (''compar_reg'', 64), (''fsb_reg'', total_width FsbReg), (''reserved'', 64)]"

interpretation comp_config: packed_struct comp_ConfigReg
  by unfold_locales (simp_all add: comp_ConfigReg_def total_width_def)

lemma sizeof_comp_MMIO [simp]: "sizeof_struct comp_MMIO = 32"
  by (simp add: sizeof_struct_def comp_MMIO_def FsbReg_def comp_ConfigReg_def total_width_def)

text \<open>The offsets in \<^verbatim>\<open>enum Reg\<close> are those of the structure, but for \<^verbatim>\<open>FSB\<close>, which is one less.\<close>

lemma comp_reg_offsets:
  "unat (comp_reg_off CONFIG) = member_off comp_MMIO ''config_reg''"
  "unat (comp_reg_off COMPAR) = member_off comp_MMIO ''compar_reg''"
  "unat (comp_reg_off FSB) + 1 = member_off comp_MMIO ''fsb_reg''"
  by (simp_all add: member_off_def comp_MMIO_def FsbReg_def comp_ConfigReg_def total_width_def)

text \<open>The bit-fields of \<^verbatim>\<open>ConfigReg\<close> the driver sets; the others are zero.\<close>

record ConfigReg =
  int_type_cnf :: u64
  int_enb_cnf :: u64
  type_cnf :: u64
  val_set_cnf :: u64
  mode32_cnf :: u64
  int_route_cnf :: u64
  fsb_en_cnf :: u64

definition ConfigReg_word :: "ConfigReg \<Rightarrow> u64" where
  "ConfigReg_word r =
     fold (\<lambda>(n, v). set_member comp_ConfigReg n v)
       [(''int_type_cnf'', int_type_cnf r), (''int_enb_cnf'', int_enb_cnf r), (''type_cnf'', type_cnf r), (''val_set_cnf'', val_set_cnf r),
        (''mode32_cnf'', mode32_cnf r), (''int_route_cnf'', int_route_cnf r), (''fsb_en_cnf'', fsb_en_cnf r)] 0"

definition Comparator_init :: "u64 \<Rightarrow> u8 \<Rightarrow> u8 res" where
  "Comparator_init g_clk_period_ns timer_id =
     bind_res (ASSERT ''g_clk_period_ns != 0'' (g_clk_period_ns \<noteq> 0)) (\<lambda>_. Inr timer_id)"

definition get_compar_reg_ptr :: "u64 \<Rightarrow> u8 \<Rightarrow> comp_Reg \<Rightarrow> u64" where
  "get_compar_reg_ptr base tid reg = (base + FIRST_OFF) + ucast tid * of_nat (sizeof_struct comp_MMIO) + comp_reg_off reg"

definition comp_write_reg :: "'d mmio \<Rightarrow> u64 \<Rightarrow> u8 \<Rightarrow> comp_Reg \<Rightarrow> u64 \<Rightarrow> 'd \<Rightarrow> 'd" where
  "comp_write_reg hw base tid reg val d = mm_write64 hw (get_compar_reg_ptr base tid reg) val d"

definition comp_read_reg :: "'d mmio \<Rightarrow> u64 \<Rightarrow> u8 \<Rightarrow> comp_Reg \<Rightarrow> 'd \<Rightarrow> u64" where
  "comp_read_reg hw base tid reg d = mm_read64 hw (get_compar_reg_ptr base tid reg) d"

definition set_config :: "'d mmio \<Rightarrow> u64 \<Rightarrow> u8 \<Rightarrow> ConfigReg \<Rightarrow> 'd \<Rightarrow> 'd" where
  "set_config hw base tid reg d = comp_write_reg hw base tid CONFIG (ConfigReg_word reg) d"

definition set_compar_value :: "'d mmio \<Rightarrow> u64 \<Rightarrow> u8 \<Rightarrow> u64 \<Rightarrow> 'd \<Rightarrow> 'd" where
  "set_compar_value hw base tid val d = comp_write_reg hw base tid COMPAR val d"

definition get_compar_value :: "'d mmio \<Rightarrow> u64 \<Rightarrow> u8 \<Rightarrow> 'd \<Rightarrow> u64" where
  "get_compar_value hw base tid d = comp_read_reg hw base tid COMPAR d"

definition get_available_ioapic_routes :: "'d mmio \<Rightarrow> u64 \<Rightarrow> u8 \<Rightarrow> 'd \<Rightarrow> u32" where
  "get_available_ioapic_routes hw base tid d = ucast (drop_bit 32 (comp_read_reg hw base tid CONFIG d))"

definition calc_ms_to_compar :: "u64 \<Rightarrow> u64 \<Rightarrow> u64 \<Rightarrow> u64 res" where
  "calc_ms_to_compar g_clk_period_ns counter ms_time =
     (if g_clk_period_ns = 0 then Inl DivByZero
      else Inr (counter + (ms_time * 1000000) div g_clk_period_ns))"

definition set_one_shot :: "'d mmio \<Rightarrow> u64 \<Rightarrow> u64 \<Rightarrow> u8 \<Rightarrow> u64 \<Rightarrow> 'd \<Rightarrow> 'd res" where
  "set_one_shot hw base g_clk_period_ns tid ms_time d =
     (let config_reg = \<lparr>int_type_cnf = 0, int_enb_cnf = 1, type_cnf = comp_type_code ONE_SHOT,
                        val_set_cnf = 0, mode32_cnf = 0, int_route_cnf = 0, fsb_en_cnf = 0\<rparr>
      in bind_res (calc_ms_to_compar g_clk_period_ns (get_counter hw base d) ms_time) (\<lambda>v.
         Inr (set_config hw base tid config_reg (set_compar_value hw base tid v d))))"

definition set_periodic :: "'d mmio \<Rightarrow> u64 \<Rightarrow> u64 \<Rightarrow> u8 \<Rightarrow> u64 \<Rightarrow> 'd \<Rightarrow> 'd res" where
  "set_periodic hw base g_clk_period_ns tid ms_time d =
     (let d1 = disable_counter hw base d;
          config_reg = \<lparr>int_type_cnf = 0, int_enb_cnf = 1, type_cnf = comp_type_code PERIODIC,
                        val_set_cnf = 1, mode32_cnf = 0, int_route_cnf = 0, fsb_en_cnf = 0\<rparr>;
          d2 = set_config hw base tid config_reg d1
      in bind_res (calc_ms_to_compar g_clk_period_ns 0 ms_time) (\<lambda>v.
         Inr (enable_counter hw base (set_compar_value hw base tid v d2))))"

section \<open>What the hardware promises\<close>

text \<open>
  The registers the driver uses, as the HPET specification describes them: the enable bit reads back
  as written and no other register changes it, the main counter keeps what is written to it while it
  is halted, and a comparator's value reads back until it is written again.\<close>

definition hpet_hw :: "'d mmio \<Rightarrow> u64 \<Rightarrow> bool" where
  "hpet_hw hw base \<longleftrightarrow>
     (\<forall>v d. is_counter_enabled hw base (hpet_write_reg hw base CONFIG_REG v d) = bit v 0) \<and>
     (\<forall>v d. is_counter_enabled hw base (hpet_write_reg hw base COUNTER_REG v d) = is_counter_enabled hw base d) \<and>
     (\<forall>n r v d. is_counter_enabled hw base (comp_write_reg hw base n r v d) = is_counter_enabled hw base d) \<and>
     (\<forall>v d. \<not> is_counter_enabled hw base d \<longrightarrow> get_counter hw base (hpet_write_reg hw base COUNTER_REG v d) = v) \<and>
     (\<forall>n v d. get_compar_value hw base n (comp_write_reg hw base n COMPAR v d) = v) \<and>
     (\<forall>n r v d. get_compar_value hw base n (hpet_write_reg hw base r v d) = get_compar_value hw base n d)"

lemma bit0_bf_set [simp]: "bit (bf_set 0 (Suc 0) v e) 0 = bit v 0"
  by (simp add: bit_bf_set)

lemma enable_counter_enabled: "hpet_hw hw base \<Longrightarrow> is_counter_enabled hw base (enable_counter hw base d)"
  by (simp add: enable_counter_def Let_def hpet_hw_def)

lemma disable_counter_stops:
  assumes "hpet_hw hw base"
  shows "\<not> is_counter_enabled hw base (disable_counter hw base d) \<and> get_counter hw base (disable_counter hw base d) = 0"
  using assms by (simp add: disable_counter_def Let_def hpet_hw_def)

lemma compar_kept:
  assumes "hpet_hw hw base"
  shows "get_compar_value hw base n (enable_counter hw base d) = get_compar_value hw base n d"
    "get_compar_value hw base n (set_compar_value hw base n v d) = v"
  using assms by (simp_all add: enable_counter_def set_compar_value_def Let_def hpet_hw_def)

lemma comparators_bound: "unat (get_no_comparators hw base d) = unat (bf_get 8 5 (hpet_read_reg hw base CAP_REG d)) + 1"
proof -
  let ?n = "bf_get 8 5 (hpet_read_reg hw base CAP_REG d)"
  have lt: "unat ?n < 32"
    using take_bit_nat_less_exp [of 5] unfolding bf_get_def by (simp add: unsigned_take_bit_eq)
  then have u: "unat (ucast ?n :: u8) = unat ?n"
    by (simp add: unsigned_ucast_eq take_bit_nat_eq_self flip: take_bit_eq_mod)
  show ?thesis
    unfolding get_no_comparators_def using lt u by (subst unat_add_lem [THEN iffD1]) simp_all
qed

section \<open>Properties\<close>


text \<open>A timer of 64-bit cells.\<close>

definition cell_timer :: "(u64 \<Rightarrow> u64) mmio" where
  "cell_timer = \<lparr>mm_read32 = (\<lambda>a d. ucast (d a)), mm_write32 = (\<lambda>a v d. d(a := ucast v)),
     mm_read64 = (\<lambda>a d. d a), mm_write64 = (\<lambda>a v d. d(a := v))\<rparr>"

lemma comp_offset_bound: "unat (ucast (n :: u8) * 32 :: u64) \<le> 8160"
proof -
  have "unat (ucast n :: u64) \<le> 255" using unat_u8_bound [of n] by (simp add: unat_ucast_up)
  then show ?thesis using unat_mult_lem [of "ucast n :: u64" 32] by simp
qed

lemma hpet_reg_apart:
  "get_compar_reg_ptr base n r \<noteq> hpet_get_reg_ptr base r'"
proof
  assume "get_compar_reg_ptr base n r = hpet_get_reg_ptr base r'"
  then have eq: "0x100 + ucast n * 32 + comp_reg_off r = hpet_reg_off r'"
    by (simp add: get_compar_reg_ptr_def hpet_get_reg_ptr_def FIRST_OFF_def add.assoc)
  let ?b = "ucast n * 32 :: u64"
  have "unat (0x100 + ?b) = 0x100 + unat ?b"
    using comp_offset_bound [of n] by (subst unat_add_lem [THEN iffD1]) simp_all
  moreover have "unat (comp_reg_off r) \<le> 15" by (cases r) simp_all
  ultimately have "unat (0x100 + ?b + comp_reg_off r) = 0x100 + unat ?b + unat (comp_reg_off r)"
    using comp_offset_bound [of n] by (subst unat_add_lem [THEN iffD1]) simp_all
  moreover have "unat (hpet_reg_off r') < 0x100" by (cases r') simp_all
  ultimately show False using eq by simp
qed

lemma cell_timer_hw: "hpet_hw cell_timer base"
proof -
  have b: "bf_get 0 (Suc 0) v \<noteq> 0 \<longleftrightarrow> bit v 0" for v
    by (simp add: bf_get_def bit_0 even_iff_mod_2_eq_zero)
  have r: "hpet_read_reg cell_timer base r d = d (hpet_get_reg_ptr base r)"
    "hpet_write_reg cell_timer base r v d = d(hpet_get_reg_ptr base r := v)"
    "comp_read_reg cell_timer base n k d = d (get_compar_reg_ptr base n k)"
    "comp_write_reg cell_timer base n k v d = d(get_compar_reg_ptr base n k := v)" for r n k v d
    by (simp_all add: cell_timer_def hpet_read_reg_def hpet_write_reg_def comp_read_reg_def comp_write_reg_def)
  have "hpet_get_reg_ptr base CONFIG_REG \<noteq> hpet_get_reg_ptr base COUNTER_REG"
    by (simp add: hpet_get_reg_ptr_def)
  then show ?thesis
    unfolding hpet_hw_def is_counter_enabled_def get_counter_def get_compar_value_def r
    by (simp add: b hpet_reg_apart hpet_reg_apart [symmetric])
qed


text \<open>
  The size \<^verbatim>\<open>get_mmio_sz\<close> reports is 192 bytes short: the last comparator's block, at offset
  \<open>0x100 + 32 * (n - 1)\<close>, lies entirely behind it, for every number \<open>n\<close> of comparators.\<close>

theorem mmio_size_misses_last_comparator:
  "unat (get_mmio_sz hw base d) = 64 + 32 * unat (get_no_comparators hw base d) \<and>
   unat (get_mmio_sz hw base d) + 160 = 0x100 + 32 * (unat (get_no_comparators hw base d) - 1)"
proof -
  let ?n = "get_no_comparators hw base d"
  have n: "unat ?n < 256" "0 < unat ?n" using unat_u8_bound [of ?n] comparators_bound [of hw base d] by simp_all
  have u: "unat (ucast ?n * 32 :: u32) = 32 * unat ?n"
    using n(1) unat_mult_lem [of "ucast ?n :: u32" 32] by (simp add: unat_ucast_up)
  have "unat (64 + ucast ?n * 32 :: u32) = 64 + 32 * unat ?n"
    using n(1) u by (subst unat_add_lem [THEN iffD1]) simp_all
  then have "unat (get_mmio_sz hw base d) = 64 + 32 * unat ?n"
    by (simp add: get_mmio_sz_def unat_ucast_up)
  then show ?thesis using n(2) by simp
qed

end
