(* ===== verification/Keyboard.thy ===== *)
theory Keyboard
  imports Memory
begin

text \<open>
  The PS/2 controller, \<^verbatim>\<open>drivers/ps2.cpp\<close>, and the keyboard on its first port,
  \<^verbatim>\<open>drivers/keyboard.cpp\<close>. The hardware behind the I/O ports is a parameter: what \<^verbatim>\<open>inb\<close> returns and
  how \<^verbatim>\<open>inb\<close> and \<^verbatim>\<open>outb\<close> change the device is given by a \<open>bus\<close>, and the state of the device is threaded
  through every operation. The translation of scan codes is the table of the source's \<^verbatim>\<open>switch\<close>.
  Theorems: what a key yields, by the modifiers; how a sequence of scan codes moves the modifiers,
  against a specification that remembers which keys are held.
\<close>

section \<open>I/O ports\<close>

record 'd bus =
  port_in :: "u16 \<Rightarrow> 'd \<Rightarrow> u8 \<times> 'd"
  port_out :: "u16 \<Rightarrow> u8 \<Rightarrow> 'd \<Rightarrow> 'd"

definition outb :: "'d bus \<Rightarrow> u16 \<Rightarrow> u8 \<Rightarrow> 'd \<Rightarrow> 'd" where
  "outb hw port val d = port_out hw port val d"

definition inb :: "'d bus \<Rightarrow> u16 \<Rightarrow> 'd \<Rightarrow> u8 \<times> 'd" where
  "inb hw port d = port_in hw port d"

definition io_wait :: "'d bus \<Rightarrow> 'd \<Rightarrow> 'd" where
  "io_wait hw d = outb hw 0x80 0 d"

section \<open>The PS/2 controller\<close>

datatype ps2_port = DATA_RW | STATUS_R | COMMAND_W

fun ps2_port_code :: "ps2_port \<Rightarrow> u16" where
  "ps2_port_code DATA_RW = 0x60"
| "ps2_port_code STATUS_R = 0x64"
| "ps2_port_code COMMAND_W = 0x64"

datatype ps2_command = TEST_CONTROLLER | GET_CONFIG | CPY_LOW_TO_STAT | CPY_HIGH_TO_STAT
  | TEST_1_PORT | DISABLE_1_PORT | ENABLE_1_PORT | TEST_2_PORT | DISABLE_2_PORT | ENABLE_2_PORT

fun ps2_command_code :: "ps2_command \<Rightarrow> u8" where
  "ps2_command_code TEST_CONTROLLER = 0xAA"
| "ps2_command_code GET_CONFIG = 0x20"
| "ps2_command_code CPY_LOW_TO_STAT = 0xC1"
| "ps2_command_code CPY_HIGH_TO_STAT = 0xC2"
| "ps2_command_code TEST_1_PORT = 0xAB"
| "ps2_command_code DISABLE_1_PORT = 0xAD"
| "ps2_command_code ENABLE_1_PORT = 0xAE"
| "ps2_command_code TEST_2_PORT = 0xA9"
| "ps2_command_code DISABLE_2_PORT = 0xA7"
| "ps2_command_code ENABLE_2_PORT = 0xA8"

datatype CtrlTestResult = CTRL_PASSED | CTRL_FAILED

fun ctrl_test_code :: "CtrlTestResult \<Rightarrow> u8" where
  "ctrl_test_code CTRL_PASSED = 0x55"
| "ctrl_test_code CTRL_FAILED = 0xFC"

text \<open>A cast to \<^verbatim>\<open>PortTestResult\<close> keeps a value that has no name.\<close>

datatype PortTestResult = PORT_PASSED | CLOCK_STUCK_L | CLOCK_STUCK_H | DATA_STUCK_L | DATA_STUCK_H | Unnamed u8

definition PortTestResult_of :: "u8 \<Rightarrow> PortTestResult" where
  "PortTestResult_of v =
     (if v = 0x00 then PORT_PASSED else if v = 0x01 then CLOCK_STUCK_L else if v = 0x02 then CLOCK_STUCK_H
      else if v = 0x03 then DATA_STUCK_L else if v = 0x04 then DATA_STUCK_H else Unnamed v)"

definition ps2_set_data :: "'d bus \<Rightarrow> u8 \<Rightarrow> 'd \<Rightarrow> 'd" where
  "ps2_set_data hw val d = outb hw (ps2_port_code DATA_RW) val d"

definition ps2_read_data :: "'d bus \<Rightarrow> 'd \<Rightarrow> u8 \<times> 'd" where
  "ps2_read_data hw d = inb hw (ps2_port_code DATA_RW) d"

definition ps2_read_status :: "'d bus \<Rightarrow> 'd \<Rightarrow> u8 \<times> 'd" where
  "ps2_read_status hw d = inb hw (ps2_port_code STATUS_R) d"

definition ps2_send_cmd :: "'d bus \<Rightarrow> ps2_command \<Rightarrow> u8 \<Rightarrow> 'd \<Rightarrow> u8 \<times> 'd" where
  "ps2_send_cmd hw cmd data d =
     (let d1 = ps2_set_data hw data d;
          d2 = io_wait hw d1;
          d3 = outb hw (ps2_port_code COMMAND_W) (ps2_command_code cmd) d2;
          d4 = io_wait hw d3
      in ps2_read_data hw d4)"

definition ps2_test :: "'d bus \<Rightarrow> 'd \<Rightarrow> bool \<times> 'd" where
  "ps2_test hw d = (let (r, d1) = ps2_send_cmd hw TEST_CONTROLLER 0 d in (r = ctrl_test_code CTRL_PASSED, d1))"

definition ps2_set_status :: "'d bus \<Rightarrow> u8 \<Rightarrow> 'd \<Rightarrow> 'd" where
  "ps2_set_status hw val d =
     snd (ps2_send_cmd hw CPY_HIGH_TO_STAT val (snd (ps2_send_cmd hw CPY_LOW_TO_STAT val d)))"

definition port_1_test :: "'d bus \<Rightarrow> 'd \<Rightarrow> PortTestResult \<times> 'd" where
  "port_1_test hw d = (let (result, d1) = ps2_send_cmd hw TEST_1_PORT 0 d in (PortTestResult_of result, d1))"

definition port_1_is_interrupt_enabled :: "'d bus \<Rightarrow> 'd \<Rightarrow> bool \<times> 'd" where
  "port_1_is_interrupt_enabled hw d =
     (let (cfg, d1) = ps2_send_cmd hw GET_CONFIG 0 d
      in (test_bit_m (ucast cfg :: u32) 0 = 1, d1))"

definition port_1_disable :: "'d bus \<Rightarrow> 'd \<Rightarrow> 'd" where
  "port_1_disable hw d = snd (ps2_send_cmd hw DISABLE_1_PORT 0 d)"

definition port_1_enable :: "'d bus \<Rightarrow> 'd \<Rightarrow> 'd" where
  "port_1_enable hw d = snd (ps2_send_cmd hw ENABLE_1_PORT 0 d)"

section \<open>The keyboard\<close>

text \<open>The named scan codes and characters.\<close>

definition ESCAPE_IN :: u8 where [simp]: "ESCAPE_IN = 0x01"
definition BACKSPACE_IN :: u8 where [simp]: "BACKSPACE_IN = 0x0e"
definition TAB_IN :: u8 where [simp]: "TAB_IN = 0x0f"
definition ENTER_IN :: u8 where [simp]: "ENTER_IN = 0x1C"
definition LEFT_SHIFT_IN :: u8 where [simp]: "LEFT_SHIFT_IN = 0x2a"
definition RIGHT_SHIFT_IN :: u8 where [simp]: "RIGHT_SHIFT_IN = 0x36"
definition SPACE_IN :: u8 where [simp]: "SPACE_IN = 0x39"
definition CAPSLOCK_IN :: u8 where [simp]: "CAPSLOCK_IN = 0x3a"
definition LEFT_SHIFT_OUT :: u8 where [simp]: "LEFT_SHIFT_OUT = 0xaa"
definition RIGHT_SHIFT_OUT :: u8 where [simp]: "RIGHT_SHIFT_OUT = 0xb6"

definition ASCII_NULL_CHAR :: u8 where [simp]: "ASCII_NULL_CHAR = 0x00"
definition ASCII_BACKSPACE :: u8 where [simp]: "ASCII_BACKSPACE = 0x08"
definition ASCII_HORIZONTAL_TAB :: u8 where [simp]: "ASCII_HORIZONTAL_TAB = 0x09"
definition ASCII_LINE_FEED :: u8 where [simp]: "ASCII_LINE_FEED = 0x0a"
definition ASCII_SHIFT_OUT :: u8 where [simp]: "ASCII_SHIFT_OUT = 0x0e"
definition ASCII_SHIFT_IN :: u8 where [simp]: "ASCII_SHIFT_IN = 0x0f"
definition ASCII_ESCAPE :: u8 where [simp]: "ASCII_ESCAPE = 0x1b"
definition ASCII_SPACE :: u8 where [simp]: "ASCII_SPACE = 0x20"

record Keyboard =
  shift :: bool
  capslock :: bool

definition Keyboard_init :: Keyboard where
  "Keyboard_init = \<lparr>shift = False, capslock = False\<rparr>"

definition mod_letter :: "Keyboard \<Rightarrow> u8 \<Rightarrow> u8 \<Rightarrow> u8" where
  "mod_letter kb chr mod_chr =
     (if capslock kb then (if shift kb then chr else mod_chr)
      else (if shift kb then mod_chr else chr))"

definition mod_special :: "Keyboard \<Rightarrow> u8 \<Rightarrow> u8 \<Rightarrow> u8" where
  "mod_special kb chr mod_chr = (if shift kb then mod_chr else chr)"

text \<open>The cases of the \<^verbatim>\<open>switch\<close> over the scan code, in its order.\<close>

datatype key = Letter u8 u8 | Special u8 u8 | Ascii u8 | ShiftIn | ShiftOut | CapsLock

definition scan_table :: "(u8 \<times> key) list" where
  "scan_table =
    [
     (0x2, Special (of_char CHR ''1'') (of_char CHR ''!'')), (0x3, Special (of_char CHR ''2'') (of_char CHR ''@'')),
     (0x4, Special (of_char CHR ''3'') (of_char CHR ''#'')), (0x5, Special (of_char CHR ''4'') (of_char CHR ''$'')),
     (0x6, Special (of_char CHR ''5'') (of_char CHR ''%'')), (0x7, Special (of_char CHR ''6'') (of_char CHR ''^'')),
     (0x8, Special (of_char CHR ''7'') (of_char CHR ''&'')), (0x9, Special (of_char CHR ''8'') (of_char CHR ''*'')),
     (0xA, Special (of_char CHR ''9'') (of_char CHR ''('')), (0xB, Special (of_char CHR ''0'') (of_char CHR '')'')),
     (0xC, Special (of_char CHR ''-'') (of_char CHR ''_'')), (0xD, Special (of_char CHR ''='') (of_char CHR ''+'')),
     (0x10, Letter (of_char CHR ''q'') (of_char CHR ''Q'')), (0x11, Letter (of_char CHR ''w'') (of_char CHR ''W'')),
     (0x12, Letter (of_char CHR ''e'') (of_char CHR ''E'')), (0x13, Letter (of_char CHR ''r'') (of_char CHR ''R'')),
     (0x14, Letter (of_char CHR ''t'') (of_char CHR ''T'')), (0x15, Letter (of_char CHR ''y'') (of_char CHR ''Y'')),
     (0x16, Letter (of_char CHR ''u'') (of_char CHR ''U'')), (0x17, Letter (of_char CHR ''i'') (of_char CHR ''I'')),
     (0x18, Letter (of_char CHR ''o'') (of_char CHR ''O'')), (0x19, Letter (of_char CHR ''p'') (of_char CHR ''P'')),
     (0x1A, Special (of_char CHR ''['') (of_char CHR ''{'')), (0x1B, Special (of_char CHR '']'') (of_char CHR ''}'')),
     (0x1E, Letter (of_char CHR ''a'') (of_char CHR ''A'')), (0x1F, Letter (of_char CHR ''s'') (of_char CHR ''S'')),
     (0x20, Letter (of_char CHR ''d'') (of_char CHR ''D'')), (0x21, Letter (of_char CHR ''f'') (of_char CHR ''F'')),
     (0x22, Letter (of_char CHR ''g'') (of_char CHR ''G'')), (0x23, Letter (of_char CHR ''h'') (of_char CHR ''H'')),
     (0x24, Letter (of_char CHR ''j'') (of_char CHR ''J'')), (0x25, Letter (of_char CHR ''k'') (of_char CHR ''K'')),
     (0x26, Letter (of_char CHR ''l'') (of_char CHR ''L'')), (0x27, Special (of_char CHR '';'') (of_char CHR '':'')),
     (0x28, Special (39) (34)), (0x29, Special (96) (of_char CHR ''~'')),
     (0x2B, Special (92) (of_char CHR ''|'')), (0x2C, Letter (of_char CHR ''z'') (of_char CHR ''Z'')),
     (0x2D, Letter (of_char CHR ''x'') (of_char CHR ''X'')), (0x2E, Letter (of_char CHR ''c'') (of_char CHR ''C'')),
     (0x2F, Letter (of_char CHR ''v'') (of_char CHR ''V'')), (0x30, Letter (of_char CHR ''b'') (of_char CHR ''B'')),
     (0x31, Letter (of_char CHR ''n'') (of_char CHR ''N'')), (0x32, Letter (of_char CHR ''m'') (of_char CHR ''M'')),
     (0x33, Special (of_char CHR '','') (of_char CHR ''<'')), (0x34, Special (of_char CHR ''.'') (of_char CHR ''>'')),
     (0x35, Special (of_char CHR ''/'') (of_char CHR ''?'')),
     (ENTER_IN, Ascii ASCII_LINE_FEED), (TAB_IN, Ascii ASCII_HORIZONTAL_TAB), (BACKSPACE_IN, Ascii ASCII_BACKSPACE),
     (ESCAPE_IN, Ascii ASCII_ESCAPE), (SPACE_IN, Ascii ASCII_SPACE), (LEFT_SHIFT_IN, ShiftIn), (RIGHT_SHIFT_IN, ShiftIn),
     (LEFT_SHIFT_OUT, ShiftOut), (RIGHT_SHIFT_OUT, ShiftOut), (CAPSLOCK_IN, CapsLock)]"

definition key_action :: "key option \<Rightarrow> Keyboard \<Rightarrow> u8 \<times> Keyboard" where
  "key_action k kb =
     (case k of
        Some (Letter chr mod_chr) \<Rightarrow> (mod_letter kb chr mod_chr, kb)
      | Some (Special chr mod_chr) \<Rightarrow> (mod_special kb chr mod_chr, kb)
      | Some (Ascii chr) \<Rightarrow> (chr, kb)
      | Some ShiftIn \<Rightarrow> (ASCII_SHIFT_IN, kb\<lparr>shift := True\<rparr>)
      | Some ShiftOut \<Rightarrow> (ASCII_SHIFT_OUT, kb\<lparr>shift := False\<rparr>)
      | Some CapsLock \<Rightarrow> (ASCII_NULL_CHAR, kb\<lparr>capslock := \<not> capslock kb\<rparr>)
      | None \<Rightarrow> (ASCII_NULL_CHAR, kb))"

definition key_of :: "u8 \<Rightarrow> key option" where
  "key_of code = map_of scan_table code"

definition read_key :: "'d bus \<Rightarrow> Keyboard \<Rightarrow> 'd \<Rightarrow> u8 \<times> Keyboard \<times> 'd" where
  "read_key hw kb d =
     (let (code, d1) = ps2_read_data hw d;
          (chr, kb1) = key_action (key_of code) kb
      in (chr, kb1, d1))"

section \<open>The table\<close>

definition is_lower :: "u8 \<Rightarrow> bool" where
  "is_lower c \<longleftrightarrow> 97 \<le> c \<and> c \<le> 122"

lemma table_letters: "list_all (\<lambda>(code, k). case k of Letter c C \<Rightarrow> is_lower c \<and> C = c - 32 | _ \<Rightarrow> True) scan_table"
  by code_simp

lemma table_codes: "distinct (map fst scan_table)"
  by code_simp

lemma key_of_in_table: "key_of code = Some k \<longleftrightarrow> (code, k) \<in> set scan_table"
  unfolding key_of_def using table_codes by simp

lemma letter_keys:
  assumes "key_of code = Some (Letter c C)"
  shows "is_lower c" "C = c - 32"
  using assms table_letters by (auto simp: key_of_in_table list_all_iff)

lemma every_letter_has_a_key:
  "list_all (\<lambda>n. list_ex (\<lambda>(code, k). k = Letter (of_nat n) (of_nat n - 32)) scan_table) [97..<123]"
  by code_simp

lemma table_answers:
  "list_all (\<lambda>(code, k). case k of Letter c C \<Rightarrow> c \<noteq> 0 \<and> C \<noteq> 0 \<and> c < 128 \<and> C < 128
     | Special c C \<Rightarrow> c \<noteq> 0 \<and> C \<noteq> 0 \<and> c < 128 \<and> C < 128 | Ascii c \<Rightarrow> c \<noteq> 0 \<and> c < 128 | _ \<Rightarrow> True) scan_table"
  by code_simp

lemma key_action_answer:
  assumes "key_of code = k"
  shows "fst (key_action k kb) = 0 \<longleftrightarrow> k = None \<or> k = Some CapsLock" "fst (key_action k kb) < 128"
proof -
  have *: "(case k' of Letter c C \<Rightarrow> c \<noteq> 0 \<and> C \<noteq> 0 \<and> c < 128 \<and> C < 128
     | Special c C \<Rightarrow> c \<noteq> 0 \<and> C \<noteq> 0 \<and> c < 128 \<and> C < 128 | Ascii c \<Rightarrow> c \<noteq> 0 \<and> c < 128 | _ \<Rightarrow> True)"
    if "k = Some k'" for k'
    using that assms table_answers unfolding list_all_iff by (auto simp: key_of_in_table)
  show "fst (key_action k kb) = 0 \<longleftrightarrow> k = None \<or> k = Some CapsLock" "fst (key_action k kb) < 128"
    using * by (auto simp: key_action_def mod_letter_def mod_special_def split: option.splits key.splits)
qed

section \<open>Modifiers\<close>

definition kb_step :: "u8 \<Rightarrow> Keyboard \<Rightarrow> Keyboard" where
  "kb_step code kb = snd (key_action (key_of code) kb)"

text \<open>The specification remembers which of the two shift keys are down.\<close>

record held =
  left :: bool
  right :: bool

definition held_step :: "u8 \<Rightarrow> held \<Rightarrow> held" where
  "held_step code h =
     (if code = 0x2a then h\<lparr>left := True\<rparr> else if code = 0xaa then h\<lparr>left := False\<rparr>
      else if code = 0x36 then h\<lparr>right := True\<rparr> else if code = 0xb6 then h\<lparr>right := False\<rparr> else h)"

text \<open>The codes a keyboard sends when the two shift keys are never down together: a key is released
  only when it is down.\<close>

fun one_shift_at_a_time :: "held \<Rightarrow> u8 list \<Rightarrow> bool" where
  "one_shift_at_a_time h [] = True"
| "one_shift_at_a_time h (code # codes) =
     ((code = 0x2a \<longrightarrow> \<not> right h) \<and> (code = 0x36 \<longrightarrow> \<not> left h) \<and>
      (code = 0xaa \<longrightarrow> left h) \<and> (code = 0xb6 \<longrightarrow> right h) \<and>
      one_shift_at_a_time (held_step code h) codes)"

lemma modifier_keys:
  "key_of code = Some ShiftIn \<longleftrightarrow> code = 0x2a \<or> code = 0x36"
  "key_of code = Some ShiftOut \<longleftrightarrow> code = 0xaa \<or> code = 0xb6"
  "key_of code = Some CapsLock \<longleftrightarrow> code = 0x3a"
  unfolding key_of_in_table by (auto simp: scan_table_def)

lemma kb_step_simps:
  "shift (kb_step code kb) =
     (if code = 0x2a \<or> code = 0x36 then True else if code = 0xaa \<or> code = 0xb6 then False else shift kb)"
  "capslock (kb_step code kb) = (capslock kb \<noteq> (code = 0x3a))"
proof -
  have "shift (kb_step code kb) =
     (if key_of code = Some ShiftIn then True else if key_of code = Some ShiftOut then False else shift kb)"
    "capslock (kb_step code kb) = (capslock kb \<noteq> (key_of code = Some CapsLock))"
    by (auto simp: kb_step_def key_action_def split: option.splits key.splits)
  then show "shift (kb_step code kb) =
     (if code = 0x2a \<or> code = 0x36 then True else if code = 0xaa \<or> code = 0xb6 then False else shift kb)"
    "capslock (kb_step code kb) = (capslock kb \<noteq> (code = 0x3a))"
    by (simp_all add: modifier_keys)
qed

lemma shift_tracks_held:
  assumes "one_shift_at_a_time h codes" and "shift kb \<longleftrightarrow> left h \<or> right h" and "\<not> (left h \<and> right h)"
  shows "shift (fold kb_step codes kb) \<longleftrightarrow> left (fold held_step codes h) \<or> right (fold held_step codes h)"
  using assms
proof (induction codes arbitrary: kb h)
  case (Cons code codes)
  have "one_shift_at_a_time (held_step code h) codes" using Cons.prems(1) by simp
  moreover have "shift (kb_step code kb) \<longleftrightarrow> left (held_step code h) \<or> right (held_step code h)"
    "\<not> (left (held_step code h) \<and> right (held_step code h))"
    using Cons.prems by (auto simp: kb_step_simps held_step_def)
  ultimately show ?case using Cons.IH by simp
qed simp

lemma capslock_parity:
  "capslock (fold kb_step codes kb) \<longleftrightarrow> (capslock kb \<noteq> odd (count_list codes 0x3a))"
  by (induction codes arbitrary: kb) (auto simp: kb_step_simps)

section \<open>Properties\<close>

text \<open>
  A letter key of \<^verbatim>\<open>Keyboard::read_key\<close> yields the upper-case letter exactly when one of shift and
  caps lock is on, the lower-case one otherwise, and leaves the modifiers alone; every letter of the
  alphabet has a key.\<close>

theorem read_key_letter:
  assumes "ps2_read_data hw d = (code, d1)" and "key_of code = Some (Letter c C)"
    and "read_key hw kb d = (chr, kb', d')"
  shows "is_lower c \<and> chr = (if shift kb \<noteq> capslock kb then c - 32 else c) \<and> kb' = kb \<and> d' = d1 \<and>
    (\<forall>n \<in> {97..<123}. \<exists>code'. key_of code' = Some (Letter (of_nat n) (of_nat n - 32)))"
proof -
  have "\<exists>code'. key_of code' = Some (Letter (of_nat n) (of_nat n - 32))" if "n \<in> {97..<123}" for n
  proof -
    have "list_ex (\<lambda>(code, k). k = Letter (of_nat n) (of_nat n - 32)) scan_table"
      using every_letter_has_a_key [unfolded list_all_iff set_upt] that by (rule bspec)
    then show ?thesis by (auto simp: key_of_in_table list_ex_iff)
  qed
  then show ?thesis
    using assms letter_keys [OF assms(2)] by (auto simp: read_key_def key_action_def mod_letter_def)
qed

definition queue_bus :: "u8 list bus" where
  "queue_bus = \<lparr>port_in = (\<lambda>p d. case d of [] \<Rightarrow> (0, []) | c # cs \<Rightarrow> if p = 0x60 then (c, cs) else (0, d)),
     port_out = (\<lambda>p v d. d)\<rparr>"

lemma queue_bus_read: "ps2_read_data queue_bus (c # cs) = (c, cs)"
  by (simp add: ps2_read_data_def inb_def queue_bus_def)

theorem read_key_letter_witness:
  "read_key queue_bus \<lparr>shift = True, capslock = False\<rparr> [0x1E] = (65, \<lparr>shift = True, capslock = False\<rparr>, [])"
proof -
  have k: "key_of 0x1E = Some (Letter 97 65)"
    unfolding key_of_in_table by (simp add: scan_table_def)
  obtain chr kb' d' where r: "read_key queue_bus \<lparr>shift = True, capslock = False\<rparr> [0x1E] = (chr, kb', d')"
    by (metis prod_cases3)
  show ?thesis using read_key_letter [OF queue_bus_read k r] r by simp
qed

text \<open>
  C25: over any sequence of scan codes in which the two shift keys are never down together, the
  keyboard's \<^verbatim>\<open>shift\<close> flag says whether a shift key is held, and \<^verbatim>\<open>capslock\<close> has changed exactly when the
  key was pressed an odd number of times.\<close>

theorem keyboard_tracks_modifiers:
  assumes "one_shift_at_a_time \<lparr>left = False, right = False\<rparr> codes"
  shows "(shift (fold kb_step codes Keyboard_init) \<longleftrightarrow>
      left (fold held_step codes \<lparr>left = False, right = False\<rparr>) \<or>
      right (fold held_step codes \<lparr>left = False, right = False\<rparr>)) \<and>
    (capslock (fold kb_step codes Keyboard_init) \<longleftrightarrow> odd (count_list codes 0x3a))"
  using shift_tracks_held [OF assms] capslock_parity [of codes Keyboard_init] by (simp add: Keyboard_init_def)

theorem keyboard_tracks_modifiers_witness:
  "shift (fold kb_step [0x2a, 0x1E, 0xaa, 0x36] Keyboard_init) \<and>
   \<not> capslock (fold kb_step [0x2a, 0x1E, 0xaa, 0x36] Keyboard_init)"
  using keyboard_tracks_modifiers [of "[0x2a, 0x1E, 0xaa, 0x36]"] by (simp add: held_step_def)

text \<open>
  With both shift keys down, releasing one of them clears the flag although the other is still
  held.\<close>

theorem shift_lost_on_release:
  "\<not> shift (fold kb_step [0x2a, 0x36, 0xaa] Keyboard_init) \<and>
   right (fold held_step [0x2a, 0x36, 0xaa] \<lparr>left = False, right = False\<rparr>)"
  by (simp add: kb_step_simps held_step_def)

end
