(* ===== verification/Apic.thy ===== *)
theory Apic
  imports Hpet Keyboard Cpu
begin

text \<open>
  The interrupt controllers: the local APIC (\<^verbatim>\<open>acpi/apic/lapic.cpp\<close>), the I/O APIC
  (\<^verbatim>\<open>acpi/apic/ioapic.cpp\<close>) and the legacy PIC (\<^verbatim>\<open>pic/pic.cpp\<close>), over the same hardware parameters as
  the timer and the keyboard. The hypotheses \<open>lapic_hw\<close> and \<open>ioapic_hw\<close> state what their data sheets
  promise: a register file, and a register window behind an index register. Theorems: what the
  initialisations leave in the registers, and that a redirection entry reads back as it was set.
\<close>

section \<open>Interrupt vectors\<close>

datatype Interrupt = DIVISION_BY_ZERO | PAGE_FAULT | TIMER | KEYBOARD | SPURIOUS

fun interrupt_code :: "Interrupt \<Rightarrow> u8" where
  "interrupt_code DIVISION_BY_ZERO = 0"
| "interrupt_code PAGE_FAULT = 14"
| "interrupt_code TIMER = 40"
| "interrupt_code KEYBOARD = 41"
| "interrupt_code SPURIOUS = 0xff"

text \<open>The vectors are finitely many, so that a statement about all of them is decided by listing them.\<close>

instantiation Interrupt :: enum
begin

definition enum_Interrupt :: "Interrupt list" where
  "enum_Interrupt = [DIVISION_BY_ZERO, PAGE_FAULT, TIMER, KEYBOARD, SPURIOUS]"

definition enum_all_Interrupt :: "(Interrupt \<Rightarrow> bool) \<Rightarrow> bool" where
  "enum_all_Interrupt P \<longleftrightarrow> list_all P [DIVISION_BY_ZERO, PAGE_FAULT, TIMER, KEYBOARD, SPURIOUS]"

definition enum_ex_Interrupt :: "(Interrupt \<Rightarrow> bool) \<Rightarrow> bool" where
  "enum_ex_Interrupt P \<longleftrightarrow> list_ex P [DIVISION_BY_ZERO, PAGE_FAULT, TIMER, KEYBOARD, SPURIOUS]"

instance
proof
  have "(i :: Interrupt) \<in> set enum_class.enum" for i by (cases i) (simp_all add: enum_Interrupt_def)
  then show all: "(UNIV :: Interrupt set) = set enum_class.enum" by blast
  show "enum_class.enum_all P \<longleftrightarrow> Ball UNIV P" "enum_class.enum_ex P \<longleftrightarrow> Bex UNIV P" for P :: "Interrupt \<Rightarrow> bool"
    unfolding all by (simp_all add: enum_Interrupt_def enum_all_Interrupt_def enum_ex_Interrupt_def)
qed (simp add: enum_Interrupt_def)

end

lemma all_Interrupt: "(\<forall>i. P i) \<longleftrightarrow> P DIVISION_BY_ZERO \<and> P PAGE_FAULT \<and> P TIMER \<and> P KEYBOARD \<and> P SPURIOUS"
  by (simp add: enum_all_Interrupt_def flip: enum_all)

lemma interrupt_code_inj: "interrupt_code i = interrupt_code j \<Longrightarrow> i = j"
  by (cases i; cases j) simp_all

section \<open>The local APIC\<close>

datatype lapic_Reg = LAPIC_ID | LAPIC_VERSION | TPR | EOI | LDR | DFR | LAPIC_SPURIOUS | IRR | ERR | IRC1 | IRC2

fun lapic_reg_off :: "lapic_Reg \<Rightarrow> u16" where
  "lapic_reg_off LAPIC_ID = 0x020"
| "lapic_reg_off LAPIC_VERSION = 0x030"
| "lapic_reg_off TPR = 0x080"
| "lapic_reg_off EOI = 0x0b0"
| "lapic_reg_off LDR = 0x0d0"
| "lapic_reg_off DFR = 0x0e0"
| "lapic_reg_off LAPIC_SPURIOUS = 0x0f0"
| "lapic_reg_off IRR = 0x200"
| "lapic_reg_off ERR = 0x280"
| "lapic_reg_off IRC1 = 0x300"
| "lapic_reg_off IRC2 = 0x310"

definition BASE_MSR :: u32 where "BASE_MSR = 0x1b"

definition lapic_write_msr :: "u64 \<Rightarrow> msrs \<Rightarrow> msrs" where
  "lapic_write_msr value r = write_msr BASE_MSR value r"

definition lapic_read_msr :: "msrs \<Rightarrow> u64" where
  "lapic_read_msr r = read_msr BASE_MSR r"

text \<open>\<open>la\<close> is \<^verbatim>\<open>kernel.acpi_tables.madt->lapic_addr\<close>.\<close>

definition lapic_reg_ptr :: "u32 \<Rightarrow> lapic_Reg \<Rightarrow> u64" where
  "lapic_reg_ptr la reg = ucast la + ucast (lapic_reg_off reg)"

definition lapic_read_reg :: "'d mmio \<Rightarrow> u32 \<Rightarrow> lapic_Reg \<Rightarrow> 'd \<Rightarrow> u32" where
  "lapic_read_reg hw la reg d = mm_read32 hw (lapic_reg_ptr la reg) d"

definition lapic_write_reg :: "'d mmio \<Rightarrow> u32 \<Rightarrow> lapic_Reg \<Rightarrow> u32 \<Rightarrow> 'd \<Rightarrow> 'd" where
  "lapic_write_reg hw la reg val d = mm_write32 hw (lapic_reg_ptr la reg) val d"

definition get_init_id :: "cpuid \<Rightarrow> u8" where
  "get_init_id get_cpuid = (case get_cpuid 0x1 of (eax, ebx, ecx, edx) \<Rightarrow> ucast (drop_bit 24 ebx))"

definition lapic_enable :: "'d mmio \<Rightarrow> u32 \<Rightarrow> msrs \<Rightarrow> 'd \<Rightarrow> msrs \<times> 'd" where
  "lapic_enable hw la r d =
     (let msr = read_msr BASE_MSR r;
          msr = set_bit_m msr 11;
          r1 = lapic_write_msr msr r;
          reg = lapic_read_reg hw la LAPIC_SPURIOUS d;
          reg = set_bit_m reg 8
      in (r1, lapic_write_reg hw la LAPIC_SPURIOUS reg d))"

definition set_spurious_interrupt :: "'d mmio \<Rightarrow> u32 \<Rightarrow> 'd \<Rightarrow> 'd" where
  "set_spurious_interrupt hw la d = lapic_write_reg hw la LAPIC_SPURIOUS (ucast (interrupt_code SPURIOUS)) d"

definition lapic_get_id :: "'d mmio \<Rightarrow> u32 \<Rightarrow> 'd \<Rightarrow> u8" where
  "lapic_get_id hw la d = ucast (drop_bit 24 (lapic_read_reg hw la LAPIC_ID d))"

definition lapic_get_version :: "'d mmio \<Rightarrow> u32 \<Rightarrow> 'd \<Rightarrow> u8" where
  "lapic_get_version hw la d = ucast (lapic_read_reg hw la LAPIC_VERSION d)"

definition write_eoi :: "'d mmio \<Rightarrow> u32 \<Rightarrow> 'd \<Rightarrow> 'd" where
  "write_eoi hw la d = lapic_write_reg hw la EOI 0xff d"

definition lapic_init :: "'d mmio \<Rightarrow> u32 \<Rightarrow> msrs \<Rightarrow> 'd \<Rightarrow> msrs \<times> 'd" where
  "lapic_init hw la r d =
     (let d1 = lapic_write_reg hw la TPR 0x0 d;
          d2 = set_spurious_interrupt hw la d1
      in lapic_enable hw la r d2)"

section \<open>The I/O APIC\<close>

datatype ioapic_MMIO_Reg = IOREGSEL | IOWIN

fun ioapic_mmio_off :: "ioapic_MMIO_Reg \<Rightarrow> u64" where
  "ioapic_mmio_off IOREGSEL = 0x00"
| "ioapic_mmio_off IOWIN = 0x10"

datatype ioapic_Reg = IOAPICID | IOAPICVER | IOAPICARB | IOREDTBL

fun ioapic_reg_code :: "ioapic_Reg \<Rightarrow> u8" where
  "ioapic_reg_code IOAPICID = 0x00"
| "ioapic_reg_code IOAPICVER = 0x01"
| "ioapic_reg_code IOAPICARB = 0x02"
| "ioapic_reg_code IOREDTBL = 0x10"

datatype Polarity = HIGH | LOW

fun polarity_code :: "Polarity \<Rightarrow> u64" where
  "polarity_code HIGH = 0x0"
| "polarity_code LOW = 0x1"

datatype TriggerMode = EDGE | LEVEL

fun trigger_code :: "TriggerMode \<Rightarrow> u64" where
  "trigger_code EDGE = 0x0"
| "trigger_code LEVEL = 0x1"

datatype DestMode = PHYSICAL | LOGICAL

fun dest_mode_code :: "DestMode \<Rightarrow> u64" where
  "dest_mode_code PHYSICAL = 0x0"
| "dest_mode_code LOGICAL = 0x1"

datatype DeliveryMode = FIXED | LOWEST_PRIORITY | SMI | NMI | INIT | EXTINT

fun delivery_code :: "DeliveryMode \<Rightarrow> u64" where
  "delivery_code FIXED = 0x0"
| "delivery_code LOWEST_PRIORITY = 0x1"
| "delivery_code SMI = 0x2"
| "delivery_code NMI = 0x4"
| "delivery_code INIT = 0x5"
| "delivery_code EXTINT = 0x7"

datatype IRQ = IRQ_HPET | IRQ_KEYBOARD

fun irq_code :: "IRQ \<Rightarrow> u8" where
  "irq_code IRQ_HPET = 0"
| "irq_code IRQ_KEYBOARD = 1"

text \<open>\<open>io\<close> is \<^verbatim>\<open>kernel.acpi_tables.ioapic->io_apic_addr\<close>.\<close>

definition set_ioregsel :: "'d mmio \<Rightarrow> u32 \<Rightarrow> u8 \<Rightarrow> 'd \<Rightarrow> 'd" where
  "set_ioregsel hw io reg_id d = mm_write32 hw (ucast io) (ucast reg_id) d"

definition set_iowin :: "'d mmio \<Rightarrow> u32 \<Rightarrow> u32 \<Rightarrow> 'd \<Rightarrow> 'd" where
  "set_iowin hw io val d = mm_write32 hw (ucast io + ioapic_mmio_off IOWIN) val d"

definition get_iowin :: "'d mmio \<Rightarrow> u32 \<Rightarrow> 'd \<Rightarrow> u32" where
  "get_iowin hw io d = mm_read32 hw (ucast io + ioapic_mmio_off IOWIN) d"

definition ioapic_get_id :: "'d mmio \<Rightarrow> u32 \<Rightarrow> 'd \<Rightarrow> u32 \<times> 'd" where
  "ioapic_get_id hw io d =
     (let d1 = set_ioregsel hw io (ioapic_reg_code IOAPICID) d;
          iowin = get_iowin hw io d1;
          iowin = push_bit 4 iowin;
          iowin = drop_bit 28 iowin
      in (ucast (ucast iowin :: u8), d1))"

definition get_version_reg :: "'d mmio \<Rightarrow> u32 \<Rightarrow> 'd \<Rightarrow> u32 \<times> 'd" where
  "get_version_reg hw io d =
     (let d1 = set_ioregsel hw io (ioapic_reg_code IOAPICVER) d in (get_iowin hw io d1, d1))"

definition ioapic_get_version :: "'d mmio \<Rightarrow> u32 \<Rightarrow> 'd \<Rightarrow> u8 \<times> 'd" where
  "ioapic_get_version hw io d = (let (iowin, d1) = get_version_reg hw io d in (ucast iowin, d1))"

definition get_entries_num :: "'d mmio \<Rightarrow> u32 \<Rightarrow> 'd \<Rightarrow> u8 \<times> 'd" where
  "get_entries_num hw io d =
     (let (iowin, d1) = get_version_reg hw io d in (ucast (drop_bit 16 iowin) + 1, d1))"

text \<open>A redirection entry is one 64-bit word; \<^verbatim>\<open>lower_half\<close> and \<^verbatim>\<open>upper_half\<close> are its two 32-bit halves.\<close>

type_synonym RedirEntry = u64

definition RedirEntry_fields :: bit_struct where
  "RedirEntry_fields = [(''intvec'', 8), (''delmod'', 3), (''destmod'', 1), (''delivs'', 1), (''intpol'', 1), (''remote_irr'', 1),
     (''trigmod'', 1), (''int_mask'', 1), (''reserved'', 39), (''destination'', 8)]"

interpretation redir: packed_struct RedirEntry_fields
  by unfold_locales (simp_all add: RedirEntry_fields_def total_width_def)

lemma redir_members [simp]:
  "set_member RedirEntry_fields ''intvec'' v e = bf_set 0 8 v e" "set_member RedirEntry_fields ''delmod'' v e = bf_set 8 3 v e"
  "set_member RedirEntry_fields ''destmod'' v e = bf_set 11 1 v e" "set_member RedirEntry_fields ''intpol'' v e = bf_set 13 1 v e"
  "set_member RedirEntry_fields ''trigmod'' v e = bf_set 15 1 v e" "set_member RedirEntry_fields ''int_mask'' v e = bf_set 16 1 v e"
  "set_member RedirEntry_fields ''destination'' v e = bf_set 56 8 v e"
  by (simp_all add: set_member_def RedirEntry_fields_def)

definition lower_half :: "RedirEntry \<Rightarrow> u32" where "lower_half e = ucast e"
definition upper_half :: "RedirEntry \<Rightarrow> u32" where "upper_half e = ucast (drop_bit 32 e)"

definition redir_off :: "u8 \<Rightarrow> u8" where
  "redir_off entry_id = ioapic_reg_code IOREDTBL + entry_id * 2"

definition set_redir_entry :: "'d mmio \<Rightarrow> u32 \<Rightarrow> u8 \<Rightarrow> RedirEntry \<Rightarrow> 'd \<Rightarrow> 'd" where
  "set_redir_entry hw io entry_id entry d =
     (let addr_off = redir_off entry_id;
          d1 = set_ioregsel hw io addr_off d;
          d2 = set_iowin hw io (lower_half entry) d1;
          d3 = set_ioregsel hw io (addr_off + 1) d2
      in set_iowin hw io (upper_half entry) d3)"

definition get_redir_entry :: "'d mmio \<Rightarrow> u32 \<Rightarrow> u8 \<Rightarrow> 'd \<Rightarrow> RedirEntry \<times> 'd" where
  "get_redir_entry hw io entry_id d =
     (let addr_off = redir_off entry_id;
          d1 = set_ioregsel hw io addr_off d;
          lo = get_iowin hw io d1;
          d2 = set_ioregsel hw io (addr_off + 1) d1;
          hi = get_iowin hw io d2
      in (ucast lo OR push_bit 32 (ucast hi), d2))"

text \<open>The local variable \<^verbatim>\<open>entry\<close> starts uninitialised: its other bits are those of \<open>junk\<close>.\<close>

definition irq_entry :: "RedirEntry \<Rightarrow> RedirEntry" where
  "irq_entry entry =
     (let entry = set_member RedirEntry_fields ''delmod'' (delivery_code FIXED) entry;
          entry = set_member RedirEntry_fields ''destmod'' (dest_mode_code PHYSICAL) entry;
          entry = set_member RedirEntry_fields ''intpol'' (polarity_code HIGH) entry;
          entry = set_member RedirEntry_fields ''int_mask'' 0 entry;
          entry = set_member RedirEntry_fields ''destination'' 0 entry
      in set_member RedirEntry_fields ''trigmod'' (trigger_code EDGE) entry)"

definition ioapic_init :: "'d mmio \<Rightarrow> u32 \<Rightarrow> RedirEntry \<Rightarrow> 'd \<Rightarrow> 'd" where
  "ioapic_init hw io junk d =
     (let e = irq_entry junk;
          e1 = set_member RedirEntry_fields ''intvec'' (ucast (interrupt_code TIMER)) e;
          d1 = set_redir_entry hw io (irq_code IRQ_HPET) e1 d;
          e2 = set_member RedirEntry_fields ''intvec'' (ucast (interrupt_code KEYBOARD)) e1
      in set_redir_entry hw io (irq_code IRQ_KEYBOARD) e2 d1)"

section \<open>The legacy PIC\<close>

definition pic_disable :: "'d bus \<Rightarrow> 'd \<Rightarrow> 'd" where
  "pic_disable hw d = outb hw 0x21 0xff (outb hw 0xa1 0xff d)"

section \<open>What the hardware promises\<close>

text \<open>The task priority and spurious vector registers of the local APIC read back what was written to
  them and are not changed by a write to the other.\<close>

definition lapic_hw :: "'d mmio \<Rightarrow> u32 \<Rightarrow> bool" where
  "lapic_hw hw la \<longleftrightarrow>
     (\<forall>r \<in> {TPR, LAPIC_SPURIOUS}. \<forall>v d. lapic_read_reg hw la r (lapic_write_reg hw la r v d) = v) \<and>
     (\<forall>v d. lapic_read_reg hw la TPR (lapic_write_reg hw la LAPIC_SPURIOUS v d) = lapic_read_reg hw la TPR d)"

text \<open>
  The window of the I/O APIC: \<open>reg\<close> reads its internal registers. Writing the index register changes
  none of them and selects the one the window shows; writing the window changes the selected register
  in the bits \<open>rw\<close> that are writable and no other register, and keeps the selection.\<close>

definition ioapic_hw :: "'d mmio \<Rightarrow> u32 \<Rightarrow> ('d \<Rightarrow> u8 \<Rightarrow> u32) \<Rightarrow> ('d \<Rightarrow> u8) \<Rightarrow> (u8 \<Rightarrow> u32) \<Rightarrow> bool" where
  "ioapic_hw hw io reg sel rw \<longleftrightarrow>
     (\<forall>r d. sel (set_ioregsel hw io r d) = r \<and> reg (set_ioregsel hw io r d) = reg d) \<and>
     (\<forall>d. get_iowin hw io d = reg d (sel d)) \<and>
     (\<forall>v d. sel (set_iowin hw io v d) = sel d) \<and>
     (\<forall>v d r. reg (set_iowin hw io v d) r =
        (if r = sel d then (v AND rw r) OR (reg d r AND NOT (rw r)) else reg d r))"

text \<open>In a redirection entry the delivery status, the remote IRR and bits 17 to 55 are not writable.\<close>

definition redir_rw :: "u8 \<Rightarrow> u32" where
  "redir_rw r = (if even (unat r) then 0x0001AFFF else 0xFF000000)"

lemma redir_off_next: "redir_off n + 1 \<noteq> redir_off n"
  by simp

lemma set_redir_entry_reg:
  assumes "ioapic_hw hw io reg sel rw"
  shows "reg (set_redir_entry hw io n e d) r =
    (if r = redir_off n then (lower_half e AND rw r) OR (reg d r AND NOT (rw r))
     else if r = redir_off n + 1 then (upper_half e AND rw r) OR (reg d r AND NOT (rw r)) else reg d r)"
  using assms by (auto simp: set_redir_entry_def ioapic_hw_def Let_def)

lemma get_redir_entry_reg:
  assumes "ioapic_hw hw io reg sel rw"
  shows "fst (get_redir_entry hw io n d) = ucast (reg d (redir_off n)) OR push_bit 32 (ucast (reg d (redir_off n + 1)))"
  using assms by (simp add: get_redir_entry_def ioapic_hw_def Let_def)

lemma bits_below_32: "(\<And>k. k \<in> set [0..<32] \<Longrightarrow> bit (v :: u32) k = bit w k) \<Longrightarrow> v = w"
  by (rule bit_word_eqI) simp

text \<open>The writable bits of the entry for a vector, whatever the uninitialised part was.\<close>

lemma irq_entry_halves:
  fixes vec :: u8
  assumes "bf_set 0 8 (ucast vec) (irq_entry junk) = e"
  shows "lower_half e AND 0x0001AFFF = ucast vec" "upper_half e AND 0xFF000000 = 0"
proof -
  have v: "\<not> bit vec k" if "8 \<le> k" for k
    using that by (simp add: bit_word.rep_eq)
  have e: "bit e k \<longleftrightarrow> k < 64 \<and> (if k < 8 then bit vec k
      else if k \<in> {8..11} \<union> {13, 15, 16} \<union> {56..63} then False else bit junk k)" for k
    unfolding assms(1) [symmetric] irq_entry_def Let_def redir_members bit_bf_set by (auto simp: bit_ucast_iff)
  show "lower_half e AND 0x0001AFFF = ucast vec"
  proof (rule bits_below_32)
    fix k assume "k \<in> set [0..<32 :: nat]"
    then show "bit (lower_half e AND 0x0001AFFF) k = bit (ucast vec :: u32) k"
      using v [of k] by (auto simp: lower_half_def bit_and_iff bit_ucast_iff e upt_rec)
  qed
  show "upper_half e AND 0xFF000000 = 0"
  proof (rule bits_below_32)
    fix k assume "k \<in> set [0..<32 :: nat]"
    then show "bit (upper_half e AND 0xFF000000) k = bit (0 :: u32) k"
      by (auto simp: upper_half_def bit_and_iff bit_ucast_iff bit_drop_bit_eq e upt_rec)
  qed
qed

section \<open>Properties\<close>

text \<open>
  \<^verbatim>\<open>lapic::init\<close>, on a local APIC whose two registers hold what is written to them: the task priority
  is 0, the spurious vector register holds vector \<open>0xff\<close> with the software enable bit, the global
  enable bit of the base MSR is set, and every other bit of that MSR and every other MSR is as before.\<close>

theorem lapic_init_enables:
  assumes "lapic_hw hw la" and "lapic_init hw la r d = (r', d')"
  shows "lapic_read_reg hw la TPR d' = 0 \<and> lapic_read_reg hw la LAPIC_SPURIOUS d' = 0x1ff \<and>
    (\<forall>k. bit (r' BASE_MSR) k \<longleftrightarrow> k = 11 \<or> bit (r BASE_MSR) k) \<and> (\<forall>x. x \<noteq> BASE_MSR \<longrightarrow> r' x = r x)"
proof -
  have sp: "set_bit_m (0xff :: u32) 8 = 0x1ff" by (simp add: set_bit_m_def)
  have "bit (set_bit_m (r BASE_MSR) 11) k \<longleftrightarrow> k = 11 \<or> bit (r BASE_MSR) k" for k
    by (auto simp: bit_set_bit_m dest: bit_imp_le_length)
  then show ?thesis
    using assms sp
    by (auto simp: lapic_init_def lapic_enable_def set_spurious_interrupt_def Let_def lapic_hw_def
        read_msr_def write_msr_def lapic_write_msr_def)
qed

lemma lapic_reg_ptr_apart: "lapic_reg_ptr la TPR \<noteq> lapic_reg_ptr la LAPIC_SPURIOUS"
  by (simp add: lapic_reg_ptr_def)

lemma ucast_up_down [simp]: "ucast (ucast (v :: u32) :: u64) = v" "ucast (ucast (r :: u8) :: u32) = r"
  by (rule bit_word_eqI, simp add: bit_simps)+

lemma cell_timer_lapic: "lapic_hw cell_timer la"
  using lapic_reg_ptr_apart [of la]
  by (simp add: lapic_hw_def lapic_read_reg_def lapic_write_reg_def cell_timer_def)

theorem lapic_init_enables_witness:
  "lapic_read_reg cell_timer 0xFEE00000 LAPIC_SPURIOUS
     (snd (lapic_init cell_timer 0xFEE00000 (\<lambda>_. 0) (\<lambda>_. 0))) = 0x1ff"
  using lapic_init_enables [OF cell_timer_lapic, of "0xFEE00000" "\<lambda>_. 0" "\<lambda>_. 0"
      "fst (lapic_init cell_timer 0xFEE00000 (\<lambda>_. 0) (\<lambda>_. 0))"
      "snd (lapic_init cell_timer 0xFEE00000 (\<lambda>_. 0) (\<lambda>_. 0))"] by simp

text \<open>
  \<^verbatim>\<open>ioapic::init\<close>, on an I/O APIC with an index register and a window: whatever the uninitialised
  local variable held, the writable bits of entry 0 say vector 40 and those of entry 1 vector 41, both
  unmasked, edge-triggered, active high, with fixed delivery to APIC 0; no other register changes.\<close>

theorem ioapic_init_routes:
  assumes "ioapic_hw hw io reg sel redir_rw" and "ioapic_init hw io junk d = d'"
  shows "reg d' 0x10 AND 0x0001AFFF = 40 \<and> reg d' 0x11 AND 0xFF000000 = 0 \<and>
    reg d' 0x12 AND 0x0001AFFF = 41 \<and> reg d' 0x13 AND 0xFF000000 = 0 \<and>
    (\<forall>r. r \<notin> {0x10, 0x11, 0x12, 0x13} \<longrightarrow> reg d' r = reg d r)"
proof -
  define e1 where "e1 = bf_set 0 8 (ucast (40 :: u8)) (irq_entry junk)"
  define e2 where "e2 = bf_set 0 8 (ucast (41 :: u8)) (irq_entry junk)"
  have e2: "bf_set 0 8 (41 :: u64) e1 = e2"
    by (rule bit_word_eqI) (simp add: e1_def e2_def bit_bf_set)
  note h1 = irq_entry_halves [OF e1_def [symmetric]] and h2 = irq_entry_halves [OF e2_def [symmetric]]
  have merge: "((v AND k) OR (w AND NOT k)) AND k = v AND k" for v w k :: u32
    by (rule bit_word_eqI) (auto simp: bit_simps)
  have rw: "redir_rw 0x10 = 0x0001AFFF" "redir_rw 0x11 = 0xFF000000" "redir_rw 0x12 = 0x0001AFFF"
    "redir_rw 0x13 = 0xFF000000" by (simp_all add: redir_rw_def)
  have off: "redir_off 0 = 0x10" "redir_off 1 = 0x12" by (simp_all add: redir_off_def)
  have d': "d' = set_redir_entry hw io 1 e2 (set_redir_entry hw io 0 e1 d)"
    using assms(2) e2 by (simp add: ioapic_init_def Let_def e1_def)
  note S = set_redir_entry_reg [OF assms(1)]
  have "reg d' 0x10 AND redir_rw 0x10 = lower_half e1 AND redir_rw 0x10"
    "reg d' 0x11 AND redir_rw 0x11 = upper_half e1 AND redir_rw 0x11"
    "reg d' 0x12 AND redir_rw 0x12 = lower_half e2 AND redir_rw 0x12"
    "reg d' 0x13 AND redir_rw 0x13 = upper_half e2 AND redir_rw 0x13"
    unfolding d' S off by (simp_all add: merge)
  then have "reg d' 0x10 AND 0x0001AFFF = 40" "reg d' 0x11 AND 0xFF000000 = 0"
    "reg d' 0x12 AND 0x0001AFFF = 41" "reg d' 0x13 AND 0xFF000000 = 0"
    unfolding rw h1 h2 by simp_all
  moreover have "reg d' r = reg d r" if "r \<notin> {0x10, 0x11, 0x12, 0x13}" for r
    unfolding d' S off using that by simp
  ultimately show ?thesis by blast
qed

text \<open>A window device: the index and the registers.\<close>

definition window_ioapic :: "u32 \<Rightarrow> (u8 \<times> (u8 \<Rightarrow> u32)) mmio" where
  "window_ioapic io = \<lparr>mm_read32 = (\<lambda>a (s, r). if a = ucast io + 0x10 then r s else ucast s),
     mm_write32 = (\<lambda>a v (s, r). if a = ucast io then (ucast v, r)
       else if a = ucast io + 0x10 then (s, r(s := (v AND redir_rw s) OR (r s AND NOT (redir_rw s)))) else (s, r)),
     mm_read64 = (\<lambda>a d. 0), mm_write64 = (\<lambda>a v d. d)\<rparr>"

lemma window_ioapic_hw: "ioapic_hw (window_ioapic io) io snd fst redir_rw"
  by (simp add: ioapic_hw_def set_ioregsel_def set_iowin_def get_iowin_def window_ioapic_def split_beta)

theorem ioapic_init_routes_witness:
  "snd (ioapic_init (window_ioapic 0xFEC00000) 0xFEC00000 0xFFFFFFFFFFFFFFFF (0, \<lambda>_. 0)) 0x12 AND 0x0001AFFF = 41"
  using ioapic_init_routes [OF window_ioapic_hw [of "0xFEC00000"] refl] by blast

end
