(* ===== verification/Descriptors.thy ===== *)
theory Descriptors
  imports Apic
begin

text \<open>
  The descriptor tables: the GDT of \<^verbatim>\<open>gdt/gdt.cpp\<close> with its assembly loader, and the IDT of
  \<^verbatim>\<open>idt/idt.cpp\<close>. The IDT is an array of 16-byte gates in memory that the constructor fills without
  clearing it first. Theorems: what the segment registers select after loading the GDT; every gate the
  constructor installs decodes to its handler, and nothing else of the table is written.
\<close>

section \<open>The global descriptor table\<close>

datatype SegmentSelector = KERNEL_CODE | KERNEL_DATA | USER_CODE | USER_DATA

fun selector_code :: "SegmentSelector \<Rightarrow> u16" where
  "selector_code KERNEL_CODE = 8"
| "selector_code KERNEL_DATA = 16"
| "selector_code USER_CODE = 24"
| "selector_code USER_DATA = 32"

record GDTR =
  gdtr_size :: u16
  gdtr_offset :: u64

record SegmentDescriptor =
  limit0 :: u16
  base0 :: u16
  base1 :: u8
  flags1 :: u8
  limit1_flags2 :: u8
  base2 :: u8

definition descriptor :: "u8 \<Rightarrow> u8 \<Rightarrow> SegmentDescriptor" where
  "descriptor f1 f2 = \<lparr>limit0 = 0, base0 = 0, base1 = 0, flags1 = f1, limit1_flags2 = f2, base2 = 0\<rparr>"

record GDT =
  gdt_null :: SegmentDescriptor
  kernel_code :: SegmentDescriptor
  kernel_data :: SegmentDescriptor
  user_code :: SegmentDescriptor
  user_data :: SegmentDescriptor

definition gdt :: GDT where
  "gdt = \<lparr>gdt_null = descriptor 0x0 0x0, kernel_code = descriptor 0x9a 0xa0, kernel_data = descriptor 0x92 0xa0,
     user_code = descriptor 0x9a 0xa0, user_data = descriptor 0x92 0xa0\<rparr>"

text \<open>The structure is aligned to \<open>0x1000\<close>, so its size is \<open>0x1000\<close>.\<close>

definition gdtr :: "u64 \<Rightarrow> GDTR" where
  "gdtr gdt_addr = \<lparr>gdtr_size = 0x1000 - 1, gdtr_offset = gdt_addr\<rparr>"

text \<open>The registers \<^verbatim>\<open>__load_gdt\<close> sets.\<close>

record seg_regs =
  reg_gdtr :: GDTR
  cs :: u16
  ds :: u16
  es :: u16
  fs :: u16
  gs :: u16
  ss :: u16

definition load_gdt :: "GDTR \<Rightarrow> seg_regs \<Rightarrow> seg_regs" where
  "load_gdt gdtr_v r = r\<lparr>reg_gdtr := gdtr_v, ds := 0x10, es := 0x10, fs := 0x10, gs := 0x10, ss := 0x10, cs := 0x08\<rparr>"

definition gdt_init :: "u64 \<Rightarrow> seg_regs \<Rightarrow> u64 \<times> seg_regs" where
  "gdt_init gdt_addr r = (gdt_addr, load_gdt (gdtr gdt_addr) r)"

text \<open>What a selector selects: the entry at its index.\<close>

definition gdt_entry :: "GDT \<Rightarrow> u16 \<Rightarrow> SegmentDescriptor option" where
  "gdt_entry g sel =
     (let i = unat sel div 8
      in if i = 0 then Some (gdt_null g) else if i = 1 then Some (kernel_code g)
         else if i = 2 then Some (kernel_data g) else if i = 3 then Some (user_code g)
         else if i = 4 then Some (user_data g) else None)"

definition seg_present :: "SegmentDescriptor \<Rightarrow> bool" where "seg_present d = bit (flags1 d) 7"
definition seg_dpl :: "SegmentDescriptor \<Rightarrow> u8" where "seg_dpl d = take_bit 2 (drop_bit 5 (flags1 d))"
definition seg_is_code :: "SegmentDescriptor \<Rightarrow> bool" where "seg_is_code d = bit (flags1 d) 3"
definition seg_long :: "SegmentDescriptor \<Rightarrow> bool" where "seg_long d = bit (limit1_flags2 d) 5"

section \<open>The interrupt descriptor table\<close>

datatype Gate = CALL_GATE | INTERRUPT_GATE | TRAP_GATE

fun gate_code :: "Gate \<Rightarrow> u8" where
  "gate_code CALL_GATE = 12"
| "gate_code INTERRUPT_GATE = 14"
| "gate_code TRAP_GATE = 15"

definition ALL_IDT_ENTRIES :: u64 where "ALL_IDT_ENTRIES = 256"

definition sizeof_idt_Entry :: u64 where "sizeof_idt_Entry = 16"

record IDTR =
  idtr_limit :: u16
  idtr_base_addr :: u64

definition idt_entry_ptr :: "u64 \<Rightarrow> Interrupt \<Rightarrow> u64" where
  "idt_entry_ptr idt index = idt + ucast (interrupt_code index) * sizeof_idt_Entry"

text \<open>Byte 5 of a gate holds the gate type in its low four bits and the present bit at its top.\<close>

definition add_int :: "u64 \<Rightarrow> Gate \<Rightarrow> Interrupt \<Rightarrow> u64 \<Rightarrow> mem \<Rightarrow> mem" where
  "add_int idt gate index handler m =
     (let entry = idt_entry_ptr idt index;
          m = m(entry + 5 := m (entry + 5) OR 0x80);
          m = m(entry + 5 := (m (entry + 5) AND 0xF0) OR gate_code gate);
          m = write16 m (entry + 2) (selector_code KERNEL_CODE);
          offset = handler;
          m = write16 m entry (ucast (offset AND 0xffff));
          offset = drop_bit 16 offset;
          m = write16 m (entry + 6) (ucast (offset AND 0xffff));
          offset = drop_bit 16 offset
      in write32 m (entry + 8) (ucast (offset AND 0xffffffff)))"

definition load_idtr :: "u64 \<Rightarrow> IDTR" where
  "load_idtr idt = \<lparr>idtr_limit = ucast (sizeof_idt_Entry * ALL_IDT_ENTRIES), idtr_base_addr = idt\<rparr>"

text \<open>The addresses of the five handlers.\<close>

record handlers =
  h_divide_by_zero :: u64
  h_page_fault :: u64
  h_timer :: u64
  h_keyboard :: u64
  h_spurious :: u64

definition IDT_init :: "u64 \<Rightarrow> handlers \<Rightarrow> mem \<Rightarrow> mem \<times> IDTR" where
  "IDT_init idt h m =
     (let m = add_int idt TRAP_GATE DIVISION_BY_ZERO (h_divide_by_zero h) m;
          m = add_int idt INTERRUPT_GATE PAGE_FAULT (h_page_fault h) m;
          m = add_int idt INTERRUPT_GATE TIMER (h_timer h) m;
          m = add_int idt INTERRUPT_GATE KEYBOARD (h_keyboard h) m;
          m = add_int idt INTERRUPT_GATE SPURIOUS (h_spurious h) m
      in (m, load_idtr idt))"

text \<open>The processor's reading of a gate.\<close>

definition gate_offset :: "mem \<Rightarrow> u64 \<Rightarrow> u64" where
  "gate_offset m e = ucast (read16 m e) OR push_bit 16 (ucast (read16 m (e + 6))) OR
     push_bit 32 (ucast (read32 m (e + 8)))"

definition gate_is :: "mem \<Rightarrow> u64 \<Rightarrow> Gate \<Rightarrow> u64 \<Rightarrow> bool" where
  "gate_is m e gate handler \<longleftrightarrow> gate_offset m e = handler \<and> read16 m (e + 2) = 8 \<and>
     bit (m (e + 5)) 7 \<and> m (e + 5) AND 0xF = gate_code gate"

section \<open>Gates\<close>

lemma read16_bytes: "read16 m p = ucast (m p) OR push_bit 8 (ucast (m (p + 1)))"
  by (simp add: read16_def eval_nat_numeral)

lemma read32_bytes:
  "read32 m p = ucast (m p) OR push_bit 8 (ucast (m (p + 1))) OR push_bit 16 (ucast (m (p + 2))) OR
     push_bit 24 (ucast (m (p + 3)))"
  by (rule bit_word_eqI) (auto simp: read32_def load_steps bit_simps algebra_simps)

lemma write16_bytes: "write16 m p v = m(p + 1 := ucast (drop_bit 8 v), p := ucast v)"
  by (simp add: write16_def numeral_2_eq_2)

lemma gate_is_cong:
  assumes "\<And>k. k < 12 \<Longrightarrow> m' (e + of_nat k) = m (e + of_nat k)"
  shows "gate_is m' e gate h = gate_is m e gate h"
  using assms [of 0] assms [of 1] assms [of 2] assms [of 3] assms [of 5] assms [of 6] assms [of 7] assms [of 8]
    assms [of 9] assms [of 10] assms [of 11]
  by (simp add: gate_is_def gate_offset_def read16_bytes read32_bytes add.assoc)

lemma add_int_outside:
  assumes "a \<notin> span (idt_entry_ptr idt index) 12"
  shows "add_int idt gate index h m a = m a"
proof -
  let ?e = "idt_entry_ptr idt index"
  have ne: "a \<noteq> ?e + of_nat k" if "k < 12" for k
    using assms that by (auto simp: span_iff)
  have sub: "span (?e + of_nat k) n \<subseteq> span ?e 12" if "k + n \<le> 12" for k n
    using that by (intro span_add_subset) simp_all
  have "a \<notin> span (?e + 2) 2" "a \<notin> span ?e 2" "a \<notin> span (?e + 6) 2" "a \<notin> span (?e + 8) 4"
    using assms sub [of 2 2] sub [of 0 2] sub [of 6 2] sub [of 8 4] by auto
  then show ?thesis
    using ne [of 5] by (simp add: add_int_def Let_def c16.wr_outside c32.wr_outside)
qed

lemma write32_bytes:
  "write32 m p v = m(p + 3 := ucast (drop_bit 24 v), p + 2 := ucast (drop_bit 16 v),
     p + 1 := ucast (drop_bit 8 v), p := ucast v)"
  by (simp add: write32_def eval_nat_numeral add.assoc drop_bit_drop_bit)

lemma low_masks: "v AND 0xffff = take_bit 16 (v :: u64)" "v AND 0xffffffff = take_bit 32 (v :: u64)"
  using take_bit_eq_mask [of 16 v] take_bit_eq_mask [of 32 v] by (simp_all add: mask_eq_exp_minus_1)

lemma offset_parts:
  "ucast (ucast (h AND 0xffff) :: u16) OR push_bit 16 (ucast (ucast (drop_bit 16 h AND 0xffff) :: u16)) OR
     push_bit 32 (ucast (ucast (drop_bit 32 h AND 0xffffffff) :: u32)) = (h :: u64)"
  unfolding low_masks
proof (rule bit_word_eqI)
  fix n
  assume "n < LENGTH(64)"
  then consider "n < 16" | "16 \<le> n" "n < 32" | "32 \<le> n" "n < 64" by fastforce
  then show "bit (ucast (ucast (take_bit 16 h) :: u16) OR push_bit 16 (ucast (ucast (take_bit 16 (drop_bit 16 h)) :: u16)) OR
     push_bit 32 (ucast (ucast (take_bit 32 (drop_bit 32 h)) :: u32)) :: u64) n = bit h n"
    by cases (auto simp: bit_simps)
qed

lemma cell_frames:
  "read16 (write32 m (p + 8) v) p = read16 m p" "read16 (write32 m (p + 8) v) (p + 2) = read16 m (p + 2)"
  "read16 (write32 m (p + 8) v) (p + 6) = read16 m (p + 6)"
  "read16 (write16 m (p + 6) w) p = read16 m p" "read16 (write16 m (p + 6) w) (p + 2) = read16 m (p + 2)"
  "read16 (write16 m p w) (p + 2) = read16 m (p + 2)"
  "write32 m (p + 8) v (p + 5) = m (p + 5)" "write16 m (p + 6) w (p + 5) = m (p + 5)"
  "write16 m p w (p + 5) = m (p + 5)" "write16 m (p + 2) w (p + 5) = m (p + 5)"
  by (simp_all add: read16_bytes write16_bytes write32_bytes add.assoc)

lemma type_byte:
  "bit (((b :: u8) OR 0x80) AND 0xF0 OR gate_code g) 7"
  "((b OR 0x80) AND 0xF0 OR gate_code g) AND 0xF = gate_code g"
proof -
  show "bit (((b :: u8) OR 0x80) AND 0xF0 OR gate_code g) 7"
    by (simp add: bit_or_iff bit_and_iff bit_numeral_rec)
  have "(x AND 0xF0) AND 0xF = 0" for x :: u8
    by (subst and.assoc) simp
  then show "((b OR 0x80) AND 0xF0 OR gate_code g) AND 0xF = gate_code g"
    by (cases g) (simp_all add: bit.conj_disj_distrib2)
qed

lemma add_int_gate: "gate_is (add_int idt gate index h m) (idt_entry_ptr idt index) gate h"
  by (simp add: gate_is_def gate_offset_def add_int_def Let_def cell_frames offset_parts type_byte)

lemma gates_apart: "i \<noteq> j \<Longrightarrow> apart (idt_entry_ptr idt i) 12 (idt_entry_ptr idt j) 12"
  by (cases i; cases j) (simp_all add: apart_def idt_entry_ptr_def sizeof_idt_Entry_def)

lemma add_int_other_gate:
  assumes "i \<noteq> j"
  shows "gate_is (add_int idt gate j h m) (idt_entry_ptr idt i) gate' h' = gate_is m (idt_entry_ptr idt i) gate' h'"
proof (rule gate_is_cong)
  fix k :: nat
  assume "k < 12"
  then have "idt_entry_ptr idt i + of_nat k \<in> span (idt_entry_ptr idt i) 12" by (simp add: span_iff)
  then show "add_int idt gate j h m (idt_entry_ptr idt i + of_nat k) = m (idt_entry_ptr idt i + of_nat k)"
    using span_disjoint [OF gates_apart [OF assms, of idt]] by (intro add_int_outside) auto
qed

section \<open>Properties\<close>

text \<open>
  C21: after \<^verbatim>\<open>IDT::IDT\<close>, for any contents the table had before, the gates of the five vectors the kernel uses are
  present, point into the kernel code segment and decode to the five handlers, division by zero as a
  trap gate and the others as interrupt gates; the bytes of the table outside the first twelve of these
  five gates are what they were before.\<close>

theorem IDT_init_gates:
  "case IDT_init idt h m of (m', r) \<Rightarrow>
     gate_is m' (idt_entry_ptr idt DIVISION_BY_ZERO) TRAP_GATE (h_divide_by_zero h) \<and>
     gate_is m' (idt_entry_ptr idt PAGE_FAULT) INTERRUPT_GATE (h_page_fault h) \<and>
     gate_is m' (idt_entry_ptr idt TIMER) INTERRUPT_GATE (h_timer h) \<and>
     gate_is m' (idt_entry_ptr idt KEYBOARD) INTERRUPT_GATE (h_keyboard h) \<and>
     gate_is m' (idt_entry_ptr idt SPURIOUS) INTERRUPT_GATE (h_spurious h) \<and>
     (\<forall>a. a \<notin> (\<Union>i. span (idt_entry_ptr idt i) 12) \<longrightarrow> m' a = m a) \<and>
     idtr_base_addr r = idt"
  by (simp add: IDT_init_def load_idtr_def Let_def add_int_gate add_int_other_gate add_int_outside)

theorem IDT_init_gates_witness:
  "0x123 \<notin> (\<Union>i. span (idt_entry_ptr 0 i) 12) \<and>
   fst (IDT_init 0 \<lparr>h_divide_by_zero = 1, h_page_fault = 2, h_timer = 3, h_keyboard = 4, h_spurious = 5\<rparr> (\<lambda>_. 7))
     0x123 = 7"
proof -
  have out: "0x123 \<notin> (\<Union>i. span (idt_entry_ptr 0 i) 12)"
  proof
    assume "0x123 \<in> (\<Union>i. span (idt_entry_ptr 0 i) 12)"
    then obtain i where "0x123 \<in> span (idt_entry_ptr 0 i) 12" by blast
    then show False by (cases i) (simp_all add: span_iff idt_entry_ptr_def sizeof_idt_Entry_def)
  qed
  then show ?thesis
    using IDT_init_gates [of 0 "\<lparr>h_divide_by_zero = 1, h_page_fault = 2, h_timer = 3, h_keyboard = 4, h_spurious = 5\<rparr>"
        "\<lambda>_. 7"]
    by (simp add: case_prod_beta)
qed

text \<open>
  After \<^verbatim>\<open>gdt::init\<close> the code segment register selects a present, ring 0, 64-bit code segment and the
  five data segment registers a present, ring 0 data segment; every selector of
  \<^verbatim>\<open>SegmentSelector\<close>, the user ones included, selects a segment of ring 0.\<close>

theorem gdt_init_selectors:
  "case gdt_init addr r of (p, r') \<Rightarrow>
     p = addr \<and> gdtr_offset (reg_gdtr r') = addr \<and>
     (\<exists>d. gdt_entry gdt (cs r') = Some d \<and> seg_present d \<and> seg_is_code d \<and> seg_long d \<and> seg_dpl d = 0) \<and>
     list_all (\<lambda>s. \<exists>d. gdt_entry gdt s = Some d \<and> seg_present d \<and> \<not> seg_is_code d \<and> seg_dpl d = 0)
       [ds r', es r', fs r', gs r', ss r'] \<and>
     (\<forall>s. \<exists>d. gdt_entry gdt (selector_code s) = Some d \<and> seg_dpl d = 0)"
proof -
  have sel: "gdt_entry gdt 8 = Some (kernel_code gdt)" "gdt_entry gdt 16 = Some (kernel_data gdt)"
    "gdt_entry gdt 24 = Some (user_code gdt)" "gdt_entry gdt 32 = Some (user_data gdt)"
    by (simp_all add: gdt_entry_def)
  have seg: "seg_dpl (descriptor 0x9a f) = 0" "seg_dpl (descriptor 0x92 f) = 0"
      "seg_present (descriptor 0x9a f)" "seg_present (descriptor 0x92 f)"
      "seg_is_code (descriptor 0x9a f)" "\<not> seg_is_code (descriptor 0x92 f)" "seg_long (descriptor f1 0xa0)" for f f1
    by (simp_all add: seg_dpl_def seg_present_def seg_is_code_def seg_long_def descriptor_def bit_numeral_rec
        drop_bit_eq_div take_bit_eq_mod)
  have gdt: "kernel_code gdt = descriptor 0x9a 0xa0" "kernel_data gdt = descriptor 0x92 0xa0"
      "user_code gdt = descriptor 0x9a 0xa0" "user_data gdt = descriptor 0x92 0xa0"
    by (simp_all add: gdt_def)
  have ring: "\<exists>d. gdt_entry gdt (selector_code s) = Some d \<and> seg_dpl d = 0" for s
    by (cases s) (simp_all add: sel seg gdt)
  then show ?thesis
    by (simp add: gdt_init_def load_gdt_def gdtr_def sel seg gdt)
qed

end
