(* ===== verification/Interrupts.thy ===== *)
theory Interrupts
  imports Kprint Descriptors
begin

text \<open>
  The interrupt service routines of \<^verbatim>\<open>idt/interrupts.cpp\<close>: what the timer and the keyboard do to the
  clock, the console and the local APIC, and the fault handlers, which print and spin. The state is
  what the handlers touch; the hardware (I/O ports and memory-mapped registers), the address of the
  local APIC and the address of the buffer of \<^verbatim>\<open>__printf\<close> are parameters. The interrupts that arrive are
  a step relation. Theorems: the clock after any number of ticks; what a key press does; an
  invariant of the screen over every interleaving of ticks and key presses.
\<close>

section \<open>The model\<close>

record 'd int_state =
  i_con :: Console
  i_mem :: mem
  i_kb :: Keyboard
  i_dev :: 'd
  secs :: u64
  ms :: u8

definition on_console ::
  "(Console \<times> mem \<Rightarrow> (Console \<times> mem) res) \<Rightarrow> 'd int_state \<Rightarrow> 'd int_state res" where
  "on_console f s = bind_res (f (i_con s, i_mem s)) (\<lambda>(con, m). Inr (s\<lparr>i_con := con, i_mem := m\<rparr>))"

text \<open>The vectors \<^verbatim>\<open>interrupt\<close> raises by an \<^verbatim>\<open>int\<close> instruction; every other one it ignores.\<close>

fun interrupt :: "Interrupt \<Rightarrow> Interrupt option" where
  "interrupt DIVISION_BY_ZERO = Some DIVISION_BY_ZERO"
| "interrupt PAGE_FAULT = Some PAGE_FAULT"
| "interrupt KEYBOARD = Some KEYBOARD"
| "interrupt SPURIOUS = Some SPURIOUS"
| "interrupt TIMER = None"

definition page_fault_handler :: "u64 \<Rightarrow> 'd int_state \<Rightarrow> 'd int_state outcome res" where
  "page_fault_handler buf s =
     bind_res (on_console (con_kprintf buf (str ''page fault'') []) s) (\<lambda>s1. Inr (Spins s1))"

definition divide_by_zero_handler :: "u64 \<Rightarrow> 'd int_state \<Rightarrow> 'd int_state outcome res" where
  "divide_by_zero_handler buf s =
     bind_res (on_console (kpanic buf (str ''division by zero'')) s) (\<lambda>s1. Inr (Spins s1))"

definition timer_handler :: "u64 \<Rightarrow> 'd mmio \<Rightarrow> u32 \<Rightarrow> 'd int_state \<Rightarrow> 'd int_state res" where
  "timer_handler buf mm apic s =
     (let s = s\<lparr>ms := ms s + 1\<rparr>;
          s = (if ms s = 10 then s\<lparr>ms := 0, secs := secs s + 1\<rparr> else s)
      in bind_res (on_console (con_kprintf buf (str ''%d.%d'' @ [13]) [VNum (secs s), VNum (ucast (ms s))]) s) (\<lambda>s.
         Inr (s\<lparr>i_dev := write_eoi mm apic (i_dev s)\<rparr>)))"

definition keyboard_handler :: "'d bus \<Rightarrow> 'd mmio \<Rightarrow> u32 \<Rightarrow> 'd int_state \<Rightarrow> 'd int_state" where
  "keyboard_handler bus mm apic s =
     (let (chr, kb, d) = read_key bus (i_kb s) (i_dev s);
          (con, m) = (if chr \<noteq> 0 then print_chr chr (i_con s, i_mem s) else (i_con s, i_mem s))
      in s\<lparr>i_kb := kb, i_con := con, i_mem := m, i_dev := write_eoi mm apic d\<rparr>)"

definition spurious_handler :: "u64 \<Rightarrow> 'd int_state \<Rightarrow> 'd int_state outcome res" where
  "spurious_handler buf s =
     bind_res (on_console (con_kprintf buf (str ''SPURIOUS!!!'') []) s) (\<lambda>s1. Inr (Spins s1))"

definition apic_error_handler :: "u64 \<Rightarrow> 'd int_state \<Rightarrow> 'd int_state outcome res" where
  "apic_error_handler buf s =
     bind_res (on_console (con_kprintf buf (str ''APIC ERROR!!!'') []) s) (\<lambda>s1. Inr (Spins s1))"

text \<open>The external interrupts: each runs its handler to the end, since an interrupt gate masks the others.\<close>

inductive irq :: "u64 \<Rightarrow> 'd bus \<Rightarrow> 'd mmio \<Rightarrow> u32 \<Rightarrow> 'd int_state \<Rightarrow> Interrupt \<Rightarrow> 'd int_state \<Rightarrow> bool"
  for buf bus mm apic where
  irq_timer: "timer_handler buf mm apic s = Inr s' \<Longrightarrow> irq buf bus mm apic s TIMER s'"
| irq_keyboard: "keyboard_handler bus mm apic s = s' \<Longrightarrow> irq buf bus mm apic s KEYBOARD s'"

inductive_simps irq_timer_iff: "irq buf bus mm apic s TIMER s'"

section \<open>The clock\<close>

text \<open>Printable text that fits on its line moves the position by its length.\<close>

lemma fold_text_pos_printable:
  "list_all printable t \<Longrightarrow> p + length t \<le> 3700 \<Longrightarrow> fold text_pos t p = p + length t"
proof (induction t arbitrary: p)
  case (Cons c t)
  then have "text_pos c p = p + 1" by (simp add: text_pos_def Let_def)
  with Cons show ?case by simp
qed simp

lemma num_text_printable: "list_all printable (num_text 10 n)"
proof -
  have "printable (digit_char d)" if "d < 10" for d
  proof -
    have "unat (digit_char d) = 48 + d" using unat_digit_char [of d] that by simp
    then show ?thesis
      using that by (simp add: printable_def ASCII_PRINTABLE_MIN_def ASCII_PRINTABLE_MAX_def word_le_nat_alt)
  qed
  then show ?thesis using digits_bound [of 10] by (auto simp: num_text_def list_all_iff)
qed

lemma length_num_text_10: "unat n < 10 ^ k \<Longrightarrow> 0 < k \<Longrightarrow> length (num_text 10 n) \<le> k"
  by (simp add: num_text_def length_digits)

definition clock_text :: "u64 \<Rightarrow> u8 \<Rightarrow> u8 list" where
  "clock_text sc t = num_text 10 sc @ str ''.'' @ num_text 10 (ucast t) @ [13]"

lemma clock_text_stays:
  assumes "r \<le> 36" and "unat t < 10"
  shows "fold text_pos (clock_text sc t) (100 * r) = 100 * r"
proof -
  have "unat (ucast t :: u64) < 10 ^ 1" using assms(2) by (simp add: unat_ucast_up)
  then have 1: "length (num_text 10 (ucast t :: u64)) \<le> 1" by (rule length_num_text_10) simp
  have "unat sc < 10 ^ 20" using u64_bound [of sc] by simp
  then have 20: "length (num_text 10 sc) \<le> 20" by (rule length_num_text_10) simp
  let ?w = "num_text 10 sc @ str ''.'' @ num_text 10 (ucast t)"
  have dot: "list_all printable (str ''.'')" "length (str ''.'') = 1" by code_simp+
  have len: "length ?w < 100" using 1 20 dot(2) by simp
  have "fold text_pos ?w (100 * r) = 100 * r + length ?w"
    using len assms(1) num_text_printable dot(1) by (intro fold_text_pos_printable) (simp_all add: list_all_append)
  moreover have "fold text_pos (clock_text sc t) p = text_pos 13 (fold text_pos ?w p)" for p
    by (simp add: clock_text_def)
  moreover have "text_pos 13 (100 * r + length ?w) = 100 * r"
    using len assms(1) by (simp add: text_pos_def printable_def ASCII_PRINTABLE_MIN_def Let_def)
  ultimately show ?thesis by simp
qed

lemma clock_prints: "con_prints buf (con_kprintf buf (str ''%d.%d'' @ [13]) [VNum a, VNum b])
    (num_text 10 a @ str ''.'' @ num_text 10 b @ [13])"
  using num_text_good [of a] num_text_good [of b] by (intro con_kprintf_prints; simp add: str_def good_text_def)

lemma timer_tick:
  assumes "kcon_ok buf (i_con s, i_mem s)" and "unat (ms s) < 10"
  shows "\<exists>s'. timer_handler buf mm apic s = Inr s' \<and> kcon_ok buf (i_con s', i_mem s') \<and>
    pos_of (i_con s', i_mem s') = fold text_pos (clock_text (secs s') (ms s')) (pos_of (i_con s, i_mem s)) \<and>
    kcon_keeps buf (i_con s, i_mem s) (i_con s', i_mem s') \<and> i_dev s' = write_eoi mm apic (i_dev s) \<and>
    unat (ms s') = Suc (unat (ms s)) mod 10 \<and>
    secs s' = (if unat (ms s) = 9 then secs s + 1 else secs s)"
proof -
  define s1 where "s1 = (if ms s + 1 = 10 then s\<lparr>ms := 0, secs := secs s + 1\<rparr> else s\<lparr>ms := ms s + 1\<rparr>)"
  have plus: "unat (ms s + 1) = Suc (unat (ms s))" using assms(2) by (subst unat_add_lem [THEN iffD1]) simp_all
  then have ten: "ms s + 1 = 10 \<longleftrightarrow> unat (ms s) = 9" by (simp add: word_unat_eq_iff)
  have s1: "i_con s1 = i_con s" "i_mem s1 = i_mem s" "i_dev s1 = i_dev s" "unat (ms s1) = Suc (unat (ms s)) mod 10"
      "secs s1 = (if unat (ms s) = 9 then secs s + 1 else secs s)"
    using assms(2) plus ten by (auto simp: s1_def)
  obtain c' where c': "con_kprintf buf (str ''%d.%d'' @ [13]) [VNum (secs s1), VNum (ucast (ms s1))] (i_con s, i_mem s) = Inr c'"
      "kcon_ok buf c'" "pos_of c' = fold text_pos (clock_text (secs s1) (ms s1)) (pos_of (i_con s, i_mem s))"
      "kcon_keeps buf (i_con s, i_mem s) c'"
    using clock_prints [of buf "secs s1" "ucast (ms s1)"] assms(1) unfolding prints_def clock_text_def by blast
  have "timer_handler buf mm apic s =
      Inr (s1\<lparr>i_con := fst c', i_mem := snd c', i_dev := write_eoi mm apic (i_dev s)\<rparr>)"
    using c'(1) by (auto simp: timer_handler_def on_console_def s1_def case_prod_beta)
  then show ?thesis using c' s1 by auto
qed

lemma clock_tick:
  assumes "kcon_ok buf (i_con s, i_mem s)" and "pos_of (i_con s, i_mem s) = 100 * r" and "r \<le> 36"
    and "unat (ms s) < 10"
  shows "\<exists>s'. timer_handler buf mm apic s = Inr s' \<and> kcon_ok buf (i_con s', i_mem s') \<and>
    pos_of (i_con s', i_mem s') = 100 * r \<and> i_dev s' = write_eoi mm apic (i_dev s) \<and>
    unat (ms s') = Suc (unat (ms s)) mod 10 \<and>
    secs s' = (if unat (ms s) = 9 then secs s + 1 else secs s)"
proof -
  obtain s' where s': "timer_handler buf mm apic s = Inr s'" "kcon_ok buf (i_con s', i_mem s')"
      "pos_of (i_con s', i_mem s') = fold text_pos (clock_text (secs s') (ms s')) (pos_of (i_con s, i_mem s))"
      "i_dev s' = write_eoi mm apic (i_dev s)" "unat (ms s') = Suc (unat (ms s)) mod 10"
      "secs s' = (if unat (ms s) = 9 then secs s + 1 else secs s)"
    using timer_tick [OF assms(1,4), of mm apic] by blast
  then have "unat (ms s') < 10" by simp
  then show ?thesis using s' clock_text_stays [OF assms(3)] assms(2) by auto
qed

text \<open>A number of timer interrupts.\<close>

primrec ticks :: "u64 \<Rightarrow> 'd mmio \<Rightarrow> u32 \<Rightarrow> nat \<Rightarrow> 'd int_state \<Rightarrow> 'd int_state res" where
  "ticks buf mm apic 0 s = Inr s"
| "ticks buf mm apic (Suc n) s = bind_res (ticks buf mm apic n s) (timer_handler buf mm apic)"

lemma clock_ticks:
  assumes "kcon_ok buf (i_con s, i_mem s)" and "pos_of (i_con s, i_mem s) = 100 * r" and "r \<le> 36"
    and "ms s = 0" and "secs s = 0"
  shows "\<exists>s'. ticks buf mm apic n s = Inr s' \<and> kcon_ok buf (i_con s', i_mem s') \<and>
    pos_of (i_con s', i_mem s') = 100 * r \<and> i_dev s' = (write_eoi mm apic ^^ n) (i_dev s) \<and>
    unat (ms s') = n mod 10 \<and> secs s' = of_nat (n div 10)"
proof (induction n)
  case 0
  then show ?case using assms by simp
next
  case (Suc n)
  then obtain s1 where 1: "ticks buf mm apic n s = Inr s1" "kcon_ok buf (i_con s1, i_mem s1)"
      "pos_of (i_con s1, i_mem s1) = 100 * r" "i_dev s1 = (write_eoi mm apic ^^ n) (i_dev s)"
      "unat (ms s1) = n mod 10" "secs s1 = of_nat (n div 10)" by blast
  have "unat (ms s1) < 10" using 1(5) by simp
  from clock_tick [OF 1(2,3) assms(3) this, of mm apic] obtain s2 where 2: "timer_handler buf mm apic s1 = Inr s2"
      "kcon_ok buf (i_con s2, i_mem s2)" "pos_of (i_con s2, i_mem s2) = 100 * r"
      "i_dev s2 = write_eoi mm apic (i_dev s1)" "unat (ms s2) = Suc (n mod 10) mod 10"
      "secs s2 = (if n mod 10 = 9 then secs s1 + 1 else secs s1)"
    using 1(5) by auto
  have "Suc n div 10 = (if n mod 10 = 9 then Suc (n div 10) else n div 10)"
    by (simp add: div_Suc mod_Suc)
  then show ?case using 1 2 by (auto simp: mod_Suc_eq)
qed

section \<open>The keyboard\<close>

lemma print_chr_spec:
  assumes ok: "con_ok (fst s)" and "chr = 8 \<Longrightarrow> 0 < pos_of s"
  shows "con_ok (fst (print_chr chr s))" "pos_of (print_chr chr s) = text_pos chr (pos_of s)"
    "con_keeps s (print_chr chr s)" "shown (con_fb (fst s)) (snd (print_chr chr s))"
proof -
  note R = print_char_refines [OF assms]
  have eq: "print_chr chr s = (fst (print_char chr s), draw (con_fb (fst s)) (snd (print_char chr s)))"
    using R(3) by (simp add: print_chr_def con_keeps_def case_prod_beta)
  note B = screen_buffers(1,2) [OF ok [unfolded con_ok_def, THEN conjunct1]]
  show "con_ok (fst (print_chr chr s))" "pos_of (print_chr chr s) = text_pos chr (pos_of s)"
    using R by (simp_all add: eq)
  show "con_keeps s (print_chr chr s)"
    using R(3) draw_kept(1) [OF B] by (auto simp: eq con_keeps_def intro: kept_outside_trans)
  show "shown (con_fb (fst s)) (snd (print_chr chr s))" using draw_shown [OF B] by (simp add: eq)
qed

text \<open>The character the next scan code stands for.\<close>

definition next_char :: "'d bus \<Rightarrow> 'd int_state \<Rightarrow> u8" where
  "next_char bus s = fst (read_key bus (i_kb s) (i_dev s))"

lemma key_result:
  assumes "con_ok (i_con s)" and "shown (con_fb (i_con s)) (i_mem s)"
    and "read_key bus (i_kb s) (i_dev s) = (chr, kb, d)" and "chr = 8 \<Longrightarrow> 0 < cursor_pos (con_cursor (i_con s))"
    and "keyboard_handler bus mm apic s = s'"
  shows "con_ok (i_con s') \<and> shown (con_fb (i_con s)) (i_mem s') \<and>
    cursor_pos (con_cursor (i_con s')) = (if chr = 0 then cursor_pos (con_cursor (i_con s))
      else text_pos chr (cursor_pos (con_cursor (i_con s)))) \<and>
    kept_outside (con_fb (i_con s)) (i_mem s) (i_mem s') \<and> i_kb s' = kb \<and> i_dev s' = write_eoi mm apic d"
proof -
  let ?c = "(i_con s, i_mem s)"
  have eq: "(i_con s', i_mem s') = (if chr \<noteq> 0 then print_chr chr ?c else ?c)" "i_dev s' = write_eoi mm apic d" "i_kb s' = kb"
    using assms(3,5) by (auto simp: keyboard_handler_def case_prod_beta)
  have "con_ok (fst ?c)" using assms(1) by simp
  note P = print_chr_spec [OF this, of chr]
  have "con_ok (fst (i_con s', i_mem s')) \<and> shown (con_fb (i_con s)) (snd (i_con s', i_mem s')) \<and>
      pos_of (i_con s', i_mem s') = (if chr = 0 then pos_of ?c else text_pos chr (pos_of ?c)) \<and>
      con_keeps ?c (i_con s', i_mem s')"
    using P assms(1,2,4) unfolding eq(1) by auto
  then show ?thesis using eq(2,3) by (simp add: con_keeps_def)
qed

lemma key_press:
  assumes "kcon_ok buf (i_con s, i_mem s)" and "next_char bus s = 8 \<Longrightarrow> 0 < pos_of (i_con s, i_mem s)"
    and "keyboard_handler bus mm apic s = s'"
  shows "kcon_ok buf (i_con s', i_mem s') \<and> con_keeps (i_con s, i_mem s) (i_con s', i_mem s') \<and> ms s' = ms s"
proof -
  obtain chr kb d where k: "read_key bus (i_kb s) (i_dev s) = (chr, kb, d)"
    by (cases "read_key bus (i_kb s) (i_dev s)") auto
  have "con_font (fst (print_chr chr c)) = con_font (fst c)" "con_fb (fst (print_chr chr c)) = con_fb (fst c)"
    if "con_ok (fst c)" "chr = 8 \<Longrightarrow> 0 < pos_of c" for c
    using print_chr_spec(3) [OF that] by (simp_all add: con_keeps_def)
  from this [of "(i_con s, i_mem s)"] show ?thesis
    using key_result [OF _ _ k _ assms(3)] assms k
    by (auto simp: kcon_ok_def con_keeps_def next_char_def keyboard_handler_def case_prod_beta)
qed

section \<open>Interleavings\<close>

text \<open>Any sequence of timer and keyboard interrupts in which no backspace is typed at the origin.\<close>

inductive irqs :: "u64 \<Rightarrow> 'd bus \<Rightarrow> 'd mmio \<Rightarrow> u32 \<Rightarrow> 'd int_state \<Rightarrow> 'd int_state \<Rightarrow> bool"
  for buf bus mm apic s where
  irqs_none: "irqs buf bus mm apic s s"
| irqs_next: "irqs buf bus mm apic s s1 \<Longrightarrow> irq buf bus mm apic s1 v s2 \<Longrightarrow>
    (v = KEYBOARD \<Longrightarrow> next_char bus s1 = 8 \<Longrightarrow> 0 < pos_of (i_con s1, i_mem s1)) \<Longrightarrow> irqs buf bus mm apic s s2"

lemma kcon_keeps_of_con_keeps:
  "con_keeps s s' \<Longrightarrow> \<forall>a. a \<notin> fb_span (con_fb (fst s)) \<union> front_span (con_fb (fst s)) \<union> span buf 4096 \<longrightarrow> snd s' a = snd s a"
  by (simp add: con_keeps_def kept_outside_def)

text \<open>The invariant: the clock shows tenths, the screen is in order, and everything outside the screen,
  its copy and the buffer is as at the start.\<close>

definition screen_inv :: "u64 \<Rightarrow> 'd int_state \<Rightarrow> 'd int_state \<Rightarrow> bool" where
  "screen_inv buf s0 s \<longleftrightarrow> kcon_ok buf (i_con s, i_mem s) \<and> unat (ms s) < 10 \<and> con_fb (i_con s) = con_fb (i_con s0) \<and>
     (\<forall>a. a \<notin> fb_span (con_fb (i_con s0)) \<union> front_span (con_fb (i_con s0)) \<union> span buf 4096 \<longrightarrow>
        i_mem s a = i_mem s0 a)"

lemma irq_keeps_inv:
  assumes "screen_inv buf s0 s" and "irq buf bus mm apic s v s'"
    and "v = KEYBOARD \<Longrightarrow> next_char bus s = 8 \<Longrightarrow> 0 < pos_of (i_con s, i_mem s)"
  shows "screen_inv buf s0 s'"
  using assms(2)
proof cases
  case irq_timer
  have "kcon_ok buf (i_con s, i_mem s)" "unat (ms s) < 10" using assms(1) by (simp_all add: screen_inv_def)
  from timer_tick [OF this, of mm apic] irq_timer assms(1) show ?thesis by (auto simp: screen_inv_def kcon_keeps_def)
next
  case irq_keyboard
  have ok: "kcon_ok buf (i_con s, i_mem s)" using assms(1) by (simp add: screen_inv_def)
  note k = key_press [OF ok assms(3) [OF irq_keyboard(1)] irq_keyboard(2)]
  then show ?thesis
    using kcon_keeps_of_con_keeps [of "(i_con s, i_mem s)" "(i_con s', i_mem s')" buf] assms(1)
    by (auto simp: screen_inv_def con_keeps_def)
qed

lemma irqs_keep_inv:
  assumes "irqs buf bus mm apic s s'" and "screen_inv buf s s"
  shows "screen_inv buf s s'"
  using assms
proof (induction rule: irqs.induct)
  case (irqs_next s1 v s2)
  then show ?case using irq_keeps_inv by blast
qed

section \<open>Properties\<close>

definition int_example :: "(u64 \<Rightarrow> u64) int_state" where
  "int_example = \<lparr>i_con = con_example, i_mem = (\<lambda>_. 0), i_kb = Keyboard_init, i_dev = (\<lambda>_. 0), secs = 0, ms = 0\<rparr>"

lemma int_example_ok: "kcon_ok 0x1000 (i_con int_example, i_mem int_example)"
  using con_example_ok buf_free_example by (simp add: kcon_ok_def int_example_def shown_def)

text \<open>
  C24: the timer interrupt keeps time and place: from a cursor at the start of a line of the screen, after any
  number \<open>n\<close> of ticks the clock shows \<open>n div 10\<close> seconds and \<open>n mod 10\<close> tenths, the cursor is where it was,
  the screen shows the clock, and every tick has been acknowledged to the local APIC exactly once.\<close>

theorem timer_keeps_time:
  assumes "con_ok (i_con s)" and "shown (con_fb (i_con s)) (i_mem s)" and "buf_free buf (con_fb (i_con s))"
    and "cursor_pos (con_cursor (i_con s)) = 100 * r" and "r \<le> 36" and "ms s = 0" and "secs s = 0"
  shows "\<exists>s'. ticks buf mm apic n s = Inr s' \<and> secs s' = of_nat (n div 10) \<and> unat (ms s') = n mod 10 \<and>
    cursor_pos (con_cursor (i_con s')) = 100 * r \<and> con_ok (i_con s') \<and> shown (con_fb (i_con s')) (i_mem s') \<and>
    i_dev s' = (write_eoi mm apic ^^ n) (i_dev s)"
  using clock_ticks [of buf s r mm apic n] assms by (auto simp: kcon_ok_def)

theorem timer_keeps_time_witness:
  "\<exists>s'. ticks 0x1000 cell_timer 0 123 int_example = Inr s' \<and> secs s' = 12 \<and> unat (ms s') = 3"
  using timer_keeps_time [of int_example "0x1000" 0 cell_timer 0 123] int_example_ok
  by (auto simp: kcon_ok_def int_example_def)


text \<open>A device whose queue holds the scan codes to come, and to which a register write appends.\<close>

definition queue_regs :: "u8 list mmio" where
  "queue_regs = \<lparr>mm_read32 = (\<lambda>a d. 0), mm_write32 = (\<lambda>a v d. d @ [ucast v]), mm_read64 = (\<lambda>a d. 0),
     mm_write64 = (\<lambda>a v d. d)\<rparr>"

definition key_example :: "u8 list int_state" where
  "key_example = \<lparr>i_con = con_example, i_mem = (\<lambda>_. 0), i_kb = Keyboard_init, i_dev = [0x1E], secs = 0, ms = 0\<rparr>"

lemma key_example_read: "read_key queue_bus (i_kb key_example) (i_dev key_example) = (97, Keyboard_init, [])"
proof -
  have "key_of 0x1E = Some (Letter 97 65)" unfolding key_of_in_table by (simp add: scan_table_def)
  then show ?thesis
    by (simp add: key_example_def read_key_def queue_bus_read key_action_def mod_letter_def Keyboard_init_def)
qed


text \<open>
  C11: over every interleaving of timer and keyboard interrupts in which no backspace is typed at the origin,
  the console stays in order: the cursor stays on the grid, the screen shows the text, the tenths stay
  below ten, and nothing outside the screen, its copy and the print buffer changes; and in every state
  reached so the next timer interrupt is handled.\<close>

theorem interrupts_keep_screen:
  assumes "irqs buf bus mm apic s s'" and "kcon_ok buf (i_con s, i_mem s)" and "unat (ms s) < 10"
  shows "con_ok (i_con s') \<and> shown (con_fb (i_con s')) (i_mem s') \<and> unat (ms s') < 10 \<and>
    (\<forall>a. a \<notin> fb_span (con_fb (i_con s)) \<union> front_span (con_fb (i_con s)) \<union> span buf 4096 \<longrightarrow> i_mem s' a = i_mem s a) \<and>
    (\<exists>s''. irq buf bus mm apic s' TIMER s'')"
proof -
  have inv: "screen_inv buf s s'" using irqs_keep_inv [OF assms(1)] assms(2,3) by (simp add: screen_inv_def)
  then show ?thesis
    using timer_tick [of buf s' mm apic] by (auto simp: screen_inv_def kcon_ok_def irq_timer_iff)
qed

theorem interrupts_keep_screen_witness:
  "con_ok (i_con (keyboard_handler queue_bus queue_regs 0 key_example)) \<and>
   (\<exists>s''. irq 0x1000 queue_bus queue_regs 0 (keyboard_handler queue_bus queue_regs 0 key_example) TIMER s'')"
proof -
  have ok: "kcon_ok 0x1000 (i_con key_example, i_mem key_example)" "unat (ms key_example) < 10"
    using con_example_ok buf_free_example by (simp_all add: kcon_ok_def key_example_def shown_def)
  have "next_char queue_bus key_example \<noteq> 8" using key_example_read by (simp add: next_char_def)
  then have "irqs 0x1000 queue_bus queue_regs 0 key_example (keyboard_handler queue_bus queue_regs 0 key_example)"
    using irqs_next [OF irqs_none irq_keyboard [OF refl]] by blast
  from interrupts_keep_screen [OF this ok] show ?thesis by blast
qed

text \<open>The fault handlers print and never return.\<close>

lemma fault_handlers_spin:
  assumes "kcon_ok buf (i_con s, i_mem s)"
  shows "\<exists>s'. page_fault_handler buf s = Inr (Spins s')" "\<exists>s'. spurious_handler buf s = Inr (Spins s')"
    "\<exists>s'. apic_error_handler buf s = Inr (Spins s')"
proof -
  have "con_prints buf (con_kprintf buf (str ''page fault'') []) (str ''page fault'')"
    "con_prints buf (con_kprintf buf (str ''SPURIOUS!!!'') []) (str ''SPURIOUS!!!'')"
    "con_prints buf (con_kprintf buf (str ''APIC ERROR!!!'') []) (str ''APIC ERROR!!!'')"
    by - (rule con_kprintf_prints; simp add: str_def good_text_def)+
  then show "\<exists>s'. page_fault_handler buf s = Inr (Spins s')" "\<exists>s'. spurious_handler buf s = Inr (Spins s')"
    "\<exists>s'. apic_error_handler buf s = Inr (Spins s')"
    using assms unfolding prints_def page_fault_handler_def spurious_handler_def apic_error_handler_def on_console_def
    by (fastforce simp: case_prod_beta)+
qed

end
