(* ===== verification/HeapGrow.thy ===== *)
theory HeapGrow
  imports Heap
begin

text \<open>
  The growth branch of \<^verbatim>\<open>Heap::malloc\<close> (\<^verbatim>\<open>memory/heap.cpp\<close>): when no block is large enough, \<^verbatim>\<open>malloc\<close> takes a run of
  frames from the physical memory manager, maps them to themselves, makes them one free block, links
  it into the list where \<^verbatim>\<open>_find_block_close_before_addr\<close> says, and allocates from it. This is where the
  three memory managers meet: the theory states when the branch succeeds, what the list of blocks is
  afterwards, that the tables and all other blocks stay intact, and the one case in which it panics.
\<close>

section \<open>Linking a block into the list\<close>

context header_store
begin

lemma seg_insert:
  assumes "seg m 0 (xs @ (p, n, f) # ys) 0" and "separate (xs @ (p, n, f) # (c, r, True) # ys)" and "c \<noteq> 0"
    and m1: "m1 = wnext (wprev (wnext (wfree (wbytes m c r) c True) c (first_addr ys 0)) c p) p c"
    and m2: "m2 = relink m1 (first_addr ys 0) c"
  shows "seg m2 0 (xs @ (p, n, f) # (c, r, True) # ys) 0"
proof -
  have sep: "sep p c" "sep c p" "\<And>x. x \<in> fst ` set xs \<Longrightarrow> sep x p \<and> sep x c"
    "\<And>y. y \<in> fst ` set ys \<Longrightarrow> sep y p \<and> sep y c"
    using assms(2) sep_sym by (auto simp: separate_append)
  have first: "ys = [] \<or> first_addr ys 0 \<in> fst ` set ys" by (cases ys) (auto simp: first_addr_def)
  then have rel: "hdr m2 x = hdr m1 x" if "x = p \<or> x = c \<or> x \<in> fst ` set xs" for x
    unfolding m2 using that assms(2) sep sep_sym
    by (intro hdr_relink_other) (fastforce simp: separate_append)
  have xs: "hdr m2 x = hdr m x" if "x \<in> fst ` set xs" for x
    using sep(3) [OF that] rel that by (simp add: m1 other)
  have hc: "hdr m2 c = \<lparr>prev = p, next = first_addr ys 0, is_free = True, bytes = r\<rparr>"
    using sep(1,2) rel by (simp add: m1 same other)
  have hp: "hdr m2 p = \<lparr>prev = last_addr 0 xs, next = c, is_free = f, bytes = n\<rparr>"
    using sep(1,2) rel assms(1) by (simp add: m1 same other seg_append)
  have "seg m p ys 0" using assms(1) by (simp add: seg_append)
  then have "seg m1 p ys 0"
    using sep(4) by (subst seg_frame [where m = m]) (auto simp: m1 other)
  moreover have "separate ys" using assms(2) by (simp add: separate_append)
  ultimately have "seg m2 c ys 0" unfolding m2 by (rule seg_relink)
  moreover have "seg m2 0 xs p" using assms(1) seg_frame [OF xs] by (simp add: seg_append)
  ultimately show ?thesis using hp hc assms(1,3) by (simp add: seg_append)
qed

end

text \<open>
  Where the block goes: after the first block that, like its successor, lies below it, and else at the
  end. The list is not sorted by address, and the code does not keep it so.
\<close>

fun insert_block :: "ablock \<Rightarrow> ablock list \<Rightarrow> ablock list" where
  "insert_block c [] = [c]"
| "insert_block c [b] = [b, c]"
| "insert_block c (b # d # bs) =
     (if fst b < fst c \<and> fst d < fst c then b # c # d # bs else b # insert_block c (d # bs))"

lemma find_close_loop_spec:
  assumes "hs.seg m q bs 0" and "bs \<noteq> []"
  shows "\<exists>xs p n f ys. bs = xs @ (p, n, f) # ys \<and> find_close_loop m (fst c) (first_addr bs 0) = Some p \<and>
    insert_block c bs = xs @ (p, n, f) # c # ys"
  using assms
proof (induction bs arbitrary: q)
  case (Cons b bs)
  obtain p n f where b: "b = (p, n, f)" by (cases b)
  have h: "BlockHeader_at m p = \<lparr>prev = q, next = first_addr bs 0, is_free = f, bytes = n\<rparr>" "p \<noteq> 0" "hs.seg m p bs 0"
    using Cons.prems(1) b by simp_all
  show ?case
  proof (cases bs)
    case Nil
    then have "find_close_loop m (fst c) p = Some p" using h by (subst find_close_loop.simps) simp
    then show ?thesis using b Nil by (intro exI [of _ "[]"]) auto
  next
    case (Cons d ds)
    have d0: "first_addr bs 0 = fst d" "fst d \<noteq> 0"
      using h(3) Cons by (cases d; simp)+
    show ?thesis
    proof (cases "p < fst c \<and> fst d < fst c")
      case True
      then have "find_close_loop m (fst c) p = Some p" using h d0 by (subst find_close_loop.simps) simp
      then show ?thesis using b Cons True by (intro exI [of _ "[]"]) auto
    next
      case False
      have step: "find_close_loop m (fst c) p = find_close_loop m (fst c) (fst d)"
        using h d0 False by (subst find_close_loop.simps) auto
      obtain xs p' n' f' ys where r: "bs = xs @ (p', n', f') # ys"
          "find_close_loop m (fst c) (first_addr bs 0) = Some p'" "insert_block c bs = xs @ (p', n', f') # c # ys"
        using Cons.IH [OF h(3)] local.Cons by blast
      have "insert_block c (b # bs) = b # insert_block c bs" using b local.Cons False by auto
      then have "b # bs = (b # xs) @ (p', n', f') # ys \<and> find_close_loop m (fst c) (first_addr (b # bs) 0) = Some p' \<and>
          insert_block c (b # bs) = (b # xs) @ (p', n', f') # c # ys"
        using b step d0(1) r by simp
      then show ?thesis by blast
    qed
  qed
qed simp

section \<open>Memory the other managers leave alone\<close>

text \<open>A byte that is neither bitmap nor page table and does not lie in a free frame.\<close>

definition safe_byte :: "u64 \<Rightarrow> kst \<Rightarrow> u64 \<Rightarrow> bool" where
  "safe_byte root s x \<longleftrightarrow> x \<notin> bm_span (bitmap (pmem s)) \<and> (\<forall>p u. table_at root s p u \<longrightarrow> x \<notin> span u 4096) \<and>
     (ptr_to_frame_idx x < frames (pmem s) \<longrightarrow> bm_get s (ptr_to_frame_idx x))"

definition heap_safe :: "u64 \<Rightarrow> kst \<Rightarrow> ablock list \<Rightarrow> bool" where
  "heap_safe root s bs \<longleftrightarrow> (\<forall>b \<in> set bs. \<forall>x \<in> foot b. safe_byte root s x)"

lemma safe_byte_kept:
  assumes "pt_inv root s'" and "pt_keeps root s s'" and "safe_byte root s x"
  shows "ram s' x = ram s x" and "safe_byte root s' x"
proof -
  show "ram s' x = ram s x"
    using assms(3) by (intro pt_keeps_locked [OF assms(1,2)]) (auto simp: safe_byte_def)
  have "x \<notin> span u 4096" if u: "table_at root s' p u" for p u
  proof (cases "table_at root s p u")
    case False
    have "aligned u" using pt_invD(1) [OF assms(1) u] by (simp add: table_ok_def)
    then have "x \<in> span u 4096 \<Longrightarrow> ptr_to_frame_idx x = ptr_to_frame_idx u" by (rule in_page_frame)
    then show ?thesis using pt_keepsD(6,7) [OF assms(2) u False] assms(3) by (auto simp: safe_byte_def)
  qed (use assms(3) in \<open>auto simp: safe_byte_def\<close>)
  then show "safe_byte root s' x"
    using assms(3) pt_keepsD(1,2,4) [OF assms(2)] by (auto simp: safe_byte_def)
qed

text \<open>Writing safe bytes disturbs neither tables nor bitmap.\<close>

lemma safe_writes:
  assumes "pt_inv root s" and "\<And>x. m x \<noteq> ram s x \<Longrightarrow> safe_byte root s x"
  shows "pt_inv root (s\<lparr>ram := m\<rparr>)" and "mmu_translate m root v = mmu_translate (ram s) root v"
    and "safe_byte root s x \<Longrightarrow> safe_byte root (s\<lparr>ram := m\<rparr>) x" and "room (s\<lparr>ram := m\<rparr>) = room s"
proof -
  have bm: "m x = ram s x" if "x \<in> bm_span (bitmap (pmem s))" for x
    using assms(2) [of x] that by (auto simp: safe_byte_def)
  have tab: "m x = ram s x" if "table_at root s p u" "x \<in> span u 4096" for p u x
    using assms(2) [of x] that by (auto simp: safe_byte_def)
  note C = pt_ram_cong [OF assms(1) bm tab]
  show "pt_inv root (s\<lparr>ram := m\<rparr>)" by (rule C(1))
  show "mmu_translate m root v = mmu_translate (ram s) root v" by (rule C(2))
  have pool: "pm_inv s" using pt_inv_pool [OF assms(1)] by (simp add: pool_ok_def)
  show "safe_byte root s x \<Longrightarrow> safe_byte root (s\<lparr>ram := m\<rparr>) x"
    using C(3) bm_get_ram_cong(1) [OF pool bm] by (auto simp: safe_byte_def)
  show "room (s\<lparr>ram := m\<rparr>) = room s" using pt_inv_pool [OF assms(1)] bm by (rule room_ram_cong)
qed

section \<open>Taking a run of frames\<close>

lemma run_taken_paging:
  assumes "pt_inv root s" and "run_taken a n s s'" and "a + n \<le> unat (frames (pmem s))"
  shows "pt_inv root s'" and "table_at root s' p u = table_at root s p u"
    and "mmu_translate (ram s') root v = mmu_translate (ram s) root v"
    and "safe_byte root s x \<Longrightarrow> safe_byte root s' x" and "x \<notin> bm_span (bitmap (pmem s)) \<Longrightarrow> ram s' x = ram s x"
proof -
  note pool = pt_inv_pool [OF assms(1)]
  have e: "pm_inv s'" "frames (pmem s') = frames (pmem s)" "bitmap (pmem s') = bitmap (pmem s)"
      and out: "\<And>x. x \<notin> bm_span (bitmap (pmem s)) \<Longrightarrow> ram s' x = ram s x"
      and get: "\<And>j. bm_get s' j \<longleftrightarrow> a \<le> unat j \<and> unat j < a + n \<or> bm_get s j"
    using assms(2) by (auto simp: run_taken_def pm_evolves_def)
  have entry: "read64 (ram s') (u + 8 * j) = read64 (ram s) (u + 8 * j)" if "table_at root s q u" "j < 512" for q u j
    using table_entry_no_bitmap [OF assms(1) that] out
    by (intro c64.rd_outside [where S = "bm_span (bitmap (pmem s))"]) auto
  have walk: "pt_walk (ram s') root r = pt_walk (ram s) root r" if "is_path r" "length r \<le> 4" for r
    using that entry by (intro pt_walk_frame [where p = "replicate 5 0" and i = 0]) (auto simp: table_at_def)
  show at: "table_at root s' p u = table_at root s p u" for p u
    using walk [of p] by (auto simp: table_at_def)
  have "pool_ok s'" using pool e get by (auto simp: pool_ok_def)
  moreover have "table_ok s' u" if "table_at root s p u" for p u
    using pt_invD(1) [OF assms(1) that] e get by (auto simp: table_ok_def)
  ultimately show inv: "pt_inv root s'"
    using assms(1) entry unfolding pt_inv_def at by auto
  show "mmu_translate (ram s') root v = mmu_translate (ram s) root v"
    using mmu_translate_walk [OF inv] mmu_translate_walk [OF assms(1)] walk [of "page_path v"] by simp
  show "safe_byte root s x \<Longrightarrow> safe_byte root s' x" using at e get by (auto simp: safe_byte_def)
  show "x \<notin> bm_span (bitmap (pmem s)) \<Longrightarrow> ram s' x = ram s x" by (rule out)
qed

text \<open>The frames of the run leave the rest of the room.\<close>

lemma run_taken_room:
  assumes "run_taken a n s s'" and "unat (last_free_idx (pmem s)) \<le> a" and "a + n \<le> unat (frames (pmem s))"
  shows "room s \<le> room s' + n"
proof -
  let ?F = "\<lambda>t. {i. last_free_idx (pmem t) \<le> i \<and> i < frames (pmem t) \<and> \<not> bm_get t i}"
  have e: "frames (pmem s') = frames (pmem s)" "last_free_idx (pmem s') = last_free_idx (pmem s)"
      and get: "\<And>j. bm_get s' j \<longleftrightarrow> a \<le> unat j \<and> unat j < a + n \<or> bm_get s j"
    using assms(1) by (auto simp: run_taken_def pm_evolves_def)
  have fin: "finite (?F t)" for t by (rule finite_subset [OF _ finite]) auto
  have sub: "?F s \<subseteq> ?F s' \<union> of_nat ` {a..<a + n}"
  proof
    fix i assume i: "i \<in> ?F s"
    show "i \<in> ?F s' \<union> of_nat ` {a..<a + n}"
    proof (cases "a \<le> unat i \<and> unat i < a + n")
      case True
      then have "i \<in> of_nat ` {a..<a + n}" by (intro image_eqI [of _ _ "unat i"]) simp_all
      then show ?thesis by blast
    next
      case False
      then show ?thesis using i e get by auto
    qed
  qed
  have "card (?F s) \<le> card (?F s' \<union> of_nat ` {a..<a + n})"
    using sub fin by (intro card_mono) auto
  also have "\<dots> \<le> card (?F s') + card (of_nat ` {a..<a + n} :: u64 set)" by (rule card_Un_le)
  also have "\<dots> \<le> card (?F s') + n" using card_image_le [of "{a..<a + n}" "of_nat :: nat \<Rightarrow> u64"] by simp
  finally show ?thesis by (simp add: room_def)
qed

section \<open>Mapping the run\<close>

text \<open>The pages of a run, at most three new tables for each.\<close>

lemma card_prefixes_run: "card (prefixes_of ((\<lambda>i. b + of_nat i * PAGE_SZ) ` {..<n})) \<le> 3 * n"
proof (induction n)
  case 0
  then show ?case by (simp add: prefixes_of_def)
next
  case (Suc n)
  then show ?case
    using card_prefixes_insert [of "b + of_nat n * PAGE_SZ" "(\<lambda>i. b + of_nat i * PAGE_SZ) ` {..<n}"]
    by (simp add: lessThan_Suc)
qed

lemma finite_prefixes: "finite V \<Longrightarrow> finite (prefixes_of V)"
  by (rule finite_subset [of _ "(\<lambda>(n, v). take n (page_path v)) ` ({1, 2, 3} \<times> V)"]) (auto simp: prefixes_of_def)

lemma map_pages:
  assumes "pt_inv root s" and "3 * unat pages \<le> room s"
  shows "\<exists>s'. for_res 0 (\<lambda>_. pages) (\<lambda>i s. let page = b + i * PAGE_SZ in allocate_page root page page s) s = Inr s' \<and>
    pt_inv root s' \<and> pt_keeps root s s' \<and>
    (\<forall>w. mmu_translate (ram s') root w = (if \<exists>i < pages. same_page (b + i * PAGE_SZ) w
       then Some (take_bit 44 w) else mmu_translate (ram s) root w))"
proof -
  define V where "V = (\<lambda>i. b + of_nat i * PAGE_SZ) ` {..<unat pages}"
  have V: "b + i * PAGE_SZ \<in> V" if "i < pages" for i
    unfolding V_def using that by (intro image_eqI [of _ _ "unat i"]) (simp_all add: word_less_nat_alt)
  have "card (missing root V s) \<le> card (prefixes_of V)"
    using finite_prefixes [of V] by (intro card_mono) (auto simp: missing_def V_def)
  then have enough: "enough root V s"
    using card_prefixes_run [of b "unat pages"] assms(2) by (simp add: enough_def V_def)
  define I where "I k t \<longleftrightarrow> pt_inv root t \<and> enough root V t \<and> pt_keeps root s t \<and>
    (\<forall>w. mmu_translate (ram t) root w = (if \<exists>i < k. same_page (b + i * PAGE_SZ) w
       then Some (take_bit 44 w) else mmu_translate (ram s) root w))" for k :: u64 and t
  have "\<exists>t. for_res 0 (\<lambda>_. pages) (\<lambda>i s. let page = b + i * PAGE_SZ in allocate_page root page page s) s = Inr t \<and> I pages t"
  proof (rule for_res_rule [where I = I])
    show "I 0 s" using assms(1) enough pt_keeps_refl by (simp add: I_def)
    fix k t assume k: "k < pages" and I: "I k t"
    let ?v = "b + k * PAGE_SZ"
    have t: "pt_inv root t" "enough root V t" "pt_keeps root s t" using I by (simp_all add: I_def)
    obtain t' where t': "allocate_page root ?v ?v t = Inr t'" "enough root V t'"
      using allocate_page_total [OF t(1,2) V [OF k]] by blast
    have inv: "pt_inv root t'" "pt_keeps root t t'" using allocate_page_spec [OF t(1) t'(1)] by blast+
    have "mmu_translate (ram t') root w = (if \<exists>i < k + 1. same_page (b + i * PAGE_SZ) w
       then Some (take_bit 44 w) else mmu_translate (ram s) root w)" for w
      using allocate_page_translate [OF t(1) t'(1), of w] I same_page_frame [of ?v w] identity_bits [of w]
      by (auto simp: I_def less_plus1_iff [OF k])
    then show "\<exists>t'. (let page = b + k * PAGE_SZ in allocate_page root page page t) = Inr t' \<and> I (k + 1) t'"
      using t' inv pt_keeps_trans [OF t(3)] by (auto simp: I_def)
  qed simp_all
  then show ?thesis by (auto simp: I_def)
qed

section \<open>The bytes of a run\<close>

lemma run_bytes:
  assumes "unat (frames (pmem s)) \<le> 2 ^ 20" and "unat a + n \<le> unat (frames (pmem s))"
    and x: "x \<in> span (idx_to_frame_ptr a) (4096 * n)"
  shows "unat a \<le> unat (ptr_to_frame_idx x)" and "unat (ptr_to_frame_idx x) < unat a + n"
    and "x \<in> span (idx_to_frame_ptr (ptr_to_frame_idx x)) 4096"
proof -
  let ?b = "idx_to_frame_ptr a" and ?d = "x - idx_to_frame_ptr a"
  have b: "unat ?b = unat a * 4096"
    unfolding idx_to_frame_ptr_def using assms(1,2) by (intro unat_frame_ptr) simp
  have d: "unat ?d < 4096 * n" using x by (simp add: span_iff)
  have "unat (?d + ?b) = unat ?d + unat ?b"
    using b d assms(1,2) by (subst unat_plus_if') simp
  then have ux: "unat x = unat ?d + unat a * 4096" using b by simp
  have idx: "unat (ptr_to_frame_idx x) = unat ?d div 4096 + unat a" by (simp add: unat_frame_idx ux)
  have q: "unat ?d div 4096 < n" using d by (simp add: less_mult_imp_div_less mult.commute)
  show "unat a \<le> unat (ptr_to_frame_idx x)" "unat (ptr_to_frame_idx x) < unat a + n" using idx q by simp_all
  have "unat (idx_to_frame_ptr (ptr_to_frame_idx x)) = unat (ptr_to_frame_idx x) * 4096"
    unfolding idx_to_frame_ptr_def using assms(1,2) idx q by (intro unat_frame_ptr) simp
  then have p: "unat (idx_to_frame_ptr (ptr_to_frame_idx x)) = unat x div 4096 * 4096" by (simp add: unat_frame_idx)
  then have "idx_to_frame_ptr (ptr_to_frame_idx x) \<le> x" by (simp add: word_le_nat_alt)
  then have "unat (x - idx_to_frame_ptr (ptr_to_frame_idx x)) = unat x mod 4096"
    using p by (simp add: unat_minus_le minus_div_mult_eq_mod)
  then show "x \<in> span (idx_to_frame_ptr (ptr_to_frame_idx x)) 4096" by (simp add: span_iff)
qed

lemma free_frame_bytes:
  assumes "pt_inv root s" and "ptr_to_frame_idx x < frames (pmem s)" and "\<not> bm_get s (ptr_to_frame_idx x)"
    and "x \<in> span (idx_to_frame_ptr (ptr_to_frame_idx x)) 4096"
  shows "x \<notin> bm_span (bitmap (pmem s))" and "table_at root s p u \<Longrightarrow> x \<notin> span u 4096"
proof -
  note pool = pt_inv_pool [OF assms(1)]
  show "x \<notin> bm_span (bitmap (pmem s))" using pool assms(2-4) by (auto simp: pool_ok_def)
  assume u: "table_at root s p u"
  have "span u 4096 \<inter> span (idx_to_frame_ptr (ptr_to_frame_idx x)) 4096 = {}"
    using fresh_frame_no_table [OF assms(1) u assms(2,3)] frame_page(1) [OF pool assms(2)] pt_invD(1) [OF assms(1) u]
    by (intro pages_disjoint) (auto simp: table_ok_def)
  then show "x \<notin> span u 4096" using assms(4) by blast
qed

text \<open>After the run has been taken its bytes are safe; before, no safe byte is one of them.\<close>

lemma run_safe:
  assumes "pt_inv root s" and "unat a + n \<le> unat (frames (pmem s))" and "free_run s (unat a) n"
    and "run_taken (unat a) n s s'" and x: "x \<in> span (idx_to_frame_ptr a) (4096 * n)"
  shows "safe_byte root s' x" and "\<not> safe_byte root s x"
proof -
  have fr: "unat (frames (pmem s)) \<le> 2 ^ 20" using pt_inv_pool [OF assms(1)] by (simp add: pool_ok_def)
  note X = run_bytes [OF fr assms(2) x]
  have lt: "ptr_to_frame_idx x < frames (pmem s)" using X(2) assms(2) by (simp add: word_less_nat_alt)
  have free: "\<not> bm_get s (ptr_to_frame_idx x)" using assms(3) X by (simp add: free_run_def)
  show "\<not> safe_byte root s x" using lt free by (simp add: safe_byte_def)
  show "safe_byte root s' x"
    using free_frame_bytes [OF assms(1) lt free X(3)] run_taken_paging(2) [OF assms(1,4,2)] assms(4) X(1,2)
    by (auto simp: safe_byte_def run_taken_def pm_evolves_def)
qed

section \<open>Growing\<close>

lemma BlockHeader_at_cong:
  assumes "\<And>x. x \<in> span a 32 \<Longrightarrow> m' x = m x"
  shows "BlockHeader_at m' a = BlockHeader_at m a"
proof -
  have *: "m' x = m x" if "x \<in> span (a + of_nat i) n" "i + n \<le> 32" for x i n
    using assms member_in_header [OF that(2), of a] that(1) by blast
  have r8: "read8 m' (a + of_nat 16) = read8 m (a + of_nat 16)"
    using * [of _ 16 1] by (intro c8.rd_cong) simp
  have "read64 m' (a + of_nat i) = read64 m (a + of_nat i)" if "i + 8 \<le> 32" for i
    using * [OF _ that] by (intro c64.rd_cong)
  from this [of 0] this [of 8] this [of 24] show ?thesis using r8 by (simp add: BlockHeader_at_def)
qed

lemma heap_inv_cong:
  assumes "heap_inv blocks m bs" and "\<And>x. x \<in> hdr_bytes bs \<Longrightarrow> m' x = m x"
  shows "heap_inv blocks m' bs"
proof -
  have "BlockHeader_at m' a = BlockHeader_at m a" if "a \<in> fst ` set bs" for a
    using that by (intro BlockHeader_at_cong assms(2)) (auto simp: hdr_bytes_def)
  from hs.seg_frame [OF this] show ?thesis using assms(1) by (simp add: heap_inv_def)
qed

lemma set_insert_block [simp]: "set (insert_block c bs) = insert c (set bs)"
  by (induction c bs rule: insert_block.induct) auto

lemma first_insert_block: "bs \<noteq> [] \<Longrightarrow> first_addr (insert_block c bs) e = first_addr bs e"
  by (induction c bs rule: insert_block.induct) (auto simp: first_addr_def)

lemma disj_insert:
  "disj (xs @ (p, n, f) # ys) \<Longrightarrow> fits c \<Longrightarrow> (\<And>b. b \<in> set (xs @ (p, n, f) # ys) \<Longrightarrow> foot c \<inter> foot b = {}) \<Longrightarrow>
     disj (xs @ (p, n, f) # c # ys)"
  by (auto simp: disj_append Int_commute)

text \<open>The link step of the code: write the header, find the place, link.\<close>

lemma link_block:
  assumes inv: "heap_inv blocks m bs" and c: "c \<noteq> 0" "fits (c, r, True)"
    and apart: "\<And>b. b \<in> set bs \<Longrightarrow> foot (c, r, True) \<inter> foot b = {}"
  defines "m1 \<equiv> set_is_free (set_bytes m c r) c True"
  shows "\<exists>p m2. find_block_close_before_addr blocks c m1 = Inr p \<and>
    m2 = (let m = set_next m1 c (next (BlockHeader_at m1 p)); m = set_prev m c p; m = set_next m p c
          in if next (BlockHeader_at m c) \<noteq> 0 then set_prev m (next (BlockHeader_at m c)) c else m) \<and>
    heap_inv blocks m2 (insert_block (c, r, True) bs) \<and>
    (\<forall>x. x \<notin> hdr_bytes (insert_block (c, r, True) bs) \<longrightarrow> m2 x = m x)"
proof -
  have I: "hs.seg m 0 bs 0" "disj bs" "bs \<noteq> []" "blocks = first_addr bs 0" using inv by (auto simp: heap_inv_def)
  have "hdr_apart a c" if a: "a \<in> fst ` set bs" for a
  proof -
    obtain b where "b \<in> set bs" "a = fst b" using a by blast
    then show ?thesis using foot_sep [OF apart] hs.sep_sym by simp
  qed
  then have "BlockHeader_at m1 a = BlockHeader_at m a" if "a \<in> fst ` set bs" for a
    using that by (simp add: m1_def hs.other)
  from hs.seg_frame [OF this] have seg1: "hs.seg m1 0 bs 0" using I(1) by simp
  obtain xs p n f ys where s: "bs = xs @ (p, n, f) # ys" "find_close_loop m1 c (first_addr bs 0) = Some p"
      "insert_block (c, r, True) bs = xs @ (p, n, f) # (c, r, True) # ys"
    using find_close_loop_spec [OF seg1 I(3), of "(c, r, True)"] by auto
  let ?bs = "xs @ (p, n, f) # (c, r, True) # ys" and ?nx = "first_addr ys 0"
  have dis: "disj ?bs" using disj_insert [OF I(2) [unfolded s(1)] c(2)] apart s(1) by blast
  have sep: "hs.separate ?bs" using dis by (rule disj_separate)
  have pc: "hdr_apart p c" "hdr_apart c p" using sep hs.sep_sym by (auto simp: hs.separate_append)
  define m3 where "m3 = set_next (set_prev (set_next m1 c ?nx) c p) p c"
  define m2 where "m2 = hs.relink m3 ?nx c"
  have seg2: "hs.seg m2 0 ?bs 0"
    by (rule hs.seg_insert [OF I(1) [unfolded s(1)] sep c(1) m3_def [unfolded m1_def] m2_def])
  have hp: "next (BlockHeader_at m1 p) = ?nx" "p \<noteq> 0" using seg_hdr [OF seg1 [unfolded s(1)]] seg_ne0(1) [OF seg1 [unfolded s(1)]] by simp_all
  have hc: "next (BlockHeader_at m3 c) = ?nx" using pc by (simp add: m3_def hs.same hs.other)
  have "find_block_close_before_addr blocks c m1 = Inr p"
    using s(2) hp(2) I(4) by (simp add: find_block_close_before_addr_def)
  moreover have "m2 = (let m = set_next m1 c (next (BlockHeader_at m1 p)); m = set_prev m c p; m = set_next m p c
          in if next (BlockHeader_at m c) \<noteq> 0 then set_prev m (next (BlockHeader_at m c)) c else m)"
    using hp(1) hc by (simp add: m2_def m3_def hs.relink_def Let_def)
  moreover have "heap_inv blocks m2 ?bs" using seg2 dis I(4) s(1) by (simp add: heap_inv_def)
  moreover have "m2 x = m x" if "x \<notin> hdr_bytes ?bs" for x
  proof -
    have "x \<notin> span p 32" "x \<notin> span c 32" "ys \<noteq> [] \<Longrightarrow> x \<notin> span ?nx 32"
      using that by (auto simp: hdr_bytes_def first_addr_def split: list.splits)
    then show ?thesis by (cases ys) (simp_all add: m2_def m3_def m1_def hs.relink_def set_outside_header)
  qed
  ultimately show ?thesis unfolding s(3) by blast
qed

text \<open>Allocating from a block that is large enough.\<close>

lemma malloc_take_spec:
  assumes "heap_inv blocks m (xs @ (a, k, True) # ys)" and "n \<le> k"
  shows "\<exists>m'. malloc_take n a m = Inr (a + 32, m') \<and> heap_inv blocks m' (xs @ take_block n a k @ ys) \<and>
    (\<forall>x. x \<notin> hdr_bytes (xs @ take_block n a k @ ys) \<longrightarrow> m' x = m x)"
proof (cases "k = n \<or> k - n \<le> 32")
  case True
  have "set_is_free m a False x = m x" if "x \<notin> hdr_bytes (xs @ (a, k, False) # ys)" for x
    using that by (intro set_outside_header) (auto simp: hdr_bytes_def)
  then show ?thesis using malloc_take_whole [OF assms(1) True] True by (simp add: take_block_def)
next
  case False
  then show ?thesis using malloc_take_split [OF assms False] by (simp add: take_block_def)
qed

lemma take_block_foot:
  assumes "fits (a, k, True)" and "n \<le> k" and "b \<in> set (take_block n a k)"
  shows "foot b \<subseteq> foot (a, k, True)"
proof (cases "k = n \<or> k - n \<le> 32")
  case True
  then show ?thesis using assms(3) by (simp add: take_block_def foot_def)
next
  case False
  let ?r = "k - n - 32"
  have big: "unat n + 32 < unat k" using assms(2) False by (auto simp: word_le_nat_alt unat_minus_le)
  have nk: "unat (k - n) = unat k - unat n" using assms(2) by (simp add: unat_minus_le)
  then have r: "unat ?r = unat k - unat n - 32" using big by (subst unat_minus_le) (simp_all add: word_le_nat_alt)
  have "unat a + 32 + unat n + 32 + unat ?r \<le> 2 ^ 64" using assms(1) big r by (simp add: fits_def)
  from foot_glue(1) [OF this, of True True] have eq: "foot (a, k, True) = foot (a, n, True) \<union> foot (a + (32 + n), ?r, True)"
    by simp
  have "foot b = foot (a, n, True) \<or> foot b = foot (a + (32 + n), ?r, True)"
    using assms(3) False by (auto simp: take_block_def foot_def)
  then show ?thesis using eq by blast
qed

text \<open>The size of the new block.\<close>

definition grow_pages :: "u64 \<Rightarrow> u64" where
  "grow_pages n = n div PAGE_SZ + 1"

definition grow_bytes :: "u64 \<Rightarrow> u64" where
  "grow_bytes n = grow_pages n * PAGE_SZ - sizeof_BlockHeader"

lemma unat_grow_pages: "unat (grow_pages n) = unat n div 4096 + 1"
proof -
  have "unat n div 4096 < 2 ^ 52" using u64_bound [of n] by simp
  then show ?thesis by (simp add: grow_pages_def PAGE_SZ_def FRAME_SZ_def unat_word_ariths unat_div)
qed

lemma unat_grow_bytes:
  assumes "unat (grow_pages n) \<le> 2 ^ 20"
  shows "32 + unat (grow_bytes n) = 4096 * unat (grow_pages n)"
    and "n \<le> grow_bytes n \<longleftrightarrow> unat n mod 4096 \<le> 4064"
proof -
  have m: "unat (grow_pages n * PAGE_SZ) = unat (grow_pages n) * 4096"
    using unat_frame_ptr [of "grow_pages n"] assms by (simp add: PAGE_SZ_def)
  have "32 \<le> unat (grow_pages n) * 4096" by (simp add: unat_grow_pages)
  then show e: "32 + unat (grow_bytes n) = 4096 * unat (grow_pages n)"
    unfolding grow_bytes_def sizeof_BlockHeader_def using m by (subst unat_minus_le) (simp_all add: word_le_nat_alt)
  have "unat n = 4096 * (unat n div 4096) + unat n mod 4096" by simp
  then have "unat n \<le> unat (grow_bytes n) \<longleftrightarrow> unat n mod 4096 \<le> 4064"
    using e unat_grow_pages [of n] by linarith
  then show "n \<le> grow_bytes n \<longleftrightarrow> unat n mod 4096 \<le> 4064" by (simp add: word_le_nat_alt)
qed

text \<open>What growth needs: a run of free frames, and frames for the page tables.\<close>

definition can_grow :: "kst \<Rightarrow> u64 \<Rightarrow> bool" where
  "can_grow s n \<longleftrightarrow> 4 * unat (grow_pages n) \<le> room s \<and>
     (\<exists>k > 0. unat (last_free_idx (pmem s)) \<le> k \<and> k + unat (grow_pages n) \<le> unat (frames (pmem s)) \<and>
        free_run s k (unat (grow_pages n)))"

lemma grow_run:
  assumes inv: "pt_inv root s" and n: "4096 \<le> unat n" and can: "can_grow s n"
  shows "\<exists>a s1 s2. request_frames (grow_pages n) s = Inr (idx_to_frame_ptr a, s1) \<and>
    for_res 0 (\<lambda>_. grow_pages n) (\<lambda>i s. let page = idx_to_frame_ptr a + i * PAGE_SZ in allocate_page root page page s) s1 = Inr s2 \<and>
    0 < a \<and> last_free_idx (pmem s) \<le> a \<and> unat a + unat (grow_pages n) \<le> unat (frames (pmem s)) \<and>
    pt_inv root s2 \<and> (\<forall>x. safe_byte root s x \<longrightarrow> safe_byte root s2 x \<and> ram s2 x = ram s x) \<and>
    (\<forall>x \<in> span (idx_to_frame_ptr a) (4096 * unat (grow_pages n)). safe_byte root s2 x \<and> \<not> safe_byte root s x) \<and>
    (\<forall>w. mmu_translate (ram s2) root w = (if \<exists>i < grow_pages n. same_page (idx_to_frame_ptr a + i * PAGE_SZ) w
       then Some (take_bit 44 w) else mmu_translate (ram s) root w))"
proof -
  let ?g = "grow_pages n"
  have pool: "pm_inv s" "unat (frames (pmem s)) \<le> 2 ^ 20" using pt_inv_pool [OF inv] by (simp_all add: pool_ok_def)
  obtain k where k: "0 < k" "unat (last_free_idx (pmem s)) \<le> k" "k + unat ?g \<le> unat (frames (pmem s))"
      "free_run s k (unat ?g)" and room: "4 * unat ?g \<le> room s" using can by (auto simp: can_grow_def)
  have g: "2 \<le> unat ?g" "unat ?g \<le> 2 ^ 52" using n k(3) pool(2) by (simp_all add: unat_grow_pages)
  obtain a s1 where a: "request_frames ?g s = Inr (idx_to_frame_ptr a, s1)" "0 < a" "last_free_idx (pmem s) \<le> a" "unat a \<le> k"
      "free_run s (unat a) (unat ?g)" "run_taken (unat a) (unat ?g) s s1"
    using request_frames_run [OF pool(1) g k(2,1,3,4)] by blast
  have len: "unat a + unat ?g \<le> unat (frames (pmem s))" using a(4) k(3) by simp
  note T = run_taken_paging [OF inv a(6) len]
  have "3 * unat ?g \<le> room s1"
    using run_taken_room [OF a(6) _ len] a(3) room by (simp add: word_le_nat_alt)
  from map_pages [OF T(1) this, of "idx_to_frame_ptr a"] obtain s2 where
    s2: "for_res 0 (\<lambda>_. ?g) (\<lambda>i s. let page = idx_to_frame_ptr a + i * PAGE_SZ in allocate_page root page page s) s1 = Inr s2"
      "pt_inv root s2" "pt_keeps root s1 s2"
      "\<forall>w. mmu_translate (ram s2) root w = (if \<exists>i < ?g. same_page (idx_to_frame_ptr a + i * PAGE_SZ) w
       then Some (take_bit 44 w) else mmu_translate (ram s1) root w)" by blast
  have old: "safe_byte root s2 x \<and> ram s2 x = ram s x" if "safe_byte root s x" for x
    using safe_byte_kept [OF s2(2,3) T(4) [OF that]] T(5) [of x] that by (auto simp: safe_byte_def)
  have new: "safe_byte root s2 x \<and> \<not> safe_byte root s x" if "x \<in> span (idx_to_frame_ptr a) (4096 * unat ?g)" for x
    using run_safe [OF inv len a(5,6) that] safe_byte_kept(2) [OF s2(2,3)] by blast
  show ?thesis using a(1-3) len s2(1,2,4) T(3) old new by (intro exI [of _ a] exI [of _ s1] exI [of _ s2]) auto
qed

lemma suits_insert:
  assumes "\<not> (\<exists>b \<in> set bs. suits n b)" and "insert_block c bs = xs @ c # ys" and "set bs = set xs \<union> set ys"
  shows "find (suits n) (insert_block c bs) = (if suits n c then Some c else None)"
proof (cases "suits n c")
  case True
  then show ?thesis using assms by (simp add: find_first)
next
  case False
  then have "find (suits n) (insert_block c bs) = None" using assms(1) by (subst find_None_iff) auto
  then show ?thesis using False by simp
qed

lemma insert_block_split:
  "c \<notin> set bs \<Longrightarrow> \<exists>xs ys. insert_block c bs = xs @ c # ys \<and> set bs = set xs \<union> set ys"
proof (induction c bs rule: insert_block.induct)
  case (3 c b d bs)
  show ?case
  proof (cases "fst b < fst c \<and> fst d < fst c")
    case True
    then show ?thesis by (intro exI [of _ "[b]"] exI [of _ "d # bs"]) auto
  next
    case False
    then obtain xs ys where "insert_block c (d # bs) = xs @ c # ys" "set (d # bs) = set xs \<union> set ys" using 3 by auto
    then show ?thesis using False by (intro exI [of _ "b # xs"] exI [of _ ys]) auto
  qed
next
  case (1 c)
  then show ?case by (intro exI [of _ "[]"]) auto
next
  case (2 c b)
  then show ?case by (intro exI [of _ "[b]"] exI [of _ "[]"]) auto
qed

lemma heap_safe_split: "heap_safe root s (xs @ b # ys) \<longleftrightarrow> heap_safe root s [b] \<and> heap_safe root s xs \<and> heap_safe root s ys"
  by (auto simp: heap_safe_def)

lemma heap_safe_headers:
  assumes "heap_safe root s bs" and "x \<in> hdr_bytes bs"
  shows "safe_byte root s x"
  using assms header_in_foot unfolding hdr_bytes_def heap_safe_def by blast

text \<open>Writes to the headers of a heap in safe memory disturb neither tables nor frames.\<close>

lemma header_writes:
  assumes inv: "pt_inv root s" and safe: "heap_safe root s bs" and out: "\<forall>x. x \<notin> hdr_bytes bs \<longrightarrow> m x = ram s x"
  shows "pt_inv root (s\<lparr>ram := m\<rparr>)" and "mmu_translate m root v = mmu_translate (ram s) root v"
    and "safe_byte root s x \<Longrightarrow> safe_byte root (s\<lparr>ram := m\<rparr>) x" and "heap_safe root (s\<lparr>ram := m\<rparr>) bs"
proof -
  have "safe_byte root s x" if "m x \<noteq> ram s x" for x using heap_safe_headers [OF safe] out that by blast
  note W = safe_writes [where m = m, OF inv this]
  show "pt_inv root (s\<lparr>ram := m\<rparr>)" "mmu_translate m root v = mmu_translate (ram s) root v"
    "safe_byte root s x \<Longrightarrow> safe_byte root (s\<lparr>ram := m\<rparr>) x" by (rule W; assumption?)+
  show "heap_safe root (s\<lparr>ram := m\<rparr>) bs" using safe W(3) by (simp add: heap_safe_def)
qed

text \<open>The run of frames a growth takes, as a block.\<close>

lemma grow_block:
  assumes fr: "unat (frames (pmem s)) \<le> 2 ^ 20" and a: "0 < a" "unat a + unat (grow_pages n) \<le> unat (frames (pmem s))"
  shows "foot (idx_to_frame_ptr a, grow_bytes n, True) = span (idx_to_frame_ptr a) (4096 * unat (grow_pages n))"
    and "idx_to_frame_ptr a \<noteq> 0" and "fits (idx_to_frame_ptr a, grow_bytes n, True)"
proof -
  have "unat (grow_pages n) \<le> 2 ^ 20" using a(2) fr by simp
  note R = unat_grow_bytes(1) [OF this]
  then show "foot (idx_to_frame_ptr a, grow_bytes n, True) = span (idx_to_frame_ptr a) (4096 * unat (grow_pages n))"
    by (simp add: foot_def)
  have u: "unat (idx_to_frame_ptr a) = unat a * 4096"
    unfolding idx_to_frame_ptr_def using fr a(2) by (intro unat_frame_ptr) simp
  then show "idx_to_frame_ptr a \<noteq> 0" using a(1) by (auto simp: word_gt_0 unat_eq_zero)
  show "fits (idx_to_frame_ptr a, grow_bytes n, True)" using u R a(2) fr by (simp add: fits_def)
qed

text \<open>A block in fresh memory is apart from the others, whose headers are the only old bytes linking it changes.\<close>

lemma fresh_block:
  assumes safe: "heap_safe root s bs" and new: "\<forall>x \<in> foot (c, r, True). \<not> safe_byte root s x"
  shows "b \<in> set bs \<Longrightarrow> foot (c, r, True) \<inter> foot b = {}"
    and "\<exists>xs ys. insert_block (c, r, True) bs = xs @ (c, r, True) # ys \<and> set bs = set xs \<union> set ys"
    and "safe_byte root s x \<Longrightarrow> x \<in> hdr_bytes (insert_block (c, r, True) bs) \<longleftrightarrow> x \<in> hdr_bytes bs"
proof -
  let ?new = "(c, r, True)"
  show apart: "foot ?new \<inter> foot b = {}" if "b \<in> set bs" for b using new safe that unfolding heap_safe_def by blast
  have "c \<in> foot ?new" by (simp add: foot_def span_iff)
  then have "?new \<notin> set bs" using apart [of ?new] by blast
  then show "\<exists>xs ys. insert_block ?new bs = xs @ ?new # ys \<and> set bs = set xs \<union> set ys" using insert_block_split by blast
  assume "safe_byte root s x"
  then have "x \<notin> span c 32" using new header_in_foot [of ?new] by auto
  then show "x \<in> hdr_bytes (insert_block ?new bs) \<longleftrightarrow> x \<in> hdr_bytes bs" by (auto simp: hdr_bytes_def)
qed

text \<open>The growth branch up to the second search.\<close>

lemma malloc_grow_spec:
  assumes inv: "pt_inv root s" and hp: "heap_inv blocks (ram s) bs" and safe: "heap_safe root s bs"
    and no: "\<not> (\<exists>b \<in> set bs. suits n b)" and n: "4096 \<le> unat n" and can: "can_grow s n"
  shows "\<exists>a s3 xs ys. let c = idx_to_frame_ptr a; new = (c, grow_bytes n, True) in
    malloc_grow root blocks n s = (if n \<le> grow_bytes n then Inr (c, s3) else Inl (Assert ''block != nullptr'')) \<and>
    0 < a \<and> last_free_idx (pmem s) \<le> a \<and> unat a + unat (grow_pages n) \<le> unat (frames (pmem s)) \<and>
    insert_block new bs = xs @ new # ys \<and> set bs = set xs \<union> set ys \<and>
    heap_inv blocks (ram s3) (xs @ new # ys) \<and> pt_inv root s3 \<and> heap_safe root s3 (xs @ new # ys) \<and>
    (\<forall>x \<in> foot new. \<not> safe_byte root s x) \<and>
    (\<forall>x. safe_byte root s x \<longrightarrow> safe_byte root s3 x \<and> (x \<notin> hdr_bytes bs \<longrightarrow> ram s3 x = ram s x)) \<and>
    (\<forall>w. mmu_translate (ram s3) root w = (if \<exists>i < grow_pages n. same_page (c + i * PAGE_SZ) w
       then Some (take_bit 44 w) else mmu_translate (ram s) root w))"
proof -
  let ?g = "grow_pages n" and ?r = "grow_bytes n"
  obtain a s1 s2 where req: "request_frames ?g s = Inr (idx_to_frame_ptr a, s1)"
    and map: "for_res 0 (\<lambda>_. ?g) (\<lambda>i s. let page = idx_to_frame_ptr a + i * PAGE_SZ in allocate_page root page page s) s1 = Inr s2"
    and a: "0 < a" "last_free_idx (pmem s) \<le> a" "unat a + unat ?g \<le> unat (frames (pmem s))"
    and inv2: "pt_inv root s2" and old: "\<forall>x. safe_byte root s x \<longrightarrow> safe_byte root s2 x \<and> ram s2 x = ram s x"
    and new: "\<forall>x \<in> span (idx_to_frame_ptr a) (4096 * unat ?g). safe_byte root s2 x \<and> \<not> safe_byte root s x"
    and tr: "\<forall>w. mmu_translate (ram s2) root w = (if \<exists>i < ?g. same_page (idx_to_frame_ptr a + i * PAGE_SZ) w
       then Some (take_bit 44 w) else mmu_translate (ram s) root w)"
    using grow_run [OF inv n can] by blast
  define c where "c = idx_to_frame_ptr a"
  let ?new = "(c, ?r, True)"
  have fr: "unat (frames (pmem s)) \<le> 2 ^ 20" using pt_inv_pool [OF inv] by (simp add: pool_ok_def)
  note C = grow_block [OF fr a(1,3), folded c_def]
  have fresh: "\<forall>x \<in> foot ?new. \<not> safe_byte root s x" and safe2: "heap_safe root s2 [?new]"
    using new [folded c_def, folded C(1)] by (simp_all add: heap_safe_def)
  note F = fresh_block [OF safe fresh]
  have hp2: "heap_inv blocks (ram s2) bs" using old heap_safe_headers [OF safe] by (intro heap_inv_cong [OF hp]) auto
  from link_block [OF hp2 C(2,3) F(1)] obtain p m2 where
    p: "find_block_close_before_addr blocks c (set_is_free (set_bytes (ram s2) c ?r) c True) = Inr p"
    and m2: "m2 = (let m1 = set_is_free (set_bytes (ram s2) c ?r) c True; m = set_next m1 c (next (BlockHeader_at m1 p));
          m = set_prev m c p; m = set_next m p c
          in if next (BlockHeader_at m c) \<noteq> 0 then set_prev m (next (BlockHeader_at m c)) c else m)"
    and hp3: "heap_inv blocks m2 (insert_block ?new bs)" and out: "\<forall>x. x \<notin> hdr_bytes (insert_block ?new bs) \<longrightarrow> m2 x = ram s2 x"
    unfolding Let_def by blast
  obtain xs ys where ins: "insert_block ?new bs = xs @ ?new # ys" "set bs = set xs \<union> set ys" using F(2) by blast
  have "heap_safe root s2 (xs @ ?new # ys)" using safe safe2 old ins(2) unfolding heap_safe_split by (auto simp: heap_safe_def)
  note W = header_writes [OF inv2 this out [unfolded ins(1)]]
  have find: "find_free_block blocks n m2 = Inr (if n \<le> ?r then c else 0)"
    using find_free_block_spec [OF hp3, of n] suits_insert [OF no ins] by (simp add: suits_def)
  have "malloc_grow root blocks n s = (if n \<le> ?r then Inr (c, s2\<lparr>ram := m2\<rparr>) else Inl (Assert ''block != nullptr''))"
    using req map p find C(2)
    unfolding malloc_grow_def grow_pages_def [symmetric] Let_def c_def [symmetric] grow_bytes_def [symmetric]
    by (simp add: m2 [unfolded Let_def, symmetric])
  moreover have "safe_byte root (s2\<lparr>ram := m2\<rparr>) x \<and> (x \<notin> hdr_bytes bs \<longrightarrow> m2 x = ram s x)" if x: "safe_byte root s x" for x
    using F(3) [OF x] out old W(3) x by auto
  ultimately show ?thesis
    using a ins hp3 W(1,2,4) tr fresh unfolding Let_def c_def [symmetric]
    by (intro exI [of _ a] exI [of _ "s2\<lparr>ram := m2\<rparr>"] exI [of _ xs] exI [of _ ys]) (simp add: c_def [symmetric])
qed

text \<open>A request that no block satisfies goes to the growth branch.\<close>

lemma malloc_no_block:
  assumes "heap_inv blocks (ram s) bs" and "0 < n" and "\<not> (\<exists>b \<in> set bs. suits n b)"
  shows "malloc root blocks n s = bind_res (malloc_grow root blocks n s)
      (\<lambda>(block, s). bind_res (malloc_take n block (ram s)) (\<lambda>(p, m). Inr (p, s\<lparr>ram := m\<rparr>)))"
proof -
  have "find (suits n) bs = None" using assms(3) by (auto simp: find_None_iff)
  then show ?thesis using find_free_block_spec [OF assms(1), of n] assms(2) by (simp add: malloc_def)
qed

lemma run_identity:
  assumes fr: "unat (frames (pmem s)) \<le> 2 ^ 20" and len: "unat a + unat g \<le> unat (frames (pmem s))"
    and x: "x \<in> span (idx_to_frame_ptr a) (4096 * unat g)"
  shows "\<exists>i < g. same_page (idx_to_frame_ptr a + i * PAGE_SZ) x" and "take_bit 44 x = x"
proof -
  note X = run_bytes [OF fr len x]
  let ?j = "ptr_to_frame_idx x"
  have lt: "unat ?j < 2 ^ 20" using X(2) fr len by simp
  then have "unat (?j * FRAME_SZ) = unat ?j * 4096" by (intro unat_frame_ptr) simp
  then have p: "unat (idx_to_frame_ptr ?j) = unat ?j * 4096" by (simp add: idx_to_frame_ptr_def)
  have ux: "unat x div 4096 = unat ?j" by (simp add: unat_frame_idx)
  then have "unat x < 4096 * (unat ?j + 1)" by (metis Suc_eq_plus1 dividend_less_times_div mult.commute mult_Suc_right zero_less_numeral)
  then have small: "unat x < 2 ^ 32" using lt by simp
  then show "take_bit 44 x = x" by (simp add: word_unat_eq_iff unsigned_take_bit_eq take_bit_nat_eq_self)
  have ja: "unat (?j - a) = unat ?j - unat a" using X(1) by (simp add: unat_minus_le word_le_nat_alt)
  then have "?j - a < g" using X(1,2) by (simp add: word_less_nat_alt)
  moreover have "idx_to_frame_ptr a + (?j - a) * PAGE_SZ = idx_to_frame_ptr ?j"
    by (simp add: idx_to_frame_ptr_def PAGE_SZ_def algebra_simps)
  moreover have "same_page (idx_to_frame_ptr ?j) x" using small p ux lt by (subst same_page_small) simp_all
  ultimately show "\<exists>i < g. same_page (idx_to_frame_ptr a + i * PAGE_SZ) x" by metis
qed

text \<open>Taking a part of a free block leaves the heap in safe memory, and its new header within the block.\<close>

lemma take_block_safe:
  assumes fits: "fits (c, r, True)" and le: "n \<le> r" and safe: "heap_safe root s (xs @ (c, r, True) # ys)"
  shows "heap_safe root s (xs @ take_block n c r @ ys)"
    and "x \<in> hdr_bytes (xs @ take_block n c r @ ys) \<Longrightarrow> x \<in> hdr_bytes (xs @ ys) \<or> x \<in> foot (c, r, True)"
proof -
  note tf = take_block_foot [OF fits le]
  show "heap_safe root s (xs @ take_block n c r @ ys)" using safe tf unfolding heap_safe_def by fastforce
  assume "x \<in> hdr_bytes (xs @ take_block n c r @ ys)"
  then obtain b where b: "b \<in> set (xs @ take_block n c r @ ys)" "x \<in> span (fst b) 32" unfolding hdr_bytes_def by blast
  then show "x \<in> hdr_bytes (xs @ ys) \<or> x \<in> foot (c, r, True)"
    using tf [of b] header_in_foot [of b] by (cases "b \<in> set (take_block n c r)") (auto simp: hdr_bytes_def)
qed

lemma malloc_grow_result:
  assumes inv: "pt_inv root s" and hp: "heap_inv blocks (ram s) bs" and safe: "heap_safe root s bs"
    and no: "\<not> (\<exists>b \<in> set bs. suits n b)" and n: "4096 \<le> unat n" "unat n mod 4096 \<le> 4064" and can: "can_grow s n"
  shows "\<exists>a s' xs ys. let c = idx_to_frame_ptr a; r = grow_bytes n in
    malloc root blocks n s = Inr (c + 32, s') \<and> 0 < a \<and> last_free_idx (pmem s) \<le> a \<and>
    unat a + unat (grow_pages n) \<le> unat (frames (pmem s)) \<and> n \<le> r \<and>
    insert_block (c, r, True) bs = xs @ (c, r, True) # ys \<and>
    heap_inv blocks (ram s') (xs @ take_block n c r @ ys) \<and> pt_inv root s' \<and>
    heap_safe root s' (xs @ take_block n c r @ ys) \<and> (\<forall>x \<in> foot (c, r, True). \<not> safe_byte root s x) \<and>
    (\<forall>x. safe_byte root s x \<longrightarrow> safe_byte root s' x \<and> (x \<notin> hdr_bytes bs \<longrightarrow> ram s' x = ram s x)) \<and>
    (\<forall>b \<in> set bs. \<forall>x \<in> data_bytes b. ram s' x = ram s x) \<and>
    (\<forall>x \<in> span c (4096 * unat (grow_pages n)). mmu_translate (ram s') root x = Some x)"
proof -
  have n0: "0 < n" using n(1) by (auto simp: word_gt_0)
  define r where "r = grow_bytes n"
  from malloc_grow_spec [OF inv hp safe no n(1) can, folded r_def] obtain a s3 xs ys c where c: "c = idx_to_frame_ptr a" and
    G: "malloc_grow root blocks n s = (if n \<le> r then Inr (c, s3) else Inl (Assert ''block != nullptr''))"
      "0 < a" "last_free_idx (pmem s) \<le> a" "unat a + unat (grow_pages n) \<le> unat (frames (pmem s))"
      "insert_block (c, r, True) bs = xs @ (c, r, True) # ys" "set bs = set xs \<union> set ys"
      "heap_inv blocks (ram s3) (xs @ (c, r, True) # ys)" "pt_inv root s3" "heap_safe root s3 (xs @ (c, r, True) # ys)"
      "\<forall>x \<in> foot (c, r, True). \<not> safe_byte root s x"
      "\<forall>x. safe_byte root s x \<longrightarrow> safe_byte root s3 x \<and> (x \<notin> hdr_bytes bs \<longrightarrow> ram s3 x = ram s x)"
      "\<forall>w. mmu_translate (ram s3) root w = (if \<exists>i < grow_pages n. same_page (c + i * PAGE_SZ) w
       then Some (take_bit 44 w) else mmu_translate (ram s) root w)"
    unfolding Let_def by blast
  let ?bs = "xs @ take_block n c r @ ys"
  have fr: "unat (frames (pmem s)) \<le> 2 ^ 20" using pt_inv_pool [OF inv] by (simp add: pool_ok_def)
  then have nr: "n \<le> r" unfolding r_def using G(4) n(2) by (subst unat_grow_bytes(2)) simp_all
  from malloc_take_spec [OF G(7) nr] obtain m' where
    m': "malloc_take n c (ram s3) = Inr (c + 32, m')" "heap_inv blocks m' ?bs" "\<forall>x. x \<notin> hdr_bytes ?bs \<longrightarrow> m' x = ram s3 x"
    by blast
  have eq: "malloc root blocks n s = Inr (c + 32, s3\<lparr>ram := m'\<rparr>)"
    using malloc_no_block [OF hp n0 no, of root] G(1) nr m'(1) by simp
  have "fits (c, r, True)" using fits_of_disj [of "xs @ (c, r, True) # ys"] G(7) by (simp add: heap_inv_def)
  note T = take_block_safe [OF this nr G(9)]
  note W = header_writes [OF G(8) T(1) m'(3)]
  have old: "safe_byte root (s3\<lparr>ram := m'\<rparr>) x \<and> (x \<notin> hdr_bytes bs \<longrightarrow> m' x = ram s x)" if x: "safe_byte root s x" for x
  proof -
    have "hdr_bytes (xs @ ys) = hdr_bytes bs" using G(6) by (simp add: hdr_bytes_def)
    then show ?thesis using T(2) [of x] G(10,11) m'(3) W(3) x by metis
  qed
  have data: "m' x = ram s x" if b: "b \<in> set bs" and x: "x \<in> data_bytes b" for b x
  proof -
    have d: "disj bs" using hp by (simp add: heap_inv_def)
    have "x \<in> foot b" using foot_data(1) [OF fits_of_disj [OF d]] b x by auto
    then show ?thesis using safe b old data_no_header [OF d b] x by (auto simp: heap_safe_def)
  qed
  have idm: "mmu_translate m' root x = Some x" if "x \<in> span c (4096 * unat (grow_pages n))" for x
    using run_identity [OF fr G(4), of x] that W(2) G(12) by (simp add: c)
  show ?thesis
    using eq G(2,3,4,5,10) nr m'(2) W(1,4) old data idm unfolding Let_def r_def [symmetric]
    by (intro exI [of _ a] exI [of _ "s3\<lparr>ram := m'\<rparr>"] exI [of _ xs] exI [of _ ys]) (simp add: c [symmetric])
qed

section \<open>An example machine\<close>

text \<open>The example of the paging theory with a heap of one free block at \<open>0x30000\<close>, beyond the managed frames.\<close>

definition hg_example :: kst where
  "hg_example = pt_example\<lparr>ram := first_block 0x30000 (ram pt_example)\<rparr>"

lemma hg_page_safe: "x \<in> span 0x30000 4096 \<Longrightarrow> safe_byte 0x20000 pt_example x"
proof -
  assume x: "x \<in> span 0x30000 4096"
  have "span 0x1000 2 \<inter> span 0x30000 4096 = {}" "span 0x20000 4096 \<inter> span 0x30000 4096 = {}"
    by (rule spans_apart; simp)+
  moreover have "ptr_to_frame_idx x = ptr_to_frame_idx 0x30000" using x by (intro in_page_frame) (simp_all add: aligned_def)
  ultimately show ?thesis
    using x by (auto simp: safe_byte_def pt_example_props pt_example_inv(3) ptr_to_frame_idx_def FRAME_SZ_def)
qed

lemma hg_example_facts:
  "pt_inv 0x20000 hg_example" "heap_inv 0x30000 (ram hg_example) [(0x30000, 4064, True)]"
  "heap_safe 0x20000 hg_example [(0x30000, 4064, True)]"
proof -
  have al: "aligned 0x30000" "(0x30000 :: u64) \<noteq> 0" by (simp_all add: aligned_def)
  have writes: "safe_byte 0x20000 pt_example x" if "first_block 0x30000 (ram pt_example) x \<noteq> ram pt_example x" for x
    using that first_block_inv(2) [OF al(2,1), of x] hg_page_safe by blast
  note W = safe_writes [where m = "first_block 0x30000 (ram pt_example)", OF pt_example_inv(1) writes, folded hg_example_def]
  show "pt_inv 0x20000 hg_example" by (rule W(1))
  show "heap_inv 0x30000 (ram hg_example) [(0x30000, 4064, True)]"
    using first_block_inv(1) [OF al(2,1)] by (simp add: hg_example_def)
  show "heap_safe 0x20000 hg_example [(0x30000, 4064, True)]"
    using W(3) hg_page_safe by (simp add: heap_safe_def foot_def)
qed

lemma hg_example_grows:
  assumes "unat n div 4096 = 1"
  shows "can_grow hg_example n"
proof -
  have get: "bm_get hg_example j \<longleftrightarrow> j = 0 \<or> j = 1" if "j < 16" for j
  proof -
    have "bm_get (pt_example\<lparr>ram := first_block 0x30000 (ram pt_example)\<rparr>) j = bm_get pt_example j"
    proof (rule bm_get_ram_cong(1))
      show "first_block 0x30000 (ram pt_example) x = ram pt_example x" if "x \<in> bm_span (bitmap (pmem pt_example))" for x
        using that hg_page_safe [of x] by (intro first_block_inv(2)) (auto simp: aligned_def safe_byte_def)
    qed (use that in \<open>simp_all add: pt_example_props\<close>)
    then show ?thesis using pt_example_props(5) [OF that] by (simp add: hg_example_def)
  qed
  have p: "pmem hg_example = pmem pt_example" by (simp add: hg_example_def)
  have "{2, 3, 4, 5, 6, 7, 8, 9} \<subseteq> {i. last_free_idx (pmem hg_example) \<le> i \<and> i < frames (pmem hg_example) \<and> \<not> bm_get hg_example i}"
    by (simp add: p pt_example_props get)
  then have "card {2, 3, 4, 5, 6, 7, 8, 9 :: u64} \<le> room hg_example" unfolding room_def by (rule card_mono [OF finite])
  then have "8 \<le> room hg_example" by simp
  moreover have "free_run hg_example 2 2"
  proof -
    have "\<not> bm_get hg_example j" if "2 \<le> unat j" "unat j < 4" for j
    proof -
      have "j < 16" "j \<noteq> 0" "j \<noteq> 1" using that by (auto simp: word_less_nat_alt)
      then show ?thesis by (simp add: get)
    qed
    then show ?thesis by (simp add: free_run_def)
  qed
  moreover have g2: "unat (grow_pages n) = 2" using assms by (simp add: unat_grow_pages)
  ultimately show ?thesis
    unfolding can_grow_def g2 by (intro conjI exI [of _ 2]) (simp_all add: p pt_example_props)
qed

section \<open>Properties\<close>

text \<open>
  C8: \<^verbatim>\<open>malloc\<close> of at least a page, when no block is large enough, grows the heap: given a run of free frames
  and four frames for each page of it, and unless the request leaves no place for the header in its last
  page, it succeeds. The new block is linked in where \<^verbatim>\<open>_find_block_close_before_addr\<close> says, the pointer
  returned lies in it, its pages are mapped to themselves, the list of blocks and the page tables stay
  well formed, and the data of all blocks keeps its contents.\<close>

theorem malloc_grows:
  assumes "pt_inv root s" and "heap_inv blocks (ram s) bs" and "heap_safe root s bs"
    and "\<not> (\<exists>b \<in> set bs. suits n b)" and "4096 \<le> unat n" and "unat n mod 4096 \<le> 4064" and "can_grow s n"
  shows "\<exists>c s' xs ys. malloc root blocks n s = Inr (c + 32, s') \<and>
    insert_block (c, grow_bytes n, True) bs = xs @ (c, grow_bytes n, True) # ys \<and>
    heap_inv blocks (ram s') (xs @ take_block n c (grow_bytes n) @ ys) \<and> pt_inv root s' \<and>
    heap_safe root s' (xs @ take_block n c (grow_bytes n) @ ys) \<and>
    (\<forall>b \<in> set bs. \<forall>x \<in> data_bytes b. ram s' x = ram s x) \<and>
    (\<forall>x \<in> span c (4096 * unat (grow_pages n)). mmu_translate (ram s') root x = Some x)"
  using malloc_grow_result [OF assms] unfolding Let_def by blast

theorem malloc_grows_witness:
  "\<exists>c s'. malloc 0x20000 0x30000 5000 hg_example = Inr (c + 32, s') \<and>
    heap_inv 0x30000 (ram s') [(0x30000, 4064, True), (c, 5000, False), (c + 5032, 3128, True)]"
proof -
  have g: "grow_bytes 5000 = 8160" by (simp add: grow_bytes_def grow_pages_def PAGE_SZ_def FRAME_SZ_def sizeof_BlockHeader_def)
  have tb: "take_block 5000 c 8160 = [(c, 5000, False), (c + 5032, 3128, True)]" for c
    by (simp add: take_block_def)
  have "\<not> (\<exists>b \<in> set [(0x30000, 4064, True)]. suits 5000 b)" by (simp add: suits_def)
  moreover have "can_grow hg_example 5000" by (rule hg_example_grows) simp
  ultimately obtain c s' xs ys where
    r: "malloc 0x20000 0x30000 5000 hg_example = Inr (c + 32, s')"
      "insert_block (c, 8160, True) [(0x30000, 4064, True)] = xs @ (c, 8160, True) # ys"
      "heap_inv 0x30000 (ram s') (xs @ take_block 5000 c 8160 @ ys)"
    using malloc_grows [OF hg_example_facts, of 5000] unfolding g by auto
  from r(2) have "(xs = [(0x30000, 4064, True)] \<and> ys = []) \<or> (xs = [] \<and> ys = [(c, 8160, True)])"
    by (auto simp: Cons_eq_append_conv append_eq_Cons_conv)
  moreover have "xs \<noteq> []"
  proof
    assume "xs = []"
    then show False using r(2,3) by (auto simp: heap_inv_def tb)
  qed
  ultimately show ?thesis using r by (auto simp: tb)
qed

text \<open>
  \<^verbatim>\<open>malloc\<close> forgets its own header when it counts pages: a request of at least a page whose last page is
  filled to within 32 bytes always panics when the heap has to grow, after it has taken and mapped
  the frames.\<close>

theorem malloc_growth_forgets_header:
  assumes "pt_inv root s" and "heap_inv blocks (ram s) bs" and "heap_safe root s bs"
    and "\<not> (\<exists>b \<in> set bs. suits n b)" and "4096 \<le> unat n" and "4064 < unat n mod 4096" and "can_grow s n"
  shows "malloc root blocks n s = Inl (Assert ''block != nullptr'')"
proof -
  obtain a :: u64 and s3 where G: "malloc_grow root blocks n s = (if n \<le> grow_bytes n then Inr (idx_to_frame_ptr a, s3) else Inl (Assert ''block != nullptr''))"
      "unat a + unat (grow_pages n) \<le> unat (frames (pmem s))"
    using malloc_grow_spec [OF assms(1-5,7)] unfolding Let_def by blast
  have "unat (frames (pmem s)) \<le> 2 ^ 20" using pt_inv_pool [OF assms(1)] by (simp add: pool_ok_def)
  then have "\<not> n \<le> grow_bytes n" using unat_grow_bytes(2) [of n] G(2) assms(6) by simp
  moreover have "0 < n" using assms(5) by (auto simp: word_gt_0)
  ultimately show ?thesis using malloc_no_block [OF assms(2) _ assms(4), of root] G(1) by simp
qed

theorem malloc_growth_forgets_header_witness:
  "malloc 0x20000 0x30000 8190 hg_example = Inl (Assert ''block != nullptr'')"
proof -
  have "\<not> (\<exists>b \<in> set [(0x30000, 4064, True)]. suits 8190 b)" by (simp add: suits_def)
  moreover have "can_grow hg_example 8190" by (rule hg_example_grows) simp
  ultimately show ?thesis using malloc_growth_forgets_header [OF hg_example_facts, of 8190] by simp
qed

end
