(* ===== verification/HeapInit.thy ===== *)
theory HeapInit
  imports HeapGrow
begin

text \<open>
  The constructor of the heap and the frames it uses. The frame manager hands out the first free frame from
  its hint on, and page tables and heap take theirs from it, so frames are used up in order: this theory
  states that order (\<open>taken_upto\<close>), carries it through \<^verbatim>\<open>Paging::allocate_page\<close>, and derives what the first heap is:
  one free block in a page of its own that the other managers leave alone, below every frame a later
  growth can get.
\<close>

section \<open>Frames are taken in order\<close>

text \<open>From \<open>s\<close> to \<open>s'\<close> at most \<open>n\<close> frames were taken, the hint moved up, everything below the hint is locked and
  nothing above it has changed.\<close>

definition taken_upto :: "nat \<Rightarrow> kst \<Rightarrow> kst \<Rightarrow> bool" where
  "taken_upto n s s' \<longleftrightarrow> room s \<le> room s' + n \<and> frames (pmem s') = frames (pmem s) \<and>
     last_free_idx (pmem s) \<le> last_free_idx (pmem s') \<and>
     (\<forall>j < frames (pmem s). bm_get s j \<longrightarrow> bm_get s' j) \<and>
     (\<forall>j < frames (pmem s). last_free_idx (pmem s) \<le> j \<and> j < last_free_idx (pmem s') \<longrightarrow> bm_get s' j) \<and>
     (\<forall>j < frames (pmem s). last_free_idx (pmem s') < j \<longrightarrow> bm_get s' j = bm_get s j)"

lemma taken_upto_refl: "taken_upto 0 s s"
  by (auto simp: taken_upto_def)

lemma taken_upto_trans:
  assumes "taken_upto n s t" and "taken_upto k t u"
  shows "taken_upto (n + k) s u"
proof -
  have "bm_get u j" if "j < frames (pmem s)" "last_free_idx (pmem s) \<le> j" "j < last_free_idx (pmem u)" for j
    using assms that unfolding taken_upto_def by (metis linorder_not_less)
  then show ?thesis using assms unfolding taken_upto_def by (auto dest: order_trans order.strict_trans1)
qed

lemma taken_upto_mono: "taken_upto n s t \<Longrightarrow> n \<le> k \<Longrightarrow> taken_upto k s t"
  by (auto simp: taken_upto_def)

text \<open>Taking the first free frame from the hint on.\<close>

lemma taken_upto_next:
  assumes "last_free_idx (pmem s) \<le> k" and "k < frames (pmem s)" and "\<not> bm_get s k"
    and "\<And>j. last_free_idx (pmem s) \<le> j \<Longrightarrow> j < k \<Longrightarrow> bm_get s j"
    and "last_free_idx (pmem s') = k" and "frames (pmem s') = frames (pmem s)"
    and "\<And>j. j < frames (pmem s) \<Longrightarrow> bm_get s' j \<longleftrightarrow> j = k \<or> bm_get s j"
  shows "taken_upto 1 s s'"
  using room_next [OF assms] assms by (auto simp: taken_upto_def)

lemma ensure_table_taken:
  assumes "pt_inv root s" and "table_at root s p t" and "length p \<le> 2" and "i < 512"
    and ens: "ensure_table name (t + 8 * i) s = Inr (u, s')"
  shows "taken_upto 1 s s'"
proof (cases "bit (read64 (ram s) (t + 8 * i)) 0")
  case True
  with ensure_table_present [OF assms(1-4), of name] ens show ?thesis
    using taken_upto_mono [OF taken_upto_refl] by auto
next
  case False
  from ensure_table_absent(2) [OF assms(1-4) False ens] obtain k where
    L: "linkable root s p t i k" and u: "u = idx_to_frame_ptr k" and s': "s' = link_table k (t + 8 * i) s" by blast
  note pool = pt_inv_pool [OF assms(1)]
  have nz: "u \<noteq> 0" using request_frame_nonnull [OF pool] linkableD(6,7) [OF L] u by simp
  from ens False obtain s1 where req: "request_frame s = Inr (u, s1)"
    by (auto simp: ensure_table_def entry_present_bit bind_res_Inr_iff)
  from req show ?thesis
  proof (cases rule: request_frame_cases)
    case (frame j)
    have "j = k" using frame u linkableD(6) [OF L] frame_page(3) [OF pool] by metis
    then show ?thesis unfolding s' using frame link_pool(1) [OF L] by (intro taken_upto_next) simp_all
  qed (use nz in simp)
qed

lemma allocate_page_taken:
  assumes "pt_inv root s" and "allocate_page root v a s = Inr s'"
  shows "taken_upto 3 s s'"
proof -
  note idx = bf_get_9_less [of _ v]
  have at0: "table_at root s [] root" by (simp add: table_at_def)
  from assms(2) obtain t1 s1 t2 s2 t3 s3 where
    e1: "ensure_table ''PDPT'' (root + 8 * bf_get 39 9 v) s = Inr (t1, s1)" and
    e2: "ensure_table ''PD'' (t1 + 8 * bf_get 30 9 v) s1 = Inr (t2, s2)" and
    e3: "ensure_table ''PT'' (t2 + 8 * bf_get 21 9 v) s2 = Inr (t3, s3)" and
    s': "s' = set_leaf (t3 + 8 * bf_get 12 9 v) a s3"
    by (auto simp: allocate_page_unfold bind_res_Inr_iff)
  have S1: "pt_inv root s1" "table_at root s1 [bf_get 39 9 v] t1"
    using ensure_table_spec [OF assms(1) at0 _ idx e1] by auto
  have S2: "pt_inv root s2" "table_at root s2 [bf_get 39 9 v, bf_get 30 9 v] t2"
    using ensure_table_spec [OF S1 _ idx e2] by auto
  have S3: "pt_inv root s3" "table_at root s3 [bf_get 39 9 v, bf_get 30 9 v, bf_get 21 9 v] t3"
    using ensure_table_spec [OF S2 _ idx e3] by auto
  have "taken_upto 1 s s1" "taken_upto 1 s1 s2" "taken_upto 1 s2 s3"
    using ensure_table_taken [OF assms(1) at0 _ idx e1] ensure_table_taken [OF S1 _ idx e2]
      ensure_table_taken [OF S2 _ idx e3] by simp_all
  then have "taken_upto (1 + 1 + 1) s s3" by (meson taken_upto_trans)
  moreover have "taken_upto 0 s3 s'"
    using set_leaf_keeps(2) [OF S3 idx] set_leaf_pool(1) [OF S3 idx] unfolding s' by (auto simp: taken_upto_def)
  ultimately show ?thesis using taken_upto_trans by (fastforce simp: numeral_3_eq_3)
qed

section \<open>The first heap\<close>

text \<open>Once a free frame is taken, its bytes are safe, and safe bytes stay safe and unchanged.\<close>

lemma take_frame_safe:
  assumes inv: "pt_inv root s" and k: "k < frames (pmem s)" "\<not> bm_get s k"
  shows "x \<in> span (idx_to_frame_ptr k) 4096 \<Longrightarrow> safe_byte root (take_frame k s) x"
    and "safe_byte root s x \<Longrightarrow> safe_byte root (take_frame k s) x \<and> ram (take_frame k s) x = ram s x \<and> x \<notin> span (idx_to_frame_ptr k) 4096"
proof -
  let ?b = "idx_to_frame_ptr k"
  note pool = pt_inv_pool [OF inv] and T = pt_inv_take_frame [OF inv k(1)] and page = frame_page [OF pt_inv_pool [OF inv] k(1)]
  have idx: "ptr_to_frame_idx x = k" if "x \<in> span ?b 4096" using in_page_frame [OF page(1) that] page(3) by simp
  show "safe_byte root (take_frame k s) x" if x: "x \<in> span ?b 4096"
  proof -
    have "x \<notin> span u 4096" if u: "table_at root s p u" for p u
    proof -
      have "u \<noteq> ?b" using fresh_frame_no_table [OF inv u k] by simp
      then have "span u 4096 \<inter> span ?b 4096 = {}"
        using pt_invD(1) [OF inv u] page(1) by (intro pages_disjoint) (auto simp: table_ok_def)
      then show ?thesis using x by blast
    qed
    moreover have "span ?b 4096 \<inter> bm_span (bitmap (pmem s)) = {}" using pool k by (simp add: pool_ok_def)
    ultimately show ?thesis using x idx [OF x] T(2) by (auto simp: safe_byte_def bm_get_take_frame)
  qed
  assume x: "safe_byte root s x"
  then have "x \<notin> bm_span (bitmap (pmem s))" by (simp add: safe_byte_def)
  then have "ram (take_frame k s) x = ram s x" using pool k(1) by (simp add: lock_frame_ram_outside pool_ok_def)
  moreover have "x \<notin> span ?b 4096" using x k idx by (auto simp: safe_byte_def)
  ultimately show "safe_byte root (take_frame k s) x \<and> ram (take_frame k s) x = ram s x \<and> x \<notin> span ?b 4096"
    using x T(2) by (auto simp: safe_byte_def bm_get_take_frame)
qed

lemma safe_writes_taken:
  assumes inv: "pt_inv root s" and writes: "\<And>x. m x \<noteq> ram s x \<Longrightarrow> safe_byte root s x"
  shows "taken_upto 0 s (s\<lparr>ram := m\<rparr>)"
proof -
  have "bm_get (s\<lparr>ram := m\<rparr>) j = bm_get s j" if "j < frames (pmem s)" for j
  proof (rule bm_get_ram_cong(1))
    show "m x = ram s x" if "x \<in> bm_span (bitmap (pmem s))" for x using that writes [of x] by (auto simp: safe_byte_def)
  qed (use that inv pt_inv_pool [OF inv] in \<open>simp_all add: pool_ok_def\<close>)
  then show ?thesis using safe_writes(4) [where m = m, OF inv writes] by (auto simp: taken_upto_def)
qed

text \<open>The frame of the heap is the first free one, and the tables for its page are built.\<close>

lemma Heap_init_frame:
  assumes inv: "pt_inv root s" and room: "4 \<le> room s"
  shows "\<exists>b k s2. b = idx_to_frame_ptr k \<and> k < frames (pmem s) \<and> \<not> bm_get s k \<and> b \<noteq> 0 \<and> aligned b \<and>
    request_frame s = Inr (b, take_frame k s) \<and> allocate_page root b b (take_frame k s) = Inr s2 \<and> pt_inv root s2 \<and>
    pt_keeps root (take_frame k s) s2 \<and> taken_upto 4 s s2 \<and> k \<le> last_free_idx (pmem s2) \<and> mmu_translate (ram s2) root b = Some b"
proof -
  note pool = pt_inv_pool [OF inv]
  have "0 < room s" using room by simp
  then obtain k where k: "k < frames (pmem s)" "\<not> bm_get s k"
    and low: "last_free_idx (pmem s) \<le> k" "\<And>j. last_free_idx (pmem s) \<le> j \<Longrightarrow> j < k \<Longrightarrow> bm_get s j"
    and req: "request_frame s = Inr (idx_to_frame_ptr k, take_frame k s)"
    using request_frame_pool [OF pool] by blast
  let ?b = "idx_to_frame_ptr k" let ?t = "take_frame k s"
  note T = pt_inv_take_frame [OF inv k(1)] and page = frame_page [OF pool k(1)]
  have nz: "?b \<noteq> 0" using request_frame_nonnull [OF pool k(1,2)] .
  have t1: "taken_upto 1 s ?t" using k low by (intro taken_upto_next) (simp_all add: bm_get_take_frame)
  have "room s = Suc (room ?t)" using k low by (intro room_next) (simp_all add: bm_get_take_frame)
  then have "enough root {?b} ?t" using card_missing_one [of root ?b ?t] room by (simp add: enough_def)
  then obtain s2 where s2: "allocate_page root ?b ?b ?t = Inr s2"
    using allocate_page_total [OF T(1), of "{?b}" ?b ?b] by auto
  note t2 = allocate_page_taken [OF T(1) s2]
  have "taken_upto 4 s s2" using taken_upto_trans [OF t1 t2] by simp
  moreover have "k \<le> last_free_idx (pmem s2)" using t2 by (simp add: taken_upto_def)
  moreover have "mmu_translate (ram s2) root ?b = Some ?b"
    using allocate_page_translate [OF T(1) s2, of ?b] page identity_bits [of ?b]
    by (simp add: same_page_def word_unat_eq_iff unsigned_take_bit_eq take_bit_nat_eq_self)
  ultimately show ?thesis
    using k nz page(1) req s2 allocate_page_spec [OF T(1) s2] by blast
qed

text \<open>The constructor of the heap.\<close>

lemma Heap_init_spec:
  assumes inv: "pt_inv root s" and room: "4 \<le> room s"
  shows "\<exists>k s'. Heap_init root s = Inr (idx_to_frame_ptr k, s') \<and> k < frames (pmem s) \<and> \<not> bm_get s k \<and>
    heap_inv (idx_to_frame_ptr k) (ram s') [(idx_to_frame_ptr k, 4064, True)] \<and> pt_inv root s' \<and>
    heap_safe root s' [(idx_to_frame_ptr k, 4064, True)] \<and> taken_upto 4 s s' \<and> k \<le> last_free_idx (pmem s') \<and>
    (\<forall>x. safe_byte root s x \<longrightarrow> safe_byte root s' x \<and> ram s' x = ram s x) \<and> kout s' = kout s \<and>
    mmu_translate (ram s') root (idx_to_frame_ptr k) = Some (idx_to_frame_ptr k)"
proof -
  from Heap_init_frame [OF assms] obtain b k s2 where b: "b = idx_to_frame_ptr k" and k: "k < frames (pmem s)" "\<not> bm_get s k"
    and nz: "b \<noteq> 0" and al: "aligned b" and req: "request_frame s = Inr (b, take_frame k s)"
    and s2: "allocate_page root b b (take_frame k s) = Inr s2" and inv2: "pt_inv root s2" and keeps: "pt_keeps root (take_frame k s) s2"
    and t2: "taken_upto 4 s s2" "k \<le> last_free_idx (pmem s2)" and tr: "mmu_translate (ram s2) root b = Some b" by blast
  note S = take_frame_safe [OF inv k, folded b] and K = safe_byte_kept [OF inv2 keeps]
  define m where "m = first_block b (ram s2)"
  note B = first_block_inv [where m = "ram s2", OF nz al, folded m_def]
  have page: "safe_byte root s2 x" if "x \<in> span b 4096" for x using K(2) S(1) that by blast
  then have writes: "safe_byte root s2 x" if "m x \<noteq> ram s2 x" for x using B(2) that by blast
  note W = safe_writes [where m = m, OF inv2 writes]
  have "Heap_init root s = Inr (b, s2\<lparr>ram := m\<rparr>)"
    using req nz s2 by (simp add: Heap_init_def m_def first_block_def Let_def)
  moreover have "taken_upto 4 s (s2\<lparr>ram := m\<rparr>)"
    using taken_upto_trans [OF t2(1) safe_writes_taken [where m = m, OF inv2 writes]] by simp
  moreover have "heap_safe root (s2\<lparr>ram := m\<rparr>) [(b, 4064, True)]" using W(3) page by (simp add: heap_safe_def foot_def)
  moreover have "safe_byte root (s2\<lparr>ram := m\<rparr>) x \<and> m x = ram s x" if "safe_byte root s x" for x
    using S(2) [OF that] K B(2) W(3) by metis
  moreover have "kout s2 = kout s" using pt_keepsD(3) [OF keeps] by simp
  ultimately show ?thesis
    using k B(1) W(1,2) t2(2) tr unfolding b [symmetric]
    by (intro exI [of _ k] exI [of _ "s2\<lparr>ram := m\<rparr>"]) (simp add: b [symmetric])
qed

text \<open>A long enough run of free frames is not used up.\<close>

lemma taken_upto_run:
  assumes t: "taken_upto n s s'" and k: "unat (last_free_idx (pmem s)) \<le> k" "k + (n + 1 + g) \<le> unat (frames (pmem s))"
    and run: "free_run s k (n + 1 + g)"
  shows "unat (last_free_idx (pmem s')) \<le> k + n" and "free_run s' (k + n + 1) g"
proof -
  let ?F = "\<lambda>s. {i. last_free_idx (pmem s) \<le> i \<and> i < frames (pmem s) \<and> \<not> bm_get s i}"
  have fr: "unat (frames (pmem s)) < 2 ^ 64" by (rule u64_bound)
  have T: "room s \<le> room s' + n" "frames (pmem s') = frames (pmem s)" "last_free_idx (pmem s) \<le> last_free_idx (pmem s')"
      "\<And>j. j < frames (pmem s) \<Longrightarrow> bm_get s j \<Longrightarrow> bm_get s' j"
      "\<And>j. j < frames (pmem s) \<Longrightarrow> last_free_idx (pmem s) \<le> j \<Longrightarrow> j < last_free_idx (pmem s') \<Longrightarrow> bm_get s' j"
      "\<And>j. j < frames (pmem s) \<Longrightarrow> last_free_idx (pmem s') < j \<Longrightarrow> bm_get s' j = bm_get s j"
    using t unfolding taken_upto_def by blast+
  show L: "unat (last_free_idx (pmem s')) \<le> k + n"
  proof (rule ccontr)
    assume "\<not> ?thesis"
    then have big: "k + n < unat (last_free_idx (pmem s'))" by simp
    let ?N = "(of_nat :: nat \<Rightarrow> u64) ` {k..k + n}"
    have un: "unat (of_nat i :: u64) = i" if "i \<in> {k..k + n}" for i using that k(2) fr by simp
    have sub: "?F s' \<union> ?N \<subseteq> ?F s"
    proof -
      have "of_nat i \<in> ?F s" if i: "i \<in> {k..k + n}" for i
        using i k run un [OF i] by (auto simp: free_run_def word_le_nat_alt word_less_nat_alt)
      moreover have "?F s' \<subseteq> ?F s" using T(2,3,4) by (auto dest: order_trans)
      ultimately show ?thesis by blast
    qed
    have dis: "?F s' \<inter> ?N = {}" using un big by (auto simp: word_le_nat_alt)
    have "inj_on (of_nat :: nat \<Rightarrow> u64) {k..k + n}" using un by (intro inj_onI) metis
    then have "card ?N = n + 1" by (simp add: card_image)
    then have "card (?F s' \<union> ?N) = room s' + (n + 1)"
      using dis by (subst card_Un_disjoint) (simp_all add: room_def)
    then have "room s' + (n + 1) \<le> room s" using card_mono [OF finite sub] by (simp add: room_def)
    then show False using T(1) by simp
  qed
  have "\<not> bm_get s' j" if j: "k + n + 1 \<le> unat j" "unat j < k + n + 1 + g" for j
  proof -
    have "j < frames (pmem s)" "last_free_idx (pmem s') < j" using j L k(2) by (simp_all add: word_less_nat_alt)
    then show ?thesis using T(6) [of j] run j by (simp add: free_run_def)
  qed
  then show "free_run s' (k + n + 1) g" by (simp add: free_run_def)
qed

text \<open>The machine can give the heap its first page and grow it by \<open>g\<close> pages.\<close>

definition heap_room :: "kst \<Rightarrow> nat \<Rightarrow> bool" where
  "heap_room s g \<longleftrightarrow> 4 + 4 * g \<le> room s \<and>
     (\<exists>k. unat (last_free_idx (pmem s)) \<le> k \<and> k + (5 + g) \<le> unat (frames (pmem s)) \<and> free_run s k (5 + g))"

lemma heap_room_grows:
  assumes "heap_room s (unat (grow_pages n))" and "taken_upto 4 s s'"
  shows "can_grow s' n"
proof -
  let ?g = "unat (grow_pages n)"
  obtain k where k: "unat (last_free_idx (pmem s)) \<le> k" "k + (5 + ?g) \<le> unat (frames (pmem s))" "free_run s k (5 + ?g)"
    using assms(1) by (auto simp: heap_room_def)
  have "4 + 4 * ?g \<le> room s' + 4" using assms by (simp add: heap_room_def taken_upto_def)
  moreover have "unat (last_free_idx (pmem s')) \<le> k + 4" "free_run s' (k + 4 + 1) ?g"
    using taken_upto_run [OF assms(2) k(1)] k(2,3) by simp_all
  moreover have "frames (pmem s') = frames (pmem s)" using assms(2) by (simp add: taken_upto_def)
  ultimately show ?thesis
    unfolding can_grow_def using k(2) by (intro conjI exI [of _ "k + 5"]) (simp_all add: add.commute)
qed

text \<open>
  The constructor of the heap succeeds when four frames are free: it makes one free block of a page that is
  mapped to itself.\<close>

theorem Heap_init_one_block:
  assumes "pt_inv root s" and "4 \<le> room s"
  shows "\<exists>b s'. Heap_init root s = Inr (b, s') \<and> heap_inv b (ram s') [(b, 4064, True)] \<and> pt_inv root s' \<and>
    mmu_translate (ram s') root b = Some b"
  using Heap_init_spec [OF assms] by blast

theorem Heap_init_one_block_witness:
  "\<exists>b s'. Heap_init 0x20000 pt_example = Inr (b, s') \<and> heap_inv b (ram s') [(b, 4064, True)]"
  using Heap_init_one_block [OF pt_example_inv(1)] pt_example_room by auto

lemma frame_not_safe:
  assumes "pt_inv root s" and "k < frames (pmem s)" and "\<not> bm_get s k" and "x \<in> span (idx_to_frame_ptr k) 4096"
  shows "\<not> safe_byte root s x"
proof -
  note page = frame_page [OF pt_inv_pool [OF assms(1)] assms(2)]
  have "ptr_to_frame_idx x = k" using in_page_frame [OF page(1) assms(4)] page(3) by simp
  then show ?thesis using assms(2,3) by (simp add: safe_byte_def)
qed

section \<open>Allocation inside the heap\<close>

text \<open>An allocation from a block of the heap writes inside that block and the headers only, so page tables,
  frames and all other safe bytes stay as they are.\<close>

lemma malloc_inside:
  assumes inv: "pt_inv root s" and hp: "heap_inv blocks (ram s) (xs @ (a, k, True) # ys)"
    and safe: "heap_safe root s (xs @ (a, k, True) # ys)" and n: "0 < n" "n \<le> k" and no: "\<not> (\<exists>b \<in> set xs. suits n b)"
  shows "\<exists>s'. malloc root blocks n s = Inr (a + 32, s') \<and> pmem s' = pmem s \<and> kout s' = kout s \<and>
    heap_inv blocks (ram s') (xs @ take_block n a k @ ys) \<and> pt_inv root s' \<and> heap_safe root s' (xs @ take_block n a k @ ys) \<and>
    (\<forall>x. safe_byte root s x \<longrightarrow> safe_byte root s' x) \<and> (\<forall>q. can_grow s q \<longrightarrow> can_grow s' q) \<and>
    (\<forall>x. (\<forall>b \<in> set (xs @ (a, k, True) # ys). x \<notin> foot b) \<longrightarrow> ram s' x = ram s x) \<and>
    (\<forall>b \<in> set (take_block n a k). foot b \<subseteq> foot (a, k, True))"
proof -
  let ?bs = "xs @ (a, k, True) # ys" and ?cs = "xs @ take_block n a k @ ys"
  obtain s' where s': "malloc root blocks n s = Inr (a + 32, s')" "pmem s' = pmem s" "kout s' = kout s"
      "heap_inv blocks (ram s') ?cs" and out: "\<forall>x. x \<notin> hdr_bytes ?cs \<longrightarrow> ram s' x = ram s x"
    using malloc_spec [OF hp n no] by blast
  have eq: "s' = s\<lparr>ram := ram s'\<rparr>" using s'(2,3) by simp
  have "fits (a, k, True)" using fits_of_disj [of ?bs "(a, k, True)"] hp by (simp add: heap_inv_def)
  note tf = take_block_foot [OF this n(2)]
  have feet: "x \<in> (\<Union>b \<in> set ?bs. foot b)" if "b \<in> set ?cs" "x \<in> foot b" for b x
  proof (cases "b \<in> set (take_block n a k)")
    case True
    then show ?thesis using tf [OF True] that(2) by auto
  qed (use that in auto)
  have hdr: "x \<in> (\<Union>b \<in> set ?bs. foot b)" if h: "x \<in> hdr_bytes ?cs" for x
  proof -
    obtain b where "b \<in> set ?cs" "x \<in> span (fst b) 32" using h unfolding hdr_bytes_def by blast
    then show ?thesis using feet header_in_foot by blast
  qed
  have sf: "safe_byte root s x" if "x \<in> (\<Union>b \<in> set ?bs. foot b)" for x using safe that unfolding heap_safe_def by blast
  have writes: "safe_byte root s x" if "ram s' x \<noteq> ram s x" for x using sf hdr out that by blast
  note W = safe_writes [where m = "ram s'", OF inv writes, folded eq]
  have pool: "pm_inv s" using pt_inv_pool [OF inv] by (simp add: pool_ok_def)
  have bm: "bm_get s' j = bm_get s j" if "j < frames (pmem s)" for j
  proof -
    have "bm_get (s\<lparr>ram := ram s'\<rparr>) j = bm_get s j"
      by (rule bm_get_ram_cong(1) [OF pool]) (use writes that in \<open>auto simp: safe_byte_def\<close>)
    then show ?thesis by (simp flip: eq)
  qed
  have "free_run s' i g" if "free_run s i g" "i + g \<le> unat (frames (pmem s))" for i g
    using that bm unfolding free_run_def by (auto simp: word_less_nat_alt)
  then have "can_grow s q \<Longrightarrow> can_grow s' q" for q using W(4) s'(2) unfolding can_grow_def by auto
  moreover have "heap_safe root s' ?cs" using feet sf W(3) unfolding heap_safe_def by blast
  moreover have "ram s' x = ram s x" if "\<forall>b \<in> set ?bs. x \<notin> foot b" for x using that hdr [of x] out by blast
  ultimately show ?thesis using s' W(1,3) tf by blast
qed

text \<open>Growth prints one line, the frames \<^verbatim>\<open>request_frames\<close> has found.\<close>

definition run_text :: "u64 \<Rightarrow> u64 \<Rightarrow> u8 list" where
  "run_text a b = num_text 10 a @ str '', '' @ num_text 10 b @ [10]"

lemma kprintf_run_text: "kprintf (str ''%d, %d'' @ [10]) [VNum a, VNum b] out = Inr (out @ run_text a b)"
proof -
  have r: "render (str ''%d, %d'' @ [10]) False [VNum a, VNum b] = Some (run_text a b)" by (simp add: str_def run_text_def)
  have "length (run_text a b) < 4096"
    using length_num_text [of 10 a] length_num_text [of 10 b] by (simp add: run_text_def str_def)
  then have "printf (str ''%d, %d'' @ [10]) [VNum a, VNum b] = Inr (run_text a b)"
    using printf_loop_render [OF r, of "[]"] by (simp add: printf_def str_def)
  then show ?thesis by (simp add: kprintf_def)
qed

lemma lock_upto_kout: "lock_upto i e s = Inr s' \<Longrightarrow> kout s' = kout s"
proof (induction i e s rule: lock_upto.induct)
  case (1 i e s)
  then show ?case by (subst (asm) lock_upto.simps) (auto split: if_splits)
qed

lemma request_frames_text:
  assumes "request_frames number s = Inr (p, s')"
  shows "\<exists>a b. kout s' = kout s @ run_text a b"
  using assms
  by (auto simp: request_frames_def bind_res_Inr_iff kprintf_run_text split: prod.splits dest!: lock_upto_kout) blast

lemma request_frame_kout: "request_frame s = Inr (p, s') \<Longrightarrow> kout s' = kout s"
  by (erule request_frame_cases) simp_all

lemma ensure_table_kout: "ensure_table name e s = Inr (t, s') \<Longrightarrow> kout s' = kout s"
  by (auto simp: ensure_table_def bind_res_Inr_iff Let_def split: if_splits dest!: request_frame_kout)

lemma allocate_page_kout: "allocate_page root v a s = Inr s' \<Longrightarrow> kout s' = kout s"
  by (auto simp: allocate_page_def bind_res_Inr_iff Let_def dest!: ensure_table_kout)

lemma malloc_text:
  assumes "malloc root blocks n s = Inr (p, s')"
  shows "kout s' = kout s \<or> (\<exists>a b. kout s' = kout s @ run_text a b)"
proof -
  have grow: "\<exists>a b. kout u = kout s @ run_text a b" if g: "malloc_grow root blocks n s = Inr (c, u)" for c u
  proof -
    from g obtain i s1 s2 where r: "request_frames (n div PAGE_SZ + 1) s = Inr (i, s1)"
      and l: "for_res 0 (\<lambda>_. n div PAGE_SZ + 1) (\<lambda>j s. let page = i + j * PAGE_SZ in allocate_page root page page s) s1 = Inr s2"
      and u: "kout u = kout s2"
      by (auto simp: malloc_grow_def bind_res_Inr_iff Let_def)
    have "kout s2 = kout s1" by (rule for_res_keeps [OF _ l]) (auto simp: Let_def dest: allocate_page_kout)
    then show ?thesis using request_frames_text [OF r] u by simp
  qed
  show ?thesis using assms grow
    by (auto simp: malloc_def bind_res_Inr_iff split: if_splits)
qed

end
