(* ===== verification/Kernel.thy ===== *)
theory Kernel
  imports Interrupts HeapInit
begin

text \<open>
  The entry of the kernel, \<^verbatim>\<open>_start\<close> of \<^verbatim>\<open>kernel.cpp\<close>, with the global structures of \<^verbatim>\<open>kernel.hpp\<close>. Each
  stage of \<^verbatim>\<open>_start\<close> is a definition over one record of the machine, and \<open>start\<close> runs them in the order of the
  source; a stage calls the operations of the components as their theories define them. What the boot loader
  hands over is read from memory. Messages of \<^verbatim>\<open>_start\<close> go to the console on the screen. The memory
  managers collect theirs in \<open>kout\<close>: the line of \<^verbatim>\<open>request_frames\<close> is shown when \<^verbatim>\<open>malloc\<close> returns, and a text
  left by the constructor of the page tables is its panic.

  Theorems: the objects of the first stage are well formed; no failed check of the ACPI tables stops
  the boot. The stages together and the exercise of the heap have theories of their own.
\<close>

section \<open>Global structures\<close>

record BootloaderData =
  bd_framebuffer :: u64
  bd_font :: u64
  bd_memory :: u64
  bd_acpi_rsdp :: u64

definition BootloaderData_at :: "mem \<Rightarrow> u64 \<Rightarrow> BootloaderData" where
  "BootloaderData_at m p = \<lparr>bd_framebuffer = read64 m p, bd_font = read64 m (p + 8),
     bd_memory = read64 m (p + 16), bd_acpi_rsdp = read64 m (p + 24)\<rparr>"

text \<open>The structures it points to.\<close>

definition FramebufferData_at :: "mem \<Rightarrow> u64 \<Rightarrow> FramebufferData" where
  "FramebufferData_at m p = \<lparr>fd_base_addr = read64 m p, fd_double_buffer = read64 m (p + 8),
     fd_b_size = read64 m (p + 16), fd_width = read16 m (p + 24), fd_height = read16 m (p + 26),
     fd_px_per_scan = read16 m (p + 28), fd_b_per_px = m (p + 30)\<rparr>"

definition ConsoleFont_at :: "mem \<Rightarrow> u64 \<Rightarrow> ConsoleFont" where
  "ConsoleFont_at m p = \<lparr>psf_header = read64 m p, glyph_height = m (p + 8), glyph_width = m (p + 9),
     glyph_buffer = read64 m (p + 16)\<rparr>"

definition MemoryData_at :: "mem \<Rightarrow> u64 \<Rightarrow> MemoryData" where
  "MemoryData_at m p = \<lparr>md_mmap = read64 m p, md_mmap_sz = read64 m (p + 8), md_desc_sz = read64 m (p + 16),
     md_entries = read64 m (p + 24)\<rparr>"

record ACPI_Tables =
  t_madt :: u64
  t_lapic :: u64
  t_ioapic :: u64
  t_hpet :: u64

record DevicesInfo =
  dev_cpu :: cpu_Info

text \<open>A null pointer to an object is \<open>None\<close>; the heap is its list head and the page tables their root, both
  zero before their constructors; the frame manager is the \<open>pmem\<close> of the memory state.\<close>

record KernelData =
  k_stack :: u64
  k_console :: "Console option"
  k_acpi_rsdp :: u64
  k_gdt :: u64
  k_idt :: u64
  k_acpi_tables :: ACPI_Tables
  k_framebuffer :: "Framebuffer option"
  k_memory :: u64
  k_mmap :: "MemoryMap option"
  k_paging :: u64
  k_heap :: u64
  k_keyboard :: "Keyboard option"

definition KernelData_init :: KernelData where
  "KernelData_init = \<lparr>k_stack = 0, k_console = None, k_acpi_rsdp = 0, k_gdt = 0, k_idt = 0,
     k_acpi_tables = \<lparr>t_madt = 0, t_lapic = 0, t_ioapic = 0, t_hpet = 0\<rparr>, k_framebuffer = None, k_memory = 0,
     k_mmap = None, k_paging = 0, k_heap = 0, k_keyboard = None\<rparr>"

text \<open>The machine: memory and frame manager, devices, registers, and the globals \<^verbatim>\<open>kernel\<close> and \<^verbatim>\<open>devices\<close>.\<close>

record 'd machine =
  st :: kst
  dev :: 'd
  ctrl :: cpu_regs
  msr :: msrs
  segs :: seg_regs
  idtr_reg :: IDTR
  int_flag :: bool
  kernel :: KernelData
  devices :: DevicesInfo

text \<open>What the linker, the compiler and the hardware decide: places of static objects, string constants and
  handlers, the buffer of \<^verbatim>\<open>__printf\<close>, the bits of an uninitialised variable, and the devices.\<close>

record 'd platform =
  p_bus :: "'d bus"
  p_mmio :: "'d mmio"
  p_cpuid :: cpuid
  p_handlers :: handlers
  p_buf :: u64
  p_pmem :: u64
  p_gdt :: u64
  p_idt :: u64
  p_PML4 :: u64
  p_junk :: RedirEntry
  p_RSDP_SIG :: u64
  p_RSDT_SIG :: u64
  p_MADT_SIG :: u64
  p_HPET_SIG :: u64

section \<open>Messages\<close>

text \<open>A statement on the console and the memory; a message before there is a console goes through a null
  pointer.\<close>

definition on_screen :: "(Console \<times> mem \<Rightarrow> (Console \<times> mem) res) \<Rightarrow> 'd machine \<Rightarrow> 'd machine res" where
  "on_screen f s =
     (case k_console (kernel s) of
        None \<Rightarrow> Inl NullDeref
      | Some con \<Rightarrow> bind_res (f (con, ram (st s))) (\<lambda>(con', m).
          Inr (s\<lparr>kernel := (kernel s)\<lparr>k_console := Some con'\<rparr>, st := (st s)\<lparr>ram := m\<rparr>\<rparr>)))"

definition say :: "'d platform \<Rightarrow> string \<Rightarrow> vararg list \<Rightarrow> 'd machine \<Rightarrow> 'd machine res" where
  "say pl fmt args = on_screen (con_kprintf (p_buf pl) (str fmt) args)"

definition say_line :: "'d platform \<Rightarrow> string \<Rightarrow> vararg list \<Rightarrow> 'd machine \<Rightarrow> 'd machine res" where
  "say_line pl fmt args = on_screen (con_kprintf (p_buf pl) (str fmt @ [10]) args)"

definition say_succ :: "'d platform \<Rightarrow> string \<Rightarrow> 'd machine \<Rightarrow> 'd machine res" where
  "say_succ pl msg = on_screen (con_kprint_succ (p_buf pl) (str msg))"

definition panic :: "'d platform \<Rightarrow> string \<Rightarrow> 'd machine \<Rightarrow> 'd machine res" where
  "panic pl msg = on_screen (kpanic (p_buf pl) (str msg))"

definition check :: "string \<Rightarrow> ('d machine \<Rightarrow> bool) \<Rightarrow> 'd machine \<Rightarrow> 'd machine res" where
  "check expr b s = bind_res (ASSERT expr (b s)) (\<lambda>_. Inr s)"

section \<open>The stages\<close>

definition start_objects :: "u64 \<Rightarrow> 'd machine \<Rightarrow> 'd machine res" where
  "start_objects bd s =
     bind_res (ASSERT ''bd != nullptr'' (bd \<noteq> 0)) (\<lambda>_.
     let m = ram (st s);
         data = BootloaderData_at m bd;
         k = (kernel s)\<lparr>k_stack := bd, k_acpi_rsdp := bd_acpi_rsdp data, k_keyboard := Some Keyboard_init\<rparr>
     in
     bind_res (MemoryMap_init (MemoryData_at m (bd_memory data))) (\<lambda>mmap.
     bind_res (Framebuffer_init (FramebufferData_at m (bd_framebuffer data))) (\<lambda>fb.
     let con = Console_init (ConsoleFont_at m (bd_font data)) fb;
         (con, m) = con_clear con m
     in Inr (s\<lparr>st := (st s)\<lparr>ram := m\<rparr>,
          kernel := k\<lparr>k_mmap := Some mmap, k_framebuffer := Some fb, k_memory := bd_memory data,
                      k_console := Some con\<rparr>\<rparr>))))"

definition start_pmem :: "'d platform \<Rightarrow> 'd machine \<Rightarrow> 'd machine res" where
  "start_pmem pl s =
     (case k_mmap (kernel s) of
        None \<Rightarrow> Inl NullDeref
      | Some mmap \<Rightarrow>
          bind_res (PMem_init (p_pmem pl) mmap (MemoryData_at (ram (st s)) (k_memory (kernel s)))
             (k_stack (kernel s)) (ram (st s)) []) (\<lambda>k.
          bind_res (say_succ pl ''Physical memory initalization success'' (s\<lparr>st := k\<rparr>)) (\<lambda>s.
          on_screen (kprint_pmem_info (p_buf pl) (pmem (st s))) s)))"

text \<open>The values of \<^verbatim>\<open>enum class State\<close>.\<close>

fun cpu_state_code :: "cpu_State \<Rightarrow> u64" where
  "cpu_state_code ERROR = 0"
| "cpu_state_code SUCCESS = 1"
| "cpu_state_code NO_LONG_MODE = 2"
| "cpu_state_code NO_FPU = 3"
| "cpu_state_code NO_LAPIC = 4"
| "cpu_state_code NO_MSR = 5"

definition start_cpu :: "'d platform \<Rightarrow> 'd machine \<Rightarrow> 'd machine res" where
  "start_cpu pl s =
     (let s = s\<lparr>devices := \<lparr>dev_cpu = get_info (p_cpuid pl)\<rparr>\<rparr>;
          cpu_s = check_state (p_cpuid pl)
      in if cpu_s \<noteq> SUCCESS then say pl ''[-] CPU state error: %d'' [VNum (cpu_state_code cpu_s)] s
         else say_succ pl ''CPU state correct'' s)"

definition start_tables :: "'d platform \<Rightarrow> 'd machine \<Rightarrow> 'd machine res" where
  "start_tables pl s =
     (let (gdt, r) = gdt_init (p_gdt pl) (segs s);
          s = s\<lparr>segs := r, kernel := (kernel s)\<lparr>k_gdt := gdt\<rparr>\<rparr>
      in
      bind_res (say_succ pl ''GDT initalization success'' s) (\<lambda>s.
      let (m, idtr) = IDT_init (p_idt pl) (p_handlers pl) (ram (st s));
          s = s\<lparr>st := (st s)\<lparr>ram := m\<rparr>, idtr_reg := idtr, kernel := (kernel s)\<lparr>k_idt := p_idt pl\<rparr>\<rparr>
      in
      bind_res (say_succ pl ''IDT initialization success'' s)
        (check ''kernel.keyboard != nullptr'' (\<lambda>s. k_keyboard (kernel s) \<noteq> None))))"

definition start_acpi :: "'d platform \<Rightarrow> 'd machine \<Rightarrow> 'd machine res" where
  "start_acpi pl =
     seq_res
       [\<lambda>s. (case get_version (ram (st s)) (k_acpi_rsdp (kernel s)) of
               VER_1 \<Rightarrow> say_succ pl ''ACPI 1.0 detected'' s
             | VER_2 \<Rightarrow> say_succ pl ''ACPI 2.0 detected'' s
             | UNKNOWN \<Rightarrow> panic pl ''Unknown version of ACPI detected'' s),
        \<lambda>s. if \<not> verify_rsdp (p_RSDP_SIG pl) (ram (st s)) (k_acpi_rsdp (kernel s))
             then panic pl ''RSDP not verified'' s else say_succ pl ''RSDP verified'' s,
        \<lambda>s. if \<not> verify_rsdt (p_RSDT_SIG pl) (ram (st s)) (k_acpi_rsdp (kernel s))
             then panic pl ''RSDT not verified'' s else say_succ pl ''RSDT verified'' s]"

definition set_tables :: "(ACPI_Tables \<Rightarrow> ACPI_Tables) \<Rightarrow> 'd machine \<Rightarrow> 'd machine" where
  "set_tables f s = s\<lparr>kernel := (kernel s)\<lparr>k_acpi_tables := f (k_acpi_tables (kernel s))\<rparr>\<rparr>"

definition start_madt :: "'d platform \<Rightarrow> 'd machine \<Rightarrow> 'd machine res" where
  "start_madt pl s =
     (let m = ram (st s);
          madt = sdt_get_header m (k_acpi_rsdp (kernel s)) (p_MADT_SIG pl);
          s = set_tables (t_madt_update (\<lambda>_. madt)) s
      in
      bind_res (ASSERT ''kernel.acpi_tables.madt != nullptr'' (madt \<noteq> 0)) (\<lambda>_.
      let lapic = ics_get_header m madt CPU_LAPIC;
          s = set_tables (t_lapic_update (\<lambda>_. lapic)) s
      in
      bind_res (ASSERT ''kernel.acpi_tables.lapic != nullptr'' (lapic \<noteq> 0)) (\<lambda>_.
      let ioapic = ics_get_header m madt IO_APIC;
          s = set_tables (t_ioapic_update (\<lambda>_. ioapic)) s
      in
      bind_res (ASSERT ''kernel.acpi_tables.ioapic != nullptr'' (ioapic \<noteq> 0)) (\<lambda>_. Inr s))))"

definition start_hpet :: "'d platform \<Rightarrow> 'd machine \<Rightarrow> 'd machine res" where
  "start_hpet pl s =
     (let hpet = sdt_get_header (ram (st s)) (k_acpi_rsdp (kernel s)) (p_HPET_SIG pl);
          s = set_tables (t_hpet_update (\<lambda>_. hpet)) s
      in
      bind_res (ASSERT ''kernel.acpi_tables.hpet != nullptr'' (hpet \<noteq> 0)) (\<lambda>_.
      say_succ pl ''HPET initialization success'' s))"

text \<open>The addresses of the devices, from the tables.\<close>

definition lapic_base :: "'d machine \<Rightarrow> u32" where
  "lapic_base s = lapic_addr (madt_SDT_Table_at (ram (st s)) (t_madt (k_acpi_tables (kernel s))))"

definition ioapic_base :: "'d machine \<Rightarrow> u32" where
  "ioapic_base s = io_apic_addr (IO_APIC_Struct_at (ram (st s)) (t_ioapic (k_acpi_tables (kernel s))))"

definition hpet_base :: "'d machine \<Rightarrow> u64" where
  "hpet_base s = address (base_address (hpet_SDT_Table_at (ram (st s)) (t_hpet (k_acpi_tables (kernel s)))))"

definition start_paging :: "'d platform \<Rightarrow> 'd machine \<Rightarrow> 'd machine res" where
  "start_paging pl s =
     (case (k_mmap (kernel s), k_framebuffer (kernel s)) of
        (Some mmap, Some fb) \<Rightarrow>
          (let env = \<lparr>env_fb_addr = fb_addr fb, env_fb_size = b_size fb, env_lapic_addr = lapic_base s,
                      env_ioapic_addr = ioapic_base s, env_hpet_addr = hpet_base s,
                      env_hpet_mmio_sz = get_mmio_sz (p_mmio pl) (hpet_base s) (dev s)\<rparr>
           in
           bind_res (Paging_new (p_PML4 pl) mmap env (ctrl s) (st s)) (\<lambda>(r, k).
           let test_failed = kout k \<noteq> kout (st s);
               s = s\<lparr>st := k, ctrl := r, kernel := (kernel s)\<lparr>k_paging := p_PML4 pl\<rparr>\<rparr> in
           bind_res (if test_failed then panic pl ''Paging test failed!'' s else Inr s) (\<lambda>s.
           say_succ pl ''4-level paging initialization success'' s)))
      | _ \<Rightarrow> Inl NullDeref)"

text \<open>\<^verbatim>\<open>sti\<close> sets the interrupt flag.\<close>

definition enable_external_interrupts :: "'d machine \<Rightarrow> 'd machine" where
  "enable_external_interrupts s = s\<lparr>int_flag := True\<rparr>"

definition start_interrupts :: "'d platform \<Rightarrow> 'd machine \<Rightarrow> 'd machine res" where
  "start_interrupts pl s =
     bind_res (dbg_print_lapic_info (ram (st s)) (t_madt (k_acpi_tables (kernel s))) []) (\<lambda>text.
     bind_res (on_screen (con_print_text (p_buf pl) text) s) (\<lambda>s.
     let s = s\<lparr>dev := pic_disable (p_bus pl) (dev s)\<rparr>;
         s = enable_external_interrupts s;
         s = s\<lparr>dev := ioapic_init (p_mmio pl) (ioapic_base s) (p_junk pl) (dev s)\<rparr>;
         (r, d) = lapic_init (p_mmio pl) (lapic_base s) (msr s) (dev s)
     in Inr (s\<lparr>msr := r, dev := d\<rparr>)))"

definition start_heap :: "'d platform \<Rightarrow> 'd machine \<Rightarrow> 'd machine res" where
  "start_heap pl s =
     bind_res (Heap_init (p_PML4 pl) (st s)) (\<lambda>(blocks, k).
     Inr (s\<lparr>st := k, kernel := (kernel s)\<lparr>k_heap := blocks\<rparr>\<rparr>))"

subsection \<open>The exercise of the heap\<close>

definition k_malloc :: "'d platform \<Rightarrow> u64 \<Rightarrow> 'd machine \<Rightarrow> (u64 \<times> 'd machine) res" where
  "k_malloc pl n s =
     bind_res (malloc (p_PML4 pl) (k_heap (kernel s)) n (st s)) (\<lambda>(ptr, k).
     let text = drop (length (kout (st s))) (kout k);
         s = s\<lparr>st := k\<rparr>
     in bind_res (if text \<noteq> [] then on_screen (con_print_text (p_buf pl) text) s else Inr s) (\<lambda>s.
        Inr (ptr, s)))"

definition k_free :: "u64 \<Rightarrow> 'd machine \<Rightarrow> 'd machine res" where
  "k_free ptr s = bind_res (heap_free ptr (ram (st s))) (\<lambda>m. Inr (s\<lparr>st := (st s)\<lparr>ram := m\<rparr>\<rparr>))"

definition heap_info :: "'d platform \<Rightarrow> 'd machine \<Rightarrow> 'd machine res" where
  "heap_info pl s = on_screen (kprint_heap_info (p_buf pl) (k_heap (kernel s))) s"

fun mallocs :: "'d platform \<Rightarrow> u64 list \<Rightarrow> 'd machine \<Rightarrow> (u64 list \<times> 'd machine) res" where
  "mallocs pl [] s = Inr ([], s)"
| "mallocs pl (n # ns) s =
     bind_res (k_malloc pl n s) (\<lambda>(p, s). bind_res (mallocs pl ns s) (\<lambda>(ps, s). Inr (p # ps, s)))"

text \<open>One pointer is released and the statistics are printed.\<close>

definition free_report :: "'d platform \<Rightarrow> u64 \<Rightarrow> string \<Rightarrow> 'd machine \<Rightarrow> 'd machine res" where
  "free_report pl ptr label = seq_res [k_free ptr, say pl label [], heap_info pl]"

definition heap_frees :: "'d platform \<Rightarrow> u64 list \<Rightarrow> 'd machine \<Rightarrow> 'd machine res" where
  "heap_frees pl ptr = seq_res
     [say pl ''init: '' [], heap_info pl,
      free_report pl (ptr ! 1) ''ptr2: '', free_report pl (ptr ! 2) ''ptr3: '', free_report pl (ptr ! 7) ''ptr8: '',
      free_report pl (ptr ! 5) ''ptr6: '', free_report pl (ptr ! 3) ''ptr4: '', free_report pl (ptr ! 0) ''ptr1: '',
      free_report pl (ptr ! 4) ''ptr5: '', free_report pl (ptr ! 6) ''ptr7: '', k_free (ptr ! 8)]"

definition last_report :: "'d platform \<Rightarrow> u64 \<Rightarrow> 'd machine \<Rightarrow> 'd machine res" where
  "last_report pl ptr9 s =
     (let m = ram (st s);
          hdr = BlockHeader_at m (ptr9 - sizeof_BlockHeader)
      in if next hdr = 0 \<or> prev hdr = 0 then Inl NullDeref
         else say_line pl ''Bytes: %d, next: %d, prev: %d, header: %d''
                [VNum (bytes hdr), VNum (bytes (BlockHeader_at m (next hdr))),
                 VNum (bytes (BlockHeader_at m (prev hdr))), VNum sizeof_BlockHeader] s)"

definition heap_exercise :: "'d platform \<Rightarrow> 'd machine \<Rightarrow> 'd machine res" where
  "heap_exercise pl s =
     bind_res (mallocs pl [10, 10, 10, 10, 10, 10, 10, 10, 5000] s) (\<lambda>(ptr, s).
     bind_res (heap_frees pl ptr s) (last_report pl (ptr ! 8)))"

definition start_ps2 :: "'d platform \<Rightarrow> 'd machine \<Rightarrow> 'd machine res" where
  "start_ps2 pl s =
     (let (resp, d) = inb (p_bus pl) 0x60 (outb (p_bus pl) 0x64 0xAA (dev s)) in
      bind_res (say_line pl ''%p'' [VNum (ucast resp)] (s\<lparr>dev := d\<rparr>)) (\<lambda>s.
      let (resp, d) = inb (p_bus pl) 0x60 (outb (p_bus pl) 0x64 0xAB (dev s)) in
      bind_res (say_line pl ''%p'' [VNum (ucast resp)] (s\<lparr>dev := d\<rparr>)) (\<lambda>s.
      Inr (s\<lparr>dev := port_1_enable (p_bus pl) (dev s)\<rparr>))))"

text \<open>The counting loop has only local effects; behind the last message the kernel spins.\<close>

definition start_idle :: "'d platform \<Rightarrow> 'd machine \<Rightarrow> 'd machine outcome res" where
  "start_idle pl s =
     (let s = for_up 0 (\<lambda>_. 999999999999) (\<lambda>i s. s) s in
      bind_res (say pl ''Done :/'' [] s) (\<lambda>s. Inr (Spins s)))"

definition start :: "'d platform \<Rightarrow> u64 \<Rightarrow> 'd machine \<Rightarrow> 'd machine outcome res" where
  "start pl bd s =
     bind_res (seq_res
       [start_objects bd, start_pmem pl, start_cpu pl, start_tables pl, start_acpi pl, start_madt pl, start_hpet pl,
        start_paging pl, start_interrupts pl, start_heap pl, heap_exercise pl, start_ps2 pl] s)
     (start_idle pl)"

section \<open>Messages on the screen\<close>

text \<open>The bytes a message may change.\<close>

definition screen_span :: "'d platform \<Rightarrow> Framebuffer \<Rightarrow> u64 set" where
  "screen_span pl fb = fb_span fb \<union> front_span fb \<union> span (p_buf pl) 4096"

definition screen_good :: "'d platform \<Rightarrow> Framebuffer \<Rightarrow> 'd machine \<Rightarrow> bool" where
  "screen_good pl fb s \<longleftrightarrow>
     (\<exists>con. k_console (kernel s) = Some con \<and> con_fb con = fb \<and> kcon_ok (p_buf pl) (con, ram (st s)))"

lemma kcon_ok_cong:
  assumes "kcon_ok buf (con, m)" and "\<And>x. x \<in> fb_span (con_fb con) \<union> front_span (con_fb con) \<Longrightarrow> m' x = m x"
  shows "kcon_ok buf (con, m')"
proof -
  let ?fb = "con_fb con"
  have b: "unat (b_size ?fb) = 4 * pixel_count ?fb"
    using assms(1) by (auto simp: kcon_ok_def con_ok_def dest: screen_buffers(2))
  have "m' (fb_addr ?fb + of_nat k) = m (fb_addr ?fb + of_nat k)"
      "m' (double_fb_addr ?fb + of_nat k) = m (double_fb_addr ?fb + of_nat k)" if k: "k < unat (b_size ?fb)" for k
  proof -
    have "k < 2 ^ 64" using k u64_bound [of "b_size ?fb"] by simp
    then have "fb_addr ?fb + of_nat k \<in> front_span ?fb" "double_fb_addr ?fb + of_nat k \<in> fb_span ?fb"
      using k b by (simp_all add: front_span_def fb_span_def span_iff)
    then show "m' (fb_addr ?fb + of_nat k) = m (fb_addr ?fb + of_nat k)"
      "m' (double_fb_addr ?fb + of_nat k) = m (double_fb_addr ?fb + of_nat k)" using assms(2) by simp_all
  qed
  then show ?thesis using assms(1) by (simp add: kcon_ok_def shown_def)
qed

text \<open>A message is shown and changes nothing else.\<close>

definition screen_step :: "'d platform \<Rightarrow> Framebuffer \<Rightarrow> 'd machine \<Rightarrow> 'd machine \<Rightarrow> bool" where
  "screen_step pl fb s s' \<longleftrightarrow> screen_good pl fb s' \<and>
     (\<exists>con m. s' = s\<lparr>kernel := (kernel s)\<lparr>k_console := Some con\<rparr>, st := (st s)\<lparr>ram := m\<rparr>\<rparr> \<and>
        (\<forall>a. a \<notin> screen_span pl fb \<longrightarrow> m a = ram (st s) a))"

lemma on_screen_prints:
  assumes "screen_good pl fb s" and "con_prints (p_buf pl) f t"
  shows "\<exists>s'. on_screen f s = Inr s' \<and> screen_step pl fb s s'"
proof -
  obtain con where con: "k_console (kernel s) = Some con" "con_fb con = fb" "kcon_ok (p_buf pl) (con, ram (st s))"
    using assms(1) by (auto simp: screen_good_def)
  then obtain con' m' where "f (con, ram (st s)) = Inr (con', m')" "kcon_ok (p_buf pl) (con', m')"
      "kcon_keeps (p_buf pl) (con, ram (st s)) (con', m')"
    using assms(2) unfolding prints_def by (metis surj_pair)
  then show ?thesis
    using con by (auto simp: on_screen_def screen_step_def screen_good_def kcon_keeps_def screen_span_def)
qed


section \<open>Stages that cannot stop\<close>

lemma panic_shown:
  assumes "screen_good pl fb s" and "width fb = px_per_scan fb" and "2 \<le> unat (width fb)"
    and "good_text (str msg)" and "length msg < 4000"
  shows "\<exists>s'. panic pl msg s = Inr s' \<and> screen_step pl fb s s'"
proof -
  obtain con where con: "k_console (kernel s) = Some con" "con_fb con = fb" "kcon_ok (p_buf pl) (con, ram (st s))"
    using assms(1) by (auto simp: screen_good_def)
  have ok: "screen_ok (con_font con) (con_fb con)" "c_max_col (con_cursor con) = 100" "c_max_row (con_cursor con) = 37"
      "buf_free (p_buf pl) (con_fb con)"
    using con(3) by (simp_all add: kcon_ok_def con_ok_def cursor_ok_def)
  have lines: "list_all2 (con_prints (p_buf pl)) [con_kprintf (p_buf pl) (str ''Error: %s'') [VStr (str msg)]] [str ''Error: '' @ str msg]"
    using kpanic_prints(1) [OF assms(4)] assms(5) by (simp add: str_def)
  obtain con' m where "kpanic (p_buf pl) (str msg) (con, ram (st s)) = Inr (con', m)" "kcon_ok (p_buf pl) (con', m)"
      "con_fb con' = con_fb con" "\<forall>a. a \<notin> screen_span pl fb \<longrightarrow> m a = ram (st s) a"
    using seq_after_panic [OF ok(1) _ _ ok(2,3,4) lines, of "ram (st s)"] assms(2,3) con(2)
    unfolding kpanic_def screen_span_def by fastforce
  then show ?thesis
    using con by (auto simp: panic_def on_screen_def screen_step_def screen_good_def)
qed

lemma say_succ_shown:
  assumes "screen_good pl fb s" and "good_text (str msg)" and "length msg < 4000"
  shows "\<exists>s'. say_succ pl msg s = Inr s' \<and> screen_step pl fb s s'"
  using on_screen_prints [OF assms(1) con_kprint_msg_prints(2) [OF assms(2)]] assms(3) by (simp add: say_succ_def str_def)

lemma screen_step_trans:
  assumes "screen_step pl fb s t" and "screen_step pl fb t u"
  shows "screen_step pl fb s u"
  using assms unfolding screen_step_def by (elim conjE exE) (simp, metis)

lemma seq_steps:
  assumes "\<And>g s. g \<in> set gs' \<Longrightarrow> screen_good pl fb s \<Longrightarrow> \<exists>s'. g s = Inr s' \<and> screen_step pl fb s s'"
    and "screen_good pl fb s" and "gs' \<noteq> []"
  shows "\<exists>s'. seq_res gs' s = Inr s' \<and> screen_step pl fb s s'"
  using assms
proof (induction gs' arbitrary: s)
  case (Cons g gs')
  obtain s1 where s1: "g s = Inr s1" "screen_step pl fb s s1" using Cons.prems(1,2) by auto
  then have good: "screen_good pl fb s1" by (simp add: screen_step_def)
  show ?case
  proof (cases "gs' = []")
    case False
    then obtain s2 where "seq_res gs' s1 = Inr s2" "screen_step pl fb s1 s2" using Cons.IH [OF _ good] Cons.prems(1) by auto
    then show ?thesis using s1 screen_step_trans by auto
  qed (use s1 in simp)
qed simp

lemma start_acpi_step:
  assumes good: "screen_good pl fb s" and w: "width fb = px_per_scan fb" "2 \<le> unat (width fb)"
  shows "\<exists>s'. start_acpi pl s = Inr s' \<and> screen_step pl fb s s'"
  unfolding start_acpi_def
proof (rule seq_steps [OF _ good])
  have texts: "good_text (str ''ACPI 1.0 detected'')" "good_text (str ''ACPI 2.0 detected'')" "good_text (str ''RSDP verified'')"
      "good_text (str ''RSDT verified'')" "good_text (str ''Unknown version of ACPI detected'')"
      "good_text (str ''RSDP not verified'')" "good_text (str ''RSDT not verified'')"
    by (simp_all add: str_def good_text_def)
  fix g and t :: "'a machine"
  assume "screen_good pl fb t"
  note P = panic_shown [OF this w] and S = say_succ_shown [OF this]
  assume "g \<in> set [\<lambda>s. case get_version (ram (st s)) (k_acpi_rsdp (kernel s)) of
             VER_1 \<Rightarrow> say_succ pl ''ACPI 1.0 detected'' s
           | VER_2 \<Rightarrow> say_succ pl ''ACPI 2.0 detected'' s
           | UNKNOWN \<Rightarrow> panic pl ''Unknown version of ACPI detected'' s,
      \<lambda>s. if \<not> verify_rsdp (p_RSDP_SIG pl) (ram (st s)) (k_acpi_rsdp (kernel s))
           then panic pl ''RSDP not verified'' s else say_succ pl ''RSDP verified'' s,
      \<lambda>s. if \<not> verify_rsdt (p_RSDT_SIG pl) (ram (st s)) (k_acpi_rsdp (kernel s))
           then panic pl ''RSDT not verified'' s else say_succ pl ''RSDT verified'' s]"
  then show "\<exists>s'. g t = Inr s' \<and> screen_step pl fb t s'"
    using P [OF texts(5)] P [OF texts(6)] P [OF texts(7)] S [OF texts(1)] S [OF texts(2)] S [OF texts(3)] S [OF texts(4)]
    by (auto split: Version.split)
qed simp

text \<open>
  A failed check of the ACPI tables does not stop the boot. Whatever the memory holds at the addresses of
  the root pointer and the root table, the stage shows its messages or panics, returns, and has changed
  nothing but the screen, its copy and the print buffer.\<close>

theorem acpi_failure_does_not_stop:
  assumes "k_console (kernel s) = Some con" and "kcon_ok (p_buf pl) (con, ram (st s))"
    and "width (con_fb con) = px_per_scan (con_fb con)" and "2 \<le> unat (width (con_fb con))"
  shows "\<exists>con' m. start_acpi pl s = Inr (s\<lparr>kernel := (kernel s)\<lparr>k_console := Some con'\<rparr>, st := (st s)\<lparr>ram := m\<rparr>\<rparr>) \<and>
    kcon_ok (p_buf pl) (con', m) \<and> (\<forall>a. a \<notin> screen_span pl (con_fb con) \<longrightarrow> m a = ram (st s) a)"
proof -
  have "screen_good pl (con_fb con) s" using assms(1,2) by (auto simp: screen_good_def)
  from start_acpi_step [OF this assms(3,4)] show ?thesis unfolding screen_step_def screen_good_def by fastforce
qed

section \<open>The first stage\<close>

lemma con_clear_shown:
  assumes scr: "screen_ok font fb" and w: "width fb = px_per_scan fb" "2 \<le> unat (width fb)"
  shows "\<exists>con' m'. con_clear (Console_init font fb) m = (con', m') \<and> con_ok con' \<and> shown fb m' \<and> con_fb con' = fb \<and>
    cursor_pos (con_cursor con') = 0 \<and> (\<forall>n < pixel_count fb. pixel_at fb n m' = 0) \<and> kept_outside fb m m'"
proof -
  note B = screen_buffers [OF scr]
  let ?m1 = "set_all_pixels fb BLACK m" let ?m2 = "draw fb ?m1"
  have h: "0 < unat (height fb)" using scr by (auto simp: screen_ok_def word_less_nat_alt)
  have cur: "cursor_ok (cursor_reset c)" "cursor_pos (cursor_reset c) = 0" for c
    by (simp_all add: cursor_reset_def cursor_ok_def cursor_pos_def Default_max_col_def Default_max_row_def)
  have "kept_outside fb m ?m1"
    using set_all_pixels_facts(3) [OF B(3) w, of 0 0] w(2) h by (auto simp: kept_outside_def)
  then have kept: "kept_outside fb m ?m2" using draw_kept(1) [OF B(1,2)] by (rule kept_outside_trans)
  have black: "pixel_at fb n ?m2 = 0" if n: "n < pixel_count fb" for n
  proof -
    let ?w = "unat (px_per_scan fb)"
    have "n = pixel_no fb (n mod ?w) (n div ?w)" by (simp add: pixel_no_def)
    moreover have "n mod ?w < unat (width fb)" using w by simp
    moreover have "n div ?w < unat (height fb)" using n w by (simp add: pixel_count_def less_mult_imp_div_less)
    ultimately have "pixel_at fb n ?m1 = 0"
      using set_all_pixels_facts(1) [OF B(3) w, of "n mod ?w" "n div ?w" BLACK m] by (simp add: BLACK_def rgb_to_int_def)
    then show ?thesis using draw_pixel [OF scr n] by simp
  qed
  show ?thesis
    using scr cur draw_shown [OF B(1,2), of ?m1] kept black
    by (auto simp: con_clear_def Console_init_def con_ok_def Let_def)
qed

lemma start_objects_spec:
  assumes "bd \<noteq> 0" and "data = BootloaderData_at (ram (st s)) bd"
    and "md = MemoryData_at (ram (st s)) (bd_memory data)" and "0 < md_entries md"
    and "Framebuffer_init (FramebufferData_at (ram (st s)) (bd_framebuffer data)) = Inr fb"
    and "screen_ok (ConsoleFont_at (ram (st s)) (bd_font data)) fb" and "width fb = px_per_scan fb" and "2 \<le> unat (width fb)"
  shows "\<exists>con m. start_objects bd s = Inr (s\<lparr>st := (st s)\<lparr>ram := m\<rparr>, kernel := (kernel s)\<lparr>k_stack := bd,
      k_acpi_rsdp := bd_acpi_rsdp data, k_keyboard := Some Keyboard_init, k_framebuffer := Some fb, k_memory := bd_memory data,
      k_mmap := Some \<lparr>mm_mmap_sz = md_mmap_sz md, mm_desc_sz = md_desc_sz md, mm_entries = md_entries md, mm_mmap = md_mmap md\<rparr>,
      k_console := Some con\<rparr>\<rparr>) \<and> con_fb con = fb \<and> con_ok con \<and> shown fb m \<and> cursor_pos (con_cursor con) = 0 \<and>
    (\<forall>n < pixel_count fb. pixel_at fb n m = 0) \<and> kept_outside fb (ram (st s)) m"
proof -
  obtain con m where c: "con_clear (Console_init (ConsoleFont_at (ram (st s)) (bd_font data)) fb) (ram (st s)) = (con, m)"
      "con_ok con" "shown fb m" "con_fb con = fb" "cursor_pos (con_cursor con) = 0"
      "\<forall>n < pixel_count fb. pixel_at fb n m = 0" "kept_outside fb (ram (st s)) m"
    using con_clear_shown [OF assms(6-8)] by blast
  have "MemoryMap_init md = Inr \<lparr>mm_mmap_sz = md_mmap_sz md, mm_desc_sz = md_desc_sz md, mm_entries = md_entries md, mm_mmap = md_mmap md\<rparr>"
    using assms(4) by (simp add: MemoryMap_init_def)
  then show ?thesis
    using c assms(1-5) by (intro exI [of _ con] exI [of _ m]) (simp add: start_objects_def Let_def)
qed

text \<open>
  C15: the first stage of \<^verbatim>\<open>_start\<close> turns the data of the boot loader into well-formed objects: if it names a memory map with
  an entry and a framebuffer that holds the grid of the console, the stage succeeds, the console satisfies its
  invariant with the cursor at the origin of a black screen that is shown, the memory map has the
  boot loader's fields, and nothing but the screen and its copy has changed.\<close>

theorem start_objects_well_formed:
  assumes "bd \<noteq> 0" and "data = BootloaderData_at (ram (st s)) bd"
    and "md = MemoryData_at (ram (st s)) (bd_memory data)" and "0 < md_entries md"
    and "Framebuffer_init (FramebufferData_at (ram (st s)) (bd_framebuffer data)) = Inr fb"
    and "screen_ok (ConsoleFont_at (ram (st s)) (bd_font data)) fb" and "width fb = px_per_scan fb" and "2 \<le> unat (width fb)"
    and "buf_free buf fb"
  shows "\<exists>con m. start_objects bd s = Inr (s\<lparr>st := (st s)\<lparr>ram := m\<rparr>, kernel := (kernel s)\<lparr>k_stack := bd,
      k_acpi_rsdp := bd_acpi_rsdp data, k_keyboard := Some Keyboard_init, k_framebuffer := Some fb, k_memory := bd_memory data,
      k_mmap := Some \<lparr>mm_mmap_sz = md_mmap_sz md, mm_desc_sz = md_desc_sz md, mm_entries = md_entries md, mm_mmap = md_mmap md\<rparr>,
      k_console := Some con\<rparr>\<rparr>) \<and> con_fb con = fb \<and> kcon_ok buf (con, m) \<and> cursor_pos (con_cursor con) = 0 \<and>
    (\<forall>n < pixel_count fb. pixel_at fb n m = 0) \<and> kept_outside fb (ram (st s)) m"
  using start_objects_spec [OF assms(1-8)] assms(9) by (fastforce simp: kcon_ok_def)

section \<open>An example machine\<close>

text \<open>Boot data at \<open>0x500\<close>, a screen of 100 by 37 pixels at \<open>0x300000\<close> with its copy at \<open>0x200000\<close>, the print buffer
  at \<open>0x40000\<close>.\<close>

definition start_mem :: mem where
  "start_mem = (\<lambda>_. 0)(0x501 := 6, 0x509 := 7, 0x511 := 8, 0x519 := 9,
     0x602 := 0x30, 0x60A := 0x20, 0x610 := 0xD0, 0x611 := 0x39, 0x618 := 100, 0x61A := 37, 0x61C := 100, 0x61E := 4,
     0x701 := 0x30, 0x708 := 1, 0x709 := 1, 0x711 := 0x40, 0x802 := 0x10, 0x808 := 48, 0x810 := 48, 0x818 := 1)"

definition start_fb :: Framebuffer where
  "start_fb = screen_example\<lparr>fb_addr := 0x300000\<rparr>"

definition start_platform :: "u8 list platform" where
  "start_platform = \<lparr>p_bus = queue_bus, p_mmio = queue_regs, p_cpuid = (\<lambda>_. (0, 0, 0, 0)),
     p_handlers = \<lparr>h_divide_by_zero = 0, h_page_fault = 0, h_timer = 0, h_keyboard = 0, h_spurious = 0\<rparr>,
     p_buf = 0x40000, p_pmem = 0x6000, p_gdt = 0x50000, p_idt = 0x60000, p_PML4 = 0x20000, p_junk = 0,
     p_RSDP_SIG = 0, p_RSDT_SIG = 0, p_MADT_SIG = 0, p_HPET_SIG = 0\<rparr>"

definition start_machine :: "kst \<Rightarrow> u8 list machine" where
  "start_machine k = \<lparr>st = k, dev = [], ctrl = \<lparr>cr0 = 0, cr3 = 0, cr4 = 0, efer = 0\<rparr>, msr = (\<lambda>_. 0),
     segs = \<lparr>reg_gdtr = \<lparr>gdtr_size = 0, gdtr_offset = 0\<rparr>, cs = 0, ds = 0, es = 0, fs = 0, gs = 0, ss = 0\<rparr>,
     idtr_reg = \<lparr>idtr_limit = 0, idtr_base_addr = 0\<rparr>, int_flag = False,
     kernel = KernelData_init\<lparr>k_console := Some (Console_init font_example start_fb)\<rparr>,
     devices = \<lparr>dev_cpu = get_info (\<lambda>_. (0, 0, 0, 0))\<rparr>\<rparr>"

lemma start_fb_props [simp]:
  "fb_span start_fb = span 0x200000 14804" "front_span start_fb = span 0x300000 14800"
  "width start_fb = 100" "px_per_scan start_fb = 100"
  by (simp_all add: fb_span_def front_span_def pixel_count_def start_fb_def screen_example_def)

lemma start_fb_ok: "screen_ok font_example start_fb" "buf_free 0x40000 start_fb"
proof -
  have a: "apart (0x300000 :: u64) 14800 0x200000 14804" "apart (0x40000 :: u64) 4096 0x200000 14804"
      "apart (0x40000 :: u64) 4096 0x300000 14800" by (simp_all add: apart_def)
  show "screen_ok font_example start_fb"
    using span_disjoint [OF a(1)]
    by (simp add: screen_ok_def fb_ok_def) (simp add: pixel_count_def start_fb_def screen_example_def font_example_def)
  show "buf_free 0x40000 start_fb"
    using span_disjoint [OF a(2)] span_disjoint [OF a(3)] by (simp add: buf_free_def Int_Un_distrib)
qed

theorem start_objects_well_formed_witness:
  "\<exists>s'. start_objects 0x500 (start_machine \<lparr>ram = start_mem, pmem = pmem pt_example, kout = []\<rparr>) = Inr s' \<and>
    k_acpi_rsdp (kernel s') = 0x900"
proof -
  let ?s = "start_machine \<lparr>ram = start_mem, pmem = pmem pt_example, kout = []\<rparr>"
  have r: "ram (st ?s) = start_mem" by (simp add: start_machine_def)
  have d: "BootloaderData_at start_mem 0x500 = \<lparr>bd_framebuffer = 0x600, bd_font = 0x700, bd_memory = 0x800, bd_acpi_rsdp = 0x900\<rparr>"
    by (simp add: BootloaderData_at_def read64_def load_steps start_mem_def)
  have m: "md_entries (MemoryData_at start_mem 0x800) = 1"
    by (simp add: MemoryData_at_def read64_def load_steps start_mem_def)
  have f: "ConsoleFont_at start_mem 0x700 = font_example"
    by (simp add: ConsoleFont_at_def read64_def load_steps start_mem_def font_example_def)
  have fb: "Framebuffer_init (FramebufferData_at start_mem 0x600) = Inr start_fb"
    by (simp add: Framebuffer_init_def FramebufferData_at_def read64_def read16_def load_steps load_two start_mem_def
        start_fb_def screen_example_def)
  show ?thesis
    using start_objects_well_formed [of "0x500" "BootloaderData_at start_mem 0x500" ?s _ start_fb "0x40000"] start_fb_ok
    by (auto simp: r d m f fb)
qed

lemma start_console_zero:
  assumes "\<And>x. 0x200000 \<le> unat x \<Longrightarrow> m x = 0"
  shows "kcon_ok 0x40000 (Console_init font_example start_fb, m)"
proof -
  have "m (0x300000 + of_nat k) = 0 \<and> m (0x200000 + of_nat k) = 0" if "k < 14800" for k
    using that by (intro conjI assms) (simp_all add: unat_word_ariths)
  then have "shown start_fb m" by (simp add: shown_def start_fb_def screen_example_def)
  then show ?thesis
    using start_fb_ok by (simp add: kcon_ok_def con_ok_def Console_init_def ConsoleCursor_init_def cursor_reset_def cursor_ok_def
        Default_max_col_def Default_max_row_def)
qed

lemma start_console: "kcon_ok 0x40000 (Console_init font_example start_fb, ram pt_example)"
proof (rule start_console_zero)
  fix x :: u64 assume "0x200000 \<le> unat x"
  then have "x \<notin> span 0x1000 2" "x \<noteq> 0x100000" "x \<noteq> 0x100009" "x \<noteq> 0x100018" by (auto dest: span_bounds(2))
  then show "ram pt_example x = 0" by (simp add: pt_example_props boot_mem_def)
qed

theorem acpi_failure_does_not_stop_witness:
  "\<exists>s'. start_acpi start_platform (start_machine pt_example) = Inr s'"
  using acpi_failure_does_not_stop [of "start_machine pt_example" "Console_init font_example start_fb" start_platform] start_console
  by (auto simp: start_machine_def start_platform_def Console_init_def)

end
