(* ===== verification/KernelHeap.thy ===== *)
theory KernelHeap
  imports Kernel
begin

text \<open>
  The exercise of the heap at the end of \<^verbatim>\<open>_start\<close> (\<^verbatim>\<open>kernel.cpp\<close>): nine allocations, nine releases and reports of
  the statistics between them. The allocations bring physical memory manager, page tables and heap
  together; the releases are followed on the list of blocks. The theorem says how the exercise ends.
\<close>

section \<open>Heap and screen\<close>

text \<open>A well-formed heap whose headers lie off the screen, and a console.\<close>

definition heap_shown :: "'d platform \<Rightarrow> Framebuffer \<Rightarrow> 'd machine \<Rightarrow> ablock list \<Rightarrow> bool" where
  "heap_shown pl fb s bs \<longleftrightarrow> screen_good pl fb s \<and> heap_inv (k_heap (kernel s)) (ram (st s)) bs \<and>
     hdr_bytes bs \<inter> screen_span pl fb = {}"

lemma heap_shown_prints:
  assumes "heap_shown pl fb s bs" and "con_prints (p_buf pl) f t"
  shows "\<exists>s'. on_screen f s = Inr s' \<and> heap_shown pl fb s' bs"
proof -
  obtain s' where s': "on_screen f s = Inr s'" "screen_step pl fb s s'"
    using on_screen_prints [OF _ assms(2)] assms(1) unfolding heap_shown_def by blast
  have "ram (st s') x = ram (st s) x" if "x \<in> hdr_bytes bs" for x
    using s'(2) that assms(1) by (auto simp: screen_step_def heap_shown_def)
  moreover have "k_heap (kernel s') = k_heap (kernel s)" using s'(2) by (auto simp: screen_step_def)
  ultimately show ?thesis
    using s' assms(1) heap_inv_cong by (metis heap_shown_def screen_step_def)
qed

lemma heap_info_shown:
  assumes "heap_shown pl fb s bs"
  shows "\<exists>s'. heap_info pl s = Inr s' \<and> heap_shown pl fb s' bs"
proof -
  obtain stats where stats: "get_heap_stats (k_heap (kernel s)) (ram (st s)) = Inr stats"
    using get_heap_stats_counts assms unfolding heap_shown_def by blast
  let ?f = "con_kprintf (p_buf pl) (str ''Heap blocks: all = %d, free = %d, allocated: %d'' @ [10])
       [VNum (all_blocks stats), VNum (free_blocks stats), VNum (allocated_blocks stats)]"
  obtain con where "k_console (kernel s) = Some con" using assms by (auto simp: heap_shown_def screen_good_def)
  then have "heap_info pl s = on_screen ?f s" using stats by (simp add: heap_info_def on_screen_def kprint_heap_info_def)
  then show ?thesis using heap_shown_prints [OF assms heap_info_line] by simp
qed

lemma say_shown:
  assumes "heap_shown pl fb s bs" and "render (str msg) False [] = Some (str msg)" and "length msg < 4000" and "good_text (str msg)"
  shows "\<exists>s'. say pl msg [] s = Inr s' \<and> heap_shown pl fb s' bs"
proof -
  have "con_prints (p_buf pl) (con_kprintf (p_buf pl) (str msg) []) (str msg)"
    using assms by (intro con_kprintf_prints) (simp_all add: str_def)
  from heap_shown_prints [OF assms(1) this] show ?thesis by (simp add: say_def)
qed

section \<open>Releasing a block\<close>

lemma merge_right_addrs: "fst ` set (merge_right b ys) \<subseteq> insert (fst b) (fst ` set ys)"
  by (cases "(b, ys)" rule: merge_right.cases) auto

lemma hdr_bytes_addrs: "hdr_bytes bs = (\<Union>a \<in> fst ` set bs. span a 32)"
  by (simp add: hdr_bytes_def)

lemma abs_free_hdr:
  assumes "abs_free xs a n ys = Some bs"
  shows "hdr_bytes bs \<subseteq> hdr_bytes (xs @ (a, n, f) # ys)"
proof -
  let ?zs = "merge_right (a, n, True) ys"
  have zs: "fst ` set ?zs \<subseteq> fst ` set (xs @ (a, n, f) # ys)" using merge_right_addrs [of "(a, n, True)" ys] by auto
  have "fst ` set bs \<subseteq> fst ` set (xs @ (a, n, f) # ys)"
  proof (cases xs rule: rev_cases)
    case Nil
    then show ?thesis using assms zs by (simp add: abs_free_def)
  next
    case (snoc ws b)
    obtain p j g where b: "b = (p, j, g)" by (cases b)
    from assms have "bs = xs @ ?zs \<or> bs = ws @ merge_right (p, j, True) ?zs"
      by (simp add: abs_free_def snoc b Let_def split: if_splits)
    then show ?thesis
    proof
      assume "bs = ws @ merge_right (p, j, True) ?zs"
      then show ?thesis using zs merge_right_addrs [of "(p, j, True)" ?zs] by (simp add: snoc b image_Un) blast
    qed (use zs in \<open>simp add: image_Un, blast\<close>)
  qed
  then show ?thesis unfolding hdr_bytes_addrs by (rule UN_mono) simp
qed

lemma k_free_shown:
  assumes "heap_shown pl fb s (xs @ (a, n, f) # ys)" and "unat a + 32 < 2 ^ 64" and "abs_free xs a n ys = Some bs"
  shows "\<exists>s'. k_free (a + 32) s = Inr s' \<and> heap_shown pl fb s' bs"
proof -
  let ?h = "hdr_bytes (xs @ (a, n, f) # ys)"
  have hp: "heap_inv (k_heap (kernel s)) (ram (st s)) (xs @ (a, n, f) # ys)" and off: "?h \<inter> screen_span pl fb = {}"
    using assms(1) by (simp_all add: heap_shown_def)
  obtain m' where m': "heap_free (a + 32) (ram (st s)) = Inr m'" "heap_inv (k_heap (kernel s)) m' bs"
      "\<And>x. x \<notin> ?h \<Longrightarrow> m' x = ram (st s) x"
    using heap_free_spec [OF hp assms(2)] assms(3) by auto
  obtain con where con: "k_console (kernel s) = Some con" "con_fb con = fb" "kcon_ok (p_buf pl) (con, ram (st s))"
    using assms(1) by (auto simp: heap_shown_def screen_good_def)
  have "kcon_ok (p_buf pl) (con, m')"
    using off m'(3) con(2) by (intro kcon_ok_cong [OF con(3)]) (auto simp: screen_span_def)
  moreover have "hdr_bytes bs \<inter> screen_span pl fb = {}" using off abs_free_hdr [OF assms(3)] by blast
  ultimately show ?thesis using m' con by (simp add: k_free_def heap_shown_def screen_good_def)
qed

lemma free_report_shown:
  assumes "heap_shown pl fb s (xs @ (a, n, f) # ys)" and "unat a + 32 < 2 ^ 64" and "abs_free xs a n ys = Some bs"
    and "render (str msg) False [] = Some (str msg)" and "length msg < 4000" and "good_text (str msg)"
  shows "\<exists>s'. free_report pl (a + 32) msg s = Inr s' \<and> heap_shown pl fb s' bs"
proof -
  obtain s1 where s1: "k_free (a + 32) s = Inr s1" "heap_shown pl fb s1 bs" using k_free_shown [OF assms(1-3)] by blast
  obtain s2 where s2: "say pl msg [] s1 = Inr s2" "heap_shown pl fb s2 bs" using say_shown [OF s1(2) assms(4-6)] by blast
  obtain s3 where "heap_info pl s2 = Inr s3" "heap_shown pl fb s3 bs" using heap_info_shown [OF s2(2)] by blast
  then show ?thesis using s1(1) s2(1) by (simp add: free_report_def)
qed

section \<open>Allocating\<close>

text \<open>A heap that can still grow, next to a console: heap and screen do not overlap, and both are memory the
  page tables and the frame manager leave alone.\<close>

definition heap_ready :: "'d platform \<Rightarrow> Framebuffer \<Rightarrow> 'd machine \<Rightarrow> ablock list \<Rightarrow> bool" where
  "heap_ready pl fb s bs \<longleftrightarrow> screen_good pl fb s \<and> heap_inv (k_heap (kernel s)) (ram (st s)) bs \<and>
     pt_inv (p_PML4 pl) (st s) \<and> heap_safe (p_PML4 pl) (st s) bs \<and> (\<forall>b \<in> set bs. foot b \<inter> screen_span pl fb = {}) \<and>
     (\<forall>x \<in> screen_span pl fb. safe_byte (p_PML4 pl) (st s) x) \<and> can_grow (st s) 5000"

lemma screen_good_st:
  assumes "screen_good pl fb s" and "\<And>x. x \<in> screen_span pl fb \<Longrightarrow> ram k x = ram (st s) x"
  shows "screen_good pl fb (s\<lparr>st := k\<rparr>)"
proof -
  obtain con where con: "k_console (kernel s) = Some con" "con_fb con = fb" "kcon_ok (p_buf pl) (con, ram (st s))"
    using assms(1) by (auto simp: screen_good_def)
  have "kcon_ok (p_buf pl) (con, ram k)"
    using assms(2) con(2) by (intro kcon_ok_cong [OF con(3)]) (auto simp: screen_span_def)
  then show ?thesis using con by (simp add: screen_good_def)
qed

lemma k_malloc_inside:
  assumes ready: "heap_ready pl fb s (xs @ (a, k, True) # ys)" and n: "0 < n" "n \<le> k"
    and no: "\<not> (\<exists>b \<in> set xs. suits n b)"
  shows "\<exists>s'. k_malloc pl n s = Inr (a + 32, s') \<and> heap_ready pl fb s' (xs @ take_block n a k @ ys) \<and>
    pmem (st s') = pmem (st s)"
proof -
  let ?root = "p_PML4 pl" and ?bs = "xs @ (a, k, True) # ys" and ?cs = "xs @ take_block n a k @ ys"
  have R: "pt_inv ?root (st s)" "heap_inv (k_heap (kernel s)) (ram (st s)) ?bs" "heap_safe ?root (st s) ?bs"
    using ready by (simp_all add: heap_ready_def)
  obtain t where t: "malloc ?root (k_heap (kernel s)) n (st s) = Inr (a + 32, t)" "pmem t = pmem (st s)" "kout t = kout (st s)"
      "heap_inv (k_heap (kernel s)) (ram t) ?cs" "pt_inv ?root t" "heap_safe ?root t ?cs"
    and old: "\<forall>x. safe_byte ?root (st s) x \<longrightarrow> safe_byte ?root t x" and can: "\<forall>q. can_grow (st s) q \<longrightarrow> can_grow t q"
    and out: "\<forall>x. (\<forall>b \<in> set ?bs. x \<notin> foot b) \<longrightarrow> ram t x = ram (st s) x"
    and sub: "\<forall>b \<in> set (take_block n a k). foot b \<subseteq> foot (a, k, True)"
    using malloc_inside [OF R n no] by blast
  have "ram t x = ram (st s) x" if "x \<in> screen_span pl fb" for x using out ready that unfolding heap_ready_def by blast
  then have "screen_good pl fb (s\<lparr>st := t\<rparr>)" using ready by (intro screen_good_st) (auto simp: heap_ready_def)
  moreover have "foot b \<inter> screen_span pl fb = {}" if "b \<in> set ?cs" for b
  proof (cases "b \<in> set (take_block n a k)")
    case True
    then show ?thesis using sub ready unfolding heap_ready_def by fastforce
  qed (use that ready in \<open>auto simp: heap_ready_def\<close>)
  ultimately have "heap_ready pl fb (s\<lparr>st := t\<rparr>) ?cs"
    using t old can ready by (simp add: heap_ready_def)
  then show ?thesis using t by (intro exI [of _ "s\<lparr>st := t\<rparr>"]) (simp add: k_malloc_def)
qed

lemma run_text_prints: "con_prints buf (con_print_text buf (run_text a b)) (run_text a b)"
  using num_text_good [of a] num_text_good [of b]
  by (intro con.put_prints) (simp_all add: run_text_def str_def good_text_def)

lemma grow_5000: "grow_bytes 5000 = 8160" "unat (grow_pages 5000) = 2"
  by (simp_all add: grow_bytes_def grow_pages_def PAGE_SZ_def FRAME_SZ_def sizeof_BlockHeader_def)

text \<open>What \<^verbatim>\<open>malloc\<close> prints does not reach the headers.\<close>

lemma k_malloc_shown:
  assumes m: "malloc (p_PML4 pl) (k_heap (kernel s)) n (st s) = Inr (p, t)" and shown: "heap_shown pl fb (s\<lparr>st := t\<rparr>) bs"
  shows "\<exists>s'. k_malloc pl n s = Inr (p, s') \<and> heap_shown pl fb s' bs"
proof (cases "kout t = kout (st s)")
  case True
  then show ?thesis using m shown by (simp add: k_malloc_def)
next
  case False
  then obtain i j where "kout t = kout (st s) @ run_text i j" using malloc_text [OF m] by blast
  then show ?thesis using m heap_shown_prints [OF shown run_text_prints, of i j] False by (auto simp: k_malloc_def)
qed

lemma headers_off_screen:
  assumes "\<forall>b \<in> set bs. foot b \<inter> scr = {}"
  shows "hdr_bytes bs \<inter> scr = {}"
  using assms header_in_foot unfolding hdr_bytes_def by blast

lemma k_malloc_grows:
  assumes ready: "heap_ready pl fb s bs" and no: "\<not> (\<exists>b \<in> set bs. suits 5000 b)"
  shows "\<exists>a s' xs ys. let c = idx_to_frame_ptr a in k_malloc pl 5000 s = Inr (c + 32, s') \<and>
    heap_shown pl fb s' (xs @ take_block 5000 c 8160 @ ys) \<and> insert_block (c, 8160, True) bs = xs @ (c, 8160, True) # ys \<and>
    last_free_idx (pmem (st s)) \<le> a \<and> unat a + 2 \<le> 2 ^ 20 \<and> c \<notin> fst ` set bs"
proof -
  let ?root = "p_PML4 pl"
  have R: "pt_inv ?root (st s)" "heap_inv (k_heap (kernel s)) (ram (st s)) bs" "heap_safe ?root (st s) bs"
      "can_grow (st s) 5000" and scr: "\<forall>x \<in> screen_span pl fb. safe_byte ?root (st s) x"
      "\<forall>b \<in> set bs. foot b \<inter> screen_span pl fb = {}"
    using ready by (simp_all add: heap_ready_def)
  obtain a t xs ys where m: "malloc ?root (k_heap (kernel s)) 5000 (st s) = Inr (idx_to_frame_ptr a + 32, t)"
      "0 < a" "last_free_idx (pmem (st s)) \<le> a" "unat a + unat (grow_pages 5000) \<le> unat (frames (pmem (st s)))"
      "insert_block (idx_to_frame_ptr a, grow_bytes 5000, True) bs = xs @ (idx_to_frame_ptr a, grow_bytes 5000, True) # ys"
      "heap_inv (k_heap (kernel s)) (ram t) (xs @ take_block 5000 (idx_to_frame_ptr a) (grow_bytes 5000) @ ys)"
      "\<forall>x \<in> foot (idx_to_frame_ptr a, grow_bytes 5000, True). \<not> safe_byte ?root (st s) x"
      "\<forall>x. safe_byte ?root (st s) x \<longrightarrow> safe_byte ?root t x \<and> (x \<notin> hdr_bytes bs \<longrightarrow> ram t x = ram (st s) x)"
    using malloc_grow_result [OF R(1-3) no _ _ R(4)] unfolding Let_def by auto
  have fr: "unat (frames (pmem (st s))) \<le> 2 ^ 20" using pt_inv_pool [OF R(1)] by (simp add: pool_ok_def)
  define c where "c = idx_to_frame_ptr a"
  let ?cs = "xs @ take_block 5000 c 8160 @ ys"
  note M = m [folded c_def, unfolded grow_5000]
  note tf = take_block_foot [OF grow_block(3) [OF fr m(2,4), folded c_def, unfolded grow_5000], of 5000]
  have "\<not> safe_byte ?root (st s) c" using M(7) by (simp add: foot_def span_iff)
  then have cbs: "c \<notin> fst ` set bs" using R(3) by (auto simp: heap_safe_def foot_def span_iff)
  have "set xs \<union> set ys \<subseteq> insert (c, 8160, True) (set bs)" using arg_cong [OF M(5), of set] by auto
  moreover have "foot (c, 8160, True) \<inter> screen_span pl fb = {}" using M(7) scr(1) by blast
  ultimately have "foot b \<inter> screen_span pl fb = {}" if "b \<in> set ?cs" for b
    using that tf [of b] scr(2) by fastforce
  then have hdr: "hdr_bytes ?cs \<inter> screen_span pl fb = {}" by (intro headers_off_screen) blast
  have "ram t x = ram (st s) x" if "x \<in> screen_span pl fb" for x using M(8) headers_off_screen [OF scr(2)] scr(1) that by blast
  then have "screen_good pl fb (s\<lparr>st := t\<rparr>)" using ready by (intro screen_good_st) (auto simp: heap_ready_def)
  then have "heap_shown pl fb (s\<lparr>st := t\<rparr>) ?cs" using M(6) hdr by (simp add: heap_shown_def)
  from k_malloc_shown [OF M(1) this] show ?thesis
    using fr cbs M(3,4,5) unfolding Let_def c_def by (intro exI [of _ a]) auto
qed

section \<open>The exercise of the heap\<close>

text \<open>The heap after \<open>j\<close> requests of ten bytes.\<close>

definition tens :: "u64 \<Rightarrow> nat \<Rightarrow> ablock list" where
  "tens f j = map (\<lambda>i. (f + 42 * of_nat i, 10, False)) [0..<j] @ [(f + 42 * of_nat j, 4064 - 42 * of_nat j, True)]"

lemma tens_Suc:
  assumes "j < 8"
  shows "map (\<lambda>i. (f + 42 * of_nat i, 10, False)) [0..<j] @ take_block 10 (f + 42 * of_nat j) (4064 - 42 * of_nat j) = tens f (Suc j)"
    and "10 \<le> (4064 - 42 * of_nat j :: u64)"
proof -
  have "unat (of_nat j :: u64) = j" using assms by simp
  then have m: "unat (42 * of_nat j :: u64) = 42 * j" using assms by (simp add: unat_word_ariths)
  then have k: "unat (4064 - 42 * of_nat j :: u64) = 4064 - 42 * j" using assms by (subst unat_minus_le) (simp_all add: word_le_nat_alt)
  then show le: "10 \<le> (4064 - 42 * of_nat j :: u64)" using assms by (simp add: word_le_nat_alt)
  have "unat (4064 - 42 * of_nat j - 10 :: u64) = 4064 - 42 * j - 10" by (subst unat_minus_le [OF le]) (simp only: k, simp)
  then have "\<not> 4064 - 42 * of_nat j - 10 \<le> (32 :: u64)" "4064 - 42 * of_nat j \<noteq> (10 :: u64)"
    using assms k by (auto simp: word_le_nat_alt word_unat_eq_iff)
  then show "map (\<lambda>i. (f + 42 * of_nat i, 10, False)) [0..<j] @ take_block 10 (f + 42 * of_nat j) (4064 - 42 * of_nat j) = tens f (Suc j)"
    by (simp add: tens_def take_block_def algebra_simps)
qed

lemma mallocs_tens:
  assumes "heap_ready pl fb s (tens f j)" and "j + n \<le> 8"
  shows "\<exists>s'. mallocs pl (replicate n 10 @ ns) s =
      bind_res (mallocs pl ns s') (\<lambda>(ps, t). Inr (map (\<lambda>i. f + 42 * of_nat i + 32) [j..<j + n] @ ps, t)) \<and>
    heap_ready pl fb s' (tens f (j + n)) \<and> pmem (st s') = pmem (st s)"
  using assms
proof (induction n arbitrary: j s)
  case 0
  have "bind_res r Inr = r" for r :: "(u64 list \<times> 'a machine) res" by (cases r) auto
  then show ?case using 0 by auto
next
  case (Suc n)
  have j: "j < 8" using Suc.prems(2) by simp
  let ?xs = "map (\<lambda>i. (f + 42 * of_nat i, 10, False)) [0..<j] :: ablock list"
  have "heap_ready pl fb s (?xs @ (f + 42 * of_nat j, 4064 - 42 * of_nat j, True) # [])"
    using Suc.prems(1) by (simp add: tens_def)
  moreover have "\<not> (\<exists>b \<in> set ?xs. suits 10 b)" by (auto simp: suits_def)
  ultimately obtain s1 where s1: "k_malloc pl 10 s = Inr (f + 42 * of_nat j + 32, s1)"
      "heap_ready pl fb s1 (tens f (Suc j))" "pmem (st s1) = pmem (st s)"
    using k_malloc_inside [of pl fb s ?xs _ _ "[]" 10] tens_Suc(1) [OF j, of f] tens_Suc(2) [OF j] by fastforce
  from Suc.IH [OF s1(2)] Suc.prems(2) obtain s' where
    s': "mallocs pl (replicate n 10 @ ns) s1 = bind_res (mallocs pl ns s')
        (\<lambda>(ps, t). Inr (map (\<lambda>i. f + 42 * of_nat i + 32) [Suc j..<Suc j + n] @ ps, t))"
      "heap_ready pl fb s' (tens f (Suc j + n))" "pmem (st s') = pmem (st s1)" by auto
  have "[j..<Suc (j + n)] = j # [Suc j..<Suc (j + n)]" by (simp add: upt_conv_Cons)
  then have "mallocs pl (replicate (Suc n) 10 @ ns) s =
      bind_res (mallocs pl ns s') (\<lambda>(ps, t). Inr (map (\<lambda>i. f + 42 * of_nat i + 32) [j..<j + Suc n] @ ps, t))"
    using s1(1) s'(1) by (cases "mallocs pl ns s'") (auto simp del: upt_Suc)
  then show ?case using s'(2,3) s1(3) by auto
qed

lemma tens_8:
  "tens f 8 = [(f, 10, False), (f + 42, 10, False), (f + 84, 10, False), (f + 126, 10, False), (f + 168, 10, False),
     (f + 210, 10, False), (f + 252, 10, False), (f + 294, 10, False), (f + 336, 3728, True)]"
  by (simp add: tens_def upt_rec)

text \<open>Releases by address on the list of blocks.\<close>

fun abs_free_at :: "u64 \<Rightarrow> ablock list \<Rightarrow> ablock list \<Rightarrow> ablock list option" where
  "abs_free_at p xs [] = None"
| "abs_free_at p xs ((a, n, f) # ys) = (if a = p then abs_free xs a n ys else abs_free_at p (xs @ [(a, n, f)]) ys)"

fun abs_frees :: "u64 list \<Rightarrow> ablock list \<Rightarrow> ablock list option" where
  "abs_frees [] bs = Some bs"
| "abs_frees (p # ps) bs = (case abs_free_at p [] bs of None \<Rightarrow> None | Some es2 \<Rightarrow> abs_frees ps es2)"

lemma abs_free_at_split:
  "abs_free_at p xs bs = Some es2 \<Longrightarrow> \<exists>us n f ys. xs @ bs = us @ (p, n, f) # ys \<and> abs_free us p n ys = Some es2"
proof (induction p xs bs rule: abs_free_at.induct)
  case (2 p xs a n f ys)
  then show ?case by (cases "a = p") auto
qed simp

text \<open>The labels of the messages.\<close>

definition label_ok :: "string \<Rightarrow> bool" where
  "label_ok msg \<longleftrightarrow> render (str msg) False [] = Some (str msg) \<and> length msg < 4000 \<and> good_text (str msg)"

lemma free_reports_shown:
  assumes "heap_shown pl fb s bs" and "abs_frees ps bs = Some es2" and "length ls = length ps"
    and "\<forall>p \<in> set ps. unat p + 32 < 2 ^ 64" and "\<forall>l \<in> set ls. label_ok l"
  shows "\<exists>s'. seq_res (map2 (\<lambda>p. free_report pl (p + 32)) ps ls) s = Inr s' \<and> heap_shown pl fb s' es2"
  using assms
proof (induction ps arbitrary: ls s bs)
  case (Cons p ps)
  obtain l ls' where ls: "ls = l # ls'" using Cons.prems(3) by (cases ls) auto
  obtain es1 where es1: "abs_free_at p [] bs = Some es1" "abs_frees ps es1 = Some es2"
    using Cons.prems(2) by (auto split: option.splits)
  obtain us n f ys where bs: "bs = us @ (p, n, f) # ys" "abs_free us p n ys = Some es1"
    using abs_free_at_split [OF es1(1)] by auto
  obtain s1 where s1: "free_report pl (p + 32) l s = Inr s1" "heap_shown pl fb s1 es1"
    using free_report_shown [of pl fb s us p n f ys es1 l] Cons.prems(1,4,5) bs ls by (auto simp: label_ok_def)
  from Cons.IH [OF s1(2) es1(2), of ls'] Cons.prems(3-5) show ?case by (simp add: ls s1(1))
qed simp

lemma k_free_null:
  assumes "heap_shown pl fb s (xs @ (a, n, f) # ys)" and "unat a + 32 < 2 ^ 64" and "abs_free xs a n ys = None"
  shows "k_free (a + 32) s = Inl NullDeref"
proof -
  have "heap_inv (k_heap (kernel s)) (ram (st s)) (xs @ (a, n, f) # ys)" using assms(1) by (simp add: heap_shown_def)
  from heap_free_spec [OF this assms(2)] show ?thesis using assms(3) by (simp add: k_free_def)
qed

text \<open>The pointers released in the order of the source: the release of the seventh, the last but one, ends
  in the null dereference.\<close>

lemma abs_frees_exercise:
  assumes c: "\<And>k. unat k < 4096 \<Longrightarrow> c \<noteq> f + k" "\<And>k. unat k < 4096 \<Longrightarrow> c + 5032 \<noteq> f + k" "c + 8192 \<noteq> f + 42"
  shows "abs_frees [f + 42, f + 84, f + 294, f + 210, f + 126, f, f + 168]
      ([(f, 10, False), (c, 5000, False), (c + 5032, 3128, True)] @ tl (tens f 8)) =
    Some [(f, 10, True), (c, 5000, False), (c + 5032, 3128, True), (f + 42, 178, True), (f + 252, 10, False), (f + 294, 3770, True)]"
  using c c(1) [of 0] c(2) [of 0] by (simp add: tens_8 abs_free_def add.assoc)

lemma heap_frees_null:
  assumes h: "heap_shown pl fb s ([(f, 10, False), (c, 5000, False), (c + 5032, 3128, True)] @ tl (tens f 8))"
    and f: "unat f + 4096 < 2 ^ 64"
    and c: "\<And>k. unat k < 4096 \<Longrightarrow> c \<noteq> f + k" "\<And>k. unat k < 4096 \<Longrightarrow> c + 5032 \<noteq> f + k" "c + 8192 \<noteq> f + 42"
  shows "heap_frees pl (map (\<lambda>i. f + 42 * of_nat i + 32) [0..<8] @ [c + 32]) s = Inl NullDeref"
proof -
  let ?ps = "[f + 42, f + 84, f + 294, f + 210, f + 126, f, f + 168]"
    and ?ls = "[''ptr2: '', ''ptr3: '', ''ptr8: '', ''ptr6: '', ''ptr4: '', ''ptr1: '', ''ptr5: '']"
  have ad: "unat (f + k) + 32 < 2 ^ 64" if "unat k < 4000" for k
    using that f by (simp add: unat_word_ariths)
  have lab: "label_ok ''init: ''" "\<forall>l \<in> set ?ls. label_ok l" by (simp_all add: label_ok_def str_def good_text_def)
  obtain s0 where s0: "say pl ''init: '' [] s = Inr s0"
      "heap_shown pl fb s0 ([(f, 10, False), (c, 5000, False), (c + 5032, 3128, True)] @ tl (tens f 8))"
    using say_shown [OF h] lab(1) unfolding label_ok_def by blast
  obtain s1 where s1: "heap_info pl s0 = Inr s1"
      "heap_shown pl fb s1 ([(f, 10, False), (c, 5000, False), (c + 5032, 3128, True)] @ tl (tens f 8))"
    using heap_info_shown [OF s0(2)] by blast
  have "\<forall>p \<in> set ?ps. unat p + 32 < 2 ^ 64" using ad [of 42] ad [of 84] ad [of 294] ad [of 210] ad [of 126] ad [of 0] ad [of 168] by simp
  from free_reports_shown [OF s1(2) abs_frees_exercise [OF c] _ this lab(2)] obtain s2 where
    s2: "seq_res (map2 (\<lambda>p. free_report pl (p + 32)) ?ps ?ls) s1 = Inr s2"
      "heap_shown pl fb s2 ([(f, 10, True), (c, 5000, False), (c + 5032, 3128, True), (f + 42, 178, True)] @
         (f + 252, 10, False) # [(f + 294, 3770, True)])" by auto
  have "k_free (f + 252 + 32) s2 = Inl NullDeref"
    by (rule k_free_null [OF s2(2) ad]) (simp_all add: abs_free_def add.assoc)
  then have "free_report pl (f + 284) ''ptr7: '' s2 = Inl NullDeref" by (simp add: free_report_def add.assoc)
  moreover have "heap_frees pl (map (\<lambda>i. f + 42 * of_nat i + 32) [0..<8] @ [c + 32]) =
      seq_res ([say pl ''init: '' [], heap_info pl] @ map2 (\<lambda>p. free_report pl (p + 32)) ?ps ?ls @
        [free_report pl (f + 284) ''ptr7: '', k_free (c + 32)])"
    by (simp add: heap_frees_def upt_rec add.assoc)
  ultimately show ?thesis using s0(1) s1(1) s2(1) unfolding seq_res_append by simp
qed

text \<open>The constructor of the heap makes it ready.\<close>

lemma start_heap_ready:
  assumes inv: "pt_inv (p_PML4 pl) (st s)" and room: "heap_room (st s) 2" and scr: "screen_good pl fb s"
    and safe: "\<forall>x \<in> screen_span pl fb. safe_byte (p_PML4 pl) (st s) x"
  shows "\<exists>k s'. start_heap pl s = Inr s' \<and> heap_ready pl fb s' (tens (idx_to_frame_ptr k) 0) \<and>
    k \<le> last_free_idx (pmem (st s')) \<and> unat k < 2 ^ 20"
proof -
  let ?root = "p_PML4 pl"
  have "4 \<le> room (st s)" using room by (simp add: heap_room_def)
  from Heap_init_spec [OF inv this] obtain k t where
    t: "Heap_init ?root (st s) = Inr (idx_to_frame_ptr k, t)" "k < frames (pmem (st s))" "\<not> bm_get (st s) k"
      "heap_inv (idx_to_frame_ptr k) (ram t) [(idx_to_frame_ptr k, 4064, True)]" "pt_inv ?root t"
      "heap_safe ?root t [(idx_to_frame_ptr k, 4064, True)]" "taken_upto 4 (st s) t" "k \<le> last_free_idx (pmem t)"
      "\<forall>x. safe_byte ?root (st s) x \<longrightarrow> safe_byte ?root t x \<and> ram t x = ram (st s) x" by blast
  let ?s = "s\<lparr>st := t, kernel := (kernel s)\<lparr>k_heap := idx_to_frame_ptr k\<rparr>\<rparr>"
  have "screen_good pl fb (s\<lparr>st := t\<rparr>)" using scr by (rule screen_good_st) (use safe t(9) in blast)
  then have "screen_good pl fb ?s" by (simp add: screen_good_def)
  moreover have "foot (idx_to_frame_ptr k, 4064, True) \<inter> screen_span pl fb = {}"
    using frame_not_safe [OF inv t(2,3)] safe by (auto simp: foot_def)
  moreover have "can_grow t 5000" using heap_room_grows [OF _ t(7), of 5000] room by (simp add: grow_5000)
  ultimately have "heap_ready pl fb ?s (tens (idx_to_frame_ptr k) 0)"
    using t(4,5,6,9) safe by (simp add: heap_ready_def tens_def)
  moreover have "unat k < 2 ^ 20" using t(2) pt_inv_pool [OF inv] by (simp add: pool_ok_def word_less_nat_alt)
  ultimately show ?thesis
    using t(1,8) by (intro exI [of _ k] exI [of _ ?s]) (simp add: start_heap_def)
qed

lemma insert_in_tens:
  assumes "f < c" and "f + 42 < c"
  shows "insert_block (c, n, True) (tens f 8) = (f, 10, False) # (c, n, True) # tl (tens f 8)"
  using assms by (simp add: tens_8)

lemma heap_ready_exercise:
  assumes ready: "heap_ready pl fb s (tens (idx_to_frame_ptr k) 0)" and k: "k \<le> last_free_idx (pmem (st s))" "unat k < 2 ^ 20"
  shows "heap_exercise pl s = Inl NullDeref"
proof -
  define f where "f = idx_to_frame_ptr k"
  obtain s1 where s1: "mallocs pl (replicate 8 10 @ [5000]) s =
      bind_res (mallocs pl [5000] s1) (\<lambda>(ps, t). Inr (map (\<lambda>i. f + 42 * of_nat i + 32) [0..<0 + 8] @ ps, t))"
      "heap_ready pl fb s1 (tens f 8)" "pmem (st s1) = pmem (st s)"
    using mallocs_tens [OF ready [folded f_def], of 8 "[5000]"] by auto
  have "\<not> (\<exists>b \<in> set (tens f 8). suits 5000 b)" by (simp add: tens_8 suits_def)
  from k_malloc_grows [OF s1(2) this] obtain a s2 xs ys where
    m: "k_malloc pl 5000 s1 = Inr (idx_to_frame_ptr a + 32, s2)"
      "heap_shown pl fb s2 (xs @ take_block 5000 (idx_to_frame_ptr a) 8160 @ ys)"
      "insert_block (idx_to_frame_ptr a, 8160, True) (tens f 8) = xs @ (idx_to_frame_ptr a, 8160, True) # ys"
      "last_free_idx (pmem (st s1)) \<le> a" "unat a + 2 \<le> 2 ^ 20" "idx_to_frame_ptr a \<notin> fst ` set (tens f 8)"
    unfolding Let_def by blast
  define c where "c = idx_to_frame_ptr a"
  note M = m [folded c_def]
  have uf: "unat f = unat k * 4096" and uc: "unat c = unat a * 4096"
    unfolding f_def c_def idx_to_frame_ptr_def using k(2) M(5) by (intro unat_frame_ptr; simp)+
  have "c \<noteq> f" using M(6) by (auto simp: tens_8)
  moreover have "k \<le> a" using k(1) M(4) s1(3) by simp
  ultimately have "unat k < unat a" by (metis c_def f_def order.not_eq_order_implies_strict word_less_nat_alt)
  then have far: "unat f + 4096 \<le> unat c" using uf uc by simp
  have cf: "unat c + 8192 \<le> 2 ^ 32" using uc M(5) by simp
  have fk: "unat (f + d) = unat f + unat d" if "unat d < 4096" for d
    using that far cf by (simp add: unat_word_ariths)
  have ck: "unat (c + d) = unat c + unat d" if "unat d \<le> 8192" for d
    using that cf by (simp add: unat_word_ariths)
  have ne: "c \<noteq> f + d" "c + 5032 \<noteq> f + d" if "unat d < 4096" for d
    using fk [OF that] ck [of 5032] far that by (auto simp: word_unat_eq_iff)
  have ne2: "c + 8192 \<noteq> f + 42" using fk [of 42] ck [of 8192] far by (auto simp: word_unat_eq_iff)
  have "f < c" "f + 42 < c" using far fk [of 42] by (simp_all add: word_less_nat_alt)
  then have "(f, 10, False) # (c, 8160, True) # tl (tens f 8) = xs @ (c, 8160, True) # ys"
    using insert_in_tens M(3) by simp
  then have "xs = [(f, 10, False)]" "ys = tl (tens f 8)"
    using ne [of 0] ne(1) by (auto simp: tens_8 Cons_eq_append_conv)
  moreover have "take_block 5000 c 8160 = [(c, 5000, False), (c + 5032, 3128, True)]" by (simp add: take_block_def)
  ultimately have "heap_shown pl fb s2 ([(f, 10, False), (c, 5000, False), (c + 5032, 3128, True)] @ tl (tens f 8))"
    using M(2) by simp
  from heap_frees_null [OF this _ ne ne2] have "heap_frees pl (map (\<lambda>i. f + 42 * of_nat i + 32) [0..<8] @ [c + 32]) s2 = Inl NullDeref"
    using far cf by simp
  moreover have "mallocs pl [10, 10, 10, 10, 10, 10, 10, 10, 5000] s =
      Inr (map (\<lambda>i. f + 42 * of_nat i + 32) [0..<8] @ [c + 32], s2)"
    using s1(1) M(1) by (simp add: numeral_eq_Suc del: upt_Suc)
  ultimately show ?thesis unfolding heap_exercise_def by simp
qed


lemma start_safe:
  assumes "x \<in> screen_span start_platform start_fb"
  shows "safe_byte 0x20000 pt_example x"
proof -
  have "x \<in> span 0x200000 14804 \<or> x \<in> span 0x300000 14800 \<or> x \<in> span 0x40000 4096"
    using assms by (auto simp: screen_span_def start_platform_def)
  then have x: "0x40000 \<le> unat x" by (auto dest!: span_bounds(1))
  have "x \<notin> span 0x1000 2" "x \<notin> span 0x20000 4096" using x by (auto dest: span_bounds(2))
  moreover have "unat (ptr_to_frame_idx x) \<ge> 0x40" using x by (simp add: unat_frame_idx)
  then have "\<not> ptr_to_frame_idx x < 16" by (simp add: word_less_nat_alt)
  ultimately show ?thesis by (simp add: safe_byte_def pt_example_props pt_example_inv)
qed

lemma start_room: "heap_room pt_example 2"
proof -
  have "(\<lambda>i. of_nat i) ` {2..15} \<subseteq> {i. last_free_idx (pmem pt_example) \<le> i \<and> i < frames (pmem pt_example) \<and> \<not> bm_get pt_example i}"
  proof -
    have "(of_nat i :: u64) < 16 \<and> of_nat i \<noteq> (0 :: u64) \<and> of_nat i \<noteq> (1 :: u64)" if "i \<in> {2..15}" for i
      using that by (auto simp: word_less_nat_alt word_unat_eq_iff)
    then show ?thesis using pt_example_props by auto
  qed
  then have "card ((\<lambda>i. of_nat i :: u64) ` {2..15}) \<le> room pt_example" unfolding room_def by (rule card_mono [OF finite])
  moreover have "inj_on (\<lambda>i. of_nat i :: u64) {2..15}" by (rule inj_onI) (auto simp: word_unat_eq_iff)
  ultimately have "12 \<le> room pt_example" by (simp add: card_image)
  moreover have "free_run pt_example 2 7"
  proof -
    have "\<not> bm_get pt_example j" if "2 \<le> unat j" "unat j < 9" for j
    proof -
      have "j < 16" "j \<noteq> 0" "j \<noteq> 1" using that by (auto simp: word_less_nat_alt)
      then show ?thesis by (simp add: pt_example_props)
    qed
    then show ?thesis by (simp add: free_run_def)
  qed
  ultimately show ?thesis by (auto simp: heap_room_def pt_example_props intro!: exI [of _ 2])
qed


end
