(* ===== verification/EarlyBoot.thy ===== *)
theory EarlyBoot
  imports Kernel
begin

text \<open>
  The stages of \<^verbatim>\<open>_start\<close> from the frame manager to the ACPI tables, composed. Each stage prints on the screen while
  the next one relies on what an earlier one left in memory: the lemmas say which fields a stage changes and that memory
  changes only where the stage and its messages write.

  Theorems: with a usable frame in the memory map these stages always succeed, whatever the processor and the ACPI tables
  answer, and leave frame manager, descriptor tables and console in order together; what the search for the ACPI tables finds decides
  alone how the next stage ends.
\<close>

section \<open>One stage at a time\<close>

text \<open>A stage that ends in messages: \<open>s1\<close> is the state it prints from.\<close>

lemma screen_stepD:
  assumes "screen_step pl fb s1 s'"
  obtains con m where "s' = s1\<lparr>kernel := (kernel s1)\<lparr>k_console := Some con\<rparr>, st := (st s1)\<lparr>ram := m\<rparr>\<rparr>"
    and "kcon_ok (p_buf pl) (con, m)" and "con_fb con = fb" and "\<And>a. a \<notin> screen_span pl fb \<Longrightarrow> m a = ram (st s1) a"
  using assms unfolding screen_step_def screen_good_def by auto

lemma screen_good_cong:
  assumes "screen_good pl fb s" and "k_console (kernel s') = k_console (kernel s)"
    and "\<And>x. x \<in> fb_span fb \<union> front_span fb \<Longrightarrow> ram (st s') x = ram (st s) x"
  shows "screen_good pl fb s'"
  using assms kcon_ok_cong unfolding screen_good_def by metis

lemma start_pmem_step:
  assumes good: "screen_good pl fb s" and mm: "k_mmap (kernel s) = Some mm"
    and boot: "boot_ok (p_pmem pl) mm (MemoryData_at (ram (st s)) (k_memory (kernel s))) (k_stack (kernel s)) (ram (st s))"
    and n: "n = get_page_frames_number (ram (st s)) mm" and j0: "j0 < n" "j0 \<in> usable_frames (ram (st s)) mm (mm_entries mm)"
      "\<not> reserved_frame (p_pmem pl) n (k_stack (kernel s)) j0"
    and bm: "bm = span (snd (get_largest_free_seg (ram (st s)) mm (MemoryData_at (ram (st s)) (k_memory (kernel s))) 0)) (unat ((n + 7) div 8))"
    and off: "bm \<inter> screen_span pl fb = {}"
  shows "\<exists>k con m. start_pmem pl s = Inr (s\<lparr>st := k, kernel := (kernel s)\<lparr>k_console := Some con\<rparr>\<rparr>) \<and> ram k = m \<and>
    con_fb con = fb \<and> kcon_ok (p_buf pl) (con, m) \<and> pm_inv k \<and> bm_span (bitmap (pmem k)) = bm \<and> frames (pmem k) = n \<and>
    (\<forall>j < n. bm_get k j \<longleftrightarrow> j \<notin> usable_frames (ram (st s)) mm (mm_entries mm) \<or> reserved_frame (p_pmem pl) n (k_stack (kernel s)) j) \<and>
    (\<forall>a. a \<notin> bm \<union> screen_span pl fb \<longrightarrow> m a = ram (st s) a)"
proof -
  obtain k where k: "PMem_init (p_pmem pl) mm (MemoryData_at (ram (st s)) (k_memory (kernel s))) (k_stack (kernel s)) (ram (st s)) [] = Inr k"
      "pm_inv k" "frames (pmem k) = n" "bm_span (bitmap (pmem k)) = bm" "\<And>x. x \<notin> bm \<Longrightarrow> ram k x = ram (st s) x"
      "\<And>j. j < n \<Longrightarrow> bm_get k j \<longleftrightarrow> j \<notin> usable_frames (ram (st s)) mm (mm_entries mm) \<or> reserved_frame (p_pmem pl) n (k_stack (kernel s)) j"
    using PMem_init_spec [OF boot n j0, of "[]"] by (force simp: bm bm_span_def)
  let ?s = "s\<lparr>st := k\<rparr>"
  have "screen_good pl fb ?s"
    using k(5) off by (intro screen_good_cong [OF good]) (auto simp: screen_span_def)
  moreover have "good_text (str ''Physical memory initalization success'')" by (simp add: str_def good_text_def)
  ultimately obtain s1 where s1: "say_succ pl ''Physical memory initalization success'' ?s = Inr s1" "screen_step pl fb ?s s1"
    using say_succ_shown [of pl fb ?s] by fastforce
  obtain s2 where s2: "on_screen (kprint_pmem_info (p_buf pl) (pmem (st s1))) s1 = Inr s2" "screen_step pl fb s1 s2"
  proof -
    have "screen_good pl fb s1" using s1(2) by (simp add: screen_step_def)
    moreover obtain t where "con_prints (p_buf pl) (kprint_pmem_info (p_buf pl) (pmem (st s1))) t"
      using kprint_pmem_info_prints by blast
    ultimately show ?thesis using on_screen_prints that by blast
  qed
  have "screen_step pl fb ?s s2" using screen_step_trans [OF s1(2) s2(2)] .
  then obtain con m where s2': "s2 = ?s\<lparr>kernel := (kernel ?s)\<lparr>k_console := Some con\<rparr>, st := (st ?s)\<lparr>ram := m\<rparr>\<rparr>"
    and con: "kcon_ok (p_buf pl) (con, m)" "con_fb con = fb" and m: "\<And>a. a \<notin> screen_span pl fb \<Longrightarrow> m a = ram k a"
    by (rule screen_stepD) simp
  have agree: "m x = ram k x" if "x \<in> bm_span (bitmap (pmem k))" for x using that off m k(4) by auto
  have "start_pmem pl s = Inr (s\<lparr>st := k\<lparr>ram := m\<rparr>, kernel := (kernel s)\<lparr>k_console := Some con\<rparr>\<rparr>)"
    using mm k(1) s1(1) s2(1) s2' by (simp add: start_pmem_def)
  then show ?thesis
    using con k(3-6) m bm_get_ram_cong [OF k(2) agree]
    by (intro exI [of _ "k\<lparr>ram := m\<rparr>"] exI [of _ con] exI [of _ m]) simp
qed

lemma start_cpu_step:
  assumes good: "screen_good pl fb s"
  shows "\<exists>con m. start_cpu pl s = Inr (s\<lparr>devices := \<lparr>dev_cpu = get_info (p_cpuid pl)\<rparr>, st := (st s)\<lparr>ram := m\<rparr>,
      kernel := (kernel s)\<lparr>k_console := Some con\<rparr>\<rparr>) \<and>
    con_fb con = fb \<and> kcon_ok (p_buf pl) (con, m) \<and> (\<forall>a. a \<notin> screen_span pl fb \<longrightarrow> m a = ram (st s) a)"
proof -
  let ?s = "s\<lparr>devices := \<lparr>dev_cpu = get_info (p_cpuid pl)\<rparr>\<rparr>"
  have good': "screen_good pl fb ?s" using good by (simp add: screen_good_def)
  have "con_prints (p_buf pl) (con_kprintf (p_buf pl) (str ''[-] CPU state error: %d'') [VNum v]) (str ''[-] CPU state error: '' @ num_text 10 v)" for v
    using num_text_good [of v] by (intro con_kprintf_prints; simp add: str_def good_text_def)
  then have "\<exists>s'. say pl ''[-] CPU state error: %d'' [VNum v] ?s = Inr s' \<and> screen_step pl fb ?s s'" for v
    unfolding say_def using on_screen_prints [OF good'] by blast
  moreover have "\<exists>s'. say_succ pl ''CPU state correct'' ?s = Inr s' \<and> screen_step pl fb ?s s'"
    using say_succ_shown [OF good'] by (simp add: str_def good_text_def)
  ultimately obtain s' where "start_cpu pl s = Inr s'" "screen_step pl fb ?s s'"
    unfolding start_cpu_def Let_def by (cases "check_state (p_cpuid pl) \<noteq> SUCCESS") auto
  then obtain con m where "start_cpu pl s = Inr (?s\<lparr>kernel := (kernel ?s)\<lparr>k_console := Some con\<rparr>, st := (st ?s)\<lparr>ram := m\<rparr>\<rparr>)"
      "kcon_ok (p_buf pl) (con, m)" "con_fb con = fb" "\<And>a. a \<notin> screen_span pl fb \<Longrightarrow> m a = ram (st s) a"
    by (elim screen_stepD) simp
  then show ?thesis by (intro exI [of _ con] exI [of _ m]) simp
qed

text \<open>The bytes of the interrupt table the constructor writes.\<close>

definition idt_span :: "'d platform \<Rightarrow> u64 set" where
  "idt_span pl = (\<Union>i. span (idt_entry_ptr (p_idt pl) i) 12)"

text \<open>The gate and the handler each vector is given.\<close>

fun gate_for :: "Interrupt \<Rightarrow> Gate" where
  "gate_for DIVISION_BY_ZERO = TRAP_GATE"
| "gate_for _ = INTERRUPT_GATE"

fun handler_for :: "handlers \<Rightarrow> Interrupt \<Rightarrow> u64" where
  "handler_for h DIVISION_BY_ZERO = h_divide_by_zero h"
| "handler_for h PAGE_FAULT = h_page_fault h"
| "handler_for h TIMER = h_timer h"
| "handler_for h KEYBOARD = h_keyboard h"
| "handler_for h SPURIOUS = h_spurious h"

definition gates_set :: "'d platform \<Rightarrow> mem \<Rightarrow> bool" where
  "gates_set pl m \<longleftrightarrow> (\<forall>i. gate_is m (idt_entry_ptr (p_idt pl) i) (gate_for i) (handler_for (p_handlers pl) i))"

lemma IDT_init_sets:
  "gates_set pl (fst (IDT_init (p_idt pl) (p_handlers pl) m))"
  "x \<notin> idt_span pl \<Longrightarrow> fst (IDT_init (p_idt pl) (p_handlers pl) m) x = m x"
  "snd (IDT_init (p_idt pl) (p_handlers pl) m) = load_idtr (p_idt pl)"
  by (simp_all add: gates_set_def all_Interrupt idt_span_def IDT_init_def Let_def add_int_gate add_int_other_gate add_int_outside)

lemma gates_set_cong:
  assumes "\<And>x. x \<in> idt_span pl \<Longrightarrow> m' x = m x"
  shows "gates_set pl m' = gates_set pl m"
proof -
  have "gate_is m' (idt_entry_ptr (p_idt pl) i) g h = gate_is m (idt_entry_ptr (p_idt pl) i) g h" for i g h
  proof (rule gate_is_cong)
    fix k :: nat assume "k < 12"
    then have "idt_entry_ptr (p_idt pl) i + of_nat k \<in> span (idt_entry_ptr (p_idt pl) i) 12" by (simp add: span_iff)
    then have "idt_entry_ptr (p_idt pl) i + of_nat k \<in> idt_span pl" unfolding idt_span_def by blast
    then show "m' (idt_entry_ptr (p_idt pl) i + of_nat k) = m (idt_entry_ptr (p_idt pl) i + of_nat k)" by (rule assms)
  qed
  then show ?thesis by (simp add: gates_set_def)
qed

lemma start_tables_step:
  assumes good: "screen_good pl fb s" and kb: "k_keyboard (kernel s) \<noteq> None" and off: "idt_span pl \<inter> screen_span pl fb = {}"
  shows "\<exists>con m. start_tables pl s = Inr (s\<lparr>segs := load_gdt (gdtr (p_gdt pl)) (segs s), idtr_reg := load_idtr (p_idt pl),
      st := (st s)\<lparr>ram := m\<rparr>, kernel := (kernel s)\<lparr>k_gdt := p_gdt pl, k_idt := p_idt pl, k_console := Some con\<rparr>\<rparr>) \<and>
    con_fb con = fb \<and> kcon_ok (p_buf pl) (con, m) \<and> gates_set pl m \<and>
    (\<forall>a. a \<notin> idt_span pl \<union> screen_span pl fb \<longrightarrow> m a = ram (st s) a)"
proof -
  let ?s = "s\<lparr>segs := load_gdt (gdtr (p_gdt pl)) (segs s), kernel := (kernel s)\<lparr>k_gdt := p_gdt pl\<rparr>\<rparr>"
  have "screen_good pl fb ?s" using good by (simp add: screen_good_def)
  then obtain s1 where s1: "say_succ pl ''GDT initalization success'' ?s = Inr s1" "screen_step pl fb ?s s1"
    using say_succ_shown [of pl fb ?s "''GDT initalization success''"] by (auto simp: str_def good_text_def)
  obtain con1 m1 where s1': "s1 = ?s\<lparr>kernel := (kernel ?s)\<lparr>k_console := Some con1\<rparr>, st := (st ?s)\<lparr>ram := m1\<rparr>\<rparr>"
    and m1: "\<And>a. a \<notin> screen_span pl fb \<Longrightarrow> m1 a = ram (st s) a" using s1(2) by (elim screen_stepD) auto
  let ?m = "fst (IDT_init (p_idt pl) (p_handlers pl) m1)"
  let ?s2 = "s1\<lparr>st := (st s1)\<lparr>ram := ?m\<rparr>, idtr_reg := load_idtr (p_idt pl), kernel := (kernel s1)\<lparr>k_idt := p_idt pl\<rparr>\<rparr>"
  have "screen_good pl fb s1" using s1(2) by (simp add: screen_step_def)
  then have "screen_good pl fb ?s2"
    by (rule screen_good_cong) (use off s1' in \<open>auto simp: screen_span_def intro!: IDT_init_sets(2)\<close>)
  then obtain s3 where s3: "say_succ pl ''IDT initialization success'' ?s2 = Inr s3" "screen_step pl fb ?s2 s3"
    using say_succ_shown [of pl fb ?s2 "''IDT initialization success''"] by (auto simp: str_def good_text_def)
  obtain con m where s3': "s3 = ?s2\<lparr>kernel := (kernel ?s2)\<lparr>k_console := Some con\<rparr>, st := (st ?s2)\<lparr>ram := m\<rparr>\<rparr>"
    and con: "kcon_ok (p_buf pl) (con, m)" "con_fb con = fb" and m: "\<And>a. a \<notin> screen_span pl fb \<Longrightarrow> m a = ?m a"
    using s3(2) by (elim screen_stepD) auto
  have "gates_set pl m" using IDT_init_sets(1) [of pl m1] gates_set_cong [of pl m ?m] m off by blast
  moreover have "m a = ram (st s) a" if "a \<notin> idt_span pl \<union> screen_span pl fb" for a
    using that m m1 IDT_init_sets(2) [of a pl m1] by simp
  moreover have "start_tables pl s = Inr s3"
    using s1(1) s3(1) kb s1' s3' IDT_init_sets(3) [of pl m1]
    by (simp add: start_tables_def gdt_init_def check_def case_prod_beta Let_def)
  ultimately show ?thesis using con s1' s3' by (intro exI [of _ con] exI [of _ m]) simp
qed

section \<open>The stages together\<close>

text \<open>
  C7: from the frame manager to the ACPI tables. On a memory map with a usable frame that is not reserved, and with screen, bitmap and
  interrupt table apart from each other, the four stages always succeed, whatever the processor identifies as and whatever the ACPI
  tables hold. Afterwards the frame manager satisfies its invariant with exactly the usable and unreserved frames free, although
  the later stages have printed and written tables; the gates decode to the handlers, the segment registers are loaded, and nothing
  but bitmap, interrupt table, screen and print buffer has changed.\<close>

theorem early_stages_succeed:
  assumes good: "screen_good pl fb s" and w: "width fb = px_per_scan fb" "2 \<le> unat (width fb)"
    and mm: "k_mmap (kernel s) = Some mm" and kb: "k_keyboard (kernel s) \<noteq> None"
    and boot: "boot_ok (p_pmem pl) mm (MemoryData_at (ram (st s)) (k_memory (kernel s))) (k_stack (kernel s)) (ram (st s))"
    and n: "n = get_page_frames_number (ram (st s)) mm" and j0: "j0 < n" "j0 \<in> usable_frames (ram (st s)) mm (mm_entries mm)"
      "\<not> reserved_frame (p_pmem pl) n (k_stack (kernel s)) j0"
    and bm: "bm = span (snd (get_largest_free_seg (ram (st s)) mm (MemoryData_at (ram (st s)) (k_memory (kernel s))) 0)) (unat ((n + 7) div 8))"
    and apart: "bm \<inter> screen_span pl fb = {}" "idt_span pl \<inter> screen_span pl fb = {}" "idt_span pl \<inter> bm = {}"
  shows "\<exists>s'. seq_res [start_pmem pl, start_cpu pl, start_tables pl, start_acpi pl] s = Inr s' \<and> screen_good pl fb s' \<and>
    pm_inv (st s') \<and> frames (pmem (st s')) = n \<and>
    (\<forall>j < n. bm_get (st s') j \<longleftrightarrow> j \<notin> usable_frames (ram (st s)) mm (mm_entries mm) \<or> reserved_frame (p_pmem pl) n (k_stack (kernel s)) j) \<and>
    gates_set pl (ram (st s')) \<and> idtr_base_addr (idtr_reg s') = p_idt pl \<and> segs s' = load_gdt (gdtr (p_gdt pl)) (segs s) \<and>
    k_mmap (kernel s') = Some mm \<and> k_acpi_rsdp (kernel s') = k_acpi_rsdp (kernel s) \<and>
    (\<forall>a. a \<notin> bm \<union> idt_span pl \<union> screen_span pl fb \<longrightarrow> ram (st s') a = ram (st s) a)"
proof -
  obtain k con1 where 1: "start_pmem pl s = Inr (s\<lparr>st := k, kernel := (kernel s)\<lparr>k_console := Some con1\<rparr>\<rparr>)"
      "con_fb con1 = fb" "kcon_ok (p_buf pl) (con1, ram k)" "pm_inv k" "bm_span (bitmap (pmem k)) = bm" "frames (pmem k) = n"
      "\<forall>j < n. bm_get k j \<longleftrightarrow> j \<notin> usable_frames (ram (st s)) mm (mm_entries mm) \<or> reserved_frame (p_pmem pl) n (k_stack (kernel s)) j"
      "\<forall>a. a \<notin> bm \<union> screen_span pl fb \<longrightarrow> ram k a = ram (st s) a"
    using start_pmem_step [OF good mm boot n j0 bm apart(1)] by blast
  let ?s1 = "s\<lparr>st := k, kernel := (kernel s)\<lparr>k_console := Some con1\<rparr>\<rparr>"
  have "screen_good pl fb ?s1" using 1(2,3) by (simp add: screen_good_def)
  then obtain con2 m2 where 2: "start_cpu pl ?s1 = Inr (?s1\<lparr>devices := \<lparr>dev_cpu = get_info (p_cpuid pl)\<rparr>, st := (st ?s1)\<lparr>ram := m2\<rparr>,
        kernel := (kernel ?s1)\<lparr>k_console := Some con2\<rparr>\<rparr>)" "con_fb con2 = fb" "kcon_ok (p_buf pl) (con2, m2)"
      "\<forall>a. a \<notin> screen_span pl fb \<longrightarrow> m2 a = ram (st ?s1) a"
    using start_cpu_step [of pl fb ?s1] by blast
  let ?s2 = "?s1\<lparr>devices := \<lparr>dev_cpu = get_info (p_cpuid pl)\<rparr>, st := (st ?s1)\<lparr>ram := m2\<rparr>, kernel := (kernel ?s1)\<lparr>k_console := Some con2\<rparr>\<rparr>"
  have "screen_good pl fb ?s2" "k_keyboard (kernel ?s2) \<noteq> None" using 2(2,3) kb by (simp_all add: screen_good_def)
  then obtain con3 m3 where 3: "start_tables pl ?s2 = Inr (?s2\<lparr>segs := load_gdt (gdtr (p_gdt pl)) (segs ?s2), idtr_reg := load_idtr (p_idt pl),
        st := (st ?s2)\<lparr>ram := m3\<rparr>, kernel := (kernel ?s2)\<lparr>k_gdt := p_gdt pl, k_idt := p_idt pl, k_console := Some con3\<rparr>\<rparr>)"
      "con_fb con3 = fb" "kcon_ok (p_buf pl) (con3, m3)" "gates_set pl m3"
      "\<forall>a. a \<notin> idt_span pl \<union> screen_span pl fb \<longrightarrow> m3 a = ram (st ?s2) a"
    using start_tables_step [of pl fb ?s2] apart(2) by blast
  let ?s3 = "?s2\<lparr>segs := load_gdt (gdtr (p_gdt pl)) (segs ?s2), idtr_reg := load_idtr (p_idt pl),
        st := (st ?s2)\<lparr>ram := m3\<rparr>, kernel := (kernel ?s2)\<lparr>k_gdt := p_gdt pl, k_idt := p_idt pl, k_console := Some con3\<rparr>\<rparr>"
  have "screen_good pl fb ?s3" using 3(2,3) by (simp add: screen_good_def)
  then obtain s4 where 4: "start_acpi pl ?s3 = Inr s4" "screen_step pl fb ?s3 s4" using start_acpi_step [OF _ w] by blast
  then obtain con4 m4 where s4: "s4 = ?s3\<lparr>kernel := (kernel ?s3)\<lparr>k_console := Some con4\<rparr>, st := (st ?s3)\<lparr>ram := m4\<rparr>\<rparr>"
    and m4: "\<And>a. a \<notin> screen_span pl fb \<Longrightarrow> m4 a = m3 a" by (elim screen_stepD) simp
  have outside: "m4 a = ram k a" if "a \<notin> idt_span pl \<union> screen_span pl fb" for a using that m4 2(4) 3(5) by simp
  then have "m4 x = ram k x" if "x \<in> bm_span (bitmap (pmem k))" for x using that 1(5) apart by blast
  note P = bm_get_ram_cong [OF 1(4) this]
  have "gates_set pl m4" using 3(4) gates_set_cong [of pl m4 m3] m4 apart(2) by blast
  moreover have "seq_res [start_pmem pl, start_cpu pl, start_tables pl, start_acpi pl] s = Inr s4"
    using 1(1) 2(1) 3(1) 4(1) by simp
  moreover have "screen_good pl fb s4" using 4(2) by (simp add: screen_step_def)
  moreover have "st s4 = k\<lparr>ram := m4\<rparr>" by (simp add: s4)
  ultimately show ?thesis
    using P 1(6,7,8) outside mm by (intro exI [of _ s4]) (simp add: s4 load_idtr_def)
qed

section \<open>The search for the devices\<close>

definition MADT_SIG :: "u8 list" where "MADT_SIG = str ''APIC''"
definition HPET_SIG :: "u8 list" where "HPET_SIG = str ''HPET''"

text \<open>The string constants are in memory at their addresses.\<close>

definition signatures_in :: "'d platform \<Rightarrow> mem \<Rightarrow> bool" where
  "signatures_in pl m \<longleftrightarrow> get_bytes m (p_MADT_SIG pl) 4 = MADT_SIG \<and> get_bytes m (p_HPET_SIG pl) 4 = HPET_SIG"

text \<open>The first element with a property, or null.\<close>

definition first_or_null :: "(u64 \<Rightarrow> bool) \<Rightarrow> u64 list \<Rightarrow> u64" where
  "first_or_null P xs = (case find P xs of None \<Rightarrow> 0 | Some x \<Rightarrow> x)"

definition first_table :: "u8 list \<Rightarrow> mem \<Rightarrow> u64 \<Rightarrow> u64" where
  "first_table sig m rsdp =
     first_or_null (\<lambda>t. h_signature (sdt_Header_at m t) = sig) (sdt_tables m (ucast (rsdt_addr (RSDP_at m rsdp))))"

definition first_ics :: "ics_Type \<Rightarrow> mem \<Rightarrow> u64 \<Rightarrow> u64" where
  "first_ics ty m madt = first_or_null (\<lambda>a. ics_type (ics_Header_at m a) = ics_type_code ty) (map (ics_addr m (madt + 44)) [0..<15])"

definition tables_found :: "mem \<Rightarrow> u64 \<Rightarrow> ACPI_Tables" where
  "tables_found m rsdp =
     (let madt = first_table MADT_SIG m rsdp
      in \<lparr>t_madt = madt, t_lapic = first_ics CPU_LAPIC m madt, t_ioapic = first_ics IO_APIC m madt, t_hpet = first_table HPET_SIG m rsdp\<rparr>)"

text \<open>The assertion that fails, in the order of the source.\<close>

definition missing_table :: "ACPI_Tables \<Rightarrow> string option" where
  "missing_table t =
     (if t_madt t = 0 then Some ''kernel.acpi_tables.madt != nullptr'' else if t_lapic t = 0 then Some ''kernel.acpi_tables.lapic != nullptr''
      else if t_ioapic t = 0 then Some ''kernel.acpi_tables.ioapic != nullptr'' else if t_hpet t = 0 then Some ''kernel.acpi_tables.hpet != nullptr''
      else None)"

lemma searches_find:
  assumes "signatures_in pl m"
  shows "sdt_get_header m rsdp (p_MADT_SIG pl) = first_table MADT_SIG m rsdp"
    and "sdt_get_header m rsdp (p_HPET_SIG pl) = first_table HPET_SIG m rsdp"
    and "ics_get_header m madt ty = first_ics ty m madt"
proof -
  have "sig4 m (p_MADT_SIG pl) MADT_SIG" "sig4 m (p_HPET_SIG pl) HPET_SIG"
    using assms by (simp_all add: signatures_in_def sig4_def MADT_SIG_def HPET_SIG_def str_def)
  note S = this [THEN sdt_search_find, of "ucast (rsdt_addr (RSDP_at m rsdp))" 0]
  show "sdt_get_header m rsdp (p_MADT_SIG pl) = first_table MADT_SIG m rsdp" "sdt_get_header m rsdp (p_HPET_SIG pl) = first_table HPET_SIG m rsdp"
    using S by (simp_all add: sdt_get_header_def first_table_def first_or_null_def sdt_tables_def)
  show "ics_get_header m madt ty = first_ics ty m madt"
    by (simp add: ics_get_header_def ics_table_def ics_search_find first_ics_def first_or_null_def)
qed

lemma all_tables_set: "x\<lparr>t_madt := a, t_lapic := b, t_ioapic := c, t_hpet := d\<rparr> = \<lparr>t_madt = a, t_lapic = b, t_ioapic = c, t_hpet = d\<rparr>"
  for x :: ACPI_Tables
  by (cases x) simp

lemma bind_seq_Nil: "bind_res r (seq_res []) = r"
  by (cases r) simp_all

text \<open>
  C32: the stages that look up the interrupt controllers and the timer. The tables they record are the first table of the RSDT with the
  signature of the MADT, the first local APIC and I/O APIC structure among the first fifteen of its chain, and the first table with the signature
  of the HPET. If one is missing the kernel stops at the assertion on the first that is; otherwise the stages succeed, and change
  nothing but the record of the tables and the screen.\<close>

theorem acpi_devices_found:
  assumes "screen_good pl fb s" and "signatures_in pl (ram (st s))" and "t = tables_found (ram (st s)) (k_acpi_rsdp (kernel s))"
  shows "case missing_table t of
      Some e \<Rightarrow> seq_res [start_madt pl, start_hpet pl] s = Inl (Assert e)
    | None \<Rightarrow> (\<exists>con m. seq_res [start_madt pl, start_hpet pl] s =
          Inr (s\<lparr>kernel := (kernel s)\<lparr>k_acpi_tables := t, k_console := Some con\<rparr>, st := (st s)\<lparr>ram := m\<rparr>\<rparr>) \<and>
        con_fb con = fb \<and> kcon_ok (p_buf pl) (con, m) \<and> (\<forall>a. a \<notin> screen_span pl fb \<longrightarrow> m a = ram (st s) a))"
proof -
  note F = searches_find [OF assms(2)]
  let ?s = "s\<lparr>kernel := (kernel s)\<lparr>k_acpi_tables := t\<rparr>\<rparr>"
  have "seq_res [start_madt pl, start_hpet pl] s =
      (case missing_table t of Some e \<Rightarrow> Inl (Assert e) | None \<Rightarrow> say_succ pl ''HPET initialization success'' ?s)"
    by (simp add: start_madt_def start_hpet_def set_tables_def F assms(3) tables_found_def missing_table_def all_tables_set bind_seq_Nil Let_def)
  moreover have "screen_good pl fb ?s" using assms(1) by (simp add: screen_good_def)
  then obtain s' where "say_succ pl ''HPET initialization success'' ?s = Inr s'" "screen_step pl fb ?s s'"
    using say_succ_shown [of pl fb ?s "''HPET initialization success''"] by (auto simp: str_def good_text_def)
  ultimately show ?thesis by (cases "missing_table t") (force elim!: screen_stepD)+
qed

section \<open>An example machine\<close>

text \<open>The boot environment of one segment of 16 frames, with the data of the boot loader at \<open>0x100800\<close> and ACPI tables below \<open>0x400\<close>:
  the root pointer at \<open>0x100\<close>, the RSDT at \<open>0x200\<close> with the tables at \<open>0x300\<close> and \<open>0x380\<close>, the signatures at \<open>0x400\<close> and \<open>0x404\<close>.\<close>

definition early_mem :: mem where
  "early_mem = boot_mem(0x100802 := 0x10, 0x100808 := 48, 0x100810 := 48, 0x100818 := 1,
     0x111 := 2, 0x204 := 44, 0x225 := 3, 0x228 := 0x80, 0x229 := 3, 0x300 := 65, 0x301 := 80, 0x302 := 73, 0x303 := 67,
     0x32D := 8, 0x334 := 1, 0x380 := 72, 0x381 := 80, 0x382 := 69, 0x383 := 84,
     0x400 := 65, 0x401 := 80, 0x402 := 73, 0x403 := 67, 0x404 := 72, 0x405 := 80, 0x406 := 69, 0x407 := 84)"

definition early_platform :: "u8 list platform" where
  "early_platform = start_platform\<lparr>p_MADT_SIG := 0x400, p_HPET_SIG := 0x404\<rparr>"

definition early_machine :: "u8 list machine" where
  "early_machine = (start_machine \<lparr>ram = early_mem, pmem = pmem pt_example, kout = []\<rparr>)\<lparr>kernel := KernelData_init\<lparr>k_stack := 0x5000,
     k_console := Some (Console_init font_example start_fb), k_acpi_rsdp := 0x100, k_memory := 0x100800, k_mmap := Some boot_map,
     k_keyboard := Some Keyboard_init\<rparr>\<rparr>"

lemma early_machine_fields [simp]:
  "ram (st early_machine) = early_mem" "k_mmap (kernel early_machine) = Some boot_map" "k_stack (kernel early_machine) = 0x5000"
  "k_memory (kernel early_machine) = 0x100800" "k_acpi_rsdp (kernel early_machine) = 0x100" "k_keyboard (kernel early_machine) = Some Keyboard_init"
  "p_pmem early_platform = 0x6000" "p_buf early_platform = 0x40000" "p_idt early_platform = 0x60000"
  by (simp_all add: early_machine_def start_machine_def early_platform_def start_platform_def)

lemma early_screen: "screen_good early_platform start_fb early_machine"
proof -
  have "kcon_ok 0x40000 (Console_init font_example start_fb, early_mem)"
    by (rule start_console_zero) (auto simp: early_mem_def boot_mem_def)
  then show ?thesis by (simp add: screen_good_def) (simp add: early_machine_def Console_init_def)
qed

text \<open>The map is that of the boot environment.\<close>

lemma early_map:
  "EfiMMapDesc_at early_mem 0x100000 = EfiMMapDesc_at boot_mem 0x100000"
  "MemoryData_at early_mem 0x100800 = boot_data"
  by (simp_all add: EfiMMapDesc_at_def MemoryData_at_def boot_data_def read32_def read64_def load_steps early_mem_def boot_mem_def)

lemma early_sizes:
  "get_page_frames_number early_mem boot_map = 18" "get_largest_free_seg early_mem boot_map boot_data 0 = (0x10000, 0x1000)"
  "usable_frames early_mem boot_map (mm_entries boot_map) = usable_frames boot_mem boot_map (mm_entries boot_map)"
  by (simp_all add: get_page_frames_number_def get_entire_memory_size_def get_largest_free_seg_def boot_data_def for_up.simps
      largest_step_def boot_desc early_map usable_frames_def FRAME_SZ_def)

lemma early_boot: "boot_ok 0x6000 boot_map boot_data 0x5000 early_mem"
  using boot_example by (simp add: boot_ok_def early_sizes boot_sizes boot_desc early_map)

lemma early_spans:
  "span 0x1000 3 \<inter> screen_span early_platform start_fb = {}" "idt_span early_platform \<inter> screen_span early_platform start_fb = {}"
  "idt_span early_platform \<inter> span 0x1000 3 = {}"
proof -
  have idt: "0x60000 \<le> unat x \<and> unat x < 0x61000" if x: "x \<in> idt_span early_platform" for x
  proof -
    obtain i where i: "x \<in> span (idt_entry_ptr 0x60000 i) 12" using x unfolding idt_span_def early_machine_fields by blast
    have "0x60000 \<le> unat (idt_entry_ptr 0x60000 i)" "unat (idt_entry_ptr 0x60000 i) \<le> 0x60FF0"
      by (cases i; simp add: idt_entry_ptr_def sizeof_idt_Entry_def)+
    then show ?thesis using span_bounds [OF i] by simp
  qed
  have scr: "unat x \<in> {0x40000..<0x41000} \<union> {0x200000..<0x400000}" if "x \<in> screen_span early_platform start_fb" for x
    using that span_bounds [of x "0x200000" 14804] span_bounds [of x "0x300000" 14800] span_bounds [of x "0x40000" 4096]
    by (auto simp: screen_span_def)
  have bm: "unat x < 0x2000" if "x \<in> span 0x1000 3" for x using span_bounds(2) [OF that] by simp
  show "span 0x1000 3 \<inter> screen_span early_platform start_fb = {}" using bm scr by fastforce
  show "idt_span early_platform \<inter> screen_span early_platform start_fb = {}" using idt scr by fastforce
  show "idt_span early_platform \<inter> span 0x1000 3 = {}" using idt bm by fastforce
qed

theorem early_stages_succeed_witness:
  "\<exists>s'. seq_res [start_pmem early_platform, start_cpu early_platform, start_tables early_platform, start_acpi early_platform] early_machine = Inr s' \<and>
     pm_inv (st s') \<and> frames (pmem (st s')) = 18 \<and> gates_set early_platform (ram (st s'))"
proof -
  have u: "2 \<in> usable_frames early_mem boot_map (mm_entries boot_map)"
    unfolding early_sizes boot_usable by (rule exI [of _ 1]) simp
  have r: "\<not> reserved_frame 0x6000 18 0x5000 2" by (auto simp: reserved_frame_def ptr_to_frame_idx_def FRAME_SZ_def)
  have k: "k_keyboard (kernel early_machine) \<noteq> None" by simp
  show ?thesis
    using early_stages_succeed [OF early_screen _ _ early_machine_fields(2) k, of 18 2 "span 0x1000 3"] early_boot early_sizes early_map early_spans u r
    by fastforce
qed

theorem acpi_devices_found_witness:
  "\<exists>s'. seq_res [start_madt early_platform, start_hpet early_platform] early_machine = Inr s' \<and>
     k_acpi_tables (kernel s') = \<lparr>t_madt = 0x300, t_lapic = 0x32C, t_ioapic = 0x334, t_hpet = 0x380\<rparr>"
proof -
  have sig: "signatures_in early_platform early_mem"
    by (simp add: signatures_in_def early_platform_def MADT_SIG_def HPET_SIG_def str_def get_bytes_def upt_rec early_mem_def boot_mem_def)
  have r: "rsdt_addr (RSDP_at early_mem 0x100) = 0x200" "h_length (sdt_Header_at early_mem 0x200) = 44"
    "sdt_table early_mem 0x200 0 = 0x300" "sdt_table early_mem 0x200 1 = 0x380"
    "h_signature (sdt_Header_at early_mem 0x300) = MADT_SIG" "h_signature (sdt_Header_at early_mem 0x380) = HPET_SIG"
    by (simp_all add: RSDP_at_def sdt_Header_at_def sdt_table_def sizeof_sdt_Header_def read32_def load_steps early_mem_def boot_mem_def
        MADT_SIG_def HPET_SIG_def str_def get_bytes_def upt_rec)
  have "sdt_tables early_mem 0x200 = [0x300, 0x380]"
    using r by (simp add: sdt_tables_def sdt_entries_def sizeof_sdt_Header_def upt_rec)
  then have t: "first_table MADT_SIG early_mem 0x100 = 0x300" "first_table HPET_SIG early_mem 0x100 = 0x380"
    using r by (simp_all add: first_table_def first_or_null_def) (simp add: MADT_SIG_def HPET_SIG_def str_def)
  have n: "(15 :: nat) = Suc (Suc 13)" by simp
  have i: "ics_get_header early_mem 0x300 CPU_LAPIC = 0x32C" "ics_get_header early_mem 0x300 IO_APIC = 0x334"
    unfolding ics_get_header_def n ics_search.simps by (simp_all add: early_mem_def boot_mem_def ics_table_def ics_Header_at_def)
  then have "tables_found early_mem 0x100 = \<lparr>t_madt = 0x300, t_lapic = 0x32C, t_ioapic = 0x334, t_hpet = 0x380\<rparr>"
    by (simp add: tables_found_def t searches_find(3) [OF sig])
  moreover have "signatures_in early_platform (ram (st early_machine))" using sig by simp
  ultimately show ?thesis
    using acpi_devices_found [OF early_screen _ refl] by (fastforce simp: missing_table_def)
qed

end
