(* ===== verification/Devices.thy ===== *)
theory Devices
  imports EarlyBoot
begin

text \<open>
  The stage of \<^verbatim>\<open>_start\<close> that turns the interrupts on, composed of the legacy PIC, the processor's interrupt flag, the I/O APIC and the
  local APIC. The devices share one state; the hypothesis \<open>irq_hw\<close> says of it what the data sheets say of each device, and
  that a write to a register of the local APIC does not reach the I/O APIC.
\<close>

definition irq_hw :: "'d platform \<Rightarrow> u32 \<Rightarrow> u32 \<Rightarrow> ('d \<Rightarrow> u8 \<Rightarrow> u32) \<Rightarrow> ('d \<Rightarrow> u8) \<Rightarrow> bool" where
  "irq_hw pl la io reg sel \<longleftrightarrow> ioapic_hw (p_mmio pl) io reg sel redir_rw \<and> lapic_hw (p_mmio pl) la \<and>
     (\<forall>r v d. reg (lapic_write_reg (p_mmio pl) la r v d) = reg d)"

lemma lapic_init_reg:
  assumes "irq_hw pl la io reg sel"
  shows "reg (snd (lapic_init (p_mmio pl) la r d)) = reg d"
  using assms by (simp add: irq_hw_def lapic_init_def lapic_enable_def set_spurious_interrupt_def Let_def)

text \<open>The device addresses depend on the tables in memory only.\<close>

lemma bases_simps [simp]:
  "lapic_base (s\<lparr>dev := d\<rparr>) = lapic_base s" "lapic_base (s\<lparr>int_flag := f\<rparr>) = lapic_base s"
  "ioapic_base (s\<lparr>dev := d\<rparr>) = ioapic_base s" "ioapic_base (s\<lparr>int_flag := f\<rparr>) = ioapic_base s"
  by (simp_all add: lapic_base_def ioapic_base_def)

lemma bases_cong:
  assumes "k_acpi_tables (kernel s') = k_acpi_tables (kernel s)"
    and "\<And>x. x \<in> span (t_madt (k_acpi_tables (kernel s))) 44 \<union> span (t_ioapic (k_acpi_tables (kernel s))) 12 \<Longrightarrow> ram (st s') x = ram (st s) x"
  shows "lapic_base s' = lapic_base s" and "ioapic_base s' = ioapic_base s"
proof -
  let ?m = "t_madt (k_acpi_tables (kernel s))" and ?i = "t_ioapic (k_acpi_tables (kernel s))"
  have "span (?m + of_nat 36) 4 \<subseteq> span ?m 44" "span (?i + of_nat 4) 4 \<subseteq> span ?i 12" by (rule span_add_subset; simp)+
  then have "read32 (ram (st s')) (?m + 36) = read32 (ram (st s)) (?m + 36)" "read32 (ram (st s')) (?i + 4) = read32 (ram (st s)) (?i + 4)"
    using assms(2) by (intro c32.rd_cong; fastforce)+
  then show "lapic_base s' = lapic_base s" "ioapic_base s' = ioapic_base s"
    by (simp_all add: lapic_base_def ioapic_base_def madt_SDT_Table_at_def IO_APIC_Struct_at_def assms(1))
qed

lemma lapic_info_text:
  "\<exists>t. con_prints buf (con_print_text buf t) t \<and>
     dbg_print_lapic_info m madt [] = (if ics_get_header m madt CPU_LAPIC = 0 then Inl NullDeref else Inr t)"
proof -
  let ?a = "CPU_LAPIC_Struct_at m (ics_get_header m madt CPU_LAPIC)" and ?fmt = "str ''ACPI CPU UID: %d, APIC ID: %d, flags: %d'' @ [10]"
  let ?args = "[VNum (ucast (acpi_cpu_uid ?a)), VNum (ucast (apic_id ?a)), VNum (ucast (lapic_flags ?a))]"
  define t where "t = str ''ACPI CPU UID: '' @ num_text 10 (ucast (acpi_cpu_uid ?a)) @ str '', APIC ID: '' @ num_text 10 (ucast (apic_id ?a)) @
    str '', flags: '' @ num_text 10 (ucast (lapic_flags ?a)) @ [10]"
  have r: "render ?fmt False ?args = Some t" by (simp add: str_def t_def)
  have len: "length t < 4096"
    using num_text_good(2) [of "ucast (acpi_cpu_uid ?a)"] num_text_good(2) [of "ucast (apic_id ?a)"] num_text_good(2) [of "ucast (lapic_flags ?a)"]
    by (simp add: t_def str_def)
  have good: "good_text t" using num_text_good(1) by (simp add: t_def str_def) (simp add: good_text_def)
  have "printf ?fmt ?args = Inr t" using printf_loop_render [OF r, of "[]"] len by (simp add: printf_def str_def)
  then show ?thesis
    using con.put_prints [OF good len] by (intro exI [of _ t]) (simp add: dbg_print_lapic_info_def kprintf_def Let_def)
qed


section \<open>An example machine\<close>

text \<open>An I/O APIC at \<open>0xFEC00000\<close> beside a local APIC at \<open>0xFEE00000\<close>, on the machine of the early stages with their addresses in the tables.\<close>

definition irq_mmio :: "((u8 \<times> (u8 \<Rightarrow> u32)) \<times> (u64 \<Rightarrow> u64)) mmio" where
  "irq_mmio = \<lparr>mm_read32 = (\<lambda>a (w, c). if a \<in> {0xFEC00000, 0xFEC00010} then mm_read32 (window_ioapic 0xFEC00000) a w else mm_read32 cell_timer a c),
     mm_write32 = (\<lambda>a v (w, c). if a \<in> {0xFEC00000, 0xFEC00010} then (mm_write32 (window_ioapic 0xFEC00000) a v w, c) else (w, mm_write32 cell_timer a v c)),
     mm_read64 = (\<lambda>a d. 0), mm_write64 = (\<lambda>a v d. d)\<rparr>"

definition irq_platform :: "((u8 \<times> (u8 \<Rightarrow> u32)) \<times> (u64 \<Rightarrow> u64)) platform" where
  "irq_platform = \<lparr>p_bus = \<lparr>port_in = (\<lambda>p d. (0, d)), port_out = (\<lambda>p v d. d)\<rparr>, p_mmio = irq_mmio, p_cpuid = (\<lambda>_. (0, 0, 0, 0)),
     p_handlers = p_handlers early_platform, p_buf = 0x40000, p_pmem = 0x6000, p_gdt = 0x50000, p_idt = 0x60000, p_PML4 = 0x20000,
     p_junk = 0, p_RSDP_SIG = 0, p_RSDT_SIG = 0, p_MADT_SIG = 0x400, p_HPET_SIG = 0x404\<rparr>"

definition irq_mem :: mem where
  "irq_mem = early_mem(0x326 := 0xE0, 0x327 := 0xFE, 0x33A := 0xC0, 0x33B := 0xFE)"

definition irq_machine :: "((u8 \<times> (u8 \<Rightarrow> u32)) \<times> (u64 \<Rightarrow> u64)) machine" where
  "irq_machine = \<lparr>st = \<lparr>ram = irq_mem, pmem = pmem pt_example, kout = []\<rparr>, dev = ((0, \<lambda>_. 0), \<lambda>_. 0), ctrl = ctrl early_machine, msr = (\<lambda>_. 0),
     segs = segs early_machine, idtr_reg = idtr_reg early_machine, int_flag = False,
     kernel = (kernel early_machine)\<lparr>k_acpi_tables := \<lparr>t_madt = 0x300, t_lapic = 0x32C, t_ioapic = 0x334, t_hpet = 0x380\<rparr>\<rparr>,
     devices = devices early_machine\<rparr>"

lemma irq_machine_hw: "irq_hw irq_platform 0xFEE00000 0xFEC00000 (snd \<circ> fst) (fst \<circ> fst)"
proof -
  have off: "lapic_reg_ptr 0xFEE00000 r \<notin> {0xFEC00000, 0xFEC00010}" for r by (cases r) (simp_all add: lapic_reg_ptr_def)
  have ptr: "lapic_reg_ptr 0xFEE00000 TPR \<noteq> lapic_reg_ptr 0xFEE00000 LAPIC_SPURIOUS" by (rule lapic_reg_ptr_apart)
  have l: "lapic_read_reg irq_mmio 0xFEE00000 r (w, c) = lapic_read_reg cell_timer 0xFEE00000 r c"
    "lapic_write_reg irq_mmio 0xFEE00000 r v (w, c) = (w, lapic_write_reg cell_timer 0xFEE00000 r v c)" for r v w c
    using off [of r] by (simp_all add: lapic_read_reg_def lapic_write_reg_def irq_mmio_def)
  have i: "set_ioregsel irq_mmio 0xFEC00000 r (w, c) = (set_ioregsel (window_ioapic 0xFEC00000) 0xFEC00000 r w, c)"
    "set_iowin irq_mmio 0xFEC00000 v (w, c) = (set_iowin (window_ioapic 0xFEC00000) 0xFEC00000 v w, c)"
    "get_iowin irq_mmio 0xFEC00000 (w, c) = get_iowin (window_ioapic 0xFEC00000) 0xFEC00000 w" for r v w c
    by (simp_all add: set_ioregsel_def set_iowin_def get_iowin_def irq_mmio_def)
  have "ioapic_hw irq_mmio 0xFEC00000 (snd \<circ> fst) (fst \<circ> fst) redir_rw"
    using window_ioapic_hw [of "0xFEC00000"] by (simp add: ioapic_hw_def i)
  moreover have "lapic_hw irq_mmio 0xFEE00000" using cell_timer_lapic [of "0xFEE00000"] by (simp add: lapic_hw_def l)
  ultimately show ?thesis by (simp add: irq_hw_def irq_platform_def l)
qed

lemma irq_machine_fields:
  "lapic_base irq_machine = 0xFEE00000" "ioapic_base irq_machine = 0xFEC00000" "ics_get_header irq_mem 0x300 CPU_LAPIC = 0x32C"
proof -
  show "lapic_base irq_machine = 0xFEE00000" "ioapic_base irq_machine = 0xFEC00000"
    by (simp_all add: lapic_base_def ioapic_base_def irq_machine_def madt_SDT_Table_at_def IO_APIC_Struct_at_def read32_def load_steps
        irq_mem_def early_mem_def boot_mem_def)
  have n: "(15 :: nat) = Suc 14" by simp
  show "ics_get_header irq_mem 0x300 CPU_LAPIC = 0x32C"
    unfolding ics_get_header_def n ics_search.simps by (simp add: irq_mem_def early_mem_def boot_mem_def ics_table_def ics_Header_at_def)
qed

lemma irq_machine_screen:
  "screen_good irq_platform start_fb irq_machine" "(span 0x300 44 \<union> span 0x334 12) \<inter> screen_span irq_platform start_fb = {}"
proof -
  have "kcon_ok 0x40000 (Console_init font_example start_fb, irq_mem)"
    by (rule start_console_zero) (auto simp: irq_mem_def early_mem_def boot_mem_def)
  then show "screen_good irq_platform start_fb irq_machine"
    by (simp add: screen_good_def irq_machine_def irq_platform_def) (simp add: early_machine_def Console_init_def)
  have scr: "0x40000 \<le> unat x" if "x \<in> screen_span irq_platform start_fb" for x
    using that span_bounds [of x "0x200000" 14804] span_bounds [of x "0x300000" 14800] span_bounds [of x "0x40000" 4096]
    by (auto simp: screen_span_def irq_platform_def)
  have "unat x < 0x400" if "x \<in> span 0x300 44 \<union> span 0x334 12" for x
    using that span_bounds [of x "0x300" 44] span_bounds [of x "0x334" 12] by auto
  then show "(span 0x300 44 \<union> span 0x334 12) \<inter> screen_span irq_platform start_fb = {}" using scr by fastforce
qed


end
