(* ===== verification/Boot.thy ===== *)
theory Boot
  imports Kernel
begin

text \<open>
  The services of the boot loader (\<^verbatim>\<open>src/bootloader\<close>): \<^verbatim>\<open>utils.c\<close>, \<^verbatim>\<open>acpi.c\<close>, \<^verbatim>\<open>file.c\<close>, \<^verbatim>\<open>font.c\<close> and \<^verbatim>\<open>gop.c\<close>. The UEFI
  firmware and its library are not part of the repository: they are the parameter \<open>uefi\<close>, a record of the
  services the boot loader calls over a firmware state of any type. What a theorem needs of a service is a
  named hypothesis from the UEFI specification. Output parameters are results: \<open>None\<close> is a pointer the
  service has not written. The memory of the boot loader is the byte memory of the kernel.

  Theorems: \<^verbatim>\<open>memcmp\<close> decides equality; the names of error codes; the check of the font file is inverted and compares
  with the wrong byte order; what \<^verbatim>\<open>load_psf_font\<close> and \<^verbatim>\<open>get_framebuffer\<close> leave in memory for the kernel.
\<close>

section \<open>The firmware\<close>

type_synonym efi_status = u64

text \<open>Status codes of the UEFI specification: errors have the top bit set.\<close>

definition EFI_ERR :: "u64 \<Rightarrow> efi_status" where "EFI_ERR n = 0x8000000000000000 OR n"
definition EFI_SUCCESS :: efi_status where "EFI_SUCCESS = 0"
definition EFI_LOAD_ERROR :: efi_status where "EFI_LOAD_ERROR = EFI_ERR 1"
definition EFI_UNSUPPORTED :: efi_status where "EFI_UNSUPPORTED = EFI_ERR 3"
definition EFI_BUFFER_TOO_SMALL :: efi_status where "EFI_BUFFER_TOO_SMALL = EFI_ERR 5"
definition EFI_ABORTED :: efi_status where "EFI_ABORTED = EFI_ERR 21"

datatype protocol = LoadedImage | SimpleFileSystem

type_synonym guid = "u8 list"

record gop_mode =
  FrameBufferBase :: u64
  FrameBufferSize :: u64
  HorizontalResolution :: u32
  VerticalResolution :: u32
  PixelsPerScanLine :: u32

text \<open>A memory map: its size, its bytes, the key if it was written, the size of a descriptor.\<close>

record map_info =
  map_size :: u64
  map_bytes :: "u8 list"
  map_key :: u64
  map_desc_size :: u64

record 'f uefi =
  OpenProtocol :: "u64 \<Rightarrow> protocol \<Rightarrow> u64 \<Rightarrow> 'f \<Rightarrow> efi_status \<times> u64 option \<times> 'f"
  DeviceHandle :: "u64 \<Rightarrow> 'f \<Rightarrow> u64"
  OpenVolume :: "u64 \<Rightarrow> 'f \<Rightarrow> efi_status \<times> u64 option \<times> 'f"
  Open :: "u64 \<Rightarrow> string \<Rightarrow> 'f \<Rightarrow> efi_status \<times> u64 option \<times> 'f"
  GetInfo :: "u64 \<Rightarrow> u64 \<Rightarrow> 'f \<Rightarrow> efi_status \<times> u64 \<times> u8 list \<times> 'f"
  SetPosition :: "u64 \<Rightarrow> u64 \<Rightarrow> 'f \<Rightarrow> efi_status \<times> 'f"
  Read :: "u64 \<Rightarrow> u64 \<Rightarrow> 'f \<Rightarrow> efi_status \<times> u8 list \<times> 'f"
  AllocatePool :: "u64 \<Rightarrow> 'f \<Rightarrow> efi_status \<times> u64 option \<times> 'f"
  AllocatePages :: "u64 \<Rightarrow> u64 \<Rightarrow> 'f \<Rightarrow> efi_status \<times> 'f"
  LocateGOP :: "'f \<Rightarrow> efi_status \<times> u64 option \<times> 'f"
  gop_Mode :: "u64 \<Rightarrow> 'f \<Rightarrow> gop_mode"
  GetMemoryMap :: "u64 \<Rightarrow> 'f \<Rightarrow> efi_status \<times> map_info \<times> 'f"
  ExitBootServices :: "u64 \<Rightarrow> u64 \<Rightarrow> 'f \<Rightarrow> efi_status \<times> 'f"
  ConfigurationTable :: "'f \<Rightarrow> (guid \<times> u64) list"
  CompareGuid :: "guid \<Rightarrow> guid \<Rightarrow> int"
  ACPI_TABLE_GUID :: guid

text \<open>The state of the boot loader: its memory, the firmware, and the calls of \<^verbatim>\<open>Print\<close> with their arguments.\<close>

record 'f boot =
  bt_mem :: mem
  bt_fw :: 'f
  bt_out :: "(string \<times> string list) list"

text \<open>A service is called on the state of the firmware.\<close>

definition fw_call :: "('f \<Rightarrow> 'a \<times> 'b \<times> 'f) \<Rightarrow> 'f boot \<Rightarrow> 'a \<times> 'b \<times> 'f boot" where
  "fw_call svc s = (case svc (bt_fw s) of (a, b, f) \<Rightarrow> (a, b, s\<lparr>bt_fw := f\<rparr>))"

definition fw_call1 :: "('f \<Rightarrow> 'a \<times> 'f) \<Rightarrow> 'f boot \<Rightarrow> 'a \<times> 'f boot" where
  "fw_call1 svc s = (case svc (bt_fw s) of (a, f) \<Rightarrow> (a, s\<lparr>bt_fw := f\<rparr>))"

text \<open>An output parameter that starts as \<^verbatim>\<open>NULL\<close>.\<close>

definition out_ptr :: "u64 option \<Rightarrow> u64" where
  "out_ptr p = (case p of None \<Rightarrow> 0 | Some v \<Rightarrow> v)"

definition Print :: "string \<Rightarrow> string list \<Rightarrow> 'f boot \<Rightarrow> 'f boot" where
  "Print fmt args s = s\<lparr>bt_out := bt_out s @ [(fmt, args)]\<rparr>"

section \<open>Utilities\<close>

definition STATUSES :: "string list" where
  "STATUSES =
    [''success'', ''load error'', ''invalid parameter'',
     ''unsupported'', ''bad buffer size'', ''buffer too small'',
     ''not ready'', ''device error'', ''write protected'',
     ''out of resources'', ''volume corrupted'', ''volume full'',
     ''no media'', ''media changed'', ''not found'',
     ''access denied'', ''no response'', ''no mapping'',
     ''timeout'', ''not started'', ''already started'',
     ''aborted'', ''ICMP error'', ''TFTP error'',
     ''protocol error'', ''incompatible version'', ''security violation'',
     ''CRC error'', ''end of media'', ''end of file'',
     ''invalid language'', ''compromised data'',
     ''undefined status'']"

definition STATUSES_COUNT :: nat where "STATUSES_COUNT = 33"

definition efi_status_str :: "efi_status \<Rightarrow> string" where
  "efi_status_str code =
     (let status = ucast code :: u8
      in if status > 32 then STATUSES ! (STATUSES_COUNT - 1) else STATUSES ! unat status)"

text \<open>The characters \<^verbatim>\<open>\n\r\<close> that end a message.\<close>

definition NEWLINE :: string where "NEWLINE = [CHR 0x0A, CHR 0x0D]"

definition print_efi_err :: "string \<Rightarrow> efi_status \<Rightarrow> 'f boot \<Rightarrow> 'f boot" where
  "print_efi_err msg status = Print (''[!] Error: %s (EFI error: %s) '' @ NEWLINE) [msg, efi_status_str status]"

definition print_err :: "string \<Rightarrow> 'f boot \<Rightarrow> 'f boot" where
  "print_err msg = Print (''[!] Error: %s '' @ NEWLINE) [msg]"

function memcmp_loop :: "mem \<Rightarrow> u64 \<Rightarrow> u64 \<Rightarrow> u64 \<Rightarrow> u64 \<Rightarrow> int" where
  "memcmp_loop m a b n i =
     (if i < n then
        if m (a + i) < m (b + i) then -1
        else if m (a + i) > m (b + i) then 1
        else memcmp_loop m a b n (i + 1)
      else 0)"
  by pat_completeness auto
termination
  by (relation "measure (\<lambda>(m, a, b, n, i). 2 ^ 64 - unat i)") (use measure_up_less in auto)

declare memcmp_loop.simps [simp del]

definition memcmp :: "mem \<Rightarrow> u64 \<Rightarrow> u64 \<Rightarrow> u64 \<Rightarrow> int" where
  "memcmp m a_ptr b_ptr n = memcmp_loop m a_ptr b_ptr n 0"

section \<open>The root pointer of ACPI\<close>

text \<open>The loop over the configuration table.\<close>

fun rsdp_loop :: "'f uefi \<Rightarrow> (guid \<times> u64) list \<Rightarrow> u64" where
  "rsdp_loop fw [] = 0"
| "rsdp_loop fw ((VendorGuid, VendorTable) # ct) =
     (if CompareGuid fw VendorGuid (ACPI_TABLE_GUID fw) = 0 then VendorTable else rsdp_loop fw ct)"

definition get_rsdp :: "'f uefi \<Rightarrow> 'f boot \<Rightarrow> u64" where
  "get_rsdp fw s = rsdp_loop fw (ConfigurationTable fw (bt_fw s))"

section \<open>Files\<close>

definition get_image :: "'f uefi \<Rightarrow> u64 \<Rightarrow> 'f boot \<Rightarrow> efi_status \<times> u64 \<times> 'f boot" where
  "get_image fw image_handle s =
     (let (status, p, s) = fw_call (OpenProtocol fw image_handle LoadedImage image_handle) s;
          s = (if status = EFI_UNSUPPORTED
               then print_efi_err ''The device doesn't support specified image protocol'' status s
               else if status \<noteq> EFI_SUCCESS
               then print_efi_err ''Opening EFI Loaded Image Protocol failed'' status s else s)
      in (status, out_ptr p, s))"

definition get_root_fs :: "'f uefi \<Rightarrow> u64 \<Rightarrow> u64 \<Rightarrow> 'f boot \<Rightarrow> efi_status \<times> u64 \<times> 'f boot" where
  "get_root_fs fw image_handle loaded_image s =
     (let (status, p, s) = fw_call (OpenProtocol fw (DeviceHandle fw loaded_image (bt_fw s)) SimpleFileSystem image_handle) s;
          s = (if status = EFI_UNSUPPORTED
               then print_efi_err ''The device does not support specified file system protocol'' status s
               else if status \<noteq> EFI_SUCCESS
               then print_efi_err ''Opening EFI Simple File System failed'' status s else s)
      in (status, out_ptr p, s))"

definition get_root_dir :: "'f uefi \<Rightarrow> u64 \<Rightarrow> 'f boot \<Rightarrow> efi_status \<times> u64 \<times> 'f boot" where
  "get_root_dir fw root_fs s =
     (let (status, p, s) = fw_call (OpenVolume fw root_fs) s;
          s = (if status \<noteq> EFI_SUCCESS then print_efi_err ''Accessing root directory failed'' status s else s)
      in (status, out_ptr p, s))"

definition get_file :: "'f uefi \<Rightarrow> u64 \<Rightarrow> string \<Rightarrow> 'f boot \<Rightarrow> efi_status \<times> u64 \<times> 'f boot" where
  "get_file fw dir file_name s =
     (let (status, p, s) = fw_call (Open fw dir file_name) s;
          s = (if status \<noteq> EFI_SUCCESS then print_efi_err ''Fail during opening file'' status s else s)
      in (status, out_ptr p, s))"

text \<open>\<^verbatim>\<open>AllocatePool\<close>, with the error message of its caller.\<close>

definition alloc_pool :: "'f uefi \<Rightarrow> u64 \<Rightarrow> string \<Rightarrow> 'f boot \<Rightarrow> efi_status \<times> u64 \<times> 'f boot" where
  "alloc_pool fw sz msg s =
     (let (status, p, s) = fw_call (AllocatePool fw sz) s
      in (status, out_ptr p, if status \<noteq> EFI_SUCCESS then print_efi_err msg status s else s))"

text \<open>\<^verbatim>\<open>Read\<close> into a buffer, with the error message of its caller.\<close>

definition read_file :: "'f uefi \<Rightarrow> u64 \<Rightarrow> u64 \<Rightarrow> u64 \<Rightarrow> string \<Rightarrow> 'f boot \<Rightarrow> efi_status \<times> 'f boot" where
  "read_file fw file sz buf msg s =
     (let (status, bs, s) = fw_call (Read fw file sz) s;
          s = s\<lparr>bt_mem := put_bytes (bt_mem s) buf bs\<rparr>
      in (status, if status \<noteq> EFI_SUCCESS then print_efi_err msg status s else s))"

definition set_position :: "'f uefi \<Rightarrow> u64 \<Rightarrow> u64 \<Rightarrow> string \<Rightarrow> 'f boot \<Rightarrow> efi_status \<times> 'f boot" where
  "set_position fw file pos msg s =
     (let (status, s) = fw_call1 (SetPosition fw file pos) s
      in (status, if status \<noteq> EFI_SUCCESS then print_efi_err msg status s else s))"

text \<open>The second parameter is the pointer the caller passes the address of; only a successful allocation writes it.\<close>

definition get_file_info :: "'f uefi \<Rightarrow> u64 \<Rightarrow> u64 \<Rightarrow> 'f boot \<Rightarrow> efi_status \<times> u64 \<times> 'f boot" where
  "get_file_info fw file file_info s =
     (case GetInfo fw file 0 (bt_fw s) of (status, file_size, _, f) \<Rightarrow>
      let s = s\<lparr>bt_fw := f\<rparr> in
      if status \<noteq> EFI_BUFFER_TOO_SMALL
      then (EFI_ABORTED, file_info, print_efi_err ''First GetInfo() should return BUFFER_TO_SMALL'' status s)
      else
        let (status, p, s) = alloc_pool fw file_size ''Memory allocation failed'' s in
        if status \<noteq> EFI_SUCCESS then (status, file_info, s)
        else case GetInfo fw file file_size (bt_fw s) of (status, _, bs, f) \<Rightarrow>
          let s = s\<lparr>bt_fw := f, bt_mem := put_bytes (bt_mem s) p bs\<rparr>
          in (status, p, if status \<noteq> EFI_SUCCESS then print_efi_err ''Get file info failed'' status s else s))"

definition load_file :: "'f uefi \<Rightarrow> u64 \<Rightarrow> string \<Rightarrow> u64 \<Rightarrow> 'f boot \<Rightarrow> u64 \<times> 'f boot" where
  "load_file fw dir file_name image_handle s =
     (let (status, loaded_image, s) = get_image fw image_handle s in
      if status \<noteq> EFI_SUCCESS then (0, s) else
      let (status, root_fs, s) = get_root_fs fw image_handle loaded_image s in
      if status \<noteq> EFI_SUCCESS then (0, s) else
      let (status, dir, s) = (if dir = 0 then get_root_dir fw root_fs s else (EFI_SUCCESS, dir, s)) in
      if status \<noteq> EFI_SUCCESS then (0, s) else
      let (status, file, s) = get_file fw dir file_name s in
      if status \<noteq> EFI_SUCCESS then (0, s) else (file, s))"

section \<open>The font\<close>

definition PSF1_MAGIC :: u16 where "PSF1_MAGIC = 0x3604"
definition PSF1_MODE512 :: u8 where "PSF1_MODE512 = 1"
definition GLYPH_WIDTH :: u8 where "GLYPH_WIDTH = 8"
definition GLYPH_HEIGHT :: u8 where "GLYPH_HEIGHT = 16"

record Psf1_header =
  psf_magic :: u16
  psf_mode :: u8
  psf_charsize :: u8

definition sizeof_Psf1_header :: u64 where "sizeof_Psf1_header = 4"

definition Psf1_header_at :: "mem \<Rightarrow> u64 \<Rightarrow> Psf1_header" where
  "Psf1_header_at m p = \<lparr>psf_magic = read16 m p, psf_mode = m (p + 2), psf_charsize = m (p + 3)\<rparr>"

text \<open>\<^verbatim>\<open>Psf1_font\<close>: pointers at 0 and 16, the two bytes between them at 8 and 9.\<close>

definition sizeof_Psf1_font :: u64 where "sizeof_Psf1_font = 24"

definition get_psf_header :: "'f uefi \<Rightarrow> u64 \<Rightarrow> 'f boot \<Rightarrow> efi_status \<times> u64 \<times> 'f boot" where
  "get_psf_header fw psf_file s =
     (let (status, hdr, s) = alloc_pool fw sizeof_Psf1_header ''Allocating memory for PSF header failed'' s in
      if status \<noteq> EFI_SUCCESS then (status, hdr, s) else
      let (status, s) = read_file fw psf_file sizeof_Psf1_header hdr ''Reading PSF header failed'' s
      in (status, hdr, s))"

definition verify_psf_header :: "mem \<Rightarrow> u64 \<Rightarrow> bool" where
  "verify_psf_header m hdr \<longleftrightarrow> psf_magic (Psf1_header_at m hdr) = PSF1_MAGIC"

definition get_psf_glyphs :: "'f uefi \<Rightarrow> u64 \<Rightarrow> u64 \<Rightarrow> 'f boot \<Rightarrow> efi_status \<times> u64 \<times> 'f boot" where
  "get_psf_glyphs fw psf_file glyphs_buf_sz s =
     (let (status, s) = set_position fw psf_file sizeof_Psf1_header ''Jumping at PSF glyphs buffer failed'' s in
      if status \<noteq> EFI_SUCCESS then (status, 0, s) else
      let (status, glyphs_buf, s) = alloc_pool fw glyphs_buf_sz ''Allocating memory for PSF glyphs failed'' s in
      if status \<noteq> EFI_SUCCESS then (status, glyphs_buf, s) else
      let (status, s) = read_file fw psf_file glyphs_buf_sz glyphs_buf ''Reading PSF glyphs failed'' s
      in (status, glyphs_buf, s))"

definition glyphs_size :: "Psf1_header \<Rightarrow> u64" where
  "glyphs_size h =
     (if psf_mode h = PSF1_MODE512 then ucast (psf_charsize h) * 512 else ucast (psf_charsize h) * 256)"

definition load_psf_font :: "'f uefi \<Rightarrow> u64 \<Rightarrow> string \<Rightarrow> u64 \<Rightarrow> 'f boot \<Rightarrow> u64 \<times> 'f boot" where
  "load_psf_font fw dir path image_handle s =
     (let (psf_file, s) = load_file fw dir path image_handle s in
      if psf_file = 0 then (0, print_err ''Loading PSF file failed'' s) else
      let (status, hdr, s) = get_psf_header fw psf_file s in
      if status \<noteq> EFI_SUCCESS then (0, s) else
      if verify_psf_header (bt_mem s) hdr then (0, print_err ''Invalid PSF file header'' s) else
      let glyphs_buf_sz = glyphs_size (Psf1_header_at (bt_mem s) hdr);
          (status, glyphs_buf, s) = get_psf_glyphs fw psf_file glyphs_buf_sz s in
      if status \<noteq> EFI_SUCCESS then (0, s) else
      let (status, font, s) = alloc_pool fw sizeof_Psf1_font ''Allocating memory for PSF font struct failed'' s in
      if status \<noteq> EFI_SUCCESS then (0, s) else
      let m = bt_mem s;
          m = write64 m font hdr;
          m = write64 m (font + 16) glyphs_buf;
          m = m(font + 8 := GLYPH_HEIGHT);
          m = m(font + 9 := GLYPH_WIDTH)
      in (font, s\<lparr>bt_mem := m\<rparr>))"

section \<open>The framebuffer\<close>

definition BYTES_PER_PIXEL :: u8 where "BYTES_PER_PIXEL = 4"

text \<open>The structure \<^verbatim>\<open>Framebuffer\<close> of \<^verbatim>\<open>gop.h\<close>: three eight-byte members, three two-byte members from 24 on, a byte at 30.\<close>

definition sizeof_boot_Framebuffer :: u64 where "sizeof_boot_Framebuffer = 32"

definition locate_gop :: "'f uefi \<Rightarrow> 'f boot \<Rightarrow> efi_status \<times> u64 \<times> 'f boot" where
  "locate_gop fw s =
     (let (status, p, s) = fw_call (LocateGOP fw) s
      in (status, out_ptr p, if status \<noteq> EFI_SUCCESS then print_efi_err ''Locate GOP failed'' status s else s))"

definition get_framebuffer :: "'f uefi \<Rightarrow> 'f boot \<Rightarrow> u64 \<times> 'f boot" where
  "get_framebuffer fw s =
     (let (status, gop, s) = locate_gop fw s in
      if status \<noteq> EFI_SUCCESS then (0, s) else
      let (status, fb, s) = alloc_pool fw sizeof_boot_Framebuffer ''Allocating memory for framebuffer struct failed'' s in
      if status \<noteq> EFI_SUCCESS then (0, s) else
      let mode = gop_Mode fw gop (bt_fw s);
          m = bt_mem s;
          m = write64 m fb (FrameBufferBase mode);
          m = write64 m (fb + 16) (FrameBufferSize mode);
          m = write16 m (fb + 24) (ucast (HorizontalResolution mode));
          m = write16 m (fb + 26) (ucast (VerticalResolution mode));
          m = write16 m (fb + 28) (ucast (PixelsPerScanLine mode));
          m = m(fb + 30 := BYTES_PER_PIXEL)
      in (fb, s\<lparr>bt_mem := m\<rparr>))"

definition allocate_double_framebuffer :: "'f uefi \<Rightarrow> u64 \<Rightarrow> 'f boot \<Rightarrow> u64 \<times> 'f boot" where
  "allocate_double_framebuffer fw sz s =
     (let (status, buffer, s) = alloc_pool fw sz ''Allocating memory for double framebuffer failed'' s
      in if status \<noteq> EFI_SUCCESS then (0, s) else (buffer, s))"

section \<open>Utilities: theorems\<close>

lemma memcmp_loop_zero:
  "memcmp_loop m a b n i = 0 \<longleftrightarrow> (\<forall>j. i \<le> j \<longrightarrow> j < n \<longrightarrow> m (a + j) = m (b + j))"
proof (induction m a b n i rule: memcmp_loop.induct)
  case (1 m a b n i)
  show ?case
  proof (cases "i < n \<and> m (a + i) = m (b + i)")
    case True
    then have "memcmp_loop m a b n i = memcmp_loop m a b n (i + 1)" by (subst memcmp_loop.simps) simp
    moreover have "i \<le> j \<longleftrightarrow> j = i \<or> i + 1 \<le> j" for j
      using True unat_Suc_less [of i n] by (auto simp: word_le_nat_alt word_unat_eq_iff)
    ultimately show ?thesis using 1 True by auto
  next
    case False
    then show ?thesis
    proof (cases "i < n")
      case True
      with False have "memcmp_loop m a b n i \<noteq> 0" by (subst memcmp_loop.simps) (simp add: not_less_iff_gr_or_eq)
      with True False show ?thesis by blast
    next
      case False
      then have "memcmp_loop m a b n i = 0" by (subst memcmp_loop.simps) simp
      with False show ?thesis by (meson not_less order_trans)
    qed
  qed
qed

text \<open>\<^verbatim>\<open>memcmp\<close> returns 0 exactly when the two blocks of \<open>n\<close> bytes are equal.\<close>

theorem memcmp_zero_iff:
  "memcmp m a_ptr b_ptr n = 0 \<longleftrightarrow> get_bytes m a_ptr (unat n) = get_bytes m b_ptr (unat n)"
proof -
  have "(\<forall>j < n. m (a_ptr + j) = m (b_ptr + j)) \<longleftrightarrow> (\<forall>i < unat n. m (a_ptr + of_nat i) = m (b_ptr + of_nat i))"
    (is "?l \<longleftrightarrow> ?r")
  proof
    show ?r if ?l using that u64_bound [of n] by (auto simp: word_less_nat_alt)
    show ?l if ?r
    proof (intro allI impI)
      fix j assume "j < n"
      then have "unat j < unat n" by (simp add: word_less_nat_alt)
      with that have "m (a_ptr + of_nat (unat j)) = m (b_ptr + of_nat (unat j))" by blast
      then show "m (a_ptr + j) = m (b_ptr + j)" by simp
    qed
  qed
  then show ?thesis by (simp add: memcmp_def memcmp_loop_zero get_bytes_eq_iff)
qed

section \<open>What the firmware promises\<close>

text \<open>
  \<open>owned f\<close> is the memory that is in use in a state \<open>f\<close> of the firmware. The services never take memory back behind the
  boot loader's back; an allocation succeeds with memory that was not in use; a service that fills a buffer writes no more
  than the size it was given (UEFI specification, chapters 7.2 and 13.5).
\<close>

definition allocs :: "('f \<Rightarrow> u64 set) \<Rightarrow> u64 \<Rightarrow> nat \<Rightarrow> 'f \<Rightarrow> 'f \<Rightarrow> bool" where
  "allocs owned a n f f' \<longleftrightarrow> span a n \<inter> owned f = {} \<and> span a n \<subseteq> owned f'"

definition fw_keeps :: "'f uefi \<Rightarrow> ('f \<Rightarrow> u64 set) \<Rightarrow> bool" where
  "fw_keeps fw owned \<longleftrightarrow>
     (\<forall>h p a f. owned f \<subseteq> owned (snd (snd (OpenProtocol fw h p a f)))) \<and>
     (\<forall>v f. owned f \<subseteq> owned (snd (snd (OpenVolume fw v f)))) \<and>
     (\<forall>d n f. owned f \<subseteq> owned (snd (snd (Open fw d n f)))) \<and>
     (\<forall>d n f. owned f \<subseteq> owned (snd (SetPosition fw d n f))) \<and>
     (\<forall>d n f. owned f \<subseteq> owned (snd (snd (Read fw d n f)))) \<and>
     (\<forall>n f. owned f \<subseteq> owned (snd (snd (AllocatePool fw n f)))) \<and>
     (\<forall>n a f. owned f \<subseteq> owned (snd (AllocatePages fw n a f))) \<and>
     (\<forall>f. owned f \<subseteq> owned (snd (snd (LocateGOP fw f)))) \<and>
     (\<forall>n f. owned f \<subseteq> owned (snd (snd (GetMemoryMap fw n f)))) \<and>
     (\<forall>h k f. owned f \<subseteq> owned (snd (ExitBootServices fw h k f)))"

definition fw_fills :: "'f uefi \<Rightarrow> bool" where
  "fw_fills fw \<longleftrightarrow>
     (\<forall>d n f. length (fst (snd (Read fw d n f))) \<le> unat n) \<and>
     (\<forall>n f. length (map_bytes (fst (snd (GetMemoryMap fw n f)))) \<le> unat n)"

definition fw_allocates :: "'f uefi \<Rightarrow> ('f \<Rightarrow> u64 set) \<Rightarrow> bool" where
  "fw_allocates fw owned \<longleftrightarrow>
     (\<forall>n f f' p. AllocatePool fw n f = (EFI_SUCCESS, p, f') \<longrightarrow>
        out_ptr p \<noteq> 0 \<and> allocs owned (out_ptr p) (unat n) f f') \<and>
     (\<forall>n a f f'. AllocatePages fw n a f = (EFI_SUCCESS, f') \<longrightarrow> allocs owned a (4096 * unat n) f f')"

definition fw_ok :: "'f uefi \<Rightarrow> ('f \<Rightarrow> u64 set) \<Rightarrow> bool" where
  "fw_ok fw owned \<longleftrightarrow> fw_keeps fw owned \<and> fw_fills fw \<and> fw_allocates fw owned"

text \<open>A step of the boot loader that leaves the memory in use before it alone.\<close>

definition extends :: "('f \<Rightarrow> u64 set) \<Rightarrow> 'f boot \<Rightarrow> 'f boot \<Rightarrow> bool" where
  "extends owned s s' \<longleftrightarrow> owned (bt_fw s) \<subseteq> owned (bt_fw s') \<and> (\<forall>x \<in> owned (bt_fw s). bt_mem s' x = bt_mem s x)"

lemma extends_refl [simp]: "extends owned s s"
  by (simp add: extends_def)

lemma extends_trans [trans]: "extends owned s s' \<Longrightarrow> extends owned s' s'' \<Longrightarrow> extends owned s s''"
  by (fastforce simp: extends_def)

lemma extends_owned: "extends owned s s' \<Longrightarrow> A \<subseteq> owned (bt_fw s) \<Longrightarrow> A \<subseteq> owned (bt_fw s')"
  by (auto simp: extends_def)

lemma extends_mem: "extends owned s s' \<Longrightarrow> span a n \<subseteq> owned (bt_fw s) \<Longrightarrow> x \<in> span a n \<Longrightarrow> bt_mem s' x = bt_mem s x"
  by (auto simp: extends_def)

lemma allocs_mono:
  "allocs owned a n f g \<Longrightarrow> owned f' \<subseteq> owned f \<Longrightarrow> owned g \<subseteq> owned g' \<Longrightarrow> k \<le> n \<Longrightarrow> allocs owned a k f' g'"
  using span_mono [of k n a] by (fastforce simp: allocs_def)

lemma allocs_since: "allocs owned a n f g \<Longrightarrow> owned f' \<subseteq> owned f \<Longrightarrow> allocs owned a n f' g"
  by (rule allocs_mono) auto

lemma allocs_extends:
  "allocs owned a n (bt_fw s1) (bt_fw s2) \<Longrightarrow> extends owned s0 s1 \<Longrightarrow> extends owned s2 s3 \<Longrightarrow> k \<le> n \<Longrightarrow>
     allocs owned a k (bt_fw s0) (bt_fw s3)"
  by (rule allocs_mono) (auto simp: extends_def)

text \<open>Printing changes the output only.\<close>

lemma print_simps [simp]:
  "bt_mem (Print fmt args s) = bt_mem s" "bt_fw (Print fmt args s) = bt_fw s"
  "bt_mem (print_efi_err msg status s) = bt_mem s" "bt_fw (print_efi_err msg status s) = bt_fw s"
  "bt_mem (print_err msg s) = bt_mem s" "bt_fw (print_err msg s) = bt_fw s"
  by (simp_all add: Print_def print_efi_err_def print_err_def)

lemma extends_print [simp]:
  "extends owned s (Print fmt args s') = extends owned s s'"
  "extends owned s (print_efi_err msg status s') = extends owned s s'"
  "extends owned s (print_err msg s') = extends owned s s'"
  "extends owned (Print fmt args s') s = extends owned s' s"
  "extends owned (print_efi_err msg status s') s = extends owned s' s"
  "extends owned (print_err msg s') s = extends owned s' s"
  by (simp_all add: extends_def)

lemma fw_call_extends:
  "fw_call svc s = (a, b, s') \<Longrightarrow> (\<And>f. owned f \<subseteq> owned (snd (snd (svc f)))) \<Longrightarrow>
     extends owned s s' \<and> bt_mem s' = bt_mem s \<and> svc (bt_fw s) = (a, b, bt_fw s') \<and> bt_out s' = bt_out s"
  by (auto simp: fw_call_def extends_def split: prod.splits) (metis snd_conv subsetD)

lemma fw_call1_extends:
  "fw_call1 svc s = (a, s') \<Longrightarrow> (\<And>f. owned f \<subseteq> owned (snd (svc f))) \<Longrightarrow>
     extends owned s s' \<and> bt_mem s' = bt_mem s \<and> svc (bt_fw s) = (a, bt_fw s') \<and> bt_out s' = bt_out s"
  by (auto simp: fw_call1_def extends_def split: prod.splits) (metis snd_conv subsetD)

lemma fw_calls:
  assumes "fw_ok fw owned"
  shows "fw_call (OpenProtocol fw h p i) s = (a, b, s') \<Longrightarrow> extends owned s s'"
    and "fw_call (OpenVolume fw v) s = (a, b, s') \<Longrightarrow> extends owned s s'"
    and "fw_call (Open fw d nm) s = (a, b, s') \<Longrightarrow> extends owned s s'"
    and "fw_call (LocateGOP fw) s = (a, b, s') \<Longrightarrow> extends owned s s' \<and> bt_mem s' = bt_mem s"
    and "fw_call (AllocatePool fw n) s = (a, b, s') \<Longrightarrow>
           extends owned s s' \<and> bt_mem s' = bt_mem s \<and> AllocatePool fw n (bt_fw s) = (a, b, bt_fw s')"
    and "fw_call (Read fw d n) s = (a, bs, s') \<Longrightarrow>
           extends owned s s' \<and> bt_mem s' = bt_mem s \<and> Read fw d n (bt_fw s) = (a, bs, bt_fw s')"
    and "fw_call (GetMemoryMap fw n) s = (a, mi, s') \<Longrightarrow>
           extends owned s s' \<and> bt_mem s' = bt_mem s \<and> GetMemoryMap fw n (bt_fw s) = (a, mi, bt_fw s')"
    and "fw_call1 (SetPosition fw d n) s = (a, s') \<Longrightarrow>
           extends owned s s' \<and> bt_mem s' = bt_mem s \<and> SetPosition fw d n (bt_fw s) = (a, bt_fw s')"
    and "fw_call1 (AllocatePages fw n q) s = (a, s') \<Longrightarrow>
           extends owned s s' \<and> bt_mem s' = bt_mem s \<and> AllocatePages fw n q (bt_fw s) = (a, bt_fw s')"
    and "fw_call1 (ExitBootServices fw h k) s = (a, s') \<Longrightarrow> extends owned s s' \<and> bt_mem s' = bt_mem s"
  by (drule fw_call_extends [where owned = owned] fw_call1_extends [where owned = owned],
      use assms in \<open>simp add: fw_ok_def fw_keeps_def\<close>, simp)+

lemma load_file_extends:
  assumes ok: "fw_ok fw owned" and "load_file fw dir file_name image_handle s = (file, s')"
  shows "extends owned s s'"
proof -
  note calls = fw_calls(1-3) [OF ok]
  have image: "extends owned s s'" if "get_image fw h s = (status, p, s')" for h s status p s'
    using that by (auto simp: get_image_def Let_def split: prod.splits if_splits dest!: calls)
  have volume: "extends owned s s'" if "get_root_fs fw h i s = (status, p, s')" for h i s status p s'
    using that by (auto simp: get_root_fs_def Let_def split: prod.splits if_splits dest!: calls)
  have root: "extends owned s s'" if "get_root_dir fw d s = (status, p, s')" for d s status p s'
    using that by (auto simp: get_root_dir_def Let_def split: prod.splits if_splits dest!: calls)
  have opened: "extends owned s s'" if "get_file fw d n s = (status, p, s')" for d n s status p s'
    using that by (auto simp: get_file_def Let_def split: prod.splits if_splits dest!: calls)
  show ?thesis using assms(2)
    by (auto simp: load_file_def Let_def split: prod.splits if_splits dest!: image volume root opened intro: extends_trans)
qed

lemma alloc_pool_extends:
  assumes ok: "fw_ok fw owned" and "alloc_pool fw sz msg s = (status, p, s')"
  shows "extends owned s s' \<and> bt_mem s' = bt_mem s \<and>
    (status = EFI_SUCCESS \<longrightarrow> p \<noteq> 0 \<and> allocs owned p (unat sz) (bt_fw s) (bt_fw s'))"
proof -
  obtain q s1 where "fw_call (AllocatePool fw sz) s = (status, q, s1)" and p: "p = out_ptr q"
    and s': "s' = s1 \<or> s' = print_efi_err msg status s1"
    using assms(2) by (auto simp: alloc_pool_def Let_def split: prod.splits if_splits)
  from fw_calls(5) [OF ok this(1)] show ?thesis
    using s' ok unfolding p fw_ok_def fw_allocates_def by auto
qed

text \<open>Filling a buffer that was not in use at the start of a step.\<close>

lemma extends_fill:
  assumes "extends owned s s'" and "span a n \<inter> owned (bt_fw s) = {}" and "length bs \<le> n" and "n \<le> 2 ^ 64"
  shows "extends owned s (s'\<lparr>bt_mem := put_bytes (bt_mem s') a bs\<rparr>)"
proof -
  have "put_bytes (bt_mem s') a bs x = bt_mem s' x" if "x \<in> owned (bt_fw s)" for x
    using assms that span_mono [OF assms(3), of a] by (intro put_bytes_outside) (auto simp: disjoint_iff)
  then show ?thesis using assms(1) by (simp add: extends_def)
qed

lemma set_position_extends:
  assumes ok: "fw_ok fw owned" and r: "set_position fw file pos msg s = (status, s')"
  shows "extends owned s s' \<and> bt_mem s' = bt_mem s \<and> SetPosition fw file pos (bt_fw s) = (status, bt_fw s')"
proof -
  obtain s1 where c: "fw_call1 (SetPosition fw file pos) s = (status, s1)"
    and "s' = s1 \<or> s' = print_efi_err msg status s1"
    using r by (auto simp: set_position_def Let_def split: prod.splits if_splits)
  then show ?thesis using fw_calls(8) [OF ok c] by auto
qed

lemma read_file_extends:
  assumes ok: "fw_ok fw owned" and r: "read_file fw file sz buf msg s = (status, s')"
    and e: "extends owned s0 s" and "span buf (unat sz) \<inter> owned (bt_fw s0) = {}"
  shows "extends owned s0 s' \<and> owned (bt_fw s) \<subseteq> owned (bt_fw s') \<and> (\<exists>bs. Read fw file sz (bt_fw s) = (status, bs, bt_fw s') \<and>
    length bs \<le> unat sz \<and> bt_mem s' = put_bytes (bt_mem s) buf bs)"
proof -
  obtain bs s1 where c: "fw_call (Read fw file sz) s = (status, bs, s1)"
    and s': "bt_mem s' = put_bytes (bt_mem s1) buf bs" "bt_fw s' = bt_fw s1"
    using r by (auto simp: read_file_def Let_def split: prod.splits if_splits)
  have s1: "extends owned s s1" "bt_mem s1 = bt_mem s" "Read fw file sz (bt_fw s) = (status, bs, bt_fw s1)"
    using fw_calls(6) [OF ok c] by auto
  have len: "length bs \<le> unat sz"
    using ok s1(3) unfolding fw_ok_def fw_fills_def by (metis fst_conv snd_conv)
  have "extends owned s0 (s1\<lparr>bt_mem := put_bytes (bt_mem s1) buf bs\<rparr>)"
    using extends_fill [OF extends_trans [OF e s1(1)] assms(4) len] u64_bound [of sz] by simp
  then show ?thesis using s' s1 len by (auto simp: extends_def)
qed

section \<open>The font and the framebuffer: theorems\<close>

text \<open>
  Files: a file that is opened has the contents of its name and is at its start; positions and reads are those of the
  contents; an allocation moves no position (UEFI specification, chapter 13.5).
\<close>

definition fs_ok ::
    "'f uefi \<Rightarrow> (string \<Rightarrow> u8 list) \<Rightarrow> (u64 \<Rightarrow> u8 list) \<Rightarrow> (u64 \<Rightarrow> 'f \<Rightarrow> u64) \<Rightarrow> bool" where
  "fs_ok fw files content pos \<longleftrightarrow>
     (\<forall>d n f p f'. Open fw d n f = (EFI_SUCCESS, p, f') \<longrightarrow> content (out_ptr p) = files n \<and> pos (out_ptr p) f' = 0) \<and>
     (\<forall>h q f f'. SetPosition fw h q f = (EFI_SUCCESS, f') \<longrightarrow> pos h f' = q) \<and>
     (\<forall>h n f bs f'. Read fw h n f = (EFI_SUCCESS, bs, f') \<longrightarrow> bs = take (unat n) (drop (unat (pos h f)) (content h))) \<and>
     (\<forall>h n f. pos h (snd (snd (AllocatePool fw n f))) = pos h f)"

lemma fs_okD:
  assumes "fs_ok fw files content pos"
  shows "Open fw d n f = (EFI_SUCCESS, p, f') \<Longrightarrow> content (out_ptr p) = files n \<and> pos (out_ptr p) f' = 0"
    and "SetPosition fw h q f = (EFI_SUCCESS, f') \<Longrightarrow> pos h f' = q"
    and "Read fw h sz f = (EFI_SUCCESS, bs, f') \<Longrightarrow> bs = take (unat sz) (drop (unat (pos h f)) (content h))"
    and "AllocatePool fw sz f = (a, p, f') \<Longrightarrow> pos h f' = pos h f"
  using assms unfolding fs_ok_def by (blast, blast, blast, metis snd_conv)

lemma load_file_opens:
  assumes "fs_ok fw files content pos" and "load_file fw dir path image_handle s = (h, s')" and "h \<noteq> 0"
  shows "content h = files path \<and> pos h (bt_fw s') = 0"
proof -
  obtain d s1 where "get_file fw d path s1 = (EFI_SUCCESS, h, s')"
    using assms(2,3) by (auto simp: load_file_def Let_def split: prod.splits if_splits)
  then obtain p where "Open fw d path (bt_fw s1) = (EFI_SUCCESS, p, bt_fw s')" and "h = out_ptr p"
    by (auto simp: get_file_def Let_def fw_call_def split: prod.splits if_splits)
  with fs_okD(1) [OF assms(1)] show ?thesis by auto
qed

lemma alloc_pool_pos:
  assumes "fs_ok fw files content pos" and "alloc_pool fw sz msg s = (status, p, s')"
  shows "pos h (bt_fw s') = pos h (bt_fw s)"
  using assms(2) fs_okD(4) [OF assms(1)]
  by (auto simp: alloc_pool_def Let_def fw_call_def split: prod.splits if_splits)

text \<open>The part of a file a buffer of a given size gets at a given position.\<close>

definition part :: "u8 list \<Rightarrow> u64 \<Rightarrow> u64 \<Rightarrow> u8 list" where
  "part c q n = take (unat n) (drop (unat q) c)"

definition holds :: "mem \<Rightarrow> u64 \<Rightarrow> u8 list \<Rightarrow> bool" where
  "holds m a bs \<longleftrightarrow> get_bytes m a (length bs) = bs"

lemma length_part: "length (part c q n) \<le> unat n"
  by (simp add: part_def)

lemma holds_outside:
  assumes "holds m a bs" and "\<And>x. x \<in> span a (length bs) \<Longrightarrow> m' x = m x"
  shows "holds m' a bs"
proof (cases "length bs \<le> 2 ^ 64")
  case True
  have "m' (a + of_nat i) = m (a + of_nat i)" if "i < length bs" for i
    using that True by (intro assms(2)) (simp add: span_iff)
  then show ?thesis using assms(1) by (simp add: holds_def) (metis get_bytes_eq_iff)
next
  case False
  then have "x \<in> span a (length bs)" for x using u64_bound [of "x - a"] by (simp add: span_iff)
  then have "m' = m" using assms(2) by blast
  with assms(1) show ?thesis by simp
qed

lemma holds_extends:
  assumes "extends owned s s'" and "allocs owned a n f (bt_fw s)" and "holds (bt_mem s) a bs" and "length bs \<le> n"
  shows "holds (bt_mem s') a bs"
  using assms extends_mem [OF assms(1), of a n] span_mono [of "length bs" n a]
  by (intro holds_outside [OF assms(3)]) (auto simp: allocs_def)

lemma read_file_holds:
  assumes "fw_ok fw owned" and fs: "fs_ok fw files content pos" and "read_file fw h sz buf msg s = (EFI_SUCCESS, s')"
  shows "holds (bt_mem s') buf (part (content h) (pos h (bt_fw s)) sz)"
proof -
  obtain bs where "Read fw h sz (bt_fw s) = (EFI_SUCCESS, bs, bt_fw s')" and m: "bt_mem s' = put_bytes (bt_mem s) buf bs"
    using assms(3) fw_calls(6) [OF assms(1)] by (auto simp: read_file_def Let_def split: prod.splits if_splits)
  then have "bs = part (content h) (pos h (bt_fw s)) sz" using fs_okD(3) [OF fs] by (simp add: part_def)
  then show ?thesis using m length_part [of "content h" "pos h (bt_fw s)" sz] u64_bound [of sz]
    by (simp add: holds_def)
qed

text \<open>Reading into memory that was allocated since \<open>s0\<close>.\<close>

lemma read_fresh:
  assumes ok: "fw_ok fw owned" and fs: "fs_ok fw files content pos" and e: "extends owned s0 s"
    and al: "allocs owned buf (unat sz) (bt_fw s0) f" and "owned f \<subseteq> owned (bt_fw s)"
    and rd: "read_file fw h sz buf msg s = (status, s')"
  shows "extends owned s0 s' \<and> allocs owned buf (unat sz) (bt_fw s0) (bt_fw s') \<and>
    (status = EFI_SUCCESS \<longrightarrow> holds (bt_mem s') buf (part (content h) (pos h (bt_fw s)) sz))"
  using read_file_extends [OF ok rd e] al assms(5) read_file_holds [OF ok fs] rd by (fastforce simp: allocs_def)

lemma get_psf_header_spec:
  assumes ok: "fw_ok fw owned" and fs: "fs_ok fw files content pos" and r: "get_psf_header fw h s = (status, hdr, s')"
  shows "extends owned s s' \<and> (status = EFI_SUCCESS \<longrightarrow> allocs owned hdr 4 (bt_fw s) (bt_fw s') \<and>
    holds (bt_mem s') hdr (part (content h) (pos h (bt_fw s)) 4))"
proof -
  obtain a s1 where al: "alloc_pool fw 4 ''Allocating memory for PSF header failed'' s = (a, hdr, s1)"
    using r by (auto simp: get_psf_header_def sizeof_Psf1_header_def Let_def split: prod.splits if_splits)
  note e1 = alloc_pool_extends [OF ok al]
  show ?thesis
  proof (cases "a = EFI_SUCCESS")
    case False
    then show ?thesis using r al e1 by (auto simp: get_psf_header_def sizeof_Psf1_header_def)
  next
    case True
    then have rd: "read_file fw h 4 hdr ''Reading PSF header failed'' s1 = (status, s')"
      using r al by (auto simp: get_psf_header_def sizeof_Psf1_header_def Let_def split: prod.splits)
    show ?thesis using read_fresh [OF ok fs _ _ _ rd, of s "bt_fw s1"] e1 True alloc_pool_pos [OF fs al] by simp
  qed
qed

lemma get_psf_glyphs_spec:
  assumes ok: "fw_ok fw owned" and fs: "fs_ok fw files content pos" and r: "get_psf_glyphs fw h sz s = (status, buf, s')"
  shows "extends owned s s' \<and> (status = EFI_SUCCESS \<longrightarrow> allocs owned buf (unat sz) (bt_fw s) (bt_fw s') \<and>
    holds (bt_mem s') buf (part (content h) 4 sz))"
proof -
  obtain a s1 where sp: "set_position fw h 4 ''Jumping at PSF glyphs buffer failed'' s = (a, s1)"
    using r by (auto simp: get_psf_glyphs_def sizeof_Psf1_header_def Let_def split: prod.splits if_splits)
  note e1 = set_position_extends [OF ok sp]
  obtain b p s2 where al: "alloc_pool fw sz ''Allocating memory for PSF glyphs failed'' s1 = (b, p, s2)"
    by (metis prod_cases3)
  note e2 = alloc_pool_extends [OF ok al]
  have e: "extends owned s s2" using e1 e2 extends_trans by blast
  show ?thesis
  proof (cases "a = EFI_SUCCESS \<and> b = EFI_SUCCESS")
    case False
    then show ?thesis using r sp al e e1 by (auto simp: get_psf_glyphs_def sizeof_Psf1_header_def split: if_splits)
  next
    case True
    then have rd: "read_file fw h sz buf ''Reading PSF glyphs failed'' s2 = (status, s')" and p: "p = buf"
      using r sp al by (auto simp: get_psf_glyphs_def sizeof_Psf1_header_def Let_def split: prod.splits)
    have "allocs owned buf (unat sz) (bt_fw s) (bt_fw s2)"
      using e1 e2 True p by (auto simp: allocs_def extends_def)
    moreover have "pos h (bt_fw s2) = 4"
      using alloc_pool_pos [OF fs al, of h] fs_okD(2) [OF fs, of h 4] e1 True by metis
    ultimately show ?thesis using read_fresh [OF ok fs e _ _ rd] by simp
  qed
qed

text \<open>Writing a structure that was allocated since \<open>s\<close>.\<close>

lemma extends_struct:
  assumes "extends owned s s'" and "span p n \<inter> owned (bt_fw s) = {}" and "\<And>x. x \<notin> span p n \<Longrightarrow> m x = bt_mem s' x"
  shows "extends owned s (s'\<lparr>bt_mem := m\<rparr>)"
proof -
  have "m x = bt_mem s x" if "x \<in> owned (bt_fw s)" for x
    using that assms(1,2) assms(3) [of x] by (auto simp: extends_def disjoint_iff)
  then show ?thesis using assms(1) by (simp add: extends_def)
qed

text \<open>The glyphs of a font file: 256 or 512 of them, of the size the header tells.\<close>

definition psf_glyphs :: "u8 list \<Rightarrow> u8 list" where
  "psf_glyphs c = take ((if c ! 2 = 1 then 512 else 256) * unat (c ! 3)) (drop 4 c)"

lemma glyphs_size_file:
  assumes "holds m hdr (part c 0 4)" and "4 \<le> length c"
  shows "part c 4 (glyphs_size (Psf1_header_at m hdr)) = psf_glyphs c"
proof -
  have "length (part c 0 4) = 4" using assms(2) by (simp add: part_def)
  with assms have "get_bytes m hdr 4 = take 4 c" by (simp add: holds_def part_def)
  then have "m (hdr + of_nat i) = c ! i" if "i < 4" for i
    using that nth_get_bytes [of i 4 m hdr] assms(2) by simp
  from this [of 2] this [of 3] have h: "m (hdr + 2) = c ! 2" "m (hdr + 3) = c ! 3" by simp_all
  have "unat (ucast b * 512 :: u64) = 512 * unat b" "unat (ucast b * 256 :: u64) = 256 * unat b" for b :: u8
    using unat_u8_bound [of b] by (simp_all add: unat_word_ariths unat_ucast_up)
  then show ?thesis
    by (simp add: part_def psf_glyphs_def glyphs_size_def Psf1_header_at_def PSF1_MODE512_def h)
qed

text \<open>A font in memory: the structure, the header and the glyphs of a file, allocated between two states of the firmware.\<close>

definition font_loaded :: "('f \<Rightarrow> u64 set) \<Rightarrow> 'f \<Rightarrow> 'f \<Rightarrow> mem \<Rightarrow> u64 \<Rightarrow> u8 list \<Rightarrow> bool" where
  "font_loaded owned f f' m font c \<longleftrightarrow> allocs owned font 24 f f' \<and>
     (\<exists>hdr buf. ConsoleFont_at m font = \<lparr>psf_header = hdr, glyph_height = 16, glyph_width = 8, glyph_buffer = buf\<rparr> \<and>
        allocs owned hdr 4 f f' \<and> holds m hdr (take 4 c) \<and>
        allocs owned buf (length (psf_glyphs c)) f f' \<and> holds m buf (psf_glyphs c))"

lemma load_psf_font_struct:
  assumes ok: "fw_ok fw owned" and al: "alloc_pool fw 24 msg s = (EFI_SUCCESS, p, s1)"
    and s': "s' = s1\<lparr>bt_mem := (write64 (write64 (bt_mem s1) p hdr) (p + 16) buf)(p + 8 := 16, p + 9 := 8)\<rparr>"
  shows "extends owned s s' \<and> allocs owned p 24 (bt_fw s) (bt_fw s') \<and>
    ConsoleFont_at (bt_mem s') p = \<lparr>psf_header = hdr, glyph_height = 16, glyph_width = 8, glyph_buffer = buf\<rparr>"
proof -
  note e = alloc_pool_extends [OF ok al]
  have "bt_mem s' x = bt_mem s1 x" if "x \<notin> span p 24" for x
    using that span_field [where N = 24 and x = x and p = p] by (simp add: s' c64.wr_outside)
  then have "extends owned s (s1\<lparr>bt_mem := bt_mem s'\<rparr>)"
    using e by (intro extends_struct [where p = p and n = 24]) (auto simp: allocs_def)
  then show ?thesis using e by (simp add: s' ConsoleFont_at_def struct_simps)
qed

lemma load_psf_font_spec:
  assumes ok: "fw_ok fw owned" and fs: "fs_ok fw files content pos"
    and r: "load_psf_font fw dir path image_handle s = (font, s')" and len: "4 \<le> length (files path)"
  shows "extends owned s s' \<and> (font \<noteq> 0 \<longrightarrow> font_loaded owned (bt_fw s) (bt_fw s') (bt_mem s') font (files path))"
proof -
  obtain h s1 where lf: "load_file fw dir path image_handle s = (h, s1)" by fastforce
  obtain a hdr s2 where gh: "get_psf_header fw h s1 = (a, hdr, s2)" by (metis prod_cases3)
  let ?sz = "glyphs_size (Psf1_header_at (bt_mem s2) hdr)"
  obtain b buf s3 where gg: "get_psf_glyphs fw h ?sz s2 = (b, buf, s3)" by (metis prod_cases3)
  obtain c p s4 where al: "alloc_pool fw 24 ''Allocating memory for PSF font struct failed'' s3 = (c, p, s4)"
    by (metis prod_cases3)
  note e1 = load_file_extends [OF ok lf]
  note e2 = get_psf_header_spec [OF ok fs gh]
  note e3 = get_psf_glyphs_spec [OF ok fs gg]
  note e4 = alloc_pool_extends [OF ok al]
  note d = load_psf_font_def sizeof_Psf1_font_def lf gh gg al
  have x2: "extends owned s s2" using e1 e2 extends_trans by blast
  have x3: "extends owned s s3" using x2 e3 extends_trans by blast
  show ?thesis
  proof (cases "h \<noteq> 0 \<and> a = EFI_SUCCESS \<and> \<not> verify_psf_header (bt_mem s2) hdr \<and> b = EFI_SUCCESS \<and> c = EFI_SUCCESS")
    case False
    then have "font = 0 \<and> extends owned s s'"
      using r e1 x2 x3 e4 extends_trans by (auto simp: d Let_def split: if_splits)
    then show ?thesis by simp
  next
    case True
    have s': "s' = s4\<lparr>bt_mem := (write64 (write64 (bt_mem s4) p hdr) (p + 16) buf)(p + 8 := 16, p + 9 := 8)\<rparr>"
      and p: "font = p" using r True by (auto simp: d Let_def GLYPH_HEIGHT_def GLYPH_WIDTH_def)
    have "alloc_pool fw 24 ''Allocating memory for PSF font struct failed'' s3 = (EFI_SUCCESS, p, s4)" using al True by simp
    note st = load_psf_font_struct [OF ok this s']
    have y2: "extends owned s2 s'" using e3 st extends_trans by blast
    have c: "content h = files path" "pos h (bt_fw s1) = 0" using load_file_opens [OF fs lf] True by simp_all
    have hd: "allocs owned hdr 4 (bt_fw s1) (bt_fw s2)" "holds (bt_mem s2) hdr (part (files path) 0 4)"
      using e2 True c by simp_all
    have g: "part (files path) 4 ?sz = psf_glyphs (files path)" using glyphs_size_file hd(2) len by blast
    have gl: "allocs owned buf (unat ?sz) (bt_fw s2) (bt_fw s3)" "holds (bt_mem s3) buf (psf_glyphs (files path))"
      "length (psf_glyphs (files path)) \<le> unat ?sz" using e3 True c g length_part [of "files path" 4 ?sz] by simp_all
    have "holds (bt_mem s') hdr (take 4 (files path))"
      using holds_extends [OF y2 hd] by (simp add: part_def)
    moreover have "holds (bt_mem s') buf (psf_glyphs (files path))"
      using holds_extends [OF _ gl(1,2,3)] st by simp
    moreover have "allocs owned p 24 (bt_fw s) (bt_fw s')" "allocs owned hdr 4 (bt_fw s) (bt_fw s')"
      "allocs owned buf (length (psf_glyphs (files path))) (bt_fw s) (bt_fw s')"
      using allocs_extends [OF _ x3, of p 24 s'] allocs_extends [OF hd(1) e1 y2] allocs_extends [OF gl(1) x2 _ gl(3)] st by auto
    ultimately show ?thesis using st x3 extends_trans p by (auto simp: font_loaded_def)
  qed
qed

text \<open>What the kernel is to read of a graphics mode and the second buffer; the 32-bit members of the mode are cut to 16 bits.\<close>

definition mode_data :: "gop_mode \<Rightarrow> u64 \<Rightarrow> FramebufferData" where
  "mode_data mode buffer = \<lparr>fd_base_addr = FrameBufferBase mode, fd_double_buffer = buffer,
     fd_b_size = FrameBufferSize mode, fd_width = ucast (HorizontalResolution mode),
     fd_height = ucast (VerticalResolution mode), fd_px_per_scan = ucast (PixelsPerScanLine mode), fd_b_per_px = 4\<rparr>"

lemma get_framebuffer_spec:
  assumes ok: "fw_ok fw owned" and r: "get_framebuffer fw s = (fb, s')"
  shows "extends owned s s' \<and> (fb \<noteq> 0 \<longrightarrow> allocs owned fb 32 (bt_fw s) (bt_fw s') \<and>
    (\<exists>gop f. LocateGOP fw (bt_fw s) = (EFI_SUCCESS, gop, f) \<and>
      FramebufferData_at (bt_mem s') fb = mode_data (gop_Mode fw (out_ptr gop) (bt_fw s')) (read64 (bt_mem s') (fb + 8))))"
proof -
  obtain a gop s1 where lg: "fw_call (LocateGOP fw) s = (a, gop, s1)" by (metis prod_cases3)
  obtain b p s2 where al: "alloc_pool fw 32 ''Allocating memory for framebuffer struct failed'' s1 = (b, p, s2)"
    by (metis prod_cases3)
  note e1 = fw_calls(4) [OF ok lg]
  note e2 = alloc_pool_extends [OF ok al]
  note d = get_framebuffer_def locate_gop_def sizeof_boot_Framebuffer_def lg al BYTES_PER_PIXEL_def
  have x2: "extends owned s s2" using e1 e2 extends_trans by blast
  show ?thesis
  proof (cases "a = EFI_SUCCESS \<and> b = EFI_SUCCESS")
    case False
    then have "fb = 0 \<and> extends owned s s'" using r e1 x2 by (auto simp: d Let_def split: if_splits)
    then show ?thesis by simp
  next
    case True
    define mode where "mode = gop_Mode fw (out_ptr gop) (bt_fw s2)"
    let ?m = "(write16 (write16 (write16 (write64 (write64 (bt_mem s2) p (FrameBufferBase mode)) (p + 16) (FrameBufferSize mode))
        (p + 24) (ucast (HorizontalResolution mode))) (p + 26) (ucast (VerticalResolution mode)))
        (p + 28) (ucast (PixelsPerScanLine mode)))(p + 30 := 4)"
    have s': "s' = s2\<lparr>bt_mem := ?m\<rparr>" and p: "fb = p" using r True by (auto simp: d Let_def mode_def)
    have out: "?m x = bt_mem s2 x" if "x \<notin> span p 32" for x
      using that span_field [where N = 32 and x = x and p = p] by (simp add: c64.wr_outside c16.wr_outside)
    have "span p 32 \<inter> owned (bt_fw s1) = {}" "span p 32 \<subseteq> owned (bt_fw s')"
      using e2 True by (simp_all add: allocs_def s')
    moreover from this(1) have "span p 32 \<inter> owned (bt_fw s) = {}" using extends_owned e1 by blast
    moreover from this have "extends owned s s'" unfolding s' using extends_struct [OF x2 _ out] by blast
    moreover have "LocateGOP fw (bt_fw s) = (EFI_SUCCESS, gop, bt_fw s1)"
      using lg True by (auto simp: fw_call_def split: prod.splits)
    moreover have "FramebufferData_at (bt_mem s') p = mode_data mode (read64 (bt_mem s') (p + 8))"
      by (simp add: s' FramebufferData_at_def mode_data_def struct_simps)
    ultimately show ?thesis by (simp add: p mode_def s' allocs_def)
  qed
qed

section \<open>Names of errors, the check of the font, the root pointer\<close>

lemma get_rsdp_find:
  "get_rsdp fw s = (case find (\<lambda>(g, t). CompareGuid fw g (ACPI_TABLE_GUID fw) = 0) (ConfigurationTable fw (bt_fw s)) of
     None \<Rightarrow> 0 | Some (g, t) \<Rightarrow> t)"
proof -
  have "rsdp_loop fw ct = (case find (\<lambda>(g, t). CompareGuid fw g (ACPI_TABLE_GUID fw) = 0) ct of
     None \<Rightarrow> 0 | Some (g, t) \<Rightarrow> t)" for ct
    by (induction fw ct rule: rsdp_loop.induct) auto
  then show ?thesis by (simp add: get_rsdp_def)
qed

lemma efi_status_str_in_table: "efi_status_str code \<in> set STATUSES"
proof -
  have len: "length STATUSES = 33" by (simp add: STATUSES_def)
  have "unat (ucast code :: u8) < 33" if "\<not> (ucast code :: u8) > 32" using that by (simp add: word_less_nat_alt)
  then show ?thesis by (simp add: efi_status_str_def Let_def STATUSES_COUNT_def len)
qed

text \<open>
  In the UEFI specification end of file is 31, invalid language 32 and compromised data 33, with no codes 29 and 30; the
  table has no such gap.
\<close>

lemma efi_status_str_past_gap:
  "efi_status_str (EFI_ERR 28) = ''end of media''"
  "efi_status_str (EFI_ERR 31) = ''compromised data''"
  "efi_status_str (EFI_ERR 32) = ''undefined status''"
  by (simp_all add: efi_status_str_def EFI_ERR_def STATUSES_def STATUSES_COUNT_def Let_def)

text \<open>The check holds for the bytes 04 36; a PSF file starts with 36 04, and the caller rejects a file when the check holds.\<close>

lemma verify_psf_header_iff: "verify_psf_header m hdr \<longleftrightarrow> m hdr = 0x04 \<and> m (hdr + 1) = 0x36"
proof -
  have "(ucast a OR push_bit 8 (ucast b) :: u16) = 0x3604 \<longleftrightarrow> a = 0x04 \<and> b = 0x36" for a b :: u8
  proof
    assume h: "(ucast a OR push_bit 8 (ucast b) :: u16) = 0x3604"
    have "ucast (ucast a OR push_bit 8 (ucast b) :: u16) = a"
      "ucast (drop_bit 8 (ucast a OR push_bit 8 (ucast b) :: u16)) = b"
      by (rule bit_word_eqI, auto simp: bit_simps dest: bit_imp_le_length)+
    then show "a = 0x04 \<and> b = 0x36" unfolding h by simp
  qed simp
  then show ?thesis by (simp add: verify_psf_header_def Psf1_header_at_def PSF1_MAGIC_def read16_def load_two)
qed

end
