(* ===== verification/BootKernel.thy ===== *)
theory BootKernel
  imports Boot
begin

text \<open>
  The boot loader's way to the kernel (\<^verbatim>\<open>kernel_loader.c\<close>, \<^verbatim>\<open>kernel_starter.c\<close> and \<^verbatim>\<open>main.c\<close> of \<^verbatim>\<open>src/bootloader\<close>): reading the
  headers of the kernel's ELF file, loading its segments at their physical addresses, taking the memory map, leaving
  the boot services and calling the kernel with \<^verbatim>\<open>BootloaderData\<close>. Objects of the boot loader that live on its stack or
  among its constants have an address, given by the record \<open>boot_image\<close>.
\<close>

section \<open>ELF files\<close>

definition ELFMAG :: "u8 list" where "ELFMAG = [0x7F, 0x45, 0x4C, 0x46]"
definition SELFMAG :: u64 where "SELFMAG = 4"
definition ELFCLASS64 :: u8 where "ELFCLASS64 = 2"
definition ELFDATA2LSB :: u8 where "ELFDATA2LSB = 1"
definition ET_EXEC :: u16 where "ET_EXEC = 2"
definition EM_X86_64 :: u16 where "EM_X86_64 = 62"
definition EV_CURRENT :: u32 where "EV_CURRENT = 1"
definition PT_LOAD :: u32 where "PT_LOAD = 1"
definition BOOT_PAGE_SZ :: u64 where "BOOT_PAGE_SZ = 0x1000"

record Elf64_Ehdr =
  e_ident :: "u8 list"
  e_type :: u16
  e_machine :: u16
  e_version :: u32
  e_entry :: u64
  e_phoff :: u64
  e_phentsize :: u16
  e_phnum :: u16

definition sizeof_Elf64_Ehdr :: u64 where "sizeof_Elf64_Ehdr = 64"

definition Elf64_Ehdr_at :: "mem \<Rightarrow> u64 \<Rightarrow> Elf64_Ehdr" where
  "Elf64_Ehdr_at m p = \<lparr>e_ident = get_bytes m p 16, e_type = read16 m (p + 16), e_machine = read16 m (p + 18),
     e_version = read32 m (p + 20), e_entry = read64 m (p + 24), e_phoff = read64 m (p + 32),
     e_phentsize = read16 m (p + 54), e_phnum = read16 m (p + 56)\<rparr>"

record Elf64_Phdr =
  p_type :: u32
  p_offset :: u64
  p_paddr :: u64
  p_filesz :: u64
  p_memsz :: u64

definition Elf64_Phdr_at :: "mem \<Rightarrow> u64 \<Rightarrow> Elf64_Phdr" where
  "Elf64_Phdr_at m p = \<lparr>p_type = read32 m p, p_offset = read64 m (p + 8), p_paddr = read64 m (p + 24),
     p_filesz = read64 m (p + 32), p_memsz = read64 m (p + 40)\<rparr>"

text \<open>Where the boot loader's own objects are: the local \<^verbatim>\<open>e_hdr\<close>, the literal \<^verbatim>\<open>ELFMAG\<close>, the local \<^verbatim>\<open>bootloader_data\<close>.\<close>

record boot_image =
  e_hdr_addr :: u64
  ELFMAG_addr :: u64
  bootloader_data_addr :: u64

section \<open>Loading the kernel\<close>

text \<open>The first argument of \<^verbatim>\<open>memcmp\<close> is the first byte of the identification, cast to a pointer.\<close>

definition verify_kernel_elf_header :: "boot_image \<Rightarrow> mem \<Rightarrow> bool" where
  "verify_kernel_elf_header im m \<longleftrightarrow>
     (let h = Elf64_Ehdr_at m (e_hdr_addr im)
      in memcmp m (ucast (e_ident h ! 0)) (ELFMAG_addr im) SELFMAG = 0 \<and>
         e_ident h ! 4 = ELFCLASS64 \<and> e_ident h ! 5 = ELFDATA2LSB \<and>
         e_type h = ET_EXEC \<and> e_machine h = EM_X86_64 \<and> e_version h = EV_CURRENT)"

definition get_elf_header :: "'f uefi \<Rightarrow> u64 \<Rightarrow> u64 \<Rightarrow> 'f boot \<Rightarrow> efi_status \<times> 'f boot" where
  "get_elf_header fw file e_hdr s =
     (let (status, s) = set_position fw file 0 ''Jumping at the beginning of ELF failed'' s in
      if status \<noteq> EFI_SUCCESS then (status, s) else
      read_file fw file sizeof_Elf64_Ehdr e_hdr ''Reading ELF header failed'' s)"

text \<open>The product of the two 16-bit members is an \<^verbatim>\<open>int\<close>, converted with its sign.\<close>

definition all_p_hdrs_sz :: "Elf64_Ehdr \<Rightarrow> u64" where
  "all_p_hdrs_sz h = scast (ucast (e_phentsize h) * ucast (e_phnum h) :: 32 word)"

definition get_elf_p_hdrs :: "'f uefi \<Rightarrow> u64 \<Rightarrow> u64 \<Rightarrow> 'f boot \<Rightarrow> efi_status \<times> u64 \<times> 'f boot" where
  "get_elf_p_hdrs fw file e_hdr s =
     (let sz = all_p_hdrs_sz (Elf64_Ehdr_at (bt_mem s) e_hdr);
          (status, p_hdrs, s) = alloc_pool fw sz ''Allocating memory for ELF p_hdrs failed'' s in
      if status \<noteq> EFI_SUCCESS then (status, p_hdrs, s) else
      let (status, s) = set_position fw file (e_phoff (Elf64_Ehdr_at (bt_mem s) e_hdr)) ''Jumping at e_phoff in ELF file failed'' s in
      if status \<noteq> EFI_SUCCESS then (status, p_hdrs, s) else
      let (status, s) = read_file fw file sz p_hdrs ''Reading ELF program headers failed'' s
      in (status, p_hdrs, s))"

definition get_next_p_hdr :: "u64 \<Rightarrow> u64 \<Rightarrow> u64" where
  "get_next_p_hdr p_hdr p_hdr_size = p_hdr + p_hdr_size"

definition num_of_pages :: "Elf64_Phdr \<Rightarrow> u16" where
  "num_of_pages h = ucast (p_filesz h div BOOT_PAGE_SZ + 1)"

definition load_elf_segment_by_p_hdr :: "'f uefi \<Rightarrow> u64 \<Rightarrow> u64 \<Rightarrow> 'f boot \<Rightarrow> efi_status \<times> 'f boot" where
  "load_elf_segment_by_p_hdr fw file p_hdr s =
     (let h = Elf64_Phdr_at (bt_mem s) p_hdr;
          segment_paddr = p_paddr h;
          (status, s) = fw_call1 (AllocatePages fw (ucast (num_of_pages h)) segment_paddr) s in
      if status \<noteq> EFI_SUCCESS then (status, print_efi_err ''Memory allocation for ELF segment failed'' status s) else
      let (status, s) = set_position fw file (p_offset (Elf64_Phdr_at (bt_mem s) p_hdr)) ''Jumping at segment offset'' s in
      if status \<noteq> EFI_SUCCESS then (status, s) else
      read_file fw file (p_filesz (Elf64_Phdr_at (bt_mem s) p_hdr)) segment_paddr
        ''Reading one of ELF's PT_LOAD segments failed'' s)"

lemma u16_step: "i < unat (n :: u16) \<Longrightarrow> 65535 - i < 65536 - i"
  using unat_u16_bound [of n] by simp

text \<open>The loop of \<^verbatim>\<open>load_kernel_into_memory\<close>; the result says whether it ran to its end.\<close>

function load_segments :: "'f uefi \<Rightarrow> u64 \<Rightarrow> u64 \<Rightarrow> nat \<Rightarrow> u64 \<Rightarrow> 'f boot \<Rightarrow> bool \<times> 'f boot" where
  "load_segments fw file e_hdr i p_hdr s =
     (let h = Elf64_Ehdr_at (bt_mem s) e_hdr in
      if i < unat (e_phnum h) then
        let p_hdr = (if i > 0 then get_next_p_hdr p_hdr (ucast (e_phentsize h)) else p_hdr) in
        if p_type (Elf64_Phdr_at (bt_mem s) p_hdr) = PT_LOAD then
          let (status, s') = load_elf_segment_by_p_hdr fw file p_hdr s in
          if status \<noteq> EFI_SUCCESS then (False, s') else load_segments fw file e_hdr (i + 1) p_hdr s'
        else load_segments fw file e_hdr (i + 1) p_hdr s
      else (True, s))"
  by pat_completeness auto
termination
  by (relation "measure (\<lambda>(fw, file, e_hdr, i, p_hdr, s). 65536 - i)")
    (auto dest: u16_step)

declare load_segments.simps [simp del]

definition load_kernel_into_memory :: "'f uefi \<Rightarrow> boot_image \<Rightarrow> u64 \<Rightarrow> 'f boot \<Rightarrow> u64 \<times> 'f boot" where
  "load_kernel_into_memory fw im kernel_file s =
     (let e_hdr = e_hdr_addr im;
          (status, s) = get_elf_header fw kernel_file e_hdr s in
      if status \<noteq> EFI_SUCCESS then (0, s) else
      if verify_kernel_elf_header im (bt_mem s) then (0, print_err ''Kernel ELF format is bad'' s) else
      let (status, p_hdrs, s) = get_elf_p_hdrs fw kernel_file e_hdr s in
      if status \<noteq> EFI_SUCCESS then (0, s) else
      let (done, s) = load_segments fw kernel_file e_hdr 0 p_hdrs s in
      if \<not> done then (0, s) else (e_entry (Elf64_Ehdr_at (bt_mem s) e_hdr), s))"

section \<open>Starting the kernel\<close>

definition KERNEL_STACK_SIZE :: u64 where "KERNEL_STACK_SIZE = 0x1000"
definition sizeof_boot_MemoryData :: u64 where "sizeof_boot_MemoryData = 32"

text \<open>\<^verbatim>\<open>GetMemoryMap\<close> into a buffer of a given size.\<close>

definition efi_memory_map :: "'f uefi \<Rightarrow> u64 \<Rightarrow> u64 \<Rightarrow> 'f boot \<Rightarrow> efi_status \<times> map_info \<times> 'f boot" where
  "efi_memory_map fw sz buf s =
     (let (status, i, s) = fw_call (GetMemoryMap fw sz) s
      in (status, i, s\<lparr>bt_mem := put_bytes (bt_mem s) buf (map_bytes i)\<rparr>))"

text \<open>
  The results are the status, the size of the map, its address, the key and the size of a descriptor. The first call of
  the service passes no place for the key.
\<close>

definition get_memory_map ::
    "'f uefi \<Rightarrow> u64 \<Rightarrow> u64 \<Rightarrow> u64 \<Rightarrow> u64 \<Rightarrow> 'f boot \<Rightarrow> efi_status \<times> (u64 \<times> u64 \<times> u64 \<times> u64) \<times> 'f boot" where
  "get_memory_map fw mmap_sz mmap mmap_key descriptor_sz s =
     (let (status, i, s) = efi_memory_map fw mmap_sz mmap s;
          mmap_sz = map_size i;
          descriptor_sz = map_desc_size i in
      if status \<noteq> EFI_BUFFER_TOO_SMALL
      then (EFI_ABORTED, (mmap_sz, mmap, mmap_key, descriptor_sz),
            print_efi_err ''First GetMemoryMap() should return BUFFER_TO_SMALL'' status s)
      else
        let (status, p, s) = alloc_pool fw mmap_sz ''Allocation for memory map failed'' s in
        if status \<noteq> EFI_SUCCESS then (status, (mmap_sz, mmap, mmap_key, descriptor_sz), s)
        else
          let (status, i, s) = efi_memory_map fw mmap_sz p s
          in (status, (map_size i, p, map_key i, map_desc_size i),
              if status \<noteq> EFI_SUCCESS then print_efi_err ''GetMemoryMap() failed'' status s else s))"

text \<open>A failed allocation of the structure is reported and not acted on.\<close>

definition get_memory_data :: "'f uefi \<Rightarrow> u64 \<Rightarrow> 'f boot \<Rightarrow> (u64 \<times> u64 \<times> 'f boot) res" where
  "get_memory_data fw mmap_key s =
     (let (_, memory_data, s) = alloc_pool fw sizeof_boot_MemoryData ''Allocating memory for memory data struct failed'' s;
          (status, (mmap_sz, mmap, mmap_key, descriptor_sz), s) = get_memory_map fw 0 0 mmap_key 0 s in
      if status \<noteq> EFI_SUCCESS then Inr (0, mmap_key, s)
      else if memory_data = 0 then Inl NullDeref
      else if descriptor_sz = 0 then Inl DivByZero
      else
        let m = bt_mem s;
            m = write64 m (memory_data + 16) descriptor_sz;
            m = write64 m (memory_data + 8) mmap_sz;
            m = write64 m memory_data mmap;
            m = write64 m (memory_data + 24) (mmap_sz div descriptor_sz)
        in Inr (memory_data, mmap_key, s\<lparr>bt_mem := m\<rparr>))"

definition allocate_memory_for_kernel_stack :: "'f uefi \<Rightarrow> 'f boot \<Rightarrow> u64 \<times> 'f boot" where
  "allocate_memory_for_kernel_stack fw s =
     (let (_, kernel_stack, s) = alloc_pool fw KERNEL_STACK_SIZE ''Memory allocation for kernel stack failed'' s
      in (kernel_stack, s))"

text \<open>The result of the last two functions tells the call of the kernel, its address and its argument, if it was made.\<close>

definition start_kernel ::
    "'f uefi \<Rightarrow> boot_image \<Rightarrow> u64 \<Rightarrow> u64 \<Rightarrow> u64 \<Rightarrow> u64 \<Rightarrow> u64 \<Rightarrow> 'f boot \<Rightarrow> ((u64 \<times> u64) option \<times> 'f boot) res" where
  "start_kernel fw im image_handle framebuffer psf_font kernel_addr acpi_rsdp s =
     (let (kernel_stack, s) = allocate_memory_for_kernel_stack fw s in
      if kernel_stack = 0 then Inr (None, print_err ''Kernel stack allocation failed'' s) else
      bind_res (get_memory_data fw 0 s) (\<lambda>(memory_data, mmap_key, s).
      if memory_data = 0 then Inr (None, print_err ''Memory data gathering failed'' s) else
      let (status, s) = fw_call1 (ExitBootServices fw image_handle mmap_key) s in
      if status \<noteq> EFI_SUCCESS then Inr (None, print_efi_err ''ExitBootServices() failed'' status s) else
      let p = bootloader_data_addr im;
          m = bt_mem s;
          m = write64 m p framebuffer;
          m = write64 m (p + 8) psf_font;
          m = write64 m (p + 16) memory_data;
          m = write64 m (p + 24) acpi_rsdp
      in Inr (Some (kernel_addr, p), s\<lparr>bt_mem := m\<rparr>)))"

definition efi_main :: "'f uefi \<Rightarrow> boot_image \<Rightarrow> u64 \<Rightarrow> 'f boot \<Rightarrow> (efi_status \<times> (u64 \<times> u64) option \<times> 'f boot) res" where
  "efi_main fw im image_handle s =
     (let s = Print (''[*] Starting bootloader... '' @ NEWLINE) [] s;
          root_dir = 0;
          (kernel_file, s) = load_file fw root_dir ''kernel.elf'' image_handle s in
      if kernel_file = 0 then Inr (EFI_LOAD_ERROR, None, print_err ''Loading kernel file error'' s) else
      let s = Print (''[+] Kernel file has been loaded successfully '' @ NEWLINE) [] s;
          (kernel_addr, s) = load_kernel_into_memory fw im kernel_file s in
      if kernel_addr = 0 then Inr (EFI_LOAD_ERROR, None, print_err ''Loading kernel into memory error'' s) else
      let s = Print (''[+] Kernel has been successfully loaded into memory '' @ NEWLINE) [] s;
          (psf_font, s) = load_psf_font fw root_dir ''zap-light16.psf'' image_handle s in
      if psf_font = 0 then Inr (EFI_LOAD_ERROR, None, print_err ''Psf font loading error'' s) else
      let s = Print (''[+] Psf font loaded successfully '' @ NEWLINE) [] s;
          (framebuffer, s) = get_framebuffer fw s in
      if framebuffer = 0 then Inr (EFI_LOAD_ERROR, None, print_err ''Framebuffer initialization error'' s) else
      let s = Print (''[+] Framebuffer initialized successfully '' @ NEWLINE) [] s;
          (buffer, s) = allocate_double_framebuffer fw (read64 (bt_mem s) (framebuffer + 16)) s;
          s = s\<lparr>bt_mem := write64 (bt_mem s) (framebuffer + 8) buffer\<rparr> in
      if read64 (bt_mem s) (framebuffer + 8) = 0
      then Inr (EFI_LOAD_ERROR, None, print_err ''Double framebuffer allocation error'' s) else
      let s = Print (''[+] Double framebuffer allocated successfully '' @ NEWLINE) [] s;
          acpi_rsdp = get_rsdp fw s in
      if acpi_rsdp = 0 then Inr (EFI_LOAD_ERROR, None, print_err ''Obtaining RSDP of ACPI failed'' s) else
      let s = Print (''[+] RSDP of ACPI obtained successfully '' @ NEWLINE) [] s;
          s = Print (''[*] Starting kernel... '' @ NEWLINE) [] s in
      bind_res (start_kernel fw im image_handle framebuffer psf_font kernel_addr acpi_rsdp s) (\<lambda>(call, s).
      Inr (EFI_SUCCESS, call, s)))"

section \<open>Loading the kernel: theorems\<close>

lemma pages_cover:
  "unat (p_filesz h) < 4096 * unat (num_of_pages h) \<longleftrightarrow> unat (p_filesz h) < 0xFFFF000"
proof -
  let ?n = "unat (p_filesz h)"
  have d: "unat (p_filesz h div BOOT_PAGE_SZ) = ?n div 4096" by (simp add: BOOT_PAGE_SZ_def unat_div)
  have lt: "?n div 4096 < 2 ^ 52" using u64_bound [of "p_filesz h"] by (simp add: less_mult_imp_div_less)
  have "unat (p_filesz h div BOOT_PAGE_SZ + 1) = ?n div 4096 + 1" using d lt by (simp add: unat_word_ariths)
  then have p: "unat (num_of_pages h) = (?n div 4096 + 1) mod 65536"
    by (simp add: num_of_pages_def unsigned_ucast_eq take_bit_eq_mod)
  show ?thesis
  proof (cases "?n < 0xFFFF000")
    case True
    then have "?n div 4096 + 1 < 65536" by simp
    then show ?thesis using True p by simp
  next
    case False
    have "4096 * unat (num_of_pages h) \<le> ?n"
    proof (cases "?n div 4096 + 1 < 65536")
      case True
      then show ?thesis using False p by simp
    next
      case False
      have "unat (num_of_pages h) < 65536" using unat_u16_bound by blast
      then show ?thesis using False by linarith
    qed
    with False show ?thesis by simp
  qed
qed

text \<open>
  The number of pages the loader asks for covers a segment exactly when the count fits into 16 bits; a segment of
  256 MiB less one page or more gets too few pages.
\<close>

theorem num_of_pages_covers:
  "unat (p_filesz h) < 4096 * unat (num_of_pages h) \<longleftrightarrow> unat (p_filesz h) < 0xFFFF000"
  by (rule pages_cover)

lemma load_elf_segment_spec:
  assumes ok: "fw_ok fw owned" and fs: "fs_ok fw files content pos"
    and r: "load_elf_segment_by_p_hdr fw file p_hdr s = (status, s')"
    and h: "h = Elf64_Phdr_at (bt_mem s) p_hdr" and fits: "unat (p_filesz h) < 0xFFFF000"
  shows "extends owned s s' \<and> (status = EFI_SUCCESS \<longrightarrow>
    allocs owned (p_paddr h) (unat (p_filesz h)) (bt_fw s) (bt_fw s') \<and>
    holds (bt_mem s') (p_paddr h) (part (content file) (p_offset h) (p_filesz h)))"
proof -
  have n: "unat (p_filesz h) \<le> 4096 * unat (ucast (num_of_pages h) :: u64)"
    using pages_cover [of h] fits by (simp add: unat_ucast_up)
  obtain a s1 where al: "fw_call1 (AllocatePages fw (ucast (num_of_pages h)) (p_paddr h)) s = (a, s1)" by fastforce
  note e1 = fw_calls(9) [OF ok al]
  obtain b s2 where sp: "set_position fw file (p_offset h) ''Jumping at segment offset'' s1 = (b, s2)" by fastforce
  note e2 = set_position_extends [OF ok sp]
  have x2: "extends owned s s2" using e1 e2 extends_trans by blast
  note d = load_elf_segment_by_p_hdr_def h [symmetric] al sp
  show ?thesis
  proof (cases "a = EFI_SUCCESS \<and> b = EFI_SUCCESS")
    case False
    then show ?thesis using r e1 x2 sp by (auto simp: d Let_def split: if_splits)
  next
    case True
    have rd: "read_file fw file (p_filesz h) (p_paddr h) ''Reading one of ELF's PT_LOAD segments failed'' s2 = (status, s')"
      using r True e1 e2 by (simp add: d Let_def)
    have "allocs owned (p_paddr h) (4096 * unat (ucast (num_of_pages h) :: u64)) (bt_fw s) (bt_fw s1)"
      using ok e1 True unfolding fw_ok_def fw_allocates_def by blast
    then have "allocs owned (p_paddr h) (unat (p_filesz h)) (bt_fw s) (bt_fw s2)"
      using allocs_extends [OF _ extends_refl _ n] e2 by blast
    moreover have "pos file (bt_fw s2) = p_offset h" using fs_okD(2) [OF fs] e2 True by blast
    ultimately show ?thesis using read_fresh [OF ok fs x2 _ _ rd] by auto
  qed
qed

text \<open>Headers in memory that is in use stay as they are.\<close>

lemma struct_extends:
  assumes e: "extends owned s s'"
  shows "span p 64 \<subseteq> owned (bt_fw s) \<Longrightarrow> Elf64_Ehdr_at (bt_mem s') p = Elf64_Ehdr_at (bt_mem s) p"
    and "span p 56 \<subseteq> owned (bt_fw s) \<Longrightarrow> Elf64_Phdr_at (bt_mem s') p = Elf64_Phdr_at (bt_mem s) p"
proof -
  have f: "bt_mem s' x = bt_mem s x" if "span p N \<subseteq> owned (bt_fw s)" "unat k + n \<le> N" "N < 2 ^ 64" "x \<in> span (p + k) n"
    for N k n x using that span_field(1) [of x p N k n] extends_mem [OF e] by blast
  have r16: "read16 (bt_mem s') (p + k) = read16 (bt_mem s) (p + k)"
    if "span p N \<subseteq> owned (bt_fw s)" "unat k + 2 \<le> N" "N < 2 ^ 64" for N k using f [OF that] by (rule c16.rd_cong)
  have r32: "read32 (bt_mem s') (p + k) = read32 (bt_mem s) (p + k)"
    if "span p N \<subseteq> owned (bt_fw s)" "unat k + 4 \<le> N" "N < 2 ^ 64" for N k using f [OF that] by (rule c32.rd_cong)
  have r64: "read64 (bt_mem s') (p + k) = read64 (bt_mem s) (p + k)"
    if "span p N \<subseteq> owned (bt_fw s)" "unat k + 8 \<le> N" "N < 2 ^ 64" for N k using f [OF that] by (rule c64.rd_cong)
  show "Elf64_Phdr_at (bt_mem s') p = Elf64_Phdr_at (bt_mem s) p" if sp: "span p 56 \<subseteq> owned (bt_fw s)"
    using r32 [OF sp, of 0] by (simp add: Elf64_Phdr_at_def r64 [OF sp])
  show "Elf64_Ehdr_at (bt_mem s') p = Elf64_Ehdr_at (bt_mem s) p" if sp: "span p 64 \<subseteq> owned (bt_fw s)"
  proof -
    have "bt_mem s' (p + of_nat i) = bt_mem s (p + of_nat i)" if "i < 16" for i
      using extends_mem [OF e sp, of "p + of_nat i"] that by (simp add: span_iff)
    then have "get_bytes (bt_mem s') p 16 = get_bytes (bt_mem s) p 16" by (simp add: get_bytes_eq_iff)
    then show ?thesis by (simp add: Elf64_Ehdr_at_def r16 [OF sp] r32 [OF sp] r64 [OF sp])
  qed
qed

text \<open>The address of a program header, and a segment in memory.\<close>

definition phdr_addr :: "u64 \<Rightarrow> Elf64_Ehdr \<Rightarrow> nat \<Rightarrow> u64" where
  "phdr_addr p_hdrs h j = p_hdrs + of_nat j * ucast (e_phentsize h)"

definition segment_loaded :: "('f \<Rightarrow> u64 set) \<Rightarrow> 'f \<Rightarrow> 'f \<Rightarrow> mem \<Rightarrow> u8 list \<Rightarrow> Elf64_Phdr \<Rightarrow> bool" where
  "segment_loaded owned f f' m c h \<longleftrightarrow> allocs owned (p_paddr h) (unat (p_filesz h)) f f' \<and>
     holds m (p_paddr h) (part c (p_offset h) (p_filesz h))"

lemma segment_loaded_extends:
  assumes "segment_loaded owned (bt_fw s1) (bt_fw s2) (bt_mem s2) c h" and "extends owned s0 s1" and "extends owned s2 s3"
  shows "segment_loaded owned (bt_fw s0) (bt_fw s3) (bt_mem s3) c h"
proof -
  have h: "allocs owned (p_paddr h) (unat (p_filesz h)) (bt_fw s1) (bt_fw s2)"
    "holds (bt_mem s2) (p_paddr h) (part c (p_offset h) (p_filesz h))" using assms(1) by (simp_all add: segment_loaded_def)
  show ?thesis
    using allocs_extends [OF h(1) assms(2,3)] holds_extends [OF assms(3) h length_part] u64_bound [of "p_filesz h"]
    by (simp add: segment_loaded_def)
qed

text \<open>One turn of the loop, at a program header whose place the previous turn has left.\<close>

lemma load_segments_step:
  assumes i: "i < unat (e_phnum E)" and E: "E = Elf64_Ehdr_at (bt_mem s) e_hdr" and p: "p_hdr = phdr_addr p_hdrs E (i - 1)"
    and ph: "ph = phdr_addr p_hdrs E i" "H = Elf64_Phdr_at (bt_mem s) ph"
  shows "load_segments fw kf e_hdr i p_hdr s =
     (if p_type H = PT_LOAD then
        let (status, s') = load_elf_segment_by_p_hdr fw kf ph s in
        if status \<noteq> EFI_SUCCESS then (False, s') else load_segments fw kf e_hdr (i + 1) ph s'
      else load_segments fw kf e_hdr (i + 1) ph s)"
proof -
  have nx: "(if i > 0 then get_next_p_hdr p_hdr (ucast (e_phentsize E)) else p_hdr) = ph"
    using p ph(1) by (cases i) (simp_all add: phdr_addr_def get_next_p_hdr_def algebra_simps)
  show ?thesis by (subst load_segments.simps) (simp only: Let_def E [symmetric] nx i if_True ph(2) [symmetric])
qed

lemma load_segments_spec:
  assumes ok: "fw_ok fw owned" and fs: "fs_ok fw files content pos"
    and r: "load_segments fw kf e_hdr i p_hdr s = (d, s')"
    and E: "E = Elf64_Ehdr_at (bt_mem s) e_hdr" and ow: "span e_hdr 64 \<subseteq> owned (bt_fw s)"
    and p: "p_hdr = phdr_addr p_hdrs E (i - 1)"
    and PH: "\<And>j. j < unat (e_phnum E) \<Longrightarrow> span (phdr_addr p_hdrs E j) 56 \<subseteq> owned (bt_fw s) \<and>
      PH j = Elf64_Phdr_at (bt_mem s) (phdr_addr p_hdrs E j)"
    and fits: "\<And>j. j < unat (e_phnum E) \<Longrightarrow> p_type (PH j) = PT_LOAD \<Longrightarrow> unat (p_filesz (PH j)) < 0xFFFF000"
  shows "extends owned s s' \<and> (d \<longrightarrow> (\<forall>j. i \<le> j \<longrightarrow> j < unat (e_phnum E) \<longrightarrow> p_type (PH j) = PT_LOAD \<longrightarrow>
    segment_loaded owned (bt_fw s) (bt_fw s') (bt_mem s') (content kf) (PH j)))"
  using r E ow p PH
proof (induction "unat (e_phnum E) - i" arbitrary: i p_hdr s)
  case 0
  then show ?case by (subst (asm) load_segments.simps) simp
next
  case (Suc k)
  have i: "i < unat (e_phnum E)" and k: "k = unat (e_phnum E) - (i + 1)" using Suc.hyps(2) by simp_all
  let ?p = "phdr_addr p_hdrs E i"
  note IH = Suc.hyps(1) [OF k, of ?p]
  note step = load_segments_step [where fw = fw and kf = kf, OF i Suc.prems(2,4) refl Suc.prems(5) [OF i, THEN conjunct2]]
  consider (skip) "p_type (PH i) \<noteq> PT_LOAD" "load_segments fw kf e_hdr (i + 1) ?p s = (d, s')"
    | (fails) "p_type (PH i) = PT_LOAD" "\<not> d" "load_elf_segment_by_p_hdr fw kf ?p s = (fst (load_elf_segment_by_p_hdr fw kf ?p s), s')"
    | (load) s1 where "p_type (PH i) = PT_LOAD" "load_elf_segment_by_p_hdr fw kf ?p s = (EFI_SUCCESS, s1)" "load_segments fw kf e_hdr (i + 1) ?p s1 = (d, s')"
    using step Suc.prems(1) by (auto split: if_splits prod.splits)
  then show ?case
  proof cases
    case skip
    from IH [OF skip(2) Suc.prems(2,3)] Suc.prems(5) skip(1) show ?thesis
      by (metis Suc_eq_plus1 add_diff_cancel_right' not_less_eq_eq order_antisym)
  next
    case fails
    then show ?thesis using load_elf_segment_spec [OF ok fs fails(3), of "PH i"] Suc.prems(5) [OF i] fits [OF i fails(1)] by simp
  next
    case load
    have sg: "extends owned s s1" "segment_loaded owned (bt_fw s) (bt_fw s1) (bt_mem s1) (content kf) (PH i)"
      using load_elf_segment_spec [OF ok fs load(2), of "PH i"] Suc.prems(5) [OF i] fits [OF i load(1)] by (simp_all add: segment_loaded_def)
    have E1: "E = Elf64_Ehdr_at (bt_mem s1) e_hdr" "span e_hdr 64 \<subseteq> owned (bt_fw s1)"
      using struct_extends(1) [OF sg(1)] Suc.prems(2,3) extends_owned [OF sg(1)] by simp_all
    have PH1: "span (phdr_addr p_hdrs E j) 56 \<subseteq> owned (bt_fw s1) \<and> PH j = Elf64_Phdr_at (bt_mem s1) (phdr_addr p_hdrs E j)"
      if "j < unat (e_phnum E)" for j
      using struct_extends(2) [OF sg(1)] Suc.prems(5) [OF that] extends_owned [OF sg(1)] by simp
    note rec = IH [OF load(3) E1 _ PH1, simplified]
    have "segment_loaded owned (bt_fw s) (bt_fw s') (bt_mem s') (content kf) (PH j)"
      if "d" "i \<le> j" "j < unat (e_phnum E)" "p_type (PH j) = PT_LOAD" for j
      using that rec sg segment_loaded_extends [OF _ sg(1) extends_refl] segment_loaded_extends [OF _ extends_refl]
      by (cases "j = i") (auto simp: Suc_le_eq)
    then show ?thesis using rec sg(1) extends_trans by blast
  qed
qed

text \<open>The headers as the file has them: the file read as a memory.\<close>

definition file_mem :: "u8 list \<Rightarrow> mem" where
  "file_mem c x = (if unat x < length c then c ! unat x else 0)"

definition file_ehdr :: "u8 list \<Rightarrow> Elf64_Ehdr" where
  "file_ehdr c = Elf64_Ehdr_at (file_mem c) 0"

definition file_phdr :: "u8 list \<Rightarrow> nat \<Rightarrow> Elf64_Phdr" where
  "file_phdr c j = Elf64_Phdr_at (file_mem c) (phdr_addr (e_phoff (file_ehdr c)) (file_ehdr c) j)"

text \<open>A file whose headers are complete and none of whose loaded segments has 256 MiB less a page or more.\<close>

definition elf_ok :: "u8 list \<Rightarrow> bool" where
  "elf_ok c \<longleftrightarrow>
     (let h = file_ehdr c in
      64 \<le> length c \<and> length c < 2 ^ 31 \<and> 56 \<le> unat (e_phentsize h) \<and>
      unat (e_phoff h) + unat (e_phentsize h) * unat (e_phnum h) \<le> length c \<and>
      list_all (\<lambda>j. p_type (file_phdr c j) = PT_LOAD \<longrightarrow> unat (p_filesz (file_phdr c j)) < 0xFFFF000) [0..<unat (e_phnum h)])"

lemma all_p_hdrs_sz_exact:
  assumes "unat (e_phentsize h) * unat (e_phnum h) < 2 ^ 31"
  shows "unat (all_p_hdrs_sz h) = unat (e_phentsize h) * unat (e_phnum h)"
proof -
  define w :: u32 where "w = ucast (e_phentsize h) * ucast (e_phnum h)"
  have w: "unat w = unat (e_phentsize h) * unat (e_phnum h)"
    using assms unat_u16_bound [of "e_phentsize h"] unat_u16_bound [of "e_phnum h"]
    by (simp add: w_def unat_word_ariths unat_ucast_up)
  then have "take_bit 31 w = w" using assms by (simp add: word_unat_eq_iff unsigned_take_bit_eq take_bit_nat_eq_self)
  then have "\<not> bit w 31" by (metis bit_take_bit_iff less_irrefl)
  then have "\<not> bit w n" if "31 \<le> n" for n using that bit_imp_le_length [of w n] by (cases "n = 31") auto
  then have "scast w = (ucast w :: u64)" by (intro bit_word_eqI) (auto simp: bit_simps min_def)
  then show ?thesis using w by (simp add: all_p_hdrs_sz_def w_def [symmetric] unat_ucast_up)
qed

text \<open>A header in a buffer that holds part of the file is the header in the file.\<close>

lemma holds_file_mem:
  assumes "holds m a (part c q n)" and "i < unat n" and "unat q + unat n \<le> length c" and "unat q + unat n < 2 ^ 64"
  shows "m (a + of_nat i) = file_mem c (q + of_nat i)"
proof -
  have l: "length (part c q n) = unat n" using assms(3) by (simp add: part_def)
  have "m (a + of_nat i) = get_bytes m a (unat n) ! i" using assms(2) by simp
  also have "\<dots> = part c q n ! i" using assms(1) l by (simp add: holds_def)
  also have "\<dots> = c ! (unat q + i)" using assms(2,3) by (simp add: part_def)
  finally have "m (a + of_nat i) = c ! (unat q + i)" .
  moreover have "unat (q + of_nat i) = unat q + i"
    using assms(2,4) by (subst unat_add_lem [THEN iffD1]) simp_all
  ultimately show ?thesis using assms(2,3) by (simp add: file_mem_def)
qed

lemma read_offset:
  assumes "\<And>i. i < N \<Longrightarrow> m (a + of_nat i) = m' (b + of_nat i)"
  shows "k + 2 \<le> N \<Longrightarrow> read16 m (a + of_nat k) = read16 m' (b + of_nat k)"
    and "k + 4 \<le> N \<Longrightarrow> read32 m (a + of_nat k) = read32 m' (b + of_nat k)"
    and "k + 8 \<le> N \<Longrightarrow> read64 m (a + of_nat k) = read64 m' (b + of_nat k)"
  unfolding read16_def read32_def read64_def
  using assms [of "k + _"] by (auto intro!: load_shift simp: add.assoc)

lemma headers_shift:
  "(\<And>i. i < 64 \<Longrightarrow> m (a + of_nat i) = m' (b + of_nat i)) \<Longrightarrow> Elf64_Ehdr_at m a = Elf64_Ehdr_at m' b"
  "(\<And>i. i < 56 \<Longrightarrow> m (a + of_nat i) = m' (b + of_nat i)) \<Longrightarrow> Elf64_Phdr_at m a = Elf64_Phdr_at m' b"
proof -
  show "Elf64_Phdr_at m a = Elf64_Phdr_at m' b" if h: "\<And>i. i < 56 \<Longrightarrow> m (a + of_nat i) = m' (b + of_nat i)"
  proof -
    note rd = read_offset(2,3) [of 56 m a m' b]
    show ?thesis using rd(1) [of 0] rd(2) [of 8] rd(2) [of 24] rd(2) [of 32] rd(2) [of 40] h by (simp add: Elf64_Phdr_at_def)
  qed
  show "Elf64_Ehdr_at m a = Elf64_Ehdr_at m' b" if h: "\<And>i. i < 64 \<Longrightarrow> m (a + of_nat i) = m' (b + of_nat i)"
  proof -
    note rd = read_offset [of 64 m a m' b]
    show ?thesis using rd(1) [of 16] rd(1) [of 18] rd(2) [of 20] rd(3) [of 24] rd(3) [of 32] rd(1) [of 54] rd(1) [of 56] h
      by (auto simp: Elf64_Ehdr_at_def intro!: nth_equalityI)
  qed
qed

lemma get_elf_header_spec:
  assumes ok: "fw_ok fw owned" and fs: "fs_ok fw files content pos" and r: "get_elf_header fw kf e_hdr s = (EFI_SUCCESS, s')"
    and "elf_ok (content kf)"
  shows "owned (bt_fw s) \<subseteq> owned (bt_fw s') \<and> Elf64_Ehdr_at (bt_mem s') e_hdr = file_ehdr (content kf)"
proof -
  obtain a s1 where sp: "set_position fw kf 0 ''Jumping at the beginning of ELF failed'' s = (a, s1)" by fastforce
  then have a: "a = EFI_SUCCESS" and rd: "read_file fw kf 64 e_hdr ''Reading ELF header failed'' s1 = (EFI_SUCCESS, s')"
    using r by (auto simp: get_elf_header_def sizeof_Elf64_Ehdr_def split: if_splits)
  note e1 = set_position_extends [OF ok sp]
  have "owned (bt_fw s1) \<subseteq> owned (bt_fw s')"
    using rd by (auto simp: read_file_def Let_def extends_def split: prod.splits if_splits dest!: fw_calls(6) [OF ok])
  moreover have "holds (bt_mem s') e_hdr (part (content kf) 0 64)"
    using read_file_holds [OF ok fs rd] fs_okD(2) [OF fs] e1 a by metis
  then have "bt_mem s' (e_hdr + of_nat i) = file_mem (content kf) (0 + of_nat i)" if "i < 64" for i
    using holds_file_mem that assms(4) by (fastforce simp: elf_ok_def Let_def)
  then have "Elf64_Ehdr_at (bt_mem s') e_hdr = file_ehdr (content kf)"
    unfolding file_ehdr_def by (rule headers_shift)
  ultimately show ?thesis using e1 by (auto simp: extends_def)
qed

lemma get_elf_p_hdrs_spec:
  assumes ok: "fw_ok fw owned" and fs: "fs_ok fw files content pos"
    and r: "get_elf_p_hdrs fw kf e_hdr s = (EFI_SUCCESS, p_hdrs, s')" and elf: "elf_ok (content kf)"
    and E: "Elf64_Ehdr_at (bt_mem s) e_hdr = file_ehdr (content kf)"
  shows "extends owned s s' \<and> (\<forall>j. j < unat (e_phnum (file_ehdr (content kf))) \<longrightarrow>
    span (phdr_addr p_hdrs (file_ehdr (content kf)) j) 56 \<subseteq> owned (bt_fw s') \<and>
    Elf64_Phdr_at (bt_mem s') (phdr_addr p_hdrs (file_ehdr (content kf)) j) = file_phdr (content kf) j)"
proof -
  define c where "c = content kf"
  define h where "h = file_ehdr c"
  define sz where "sz = all_p_hdrs_sz h"
  let ?n = "unat (e_phentsize h) * unat (e_phnum h)"
  have bnd: "56 \<le> unat (e_phentsize h)" "unat (e_phoff h) + ?n \<le> length c" "length c < 2 ^ 31"
    using elf by (simp_all add: elf_ok_def Let_def h_def c_def)
  then have sz: "unat sz = ?n" unfolding sz_def by (intro all_p_hdrs_sz_exact) linarith
  obtain a p s1 where al: "alloc_pool fw sz ''Allocating memory for ELF p_hdrs failed'' s = (a, p, s1)" by (metis prod_cases3)
  note e1 = alloc_pool_extends [OF ok al]
  obtain b s2 where sp: "set_position fw kf (e_phoff h) ''Jumping at e_phoff in ELF file failed'' s1 = (b, s2)" by fastforce
  note e2 = set_position_extends [OF ok sp]
  have E': "Elf64_Ehdr_at (bt_mem s) e_hdr = h" using E by (simp add: h_def c_def)
  have ab: "a = EFI_SUCCESS" "b = EFI_SUCCESS" "p = p_hdrs"
    and rd: "read_file fw kf sz p_hdrs ''Reading ELF program headers failed'' s2 = (EFI_SUCCESS, s')"
    using r al sp e1 by (auto simp: get_elf_p_hdrs_def Let_def E' sz_def [symmetric] split: if_splits prod.splits)
  have x: "extends owned s s2" using e1 e2 extends_trans by blast
  have "allocs owned p_hdrs (unat sz) (bt_fw s) (bt_fw s1)" using e1 ab by simp
  note f = read_fresh [OF ok fs x this _ rd]
  have f: "extends owned s s'" "allocs owned p_hdrs ?n (bt_fw s) (bt_fw s')" "holds (bt_mem s') p_hdrs (part c (e_phoff h) sz)"
    using f e2 ab fs_okD(2) [OF fs, of kf "e_phoff h"] sz by (auto simp: extends_def c_def)
  have "span (phdr_addr p_hdrs h j) 56 \<subseteq> owned (bt_fw s') \<and> Elf64_Phdr_at (bt_mem s') (phdr_addr p_hdrs h j) = file_phdr c j"
    if j: "j < unat (e_phnum h)" for j
  proof -
    let ?k = "j * unat (e_phentsize h)"
    have "(j + 1) * unat (e_phentsize h) \<le> unat (e_phnum h) * unat (e_phentsize h)" using j by (intro mult_le_mono1) simp
    then have k: "?k + 56 \<le> ?n" using bnd(1) by (simp add: algebra_simps)
    have addr: "phdr_addr q h j = q + of_nat ?k" for q by (simp add: phdr_addr_def)
    have "span (phdr_addr p_hdrs h j) 56 \<subseteq> span p_hdrs ?n" unfolding addr using k bnd by (intro span_add_subset) auto
    moreover have "bt_mem s' (phdr_addr p_hdrs h j + of_nat i) = file_mem c (phdr_addr (e_phoff h) h j + of_nat i)" if "i < 56" for i
      using holds_file_mem [OF f(3), of "?k + i"] that k bnd sz by (simp add: addr add.assoc)
    then have "Elf64_Phdr_at (bt_mem s') (phdr_addr p_hdrs h j) = file_phdr c j"
      unfolding file_phdr_def h_def by (rule headers_shift)
    ultimately show ?thesis using f(2) by (auto simp: allocs_def)
  qed
  then show ?thesis using f(1) by (simp add: h_def c_def)
qed

text \<open>A kernel in memory: every segment of type \<^verbatim>\<open>PT_LOAD\<close> is at its physical address.\<close>

definition kernel_loaded :: "('f \<Rightarrow> u64 set) \<Rightarrow> 'f \<Rightarrow> 'f \<Rightarrow> mem \<Rightarrow> u8 list \<Rightarrow> bool" where
  "kernel_loaded owned f f' m c \<longleftrightarrow> (\<forall>j. j < unat (e_phnum (file_ehdr c)) \<longrightarrow> p_type (file_phdr c j) = PT_LOAD \<longrightarrow>
     segment_loaded owned f f' m c (file_phdr c j))"

lemma load_kernel_spec:
  assumes ok: "fw_ok fw owned" and fs: "fs_ok fw files content pos"
    and r: "load_kernel_into_memory fw im kf s = (entry, s')" and "entry \<noteq> 0"
    and elf: "elf_ok (content kf)" and ow: "span (e_hdr_addr im) 64 \<subseteq> owned (bt_fw s)"
  shows "owned (bt_fw s) \<subseteq> owned (bt_fw s') \<and> entry = e_entry (file_ehdr (content kf)) \<and>
    kernel_loaded owned (bt_fw s) (bt_fw s') (bt_mem s') (content kf)"
proof -
  let ?c = "content kf"
  let ?e = "e_hdr_addr im"
  obtain s1 p_hdrs s2 where gh: "get_elf_header fw kf ?e s = (EFI_SUCCESS, s1)"
    and gp: "get_elf_p_hdrs fw kf ?e s1 = (EFI_SUCCESS, p_hdrs, s2)"
    and ls: "load_segments fw kf ?e 0 p_hdrs s2 = (True, s')" and en: "entry = e_entry (Elf64_Ehdr_at (bt_mem s') ?e)"
    using r \<open>entry \<noteq> 0\<close> by (auto simp: load_kernel_into_memory_def Let_def split: prod.splits if_splits)
  note e1 = get_elf_header_spec [OF ok fs gh elf]
  note e2 = get_elf_p_hdrs_spec [OF ok fs gp elf conjunct2 [OF e1]]
  have ow1: "span ?e 64 \<subseteq> owned (bt_fw s1)" using ow e1 by blast
  have E2: "file_ehdr ?c = Elf64_Ehdr_at (bt_mem s2) ?e" and ow2: "span ?e 64 \<subseteq> owned (bt_fw s2)"
    using struct_extends(1) [OF conjunct1 [OF e2] ow1] e1 extends_owned [OF conjunct1 [OF e2] ow1] by simp_all
  have e3: "extends owned s2 s' \<and> kernel_loaded owned (bt_fw s2) (bt_fw s') (bt_mem s') ?c"
    unfolding kernel_loaded_def
    using load_segments_spec [OF ok fs ls E2 ow2, of p_hdrs "file_phdr ?c"] e2 elf
    by (simp add: phdr_addr_def elf_ok_def Let_def list_all_iff)
  have "entry = e_entry (file_ehdr ?c)"
    using en struct_extends(1) [OF conjunct1 [OF e3] ow2] E2 by simp
  moreover have mono: "owned (bt_fw s) \<subseteq> owned (bt_fw s2)" using e1 e2 by (auto simp: extends_def)
  moreover have "kernel_loaded owned (bt_fw s) (bt_fw s') (bt_mem s') ?c"
    using e3 allocs_since [where owned = owned, OF _ mono] unfolding kernel_loaded_def segment_loaded_def by simp
  ultimately show ?thesis using e1 e2 e3 by (auto simp: extends_def)
qed

section \<open>Starting the kernel: theorems\<close>

lemma efi_memory_map_extends:
  assumes ok: "fw_ok fw owned" and r: "efi_memory_map fw n buf s = (status, i, s')" and e: "extends owned s0 s"
    and d: "span buf (unat n) \<inter> owned (bt_fw s0) = {}"
  shows "extends owned s0 s' \<and> owned (bt_fw s) \<subseteq> owned (bt_fw s') \<and> bt_mem s' = put_bytes (bt_mem s) buf (map_bytes i) \<and>
    GetMemoryMap fw n (bt_fw s) = (status, i, bt_fw s') \<and> length (map_bytes i) \<le> unat n"
proof -
  obtain s1 where c: "fw_call (GetMemoryMap fw n) s = (status, i, s1)"
    and s': "s' = s1\<lparr>bt_mem := put_bytes (bt_mem s1) buf (map_bytes i)\<rparr>"
    using r by (auto simp: efi_memory_map_def Let_def split: prod.splits)
  note k = fw_calls(7) [OF ok c]
  have len: "length (map_bytes i) \<le> unat n" using ok k unfolding fw_ok_def fw_fills_def by (metis fst_conv snd_conv)
  have "extends owned s0 s'"
    unfolding s' using extends_fill [OF extends_trans [OF e conjunct1 [OF k]] d len] u64_bound [of n] by simp
  then show ?thesis using k len s' by (auto simp: extends_def)
qed

lemma get_memory_map_spec:
  assumes ok: "fw_ok fw owned" and r: "get_memory_map fw 0 0 k 0 s = (EFI_SUCCESS, (sz, buf, key, dsz), s')"
  shows "extends owned s s' \<and> (\<exists>n f i. GetMemoryMap fw n f = (EFI_SUCCESS, i, bt_fw s') \<and>
    sz = map_size i \<and> key = map_key i \<and> dsz = map_desc_size i \<and>
    allocs owned buf (length (map_bytes i)) (bt_fw s) (bt_fw s') \<and> holds (bt_mem s') buf (map_bytes i))"
proof -
  obtain a i s1 where m1: "efi_memory_map fw 0 0 s = (a, i, s1)" by (metis prod_cases3)
  note e1 = efi_memory_map_extends [OF ok m1 extends_refl]
  obtain b p s2 where al: "alloc_pool fw (map_size i) ''Allocation for memory map failed'' s1 = (b, p, s2)" by (metis prod_cases3)
  note e2 = alloc_pool_extends [OF ok al]
  obtain c i2 s3 where m2: "efi_memory_map fw (map_size i) p s2 = (c, i2, s3)" by (metis prod_cases3)
  have ab: "b = EFI_SUCCESS" "c = EFI_SUCCESS" "p = buf" "s' = s3" "sz = map_size i2" "key = map_key i2" "dsz = map_desc_size i2"
    using r m1 al m2 by (auto simp: get_memory_map_def Let_def EFI_ABORTED_def EFI_SUCCESS_def EFI_ERR_def split: if_splits)
  have x1: "extends owned s s1" using e1 by (auto simp: span_def)
  have al: "allocs owned buf (unat (map_size i)) (bt_fw s1) (bt_fw s2)" using e2 ab by simp
  note e3 = efi_memory_map_extends [OF ok m2, of s1, unfolded ab(2,3)]
  have e3: "extends owned s1 s'" "owned (bt_fw s2) \<subseteq> owned (bt_fw s')" "length (map_bytes i2) \<le> unat (map_size i)"
    "bt_mem s' = put_bytes (bt_mem s2) buf (map_bytes i2)" "GetMemoryMap fw (map_size i) (bt_fw s2) = (EFI_SUCCESS, i2, bt_fw s')"
    using e3 e2 al ab by (auto simp: allocs_def)
  have "allocs owned buf (length (map_bytes i2)) (bt_fw s) (bt_fw s')"
    using al x1 e3 by (intro allocs_mono [OF al]) (auto simp: extends_def)
  moreover have "holds (bt_mem s') buf (map_bytes i2)"
    using e3(3,4) u64_bound [of "map_size i"] by (simp add: holds_def)
  ultimately show ?thesis using e3 extends_trans [OF x1 e3(1)] ab by blast
qed

text \<open>What the kernel finds of the memory map.\<close>

definition map_handed :: "('f \<Rightarrow> u64 set) \<Rightarrow> 'f \<Rightarrow> 'f \<Rightarrow> mem \<Rightarrow> u64 \<Rightarrow> map_info \<Rightarrow> bool" where
  "map_handed owned f f' m md i \<longleftrightarrow> allocs owned md 32 f f' \<and>
     (\<exists>buf. MemoryData_at m md = \<lparr>md_mmap = buf, md_mmap_sz = map_size i, md_desc_sz = map_desc_size i,
          md_entries = map_size i div map_desc_size i\<rparr> \<and>
        allocs owned buf (length (map_bytes i)) f f' \<and> holds m buf (map_bytes i))"

text \<open>
  The loader checks the pointer and not the status of two of its allocations, so it relies on a failed allocation
  leaving the pointer null, which the specification does not promise.
\<close>

definition fw_null_on_failure :: "'f uefi \<Rightarrow> bool" where
  "fw_null_on_failure fw \<longleftrightarrow>
     (\<forall>n f status p f'. AllocatePool fw n f = (status, p, f') \<longrightarrow> status \<noteq> EFI_SUCCESS \<longrightarrow> out_ptr p = 0)"

lemma alloc_pool_nonnull:
  assumes "fw_null_on_failure fw" and "alloc_pool fw n msg s = (status, p, s')" and "p \<noteq> 0"
  shows "status = EFI_SUCCESS"
proof -
  obtain q f' where "AllocatePool fw n (bt_fw s) = (status, q, f')" and "p = out_ptr q"
    using assms(2) by (auto simp: alloc_pool_def fw_call_def Let_def split: prod.splits if_splits)
  with assms(1,3) show ?thesis unfolding fw_null_on_failure_def by blast
qed

lemma get_memory_data_spec:
  assumes ok: "fw_ok fw owned" and nf: "fw_null_on_failure fw" and r: "get_memory_data fw k s = Inr (md, key, s')" and "md \<noteq> 0"
  shows "extends owned s s' \<and> (\<exists>n f i. GetMemoryMap fw n f = (EFI_SUCCESS, i, bt_fw s') \<and> key = map_key i \<and>
    map_desc_size i \<noteq> 0 \<and> map_handed owned (bt_fw s) (bt_fw s') (bt_mem s') md i)"
proof -
  obtain a p s1 where al: "alloc_pool fw 32 ''Allocating memory for memory data struct failed'' s = (a, p, s1)" by (metis prod_cases3)
  obtain b sz buf ky dsz s2 where gm: "get_memory_map fw 0 0 k 0 s1 = (b, (sz, buf, ky, dsz), s2)" by (metis prod_cases3)
  have b: "b = EFI_SUCCESS" "p = md" "dsz \<noteq> 0" "key = ky"
    and s': "s' = s2\<lparr>bt_mem := write64 (write64 (write64 (write64 (bt_mem s2) (md + 16) dsz) (md + 8) sz) md buf)
        (md + 24) (sz div dsz)\<rparr>"
    using r al gm \<open>md \<noteq> 0\<close> by (auto simp: get_memory_data_def sizeof_boot_MemoryData_def Let_def split: if_splits)
  note e1 = alloc_pool_extends [OF ok al]
  have a: "allocs owned md 32 (bt_fw s) (bt_fw s1)" using e1 alloc_pool_nonnull [OF nf al] b \<open>md \<noteq> 0\<close> by simp
  obtain n f i where e2: "extends owned s1 s2" "GetMemoryMap fw n f = (EFI_SUCCESS, i, bt_fw s2)" "sz = map_size i" "ky = map_key i"
    "dsz = map_desc_size i" "allocs owned buf (length (map_bytes i)) (bt_fw s1) (bt_fw s2)" "holds (bt_mem s2) buf (map_bytes i)"
    using get_memory_map_spec [OF ok gm [unfolded b(1)]] by blast
  have x2: "extends owned s s2" using e1 e2(1) extends_trans by blast
  have out: "bt_mem s' x = bt_mem s2 x" if "x \<notin> span md 32" for x
    using that span_field [where N = 32 and x = x and p = md] by (simp add: s' c64.wr_outside)
  then have "extends owned s (s2\<lparr>bt_mem := bt_mem s'\<rparr>)"
    using a by (intro extends_struct [OF x2, where p = md and n = 32]) (auto simp: allocs_def)
  then have x: "extends owned s s'" by (simp add: s')
  have "span buf (length (map_bytes i)) \<inter> span md 32 = {}" using a e2(6) by (auto simp: allocs_def)
  then have "holds (bt_mem s') buf (map_bytes i)" using out e2(7) by (intro holds_outside [OF e2(7)]) auto
  moreover have "MemoryData_at (bt_mem s') md = \<lparr>md_mmap = buf, md_mmap_sz = sz, md_desc_sz = dsz, md_entries = sz div dsz\<rparr>"
    by (simp add: s' MemoryData_at_def struct_simps)
  moreover have "allocs owned md 32 (bt_fw s) (bt_fw s')" "allocs owned buf (length (map_bytes i)) (bt_fw s) (bt_fw s')"
    using a e1 e2(1,6) by (auto intro: allocs_mono simp: s' extends_def)
  ultimately have "map_handed owned (bt_fw s) (bt_fw s') (bt_mem s') md i" using e2 by (simp add: map_handed_def)
  then show ?thesis using x e2 b by (auto simp: s')
qed

text \<open>A step that changes memory in use in a set \<open>A\<close> only.\<close>

definition extends_but :: "('f \<Rightarrow> u64 set) \<Rightarrow> u64 set \<Rightarrow> 'f boot \<Rightarrow> 'f boot \<Rightarrow> bool" where
  "extends_but owned A s s' \<longleftrightarrow> owned (bt_fw s) \<subseteq> owned (bt_fw s') \<and> (\<forall>x \<in> owned (bt_fw s) - A. bt_mem s' x = bt_mem s x)"

lemma extends_but_trans: "extends owned s s' \<Longrightarrow> extends_but owned A s' s'' \<Longrightarrow> extends_but owned A s s''"
  by (fastforce simp: extends_def extends_but_def)

lemma extends_but_span:
  "extends_but owned A s s' \<Longrightarrow> allocs owned a n f (bt_fw s) \<Longrightarrow> A \<subseteq> owned f \<Longrightarrow> x \<in> span a n \<Longrightarrow> bt_mem s' x = bt_mem s x"
  unfolding extends_but_def allocs_def by blast

lemma extends_but_allocs:
  "extends_but owned A s s' \<Longrightarrow> allocs owned a n f (bt_fw s) \<Longrightarrow> allocs owned a n f (bt_fw s')"
  by (auto simp: extends_but_def allocs_def)

lemma structs_cong:
  "(\<And>x. x \<in> span p 24 \<Longrightarrow> m' x = m x) \<Longrightarrow> ConsoleFont_at m' p = ConsoleFont_at m p"
  "(\<And>x. x \<in> span p 32 \<Longrightarrow> m' x = m x) \<Longrightarrow> FramebufferData_at m' p = FramebufferData_at m p"
  "(\<And>x. x \<in> span p 32 \<Longrightarrow> m' x = m x) \<Longrightarrow> MemoryData_at m' p = MemoryData_at m p"
proof -
  have f: "m' (p + of_nat i) = m (p + of_nat i)" if "\<And>x. x \<in> span p n \<Longrightarrow> m' x = m x" "i < n" "n < 2 ^ 64" for i n
    using that by (simp add: span_iff)
  show "ConsoleFont_at m' p = ConsoleFont_at m p" if h: "\<And>x. x \<in> span p 24 \<Longrightarrow> m' x = m x"
  proof -
    note rd = read_offset(3) [of 24 m' p m p] f [of 24]
    show ?thesis using rd(1) [of 0] rd(1) [of 16] rd(2) [of 8] rd(2) [of 9] h rd(2) by (simp add: ConsoleFont_at_def)
  qed
  show "FramebufferData_at m' p = FramebufferData_at m p" if h: "\<And>x. x \<in> span p 32 \<Longrightarrow> m' x = m x"
  proof -
    note rd = read_offset(1,3) [of 32 m' p m p] f [of 32]
    show ?thesis using rd(2) [of 0] rd(2) [of 8] rd(2) [of 16] rd(1) [of 24] rd(1) [of 26] rd(1) [of 28] rd(3) [of 30] h rd(3)
      by (simp add: FramebufferData_at_def)
  qed
  show "MemoryData_at m' p = MemoryData_at m p" if h: "\<And>x. x \<in> span p 32 \<Longrightarrow> m' x = m x"
  proof -
    note rd = read_offset(3) [of 32 m' p m p] f [of 32]
    show ?thesis using rd(1) [of 0] rd(1) [of 8] rd(1) [of 16] rd(1) [of 24] h rd(2) by (simp add: MemoryData_at_def)
  qed
qed

text \<open>What was allocated since \<open>f\<close> survives a step that changes only memory that was in use in \<open>f\<close>.\<close>

lemma handed_extends_but:
  assumes e: "extends_but owned A s s'" and A: "A \<subseteq> owned f"
  shows "font_loaded owned f (bt_fw s) (bt_mem s) font c \<Longrightarrow> font_loaded owned f (bt_fw s') (bt_mem s') font c"
    and "kernel_loaded owned f (bt_fw s) (bt_mem s) c \<Longrightarrow> kernel_loaded owned f (bt_fw s') (bt_mem s') c"
    and "map_handed owned f (bt_fw s) (bt_mem s) md i \<Longrightarrow> map_handed owned f (bt_fw s') (bt_mem s') md i"
proof -
  note sp = extends_but_span [OF e _ A] and al = extends_but_allocs [OF e]
  have h: "holds (bt_mem s') a bs" if "holds (bt_mem s) a bs" "allocs owned a n f (bt_fw s)" "length bs \<le> n" for a bs n
    using that sp [of a n] span_mono [OF that(3), of a] by (intro holds_outside [OF that(1)]) auto
  show "font_loaded owned f (bt_fw s') (bt_mem s') font c" if l: "font_loaded owned f (bt_fw s) (bt_mem s) font c"
  proof -
    obtain hdr buf where
      st: "ConsoleFont_at (bt_mem s) font = \<lparr>psf_header = hdr, glyph_height = 16, glyph_width = 8, glyph_buffer = buf\<rparr>"
      and fo: "allocs owned font 24 f (bt_fw s)"
      and hd: "holds (bt_mem s) hdr (take 4 c)" "allocs owned hdr 4 f (bt_fw s)"
      and gl: "holds (bt_mem s) buf (psf_glyphs c)" "allocs owned buf (length (psf_glyphs c)) f (bt_fw s)"
      using l unfolding font_loaded_def by blast
    have "ConsoleFont_at (bt_mem s') font = ConsoleFont_at (bt_mem s) font" using sp [OF fo] by (rule structs_cong(1))
    then show ?thesis
      unfolding font_loaded_def using st al fo hd(2) gl(2) h [OF hd] h [OF gl] by simp
  qed
  show "kernel_loaded owned f (bt_fw s') (bt_mem s') c" if "kernel_loaded owned f (bt_fw s) (bt_mem s) c"
    using that al h length_part unfolding kernel_loaded_def segment_loaded_def by blast
  show "map_handed owned f (bt_fw s') (bt_mem s') md i" if l: "map_handed owned f (bt_fw s) (bt_mem s) md i"
  proof -
    have "allocs owned md 32 f (bt_fw s)" using l by (simp add: map_handed_def)
    then have "MemoryData_at (bt_mem s') md = MemoryData_at (bt_mem s) md" using sp structs_cong(3) by blast
    then show ?thesis using l al h unfolding map_handed_def by (metis order_refl)
  qed
qed

lemma handed_mono:
  assumes "owned f' \<subseteq> owned f" and "owned g \<subseteq> owned g'"
  shows "font_loaded owned f g m font c \<Longrightarrow> font_loaded owned f' g' m font c"
    and "kernel_loaded owned f g m c \<Longrightarrow> kernel_loaded owned f' g' m c"
    and "map_handed owned f g m md i \<Longrightarrow> map_handed owned f' g' m md i"
proof -
  have al: "allocs owned a n f' g'" if "allocs owned a n f g" for a n using that assms by (rule allocs_mono) simp
  show "font_loaded owned f' g' m font c" if "font_loaded owned f g m font c"
    using that al unfolding font_loaded_def by blast
  show "kernel_loaded owned f' g' m c" if "kernel_loaded owned f g m c"
    using that al unfolding kernel_loaded_def segment_loaded_def by blast
  show "map_handed owned f' g' m md i" if "map_handed owned f g m md i"
    using that al unfolding map_handed_def by blast
qed

lemma start_kernel_spec:
  assumes ok: "fw_ok fw owned" and nf: "fw_null_on_failure fw"
    and r: "start_kernel fw im ih fb font kaddr rsdp s = Inr (Some (k, bd), s')"
    and bd_owned: "span (bootloader_data_addr im) 32 \<subseteq> owned (bt_fw s)"
  shows "k = kaddr \<and> bd = bootloader_data_addr im \<and> extends_but owned (span bd 32) s s' \<and> (\<exists>md.
    BootloaderData_at (bt_mem s') bd = \<lparr>bd_framebuffer = fb, bd_font = font, bd_memory = md, bd_acpi_rsdp = rsdp\<rparr> \<and>
    (\<exists>n f i f'. GetMemoryMap fw n f = (EFI_SUCCESS, i, f') \<and> ExitBootServices fw ih (map_key i) f' = (EFI_SUCCESS, bt_fw s') \<and>
       map_handed owned (bt_fw s) (bt_fw s') (bt_mem s') md i))"
proof -
  obtain a st s1 where al: "alloc_pool fw KERNEL_STACK_SIZE ''Memory allocation for kernel stack failed'' s = (a, st, s1)"
    by (metis prod_cases3)
  note e1 = alloc_pool_extends [OF ok al]
  have "st \<noteq> 0" using r al by (auto simp: start_kernel_def allocate_memory_for_kernel_stack_def)
  then obtain md key s2 where gm: "get_memory_data fw 0 s1 = Inr (md, key, s2)" "md \<noteq> 0"
    using r al by (auto simp: start_kernel_def allocate_memory_for_kernel_stack_def bind_res_Inr_iff split: if_splits)
  obtain c s3 where ex: "fw_call1 (ExitBootServices fw ih key) s2 = (c, s3)" by fastforce
  let ?p = "bootloader_data_addr im"
  have c: "c = EFI_SUCCESS" "k = kaddr" "bd = ?p"
    and s': "s' = s3\<lparr>bt_mem := write64 (write64 (write64 (write64 (bt_mem s3) ?p fb) (?p + 8) font) (?p + 16) md) (?p + 24) rsdp\<rparr>"
    using r al \<open>st \<noteq> 0\<close> gm ex by (auto simp: start_kernel_def allocate_memory_for_kernel_stack_def Let_def split: if_splits)
  note e3 = fw_calls(10) [OF ok ex]
  obtain n f i where e2: "extends owned s1 s2" "GetMemoryMap fw n f = (EFI_SUCCESS, i, bt_fw s2)" "key = map_key i"
    "map_handed owned (bt_fw s1) (bt_fw s2) (bt_mem s2) md i" using get_memory_data_spec [OF ok nf gm] by blast
  have x: "extends owned s s3" using e1 e2(1) e3 extends_trans by blast
  have out: "bt_mem s' x = bt_mem s3 x" if "x \<notin> span ?p 32" for x
    using that span_field [where N = 32 and x = x and p = ?p] by (simp add: s' c64.wr_outside)
  have b: "extends_but owned (span ?p 32) s3 s'" using out by (simp add: extends_but_def s')
  have "map_handed owned (bt_fw s) (bt_fw s3) (bt_mem s3) md i"
    using handed_mono(3) [OF _ _ e2(4), of "bt_fw s" "bt_fw s3"] e1 e3 by (simp add: extends_def)
  then have "map_handed owned (bt_fw s) (bt_fw s') (bt_mem s') md i" by (rule handed_extends_but(3) [OF b bd_owned])
  moreover have "BootloaderData_at (bt_mem s') ?p = \<lparr>bd_framebuffer = fb, bd_font = font, bd_memory = md, bd_acpi_rsdp = rsdp\<rparr>"
    by (simp add: s' BootloaderData_at_def struct_simps)
  moreover have "ExitBootServices fw ih (map_key i) (bt_fw s2) = (EFI_SUCCESS, bt_fw s')"
    using ex c e2(3) by (auto simp: fw_call1_def s' split: prod.splits)
  ultimately show ?thesis using c e2(2) extends_but_trans [OF x b] by blast
qed

text \<open>A graphics mode and a block of memory the firmware can give.\<close>

definition mode_of :: "'f uefi \<Rightarrow> gop_mode \<Rightarrow> bool" where
  "mode_of fw mode \<longleftrightarrow> (\<exists>g f. mode = gop_Mode fw g f)"

definition pool_of :: "'f uefi \<Rightarrow> u64 \<Rightarrow> u64 \<Rightarrow> bool" where
  "pool_of fw n p \<longleftrightarrow> (\<exists>q f f'. AllocatePool fw n f = (EFI_SUCCESS, q, f') \<and> p = out_ptr q)"

lemma alloc_pool_pool_of: "alloc_pool fw n msg s = (EFI_SUCCESS, p, s') \<Longrightarrow> pool_of fw n p"
  by (auto simp: alloc_pool_def pool_of_def fw_call_def Let_def split: prod.splits if_splits)

lemma framebuffer_stage:
  assumes ok: "fw_ok fw owned" and g: "get_framebuffer fw s = (fb, s1)" and "fb \<noteq> 0"
    and a: "allocate_double_framebuffer fw (read64 (bt_mem s1) (fb + 16)) (Print msg args s1) = (buf, s2)" and "buf \<noteq> 0"
    and s3: "s3 = s2\<lparr>bt_mem := write64 (bt_mem s2) (fb + 8) buf\<rparr>"
  shows "extends owned s s3 \<and> allocs owned fb 32 (bt_fw s) (bt_fw s3) \<and> (\<exists>mode.
    FramebufferData_at (bt_mem s3) fb = mode_data mode buf \<and> mode_of fw mode \<and> pool_of fw (FrameBufferSize mode) buf \<and>
    allocs owned buf (unat (FrameBufferSize mode)) (bt_fw s) (bt_fw s3))"
proof -
  obtain mode where e1: "extends owned s s1" "allocs owned fb 32 (bt_fw s) (bt_fw s1)"
    "FramebufferData_at (bt_mem s1) fb = mode_data mode (read64 (bt_mem s1) (fb + 8))" "mode_of fw mode"
    using get_framebuffer_spec [OF ok g] \<open>fb \<noteq> 0\<close> unfolding mode_of_def by blast
  have sz: "read64 (bt_mem s1) (fb + 16) = FrameBufferSize mode"
    using arg_cong [OF e1(3), of fd_b_size] by (simp add: FramebufferData_at_def mode_data_def)
  have "alloc_pool fw (FrameBufferSize mode) ''Allocating memory for double framebuffer failed'' (Print msg args s1) = (EFI_SUCCESS, buf, s2)"
    using a \<open>buf \<noteq> 0\<close> by (auto simp: allocate_double_framebuffer_def sz split: prod.splits if_splits)
  note e2 = alloc_pool_extends [OF ok this, simplified] alloc_pool_pool_of [OF this]
  have x2: "extends owned s s2" using e1 e2 extends_trans by blast
  have "bt_mem s3 x = bt_mem s2 x" if "x \<notin> span fb 32" for x
    using that span_field(1) [of x fb 32 8 8] by (simp add: s3 c64.wr_outside)
  then have "extends owned s (s2\<lparr>bt_mem := bt_mem s3\<rparr>)"
    using e1(2) by (intro extends_struct [OF x2, where p = fb and n = 32]) (auto simp: allocs_def)
  moreover have "FramebufferData_at (bt_mem s3) fb = mode_data mode buf"
    using e1(3) e2 by (simp add: s3 FramebufferData_at_def mode_data_def struct_simps)
  moreover have "allocs owned fb 32 (bt_fw s) (bt_fw s3)" "allocs owned buf (unat (FrameBufferSize mode)) (bt_fw s) (bt_fw s3)"
    using e1 e2 by (auto intro: allocs_mono simp: s3 extends_def)
  ultimately show ?thesis using e1(4) e2 by (auto simp: s3)
qed

end
