(* ===== verification/BootRun.thy ===== *)
theory BootRun
  imports BootKernel
begin

text \<open>
  The boot as a whole (\<^verbatim>\<open>efi_main\<close>). Theorems: what the kernel finds in memory when it is called; a memory map that grows by
  its own buffer stops the boot. A concrete firmware shows that the hypotheses on the firmware can be met: the boot
  loader, run on it, loads a small kernel and calls it.
\<close>

section \<open>The hand-over\<close>

text \<open>A run that calls the kernel passes through all the stages.\<close>

lemma efi_main_stages:
  assumes "efi_main fw im ih s = Inr (status, Some call, s')"
  obtains p1 p2 p3 p4 p5 p6 h s1 ka s2 font s3 fb s4 buf s5 s6 rsdp where
    "load_file fw 0 ''kernel.elf'' ih (Print p1 [] s) = (h, s1)" "h \<noteq> 0"
    "load_kernel_into_memory fw im h (Print p2 [] s1) = (ka, s2)" "ka \<noteq> 0"
    "load_psf_font fw 0 ''zap-light16.psf'' ih (Print p3 [] s2) = (font, s3)" "font \<noteq> 0"
    "get_framebuffer fw (Print p4 [] s3) = (fb, s4)" "fb \<noteq> 0"
    "allocate_double_framebuffer fw (read64 (bt_mem s4) (fb + 16)) (Print p5 [] s4) = (buf, s5)" "buf \<noteq> 0"
    "s6 = s5\<lparr>bt_mem := write64 (bt_mem s5) (fb + 8) buf\<rparr>" "rsdp \<noteq> 0" "rsdp = get_rsdp fw s6"
    "start_kernel fw im ih fb font ka rsdp (s6\<lparr>bt_out := p6\<rparr>) = Inr (Some call, s')"
  using assms
  by (fastforce simp: efi_main_def Let_def bind_res_Inr_iff get_rsdp_def Print_def split: prod.splits if_splits)

lemma extends_out [simp]:
  "extends owned s (s'\<lparr>bt_out := p\<rparr>) = extends owned s s'" "extends owned (s\<lparr>bt_out := p\<rparr>) s' = extends owned s s'"
  "extends_but owned A (s\<lparr>bt_out := p\<rparr>) s' = extends_but owned A s s'"
  by (simp_all add: extends_def extends_but_def)

lemma extends_subset: "extends owned s s' \<Longrightarrow> owned (bt_fw s) \<subseteq> owned (bt_fw s')"
  by (simp add: extends_def)

lemma handed_extends:
  assumes e: "extends owned s s'"
  shows "font_loaded owned f (bt_fw s) (bt_mem s) font c \<Longrightarrow> font_loaded owned f (bt_fw s') (bt_mem s') font c"
    and "kernel_loaded owned f (bt_fw s) (bt_mem s) c \<Longrightarrow> kernel_loaded owned f (bt_fw s') (bt_mem s') c"
  using handed_extends_but(1,2) [of owned "{}" s s' f] e by (simp_all add: extends_def extends_but_def)

text \<open>
  What is in memory for the kernel, put there since the state \<open>f\<close> of the firmware: its segments, and behind \<^verbatim>\<open>BootloaderData\<close> the font,
  a graphics mode with a second buffer of its size, the memory map of the state in which the boot services were
  left with its key, and a root pointer.
\<close>

definition handed_over ::
    "'f uefi \<Rightarrow> ('f \<Rightarrow> u64 set) \<Rightarrow> (string \<Rightarrow> u8 list) \<Rightarrow> u64 \<Rightarrow> 'f \<Rightarrow> 'f boot \<Rightarrow> u64 \<Rightarrow> bool" where
  "handed_over fw owned files ih f s' bd \<longleftrightarrow>
    kernel_loaded owned f (bt_fw s') (bt_mem s') (files ''kernel.elf'') \<and>
    (\<exists>fb font md rsdp mode buf n g i f'.
      BootloaderData_at (bt_mem s') bd = \<lparr>bd_framebuffer = fb, bd_font = font, bd_memory = md, bd_acpi_rsdp = rsdp\<rparr> \<and>
      font_loaded owned f (bt_fw s') (bt_mem s') font (files ''zap-light16.psf'') \<and>
      FramebufferData_at (bt_mem s') fb = mode_data mode buf \<and> mode_of fw mode \<and> pool_of fw (FrameBufferSize mode) buf \<and>
      allocs owned buf (unat (FrameBufferSize mode)) f (bt_fw s') \<and>
      GetMemoryMap fw n g = (EFI_SUCCESS, i, f') \<and> ExitBootServices fw ih (map_key i) f' = (EFI_SUCCESS, bt_fw s') \<and>
      map_handed owned f (bt_fw s') (bt_mem s') md i \<and> rsdp \<noteq> 0)"

lemma efi_main_handover:
  assumes ok: "fw_ok fw owned" and nf: "fw_null_on_failure fw" and fs: "fs_ok fw files content pos"
    and elf: "elf_ok (files ''kernel.elf'')" and psf: "4 \<le> length (files ''zap-light16.psf'')"
    and stack: "span (e_hdr_addr im) 64 \<subseteq> owned (bt_fw s)" "span (bootloader_data_addr im) 32 \<subseteq> owned (bt_fw s)"
    and run: "efi_main fw im ih s = Inr (status, Some (k, bd), s')"
  shows "k = e_entry (file_ehdr (files ''kernel.elf'')) \<and> bd = bootloader_data_addr im \<and>
    handed_over fw owned files ih (bt_fw s) s' bd"
proof -
  let ?kf = "files ''kernel.elf''" and ?pf = "files ''zap-light16.psf''" and ?A = "span (bootloader_data_addr im) 32"
  from run show ?thesis
  proof (cases rule: efi_main_stages)
    case (1 p1 p2 p3 p4 p5 p6 h s1 ka s2 font s3 fb s4 buf s5 s6 rsdp)
    note e1 = load_file_extends [OF ok 1(1), simplified]
    have c: "content h = ?kf" using load_file_opens [OF fs 1(1,2)] by simp
    have e2: "owned (bt_fw s1) \<subseteq> owned (bt_fw s2)" "ka = e_entry (file_ehdr ?kf)"
      "kernel_loaded owned (bt_fw s1) (bt_fw s2) (bt_mem s2) ?kf"
      using load_kernel_spec [OF ok fs 1(3,4)] elf c extends_owned [OF e1 stack(1)] by simp_all
    have e3: "extends owned s2 s3" "font_loaded owned (bt_fw s2) (bt_fw s3) (bt_mem s3) font ?pf"
      using load_psf_font_spec [OF ok fs 1(5) psf] 1(6) by simp_all
    obtain mode where e4: "extends owned s3 s6" "FramebufferData_at (bt_mem s6) fb = mode_data mode buf"
      "allocs owned fb 32 (bt_fw s3) (bt_fw s6)" "allocs owned buf (unat (FrameBufferSize mode)) (bt_fw s3) (bt_fw s6)"
      "mode_of fw mode" "pool_of fw (FrameBufferSize mode) buf"
      using framebuffer_stage [OF ok 1(7,8,9,10,11)] by auto
    have m: "owned (bt_fw s) \<subseteq> owned (bt_fw s1)" "owned (bt_fw s) \<subseteq> owned (bt_fw s2)" "owned (bt_fw s) \<subseteq> owned (bt_fw s3)"
      "owned (bt_fw s) \<subseteq> owned (bt_fw s6)"
      using extends_subset [OF e1] e2(1) extends_subset [OF e3(1)] extends_subset [OF e4(1)] by blast+
    have "?A \<subseteq> owned (bt_fw (s6\<lparr>bt_out := p6\<rparr>))" using stack(2) m(4) by simp
    from start_kernel_spec [OF ok nf 1(14) this] obtain md n f i f' where
      e5: "k = ka" "bd = bootloader_data_addr im" "extends_but owned ?A s6 s'"
      "BootloaderData_at (bt_mem s') bd = \<lparr>bd_framebuffer = fb, bd_font = font, bd_memory = md, bd_acpi_rsdp = rsdp\<rparr>"
      "GetMemoryMap fw n f = (EFI_SUCCESS, i, f')" "ExitBootServices fw ih (map_key i) f' = (EFI_SUCCESS, bt_fw s')"
      "map_handed owned (bt_fw s6) (bt_fw s') (bt_mem s') md i" by auto
    have e6: "extends owned s2 s6" using e3(1) e4(1) by (rule extends_trans)
    note ls = handed_extends_but [OF e5(3) stack(2)]
    have "kernel_loaded owned (bt_fw s) (bt_fw s') (bt_mem s') ?kf"
      using handed_mono(2) [OF m(1) subset_refl e2(3)] by (intro ls(2) handed_extends(2) [OF e6])
    moreover have "font_loaded owned (bt_fw s) (bt_fw s') (bt_mem s') font ?pf"
      using handed_mono(1) [OF m(2) subset_refl e3(2)] by (intro ls(1) handed_extends(1) [OF e4(1)])
    moreover have "map_handed owned (bt_fw s) (bt_fw s') (bt_mem s') md i"
      using handed_mono(3) [OF m(4) subset_refl e5(7)] .
    moreover have al: "allocs owned fb 32 (bt_fw s) (bt_fw s6)" "allocs owned buf (unat (FrameBufferSize mode)) (bt_fw s) (bt_fw s6)"
      using allocs_since [OF e4(3) m(3)] allocs_since [OF e4(4) m(3)] .
    moreover have "FramebufferData_at (bt_mem s') fb = mode_data mode buf"
      using structs_cong(2) [OF extends_but_span [OF e5(3) al(1) stack(2)]] e4(2) by simp
    ultimately have "handed_over fw owned files ih (bt_fw s) s' bd"
      unfolding handed_over_def using e4(5,6) e5(4,5,6) \<open>rsdp \<noteq> 0\<close> extends_but_allocs [OF e5(3) al(2)] by blast
    then show ?thesis using e2(2) e5(1,2) by simp
  qed
qed


section \<open>A memory map that grows\<close>

text \<open>
  A firmware whose map needs \<open>needed f\<close> bytes and grows when its buffer is allocated, as an allocation that splits a region of
  free memory does. A buffer that is too small is refused with the size that is needed.
\<close>

definition map_grows :: "'f uefi \<Rightarrow> ('f \<Rightarrow> u64) \<Rightarrow> bool" where
  "map_grows fw needed \<longleftrightarrow>
     (\<forall>n f. n < needed f \<longrightarrow> (\<exists>i. GetMemoryMap fw n f = (EFI_BUFFER_TOO_SMALL, i, f) \<and> map_size i = needed f)) \<and>
     (\<forall>f. 0 < needed f) \<and>
     (\<forall>f p f'. AllocatePool fw (needed f) f = (EFI_SUCCESS, p, f') \<longrightarrow> needed f < needed f')"

lemma get_memory_map_grows:
  assumes g: "map_grows fw needed"
  shows "\<exists>status r s'. get_memory_map fw 0 0 k 0 s = (status, r, s') \<and> status \<noteq> EFI_SUCCESS"
proof -
  let ?f = "bt_fw s"
  obtain i where i: "GetMemoryMap fw 0 ?f = (EFI_BUFFER_TOO_SMALL, i, ?f)" "map_size i = needed ?f"
    using g unfolding map_grows_def by blast
  obtain a p f' where al: "AllocatePool fw (needed ?f) ?f = (a, p, f')" by (metis prod_cases3)
  note d = get_memory_map_def efi_memory_map_def fw_call_def alloc_pool_def i al Let_def
  show ?thesis
  proof (cases "a = EFI_SUCCESS")
    case True
    then have "needed ?f < needed f'" using g al unfolding map_grows_def by blast
    then obtain j where "GetMemoryMap fw (needed ?f) f' = (EFI_BUFFER_TOO_SMALL, j, f')"
      using g unfolding map_grows_def by blast
    then show ?thesis using True by (simp add: d EFI_BUFFER_TOO_SMALL_def EFI_SUCCESS_def EFI_ERR_def)
  qed (simp add: d)
qed

text \<open>
  C34: The buffer for the memory map has the size the firmware told before the buffer was allocated. On a firmware
  whose map grows by that allocation the kernel is never started.
\<close>

theorem start_kernel_no_slack:
  assumes "map_grows fw needed"
  shows "\<exists>s'. start_kernel fw im ih fb font kernel_addr rsdp s = Inr (None, s')"
proof -
  obtain st s1 where st: "allocate_memory_for_kernel_stack fw s = (st, s1)" by fastforce
  have "\<exists>key s2. get_memory_data fw 0 s1 = Inr (0, key, s2)"
  proof -
    obtain a p s2 where al: "alloc_pool fw sizeof_boot_MemoryData ''Allocating memory for memory data struct failed'' s1 = (a, p, s2)"
      by (metis prod_cases3)
    obtain status r s3 where "get_memory_map fw 0 0 0 0 s2 = (status, r, s3)" "status \<noteq> EFI_SUCCESS"
      using get_memory_map_grows [OF assms] by blast
    then show ?thesis by (cases r) (simp add: get_memory_data_def al)
  qed
  then show ?thesis by (auto simp: start_kernel_def st)
qed

section \<open>A firmware and a boot\<close>

text \<open>
  A firmware that meets the hypotheses: a pool that grows from a mark below 16 MiB, pages above a second mark, two files. Its state is the
  two marks and the positions in the files.
\<close>

type_synonym fw_state = "u64 \<times> u64 \<times> (u64 \<Rightarrow> u64)"

definition ex_kernel :: "u8 list" where
  "ex_kernel =
     [0x7F, 0x45, 0x4C, 0x46, 2, 1, 1, 0, 0, 0, 0, 0, 0, 0, 0, 0,  2, 0, 62, 0, 1, 0, 0, 0,
      0, 0, 0, 1, 0, 0, 0, 0,  64, 0, 0, 0, 0, 0, 0, 0,  0, 0, 0, 0, 0, 0, 0, 0,
      0, 0, 0, 0, 64, 0, 56, 0, 1, 0, 0, 0, 0, 0, 0, 0,
      1, 0, 0, 0, 5, 0, 0, 0,  120, 0, 0, 0, 0, 0, 0, 0,  0, 0, 0, 1, 0, 0, 0, 0,  0, 0, 0, 1, 0, 0, 0, 0,
      4, 0, 0, 0, 0, 0, 0, 0,  4, 0, 0, 0, 0, 0, 0, 0,  0, 16, 0, 0, 0, 0, 0, 0,
      0xF4, 0xEB, 0xFD, 0x90]"

definition ex_psf :: "u8 list" where
  "ex_psf = [0x36, 0x04, 0, 16, 0, 0, 0x18, 0x3C]"

definition ex_files :: "string \<Rightarrow> u8 list" where
  "ex_files n = (if n = ''kernel.elf'' then ex_kernel else ex_psf)"

definition ex_content :: "u64 \<Rightarrow> u8 list" where
  "ex_content h = (if h = 1 then ex_kernel else ex_psf)"

definition POOL_END :: u64 where "POOL_END = 0x1000000"

definition ex_owned :: "fw_state \<Rightarrow> u64 set" where
  "ex_owned f = (case f of (q, g, _) \<Rightarrow> {x. x < q \<or> (POOL_END \<le> x \<and> x < g)})"

definition ex_pos :: "u64 \<Rightarrow> fw_state \<Rightarrow> u64" where
  "ex_pos h f = (case f of (_, _, pos) \<Rightarrow> pos h)"

definition ex_pool :: "u64 \<Rightarrow> fw_state \<Rightarrow> efi_status \<times> u64 option \<times> fw_state" where
  "ex_pool n f = (case f of (q, g, pos) \<Rightarrow>
     if 0 < q \<and> q \<le> POOL_END \<and> n \<le> POOL_END - q then (EFI_SUCCESS, Some q, (q + n, g, pos)) else (EFI_ERR 9, None, f))"

definition ex_pages :: "u64 \<Rightarrow> u64 \<Rightarrow> fw_state \<Rightarrow> efi_status \<times> fw_state" where
  "ex_pages n a f = (case f of (q, g, pos) \<Rightarrow>
     if q \<le> POOL_END \<and> POOL_END \<le> a \<and> g \<le> a \<and> a \<le> 0x7FFFFFFF \<and> n \<le> 0xFFFF
     then (EFI_SUCCESS, (q, a + 4096 * n, pos)) else (EFI_ERR 14, f))"

definition ex_map :: "u64 \<Rightarrow> fw_state \<Rightarrow> efi_status \<times> map_info \<times> fw_state" where
  "ex_map n f =
     (if n < 48 then (EFI_BUFFER_TOO_SMALL, \<lparr>map_size = 48, map_bytes = [], map_key = 0, map_desc_size = 48\<rparr>, f)
      else (EFI_SUCCESS, \<lparr>map_size = 48, map_bytes = 7 # replicate 47 0, map_key = 9, map_desc_size = 48\<rparr>, f))"

definition ex_uefi :: "fw_state uefi" where
  "ex_uefi = \<lparr>
     OpenProtocol = \<lambda>h p a f. (EFI_SUCCESS, Some 16, f),
     DeviceHandle = \<lambda>i f. 17,
     OpenVolume = \<lambda>v f. (EFI_SUCCESS, Some 18, f),
     Open = \<lambda>d n (q, g, pos). let h = (if n = ''kernel.elf'' then 1 else 2) in (EFI_SUCCESS, Some h, (q, g, pos(h := 0))),
     GetInfo = \<lambda>h n f. (EFI_UNSUPPORTED, 0, [], f),
     SetPosition = \<lambda>h n (q, g, pos). (EFI_SUCCESS, (q, g, pos(h := n))),
     Read = \<lambda>h n (q, g, pos). let bs = take (unat n) (drop (unat (pos h)) (ex_content h))
        in (EFI_SUCCESS, bs, (q, g, pos(h := pos h + of_nat (length bs)))),
     AllocatePool = ex_pool,
     AllocatePages = ex_pages,
     LocateGOP = \<lambda>f. (EFI_SUCCESS, Some 19, f),
     gop_Mode = \<lambda>g f. \<lparr>FrameBufferBase = 0xC0000000, FrameBufferSize = 0x1D4C00, HorizontalResolution = 800,
        VerticalResolution = 600, PixelsPerScanLine = 800\<rparr>,
     GetMemoryMap = ex_map,
     ExitBootServices = \<lambda>h k f. (EFI_SUCCESS, f),
     ConfigurationTable = \<lambda>f. [([1], 0xE0000)],
     CompareGuid = \<lambda>a b. if a = b then 0 else 1,
     ACPI_TABLE_GUID = [1]\<rparr>"

definition ex_image :: boot_image where
  "ex_image = \<lparr>e_hdr_addr = 0x1000, ELFMAG_addr = 0x3000, bootloader_data_addr = 0x2000\<rparr>"

definition ex_boot :: "fw_state boot" where
  "ex_boot = \<lparr>bt_mem = put_bytes (\<lambda>_. 0) 0x3000 ELFMAG, bt_fw = (0x100000, POOL_END, \<lambda>_. 0), bt_out = []\<rparr>"

lemma ex_alloc:
  "bt_fw s = (q, g, pos) \<Longrightarrow> 0 < q \<Longrightarrow> q \<le> POOL_END \<Longrightarrow> n \<le> POOL_END - q \<Longrightarrow>
     alloc_pool ex_uefi n msg s = (EFI_SUCCESS, q, s\<lparr>bt_fw := (q + n, g, pos)\<rparr>)"
  by (simp add: alloc_pool_def fw_call_def ex_uefi_def ex_pool_def out_ptr_def)

lemma ex_set_position:
  "bt_fw s = (q, g, pos) \<Longrightarrow> set_position ex_uefi h n msg s = (EFI_SUCCESS, s\<lparr>bt_fw := (q, g, pos(h := n))\<rparr>)"
  by (simp add: set_position_def fw_call1_def ex_uefi_def)

lemma ex_read:
  "bt_fw s = (q, g, pos) \<Longrightarrow> read_file ex_uefi h n buf msg s = (EFI_SUCCESS,
     s\<lparr>bt_fw := (q, g, pos(h := pos h + of_nat (length (part (ex_content h) (pos h) n)))),
       bt_mem := put_bytes (bt_mem s) buf (part (ex_content h) (pos h) n)\<rparr>)"
  by (simp add: read_file_def fw_call_def ex_uefi_def part_def Let_def)

lemma ex_load_file:
  "bt_fw s = (q, g, pos) \<Longrightarrow> load_file ex_uefi 0 n ih s =
     (let h = (if n = ''kernel.elf'' then 1 else 2) in (h, s\<lparr>bt_fw := (q, g, pos(h := 0))\<rparr>))"
  by (simp add: load_file_def get_image_def get_root_fs_def get_root_dir_def get_file_def fw_call_def ex_uefi_def out_ptr_def
      Let_def EFI_UNSUPPORTED_def EFI_SUCCESS_def EFI_ERR_def)

lemma file_ehdr_ex:
  "file_ehdr ex_kernel = \<lparr>e_ident = [0x7F, 0x45, 0x4C, 0x46, 2, 1, 1, 0, 0, 0, 0, 0, 0, 0, 0, 0], e_type = 2, e_machine = 62,
     e_version = 1, e_entry = 0x1000000, e_phoff = 64, e_phentsize = 56, e_phnum = 1\<rparr>"
  by (simp add: file_ehdr_def Elf64_Ehdr_at_def file_mem_def ex_kernel_def read16_def read32_def read64_def load_steps load_two
      get_bytes_def upt_rec)

lemma file_phdr_ex:
  "file_phdr ex_kernel 0 = \<lparr>p_type = 1, p_offset = 120, p_paddr = 0x1000000, p_filesz = 4, p_memsz = 4\<rparr>"
  unfolding file_phdr_def file_ehdr_ex
  by (simp add: phdr_addr_def Elf64_Phdr_at_def file_mem_def ex_kernel_def read16_def read32_def read64_def load_steps load_two)

lemma ex_elf_ok: "elf_ok ex_kernel"
  by (simp add: elf_ok_def file_ehdr_ex file_phdr_ex Let_def) (simp add: ex_kernel_def)

text \<open>The firmware meets its contract.\<close>

lemma pool_room: "q \<le> POOL_END \<Longrightarrow> n \<le> POOL_END - q \<Longrightarrow> unat q + unat n \<le> 0x1000000"
  by (simp add: word_le_nat_alt unat_sub POOL_END_def)

lemma ex_pool_allocs:
  assumes "ex_pool n f = (EFI_SUCCESS, p, f')"
  shows "out_ptr p \<noteq> 0 \<and> allocs ex_owned (out_ptr p) (unat n) f f'"
proof -
  obtain q g pos where f: "f = (q, g, pos)" by (metis prod_cases3)
  have q: "0 < q" "q \<le> POOL_END" "n \<le> POOL_END - q" "p = Some q" "f' = (q + n, g, pos)"
    using assms by (auto simp: ex_pool_def f EFI_SUCCESS_def EFI_ERR_def split: if_splits)
  have sum: "unat q + unat n \<le> 0x1000000" using q(2,3) by (rule pool_room)
  have "unat q \<le> unat x \<and> unat x < unat q + unat n" if "x \<in> span q (unat n)" for x
    using span_bounds [OF that] sum by simp
  moreover have "unat (q + n) = unat q + unat n" using sum by (subst unat_add_lem [THEN iffD1]) simp_all
  ultimately show ?thesis using q(1,4,5) sum
    by (fastforce simp: f allocs_def ex_owned_def out_ptr_def POOL_END_def word_less_nat_alt word_le_nat_alt not_le)
qed

lemma ex_pages_allocs:
  assumes "ex_pages n a f = (EFI_SUCCESS, f')"
  shows "allocs ex_owned a (4096 * unat n) f f'"
proof -
  obtain q g pos where f: "f = (q, g, pos)" by (metis prod_cases3)
  have q: "q \<le> POOL_END" "POOL_END \<le> a" "g \<le> a" "a \<le> 0x7FFFFFFF" "n \<le> 0xFFFF" "f' = (q, a + 4096 * n, pos)"
    using assms by (auto simp: ex_pages_def f EFI_SUCCESS_def EFI_ERR_def split: if_splits)
  have sum: "unat a + 4096 * unat n < 2 ^ 64" and n: "unat n \<le> 0xFFFF" using q(4,5) by (simp_all add: word_le_nat_alt)
  have "unat a \<le> unat x \<and> unat x < unat a + 4096 * unat n" if "x \<in> span a (4096 * unat n)" for x
    using span_bounds [OF that] sum by simp
  moreover have "unat (4096 * n) = 4096 * unat n" using n by (simp add: unat_word_ariths)
  then have "unat (a + 4096 * n) = unat a + 4096 * unat n" using sum by (subst unat_add_lem [THEN iffD1]) simp_all
  ultimately show ?thesis using q(1-3,6)
    by (fastforce simp: f allocs_def ex_owned_def POOL_END_def word_less_nat_alt word_le_nat_alt not_le)
qed

lemma ex_fw_ok: "fw_ok ex_uefi ex_owned"
proof -
  have "ex_owned f \<subseteq> ex_owned (snd (snd (ex_pool n f)))" for n f
  proof -
    obtain q g pos where f: "f = (q, g, pos)" by (metis prod_cases3)
    show ?thesis
    proof (cases "0 < q \<and> q \<le> POOL_END \<and> n \<le> POOL_END - q")
      case True
      then have "unat q + unat n \<le> 0x1000000" using pool_room by blast
      then have "q \<le> q + n" by (simp add: word_le_nat_alt unat_word_ariths)
      then show ?thesis using True by (auto simp: f ex_pool_def ex_owned_def)
    qed (auto simp: f ex_pool_def)
  qed
  moreover have "ex_owned f \<subseteq> ex_owned (snd (ex_pages n a f))" for n a f
  proof -
    obtain q g pos where f: "f = (q, g, pos)" by (metis prod_cases3)
    show ?thesis
    proof (cases "q \<le> POOL_END \<and> POOL_END \<le> a \<and> g \<le> a \<and> a \<le> 0x7FFFFFFF \<and> n \<le> 0xFFFF")
      case True
      then have "unat a \<le> 0x7FFFFFFF" "unat n \<le> 0xFFFF" by (simp_all add: word_le_nat_alt)
      then have "a \<le> a + 4096 * n" by (simp add: word_le_nat_alt unat_word_ariths)
      then show ?thesis using True by (auto simp: f ex_pages_def ex_owned_def)
    qed (auto simp: f ex_pages_def)
  qed
  ultimately have "fw_keeps ex_uefi ex_owned"
    by (auto simp: fw_keeps_def ex_uefi_def ex_map_def Let_def ex_owned_def split: prod.splits)
  moreover have "fw_fills ex_uefi"
    by (auto simp: fw_fills_def ex_uefi_def ex_map_def Let_def not_less word_le_nat_alt split: prod.splits)
  moreover have "fw_allocates ex_uefi ex_owned"
    using ex_pool_allocs ex_pages_allocs by (simp add: fw_allocates_def ex_uefi_def)
  ultimately show ?thesis by (simp add: fw_ok_def)
qed

lemma ex_null_on_failure: "fw_null_on_failure ex_uefi"
  by (auto simp: fw_null_on_failure_def ex_uefi_def ex_pool_def out_ptr_def split: prod.splits if_splits)

lemma ex_fs_ok: "fs_ok ex_uefi ex_files ex_content ex_pos"
  by (auto simp: fs_ok_def ex_uefi_def ex_pool_def ex_pos_def ex_files_def ex_content_def out_ptr_def Let_def split: prod.splits if_splits)

text \<open>The boot, stage by stage.\<close>

lemma span_owned:
  assumes "unat a + n \<le> unat q"
  shows "span a n \<subseteq> ex_owned (q, g, pos)"
proof
  fix x assume "x \<in> span a n"
  moreover have "unat a + n \<le> 2 ^ 64" using assms u64_bound [of q] by simp
  ultimately have "unat x < unat a + n" by (rule span_bounds)
  then show "x \<in> ex_owned (q, g, pos)" using assms by (simp add: ex_owned_def word_less_nat_alt)
qed

lemma ex_load_kernel:
  assumes f: "bt_fw s = (0x100000, POOL_END, pos)" and m: "bt_mem s 0x7F = 0" "bt_mem s 0x3000 = 0x7F"
  shows "\<exists>s' pos'. load_kernel_into_memory ex_uefi ex_image 1 s = (0x1000000, s') \<and> bt_fw s' = (0x100038, 0x1001000, pos')"
proof -
  have c: "ex_content 1 = ex_kernel" by (simp add: ex_content_def)
  have elf: "elf_ok (ex_content 1)" by (simp add: c ex_elf_ok)
  note specs = ex_fw_ok ex_fs_ok
  obtain s1 pos1 where h: "get_elf_header ex_uefi 1 0x1000 s = (EFI_SUCCESS, s1)" and f1: "bt_fw s1 = (0x100000, POOL_END, pos1)"
    and m1: "bt_mem s1 = put_bytes (bt_mem s) 0x1000 (part ex_kernel 0 64)"
    by (simp add: get_elf_header_def ex_set_position [OF f] ex_read c sizeof_Elf64_Ehdr_def)
  have E1: "Elf64_Ehdr_at (bt_mem s1) 0x1000 = file_ehdr ex_kernel" using get_elf_header_spec [OF specs h elf] c by simp
  have "length (part ex_kernel 0 64) = 64" by (simp add: part_def ex_kernel_def)
  then have "bt_mem s1 0x7F = 0" "bt_mem s1 0x3000 = 0x7F" using m by (simp_all add: m1 put_bytes_apply)
  then have "memcmp (bt_mem s1) 0x7F 0x3000 SELFMAG \<noteq> 0"
    unfolding memcmp_def memcmp_loop_zero by (intro notI) (auto dest!: spec [of _ 0] simp: SELFMAG_def)
  then have v: "\<not> verify_kernel_elf_header ex_image (bt_mem s1)"
    by (simp add: verify_kernel_elf_header_def ex_image_def E1 file_ehdr_ex Let_def)
  have "all_p_hdrs_sz (file_ehdr ex_kernel) = 56" by (simp add: all_p_hdrs_sz_def file_ehdr_ex)
  then obtain s2 pos2 where p: "get_elf_p_hdrs ex_uefi 1 0x1000 s1 = (EFI_SUCCESS, 0x100000, s2)"
    and f2: "bt_fw s2 = (0x100038, POOL_END, pos2)"
    by (simp add: get_elf_p_hdrs_def E1 ex_alloc [OF f1] ex_set_position ex_read POOL_END_def Let_def)
  have x2: "extends ex_owned s1 s2" and P: "Elf64_Phdr_at (bt_mem s2) 0x100000 = file_phdr ex_kernel 0"
    using get_elf_p_hdrs_spec [OF specs p elf] E1 c by (auto simp: file_ehdr_ex phdr_addr_def)
  have E2: "Elf64_Ehdr_at (bt_mem s2) 0x1000 = file_ehdr ex_kernel"
    using struct_extends(1) [where p = "0x1000", OF x2] E1 by (simp add: f1 span_owned)
  obtain s3 pos3 where l: "load_elf_segment_by_p_hdr ex_uefi 1 0x100000 s2 = (EFI_SUCCESS, s3)"
    and f3: "bt_fw s3 = (0x100038, 0x1001000, pos3)"
    using f2 by (simp add: load_elf_segment_by_p_hdr_def P file_phdr_ex num_of_pages_def BOOT_PAGE_SZ_def fw_call1_def ex_uefi_def ex_pages_def
        POOL_END_def Let_def set_position_def read_file_def fw_call_def)
  have x3: "extends ex_owned s2 s3"
    using load_elf_segment_spec [OF specs l P [symmetric]] by (simp add: file_phdr_ex)
  have E3: "Elf64_Ehdr_at (bt_mem s3) 0x1000 = file_ehdr ex_kernel"
    using struct_extends(1) [where p = "0x1000", OF x3] E2 by (simp add: f2 span_owned)
  have "load_segments ex_uefi 1 0x1000 1 0x100000 s3 = (True, s3)"
    by (subst load_segments.simps) (simp add: E3 file_ehdr_ex)
  then have "load_segments ex_uefi 1 0x1000 0 0x100000 s2 = (True, s3)"
    by (subst load_segments.simps) (simp add: E2 file_ehdr_ex P file_phdr_ex PT_LOAD_def l)
  then show ?thesis
    using h v p f3 by (simp add: load_kernel_into_memory_def ex_image_def E3 file_ehdr_ex Let_def)
qed

lemma ex_load_font:
  assumes f: "bt_fw s = (0x100038, g, pos)"
  shows "\<exists>s' pos'. load_psf_font ex_uefi 0 ''zap-light16.psf'' ih s = (0x10103C, s') \<and> bt_fw s' = (0x101054, g, pos')"
proof -
  have c: "ex_content 2 = ex_psf" by (simp add: ex_content_def)
  have m: "Psf1_header_at (mm(0x100038 := 0x36, 0x100039 := 0x04, 0x10003A := 0, 0x10003B := 16)) 0x100038 = \<lparr>psf_magic = 0x0436, psf_mode = 0, psf_charsize = 16\<rparr>" for mm
    by (simp add: Psf1_header_at_def read16_def load_two)
  have p: "part ex_psf 0 4 = [0x36, 0x04, 0, 16]" by (simp add: part_def ex_psf_def)
  show ?thesis
    by (simp add: load_psf_font_def ex_load_file [OF f] get_psf_header_def get_psf_glyphs_def ex_alloc ex_read ex_set_position Let_def
        sizeof_Psf1_header_def sizeof_Psf1_font_def POOL_END_def c p m verify_psf_header_def PSF1_MAGIC_def glyphs_size_def PSF1_MODE512_def)
qed

lemma ex_framebuffer:
  assumes f: "bt_fw s = (0x101054, g, pos)"
  shows "\<exists>s'. get_framebuffer ex_uefi s = (0x101054, s') \<and> bt_fw s' = (0x101074, g, pos) \<and> read64 (bt_mem s') 0x101064 = 0x1D4C00"
proof -
  have "fw_call (LocateGOP ex_uefi) s = (EFI_SUCCESS, Some 19, s)" by (simp add: fw_call_def ex_uefi_def)
  moreover have "gop_Mode ex_uefi p f' = \<lparr>FrameBufferBase = 0xC0000000, FrameBufferSize = 0x1D4C00, HorizontalResolution = 800,
      VerticalResolution = 600, PixelsPerScanLine = 800\<rparr>" for p f' by (simp add: ex_uefi_def)
  ultimately show ?thesis
    by (simp add: get_framebuffer_def locate_gop_def ex_alloc [OF f] sizeof_boot_Framebuffer_def POOL_END_def Let_def cells_apart apart_def)
qed

lemma ex_memory_map:
  assumes f: "bt_fw s = (q, g, pos)" "0 < q" "q \<le> POOL_END" "48 \<le> POOL_END - q"
  shows "\<exists>s'. get_memory_map ex_uefi 0 0 k 0 s = (EFI_SUCCESS, (48, q, 9, 48), s') \<and> bt_fw s' = (q + 48, g, pos)"
proof -
  have m: "GetMemoryMap ex_uefi = ex_map" by (simp add: ex_uefi_def)
  show ?thesis
    using f by (simp add: get_memory_map_def efi_memory_map_def fw_call_def m ex_map_def ex_alloc Let_def)
qed

lemma ex_start_kernel:
  assumes f: "bt_fw s = (0x2D5C74, g, pos)"
  shows "\<exists>s'. start_kernel ex_uefi ex_image ih fb font ka rsdp s = Inr (Some (ka, 0x2000), s')"
proof -
  have st: "allocate_memory_for_kernel_stack ex_uefi s = (0x2D5C74, s\<lparr>bt_fw := (0x2D6C74, g, pos)\<rparr>)"
    by (simp add: allocate_memory_for_kernel_stack_def ex_alloc [OF f] KERNEL_STACK_SIZE_def POOL_END_def)
  let ?s1 = "s\<lparr>bt_fw := (0x2D6C94, g, pos)\<rparr>"
  obtain s2 where m: "get_memory_map ex_uefi 0 0 0 0 ?s1 = (EFI_SUCCESS, (48, 0x2D6C94, 9, 48), s2)"
    using ex_memory_map [of ?s1 "0x2D6C94" g pos 0] by (auto simp: POOL_END_def)
  have "\<exists>s'. get_memory_data ex_uefi 0 (s\<lparr>bt_fw := (0x2D6C74, g, pos)\<rparr>) = Inr (0x2D6C74, 9, s')"
    by (simp add: get_memory_data_def ex_alloc sizeof_boot_MemoryData_def POOL_END_def m Let_def)
  then obtain s3 where "get_memory_data ex_uefi 0 (s\<lparr>bt_fw := (0x2D6C74, g, pos)\<rparr>) = Inr (0x2D6C74, 9, s3)" by blast
  moreover have "fw_call1 (ExitBootServices ex_uefi ih k) s' = (EFI_SUCCESS, s')" for k s' by (simp add: fw_call1_def ex_uefi_def)
  ultimately show ?thesis by (simp add: start_kernel_def st ex_image_def Let_def)
qed

text \<open>The boot loader, run on this firmware, calls the kernel.\<close>

lemma ex_boots: "\<exists>s'. efi_main ex_uefi ex_image 1 ex_boot = Inr (EFI_SUCCESS, Some (0x1000000, 0x2000), s')"
proof -
  let ?s0 = "Print (''[*] Starting bootloader... '' @ NEWLINE) [] ex_boot"
  have f0: "bt_fw ?s0 = (0x100000, POOL_END, \<lambda>_. 0)" by (simp add: ex_boot_def)
  have "load_file ex_uefi 0 ''kernel.elf'' 1 ?s0 = (1, ?s0\<lparr>bt_fw := (0x100000, POOL_END, (\<lambda>_. 0)(1 := 0))\<rparr>)"
    using ex_load_file [OF f0, of "''kernel.elf''" 1] by simp
  then obtain s1 where lf: "load_file ex_uefi 0 ''kernel.elf'' 1 ?s0 = (1, s1)"
    and f1: "bt_fw s1 = (0x100000, POOL_END, (\<lambda>_. 0)(1 := 0))" and m1: "bt_mem s1 = bt_mem ex_boot" by auto
  let ?s1 = "Print (''[+] Kernel file has been loaded successfully '' @ NEWLINE) [] s1"
  have "bt_mem ?s1 0x7F = 0" "bt_mem ?s1 0x3000 = 0x7F" by (simp_all add: m1 ex_boot_def ELFMAG_def)
  with f1 ex_load_kernel [of ?s1] obtain s2 pos2 where lk: "load_kernel_into_memory ex_uefi ex_image 1 ?s1 = (0x1000000, s2)"
    and f2: "bt_fw s2 = (0x100038, 0x1001000, pos2)" by fastforce
  let ?s2 = "Print (''[+] Kernel has been successfully loaded into memory '' @ NEWLINE) [] s2"
  obtain s3 pos3 where lp: "load_psf_font ex_uefi 0 ''zap-light16.psf'' 1 ?s2 = (0x10103C, s3)" and f3: "bt_fw s3 = (0x101054, 0x1001000, pos3)"
    using ex_load_font [of ?s2] f2 by fastforce
  let ?s3 = "Print (''[+] Psf font loaded successfully '' @ NEWLINE) [] s3"
  obtain s4 where gf: "get_framebuffer ex_uefi ?s3 = (0x101054, s4)" and f4: "bt_fw s4 = (0x101074, 0x1001000, pos3)"
    and sz: "read64 (bt_mem s4) 0x101064 = 0x1D4C00" using ex_framebuffer [of ?s3] f3 by fastforce
  have db: "allocate_double_framebuffer ex_uefi 0x1D4C00 s = (0x101074, s\<lparr>bt_fw := (0x2D5C74, 0x1001000, pos3)\<rparr>)"
    if "bt_fw s = (0x101074, 0x1001000, pos3)" for s
    using that by (simp add: allocate_double_framebuffer_def ex_alloc POOL_END_def)
  have rs: "get_rsdp ex_uefi s = 0xE0000" for s by (simp add: get_rsdp_def ex_uefi_def)
  have sk: "\<exists>s'. bind_res (start_kernel ex_uefi ex_image 1 fb font ka rsdp s) (\<lambda>(call, s). Inr (EFI_SUCCESS, call, s)) =
      Inr (EFI_SUCCESS, Some (ka, 0x2000), s')"
    if "bt_fw s = (0x2D5C74, 0x1001000, pos3)" for s fb font ka rsdp
    using ex_start_kernel [OF that, of 1 fb font ka rsdp] by auto
  show ?thesis
    unfolding efi_main_def Let_def lf lk lp gf prod.case
    by (simp add: sz db f4 rs) (rule sk, simp)
qed

lemma ex_files_ok: "elf_ok (ex_files ''kernel.elf'')" "4 \<le> length (ex_files ''zap-light16.psf'')"
  by (simp_all add: ex_files_def ex_elf_ok ex_psf_def)

lemma ex_stack:
  "span (e_hdr_addr ex_image) 64 \<subseteq> ex_owned (bt_fw ex_boot)" "span (bootloader_data_addr ex_image) 32 \<subseteq> ex_owned (bt_fw ex_boot)"
  by (simp_all add: ex_image_def ex_boot_def span_owned)


text \<open>The same firmware with a map that grows with the pool.\<close>

definition ex_needed :: "fw_state \<Rightarrow> u64" where
  "ex_needed f = (case f of (q, _, _) \<Rightarrow> if q = 0 then 1 else q)"

definition ex_growing :: "fw_state uefi" where
  "ex_growing = ex_uefi\<lparr>GetMemoryMap := \<lambda>n f.
     (if n < ex_needed f then EFI_BUFFER_TOO_SMALL else EFI_SUCCESS,
      \<lparr>map_size = ex_needed f, map_bytes = [], map_key = 9, map_desc_size = 48\<rparr>, f)\<rparr>"

theorem start_kernel_no_slack_witness:
  "map_grows ex_growing ex_needed \<and> (\<exists>s'. start_kernel ex_growing ex_image 1 0x4000 0x5000 0x1000000 0xE0000 ex_boot = Inr (None, s'))"
proof -
  have g: "ex_needed f < ex_needed f'" if h: "ex_pool (ex_needed f) f = (EFI_SUCCESS, p, f')" for f p f'
  proof -
    obtain q g pos where f: "f = (q, g, pos)" by (metis prod_cases3)
    have q: "0 < q" "q \<le> POOL_END" "q \<le> POOL_END - q" "f' = (q + q, g, pos)"
      using h by (auto simp: ex_pool_def ex_needed_def f EFI_SUCCESS_def EFI_ERR_def split: if_splits)
    then have "unat (q + q) = unat q + unat q" using pool_room [of q q] by (subst unat_add_lem [THEN iffD1]) simp_all
    then show ?thesis using q(1,4) by (auto simp: f ex_needed_def word_less_nat_alt unat_gt_0 split: if_splits)
  qed
  have "map_grows ex_growing ex_needed"
    unfolding map_grows_def using g by (auto simp: ex_growing_def ex_uefi_def ex_needed_def word_neq_0_conv split: prod.splits)
  then show ?thesis using start_kernel_no_slack by blast
qed

end
