(* ===== verification/Debug.thy ===== *)
theory Debug
  imports Kprint
begin

text \<open>
  The memory dumps of \<^verbatim>\<open>debug/print.cpp\<close> on the console. The local character array of each function has an address,
  the parameter \<open>arr\<close>. The prints of single characters are commented out in the source and are not here either; what
  is left prints address lines, a first line and binary digits. Theorems: the text of the hexadecimal dump and of the
  dump as characters, neither of which has anything of the memory that is dumped.
\<close>

section \<open>The dumps\<close>

text \<open>\<^verbatim>\<open>ptr + n_bytes - 1\<close>, the last byte.\<close>

definition dump_last :: "u64 \<Rightarrow> u16 \<Rightarrow> u64" where
  "dump_last ptr n_bytes = ptr + ucast n_bytes - 1"

text \<open>Clearing the array of \<open>k\<close> bytes and converting the byte at \<open>ptr\<close> into it; the length of the text.\<close>

definition dump_convert :: "u64 \<Rightarrow> u64 \<Rightarrow> u8 \<Rightarrow> u64 \<Rightarrow> Console \<times> mem \<Rightarrow> (u64 \<times> Console \<times> mem) res" where
  "dump_convert arr k base ptr s =
     (let m = memset (snd s) arr 0 k in
      bind_res (itoa (ucast (read8 m ptr)) m arr base) (\<lambda>m.
      bind_res (str_len m arr) (\<lambda>len. Inr (len, fst s, m))))"

text \<open>The loop of the hexadecimal dump; \<^verbatim>\<open>line_c\<close> counts the bytes of a line.\<close>

function hex_loop :: "u64 \<Rightarrow> u64 \<Rightarrow> u64 \<Rightarrow> u16 \<Rightarrow> u8 \<Rightarrow> Console \<times> mem \<Rightarrow> (Console \<times> mem) res" where
  "hex_loop buf arr ptr n_bytes line_c s =
     (if n_bytes > 0 then
        bind_res (if line_c = 8 \<or> line_c = 0
                  then con_kprintf buf ([10] @ str ''%p-%p:  '') [VNum ptr, VNum (ptr - 7)] s
                  else Inr s) (\<lambda>s.
        let line_c = (if line_c = 8 \<or> line_c = 0 then 0 else line_c) in
        bind_res (dump_convert arr 4 16 ptr s) (\<lambda>(len, s).
        hex_loop buf arr (ptr - 1) (n_bytes - 1) (line_c + 1) s))
      else Inr s)"
  by pat_completeness auto
termination
  by (relation "measure (\<lambda>(buf, arr, ptr, n_bytes, line_c, s). unat n_bytes)")
    (auto simp: unat_minus_one unat_gt_0 word_neq_0_conv [symmetric])

declare hex_loop.simps [simp del]

definition kprint_mem_hex :: "u64 \<Rightarrow> u64 \<Rightarrow> u64 \<Rightarrow> u16 \<Rightarrow> Console \<times> mem \<Rightarrow> (Console \<times> mem) res" where
  "kprint_mem_hex buf arr ptr n_bytes = hex_loop buf arr (dump_last ptr n_bytes) n_bytes 0"

definition dump_header :: "u64 \<Rightarrow> u64 \<Rightarrow> u16 \<Rightarrow> Console \<times> mem \<Rightarrow> (Console \<times> mem) res" where
  "dump_header buf ptr n_bytes =
     con_kprintf buf (str ''(first: 0x%p, last: 0x%p, %d bytes):'' @ [10]) [VNum (dump_last ptr n_bytes), VNum ptr, VNum (ucast n_bytes)]"

text \<open>The loop over the missing zeros has an empty body.\<close>

function bin_zeros :: "u8 \<Rightarrow> u8" where
  "bin_zeros len = (if len < 8 then bin_zeros (len + 1) else len + 1)"
  by pat_completeness auto
termination
  by (relation "measure (\<lambda>len. 8 - unat len)")
    (auto simp: word_less_nat_alt unat_word_ariths)

declare bin_zeros.simps [simp del]

function bin_loop :: "u64 \<Rightarrow> u64 \<Rightarrow> u16 \<Rightarrow> Console \<times> mem \<Rightarrow> (Console \<times> mem) res" where
  "bin_loop arr ptr n_bytes s =
     (if n_bytes > 0 then
        bind_res (dump_convert arr 16 2 ptr s) (\<lambda>(n, s).
        let len = bin_zeros (ucast n) in
        case print_str arr s of None \<Rightarrow> Inl Diverges | Some s \<Rightarrow> bin_loop arr (ptr - 1) (n_bytes - 1) s)
      else Inr s)"
  by pat_completeness auto
termination
  by (relation "measure (\<lambda>(arr, ptr, n_bytes, s). unat n_bytes)")
    (auto simp: unat_minus_one unat_gt_0 word_neq_0_conv [symmetric])

declare bin_loop.simps [simp del]

definition kprint_mem_bin :: "u64 \<Rightarrow> u64 \<Rightarrow> u64 \<Rightarrow> u16 \<Rightarrow> Console \<times> mem \<Rightarrow> (Console \<times> mem) res" where
  "kprint_mem_bin buf arr ptr n_bytes s =
     bind_res (dump_header buf ptr n_bytes s) (bin_loop arr (dump_last ptr n_bytes) n_bytes)"

text \<open>The loop of the dump as characters moves the pointer only.\<close>

function ascii_loop :: "u64 \<Rightarrow> u16 \<Rightarrow> u64" where
  "ascii_loop ptr n_bytes = (if n_bytes > 0 then ascii_loop (ptr - 1) (n_bytes - 1) else ptr)"
  by pat_completeness auto
termination
  by (relation "measure (\<lambda>(ptr, n_bytes). unat n_bytes)") (auto simp: unat_minus_one unat_gt_0 word_neq_0_conv [symmetric])

declare ascii_loop.simps [simp del]

definition kprint_mem_ascii :: "u64 \<Rightarrow> u64 \<Rightarrow> u16 \<Rightarrow> Console \<times> mem \<Rightarrow> (Console \<times> mem) res" where
  "kprint_mem_ascii buf ptr n_bytes s =
     bind_res (dump_header buf ptr n_bytes s) (\<lambda>s. let ptr = ascii_loop (dump_last ptr n_bytes) n_bytes in Inr s)"

section \<open>What is printed\<close>

text \<open>A console whose screen does not overlap the array; the dumps change the screen, the text buffer and the array.\<close>

definition dump_ok :: "u64 \<Rightarrow> u64 \<Rightarrow> Console \<times> mem \<Rightarrow> bool" where
  "dump_ok buf arr s \<longleftrightarrow> kcon_ok buf s \<and> span arr 16 \<inter> (fb_span (con_fb (fst s)) \<union> front_span (con_fb (fst s))) = {}"

definition dump_keeps :: "u64 \<Rightarrow> u64 \<Rightarrow> Console \<times> mem \<Rightarrow> Console \<times> mem \<Rightarrow> bool" where
  "dump_keeps buf arr s s' \<longleftrightarrow> con_font (fst s') = con_font (fst s) \<and> con_fb (fst s') = con_fb (fst s) \<and> colours s' = colours s \<and>
     (\<forall>a. a \<notin> fb_span (con_fb (fst s)) \<union> front_span (con_fb (fst s)) \<union> span buf 4096 \<union> span arr 16 \<longrightarrow> snd s' a = snd s a)"

abbreviation dump_prints :: "u64 \<Rightarrow> u64 \<Rightarrow> (Console \<times> mem \<Rightarrow> (Console \<times> mem) res) \<Rightarrow> u8 list \<Rightarrow> bool" where
  "dump_prints buf arr \<equiv> prints (dump_ok buf arr) pos_of (dump_keeps buf arr)"

lemma con_prints_dump:
  assumes "con_prints buf f t"
  shows "dump_prints buf arr f t"
proof -
  have "dump_ok buf arr s' \<and> dump_keeps buf arr s s'" if "dump_ok buf arr s" "kcon_ok buf s'" "kcon_keeps buf s s'" for s s'
    using that by (auto simp: dump_ok_def dump_keeps_def kcon_keeps_def)
  then show ?thesis using assms unfolding prints_def by (metis dump_ok_def)
qed

interpretation dump: text_sink "con_print_text buf" "dump_ok buf arr" pos_of "dump_keeps buf arr" for buf arr
proof unfold_locales
  show "dump_prints buf arr (con_print_text buf t) t" if "good_text t" "length t < 4096" for t
    using con.put_prints [OF that] by (rule con_prints_dump)
qed (auto simp: dump_keeps_def)

lemma dump_bind:
  assumes "dump_prints buf arr f t" and "dump_prints buf arr g u"
  shows "dump_prints buf arr (\<lambda>s. bind_res (f s) g) (t @ u)"
proof -
  have "bind_res (g s) (seq_res []) = g s" for s by (cases "g s") auto
  then have "seq_res [f, g] = (\<lambda>s. bind_res (f s) g)" by (auto simp: fun_eq_iff bind_res_def split: sum.splits)
  then show ?thesis using dump.seq_prints [of buf arr "[f, g]" "[t, u]"] assms by simp
qed

lemma num_text_good_base:
  assumes "2 \<le> b" and "b \<le> 16"
  shows "good_text (num_text b n)"
proof -
  have "digit_char d \<noteq> 0 \<and> digit_char d \<noteq> 8" if "d \<in> set (digits b (unat n))" for d
    using digits_bound [OF assms(1) that] assms(2) unat_digit_char [of d] by (auto split: if_splits)
  then show ?thesis by (fastforce simp: good_text_def num_text_def)
qed

text \<open>The text of a byte fits into the array.\<close>

lemma byte_text:
  assumes "2 \<le> b" and "b \<le> 16"
  shows "length (num_text b (ucast (v :: u8))) \<le> 8"
proof -
  have "unat v < b ^ 8" using unat_u8_bound [of v] power_mono [of 2 b 8] assms(1) by simp
  then show ?thesis by (simp add: num_text_def length_digits unat_ucast_up)
qed

lemma dump_convert_spec:
  assumes ok: "dump_ok buf arr s" and b: "2 \<le> base" "base \<le> 16" and k: "k \<le> 16"
  shows "\<exists>v m. dump_convert arr k base ptr s = Inr (of_nat (length (num_text (unat base) (ucast v))), fst s, m) \<and>
    (ptr \<notin> span arr 16 \<longrightarrow> v = snd s ptr) \<and>
    cstr m arr (num_text (unat base) (ucast v)) \<and> dump_ok buf arr (fst s, m) \<and> dump_keeps buf arr s (fst s, m)"
proof -
  let ?m = "memset (snd s) arr 0 k"
  let ?v = "read8 ?m ptr"
  let ?t = "num_text (unat base) (ucast ?v)"
  let ?m' = "put_bytes ?m arr (?t @ [0])"
  have nb: "2 \<le> unat base" "unat base \<le> 16" using b by (simp_all add: word_le_nat_alt)
  have k': "unat k \<le> 16" using k by (simp add: word_le_nat_alt)
  have rd: "ptr \<notin> span arr 16 \<longrightarrow> ?v = snd s ptr" using k' by (simp add: read8_def memset_apply span_iff)
  have len: "length ?t \<le> 8" using byte_text [OF nb] .
  have c: "cstr ?m' arr ?t" using nb by (intro cstr_put_num_text) auto
  have conv: "dump_convert arr k base ptr s = Inr (of_nat (length ?t), fst s, ?m')"
    using c by (simp add: dump_convert_def itoa_eq [OF b(1)] str_len_spec num_text_def Let_def del: put_bytes.simps)
  have same: "?m' a = snd s a" if "a \<notin> span arr 16" for a
  proof -
    have "a \<notin> span arr (length (?t @ [0]))" using that len span_mono [of "length (?t @ [0])" 16 arr] by auto
    then show ?thesis using that k' len by (subst put_bytes_outside) (simp_all add: memset_apply span_iff)
  qed
  let ?fb = "con_fb (fst s)"
  have d: "span arr 16 \<inter> (fb_span ?fb \<union> front_span ?fb) = {}" and sh: "shown ?fb (snd s)" and con: "con_ok (fst s)"
    using ok by (simp_all add: dump_ok_def kcon_ok_def)
  have bs: "unat (b_size ?fb) = 4 * pixel_count ?fb" using con screen_buffers(2) by (auto simp: con_ok_def)
  have "?m' (fb_addr ?fb + of_nat i) = snd s (fb_addr ?fb + of_nat i) \<and> ?m' (double_fb_addr ?fb + of_nat i) = snd s (double_fb_addr ?fb + of_nat i)"
    if "i < unat (b_size ?fb)" for i
  proof -
    have "i < 2 ^ 64" using that u64_bound [of "b_size ?fb"] by simp
    then have "fb_addr ?fb + of_nat i \<in> front_span ?fb" "double_fb_addr ?fb + of_nat i \<in> fb_span ?fb"
      using that bs by (simp_all add: front_span_def fb_span_def span_iff)
    then show ?thesis using d same by blast
  qed
  then have "shown ?fb ?m'" using sh by (simp add: shown_def)
  then have "dump_ok buf arr (fst s, ?m')" using ok by (simp add: dump_ok_def kcon_ok_def)
  moreover have "dump_keeps buf arr s (fst s, ?m')" using same by (simp add: dump_keeps_def colours_def)
  ultimately show ?thesis using conv c rd by blast
qed

text \<open>The text of the hexadecimal dump: a line with two addresses before every eighth byte.\<close>

definition range_text :: "u64 \<Rightarrow> u8 list" where
  "range_text ptr = [10] @ num_text 16 ptr @ str ''-'' @ num_text 16 (ptr - 7) @ str '':  ''"

function hex_text :: "u64 \<Rightarrow> u16 \<Rightarrow> u8 \<Rightarrow> u8 list" where
  "hex_text ptr n_bytes line_c =
     (if n_bytes > 0 then
        if line_c = 8 \<or> line_c = 0 then range_text ptr @ hex_text (ptr - 1) (n_bytes - 1) 1
        else hex_text (ptr - 1) (n_bytes - 1) (line_c + 1)
      else [])"
  by pat_completeness auto
termination
  by (relation "measure (\<lambda>(ptr, n_bytes, line_c). unat n_bytes)")
    (auto simp: unat_minus_one unat_gt_0 word_neq_0_conv [symmetric])

declare hex_text.simps [simp del]

lemma range_prints:
  "dump_prints buf arr (con_kprintf buf ([10] @ str ''%p-%p:  '') [VNum ptr, VNum (ptr - 7)]) (range_text ptr)"
  using num_text_good_base [of 16 ptr] num_text_good_base [of 16 "ptr - 7"] length_num_text [of 16 ptr] length_num_text [of 16 "ptr - 7"]
  by (intro con_prints_dump con_kprintf_prints; simp add: range_text_def str_def good_text_def)

lemma hex_convert_prints:
  assumes "dump_prints buf arr g t"
  shows "dump_prints buf arr (\<lambda>s. bind_res (dump_convert arr 4 16 ptr s) (\<lambda>(len, s). g s)) t"
  unfolding prints_def
proof (intro allI impI)
  fix s assume "dump_ok buf arr s"
  then obtain len m where 1: "dump_convert arr 4 16 ptr s = Inr (len, fst s, m)" "dump_ok buf arr (fst s, m)"
      "dump_keeps buf arr s (fst s, m)"
    using dump_convert_spec [of buf arr s 16 4 ptr] by fastforce
  obtain s' where 2: "g (fst s, m) = Inr s'" "dump_ok buf arr s'" "pos_of s' = fold text_pos t (pos_of (fst s, m))"
      "dump_keeps buf arr (fst s, m) s'"
    using assms 1(2) unfolding prints_def by blast
  then show "\<exists>s'. bind_res (dump_convert arr 4 16 ptr s) (\<lambda>(len, s). g s) = Inr s' \<and> dump_ok buf arr s' \<and>
      pos_of s' = fold text_pos t (pos_of s) \<and> dump_keeps buf arr s s'"
    using 1 dump.keeps_trans [OF 1(3) 2(4)] by auto
qed

lemma hex_loop_prints: "dump_prints buf arr (hex_loop buf arr ptr n_bytes line_c) (hex_text ptr n_bytes line_c)"
proof (induction ptr n_bytes line_c rule: hex_text.induct)
  case (1 ptr n_bytes line_c)
  show ?case
  proof (cases "n_bytes > 0")
    case False
    then have "hex_loop buf arr ptr n_bytes line_c = Inr" by (simp add: fun_eq_iff hex_loop.simps)
    then show ?thesis using False dump.skip_prints by (simp add: hex_text.simps)
  next
    case n: True
    show ?thesis
    proof (cases "line_c = 8 \<or> line_c = 0")
      case True
      then have "hex_loop buf arr ptr n_bytes line_c = (\<lambda>s. bind_res
          (con_kprintf buf ([10] @ str ''%p-%p:  '') [VNum ptr, VNum (ptr - 7)] s) (\<lambda>s. bind_res (dump_convert arr 4 16 ptr s)
          (\<lambda>(len, s). hex_loop buf arr (ptr - 1) (n_bytes - 1) 1 s)))"
        using n by (subst fun_eq_iff, subst hex_loop.simps) auto
      moreover have "hex_text ptr n_bytes line_c = range_text ptr @ hex_text (ptr - 1) (n_bytes - 1) 1"
        using True n by (subst hex_text.simps) simp
      ultimately show ?thesis
        using dump_bind [OF range_prints hex_convert_prints] "1.IH"(1) [OF n True] by simp
    next
      case False
      then have "hex_loop buf arr ptr n_bytes line_c = (\<lambda>s. bind_res (dump_convert arr 4 16 ptr s)
          (\<lambda>(len, s). hex_loop buf arr (ptr - 1) (n_bytes - 1) (line_c + 1) s))"
        using n by (subst fun_eq_iff, subst hex_loop.simps) auto
      moreover have "hex_text ptr n_bytes line_c = hex_text (ptr - 1) (n_bytes - 1) (line_c + 1)"
        using False n by (subst hex_text.simps) auto
      ultimately show ?thesis using hex_convert_prints "1.IH"(2) [OF n False] by simp
    qed
  qed
qed

text \<open>
  The hexadecimal dump of a block of memory ends on every console, and the text it prints is the address lines alone: it is a
  function of the address and the number of bytes, so none of the bytes is shown.
\<close>

theorem kprint_mem_hex_text:
  "dump_prints buf arr (kprint_mem_hex buf arr ptr n_bytes) (hex_text (dump_last ptr n_bytes) n_bytes 0)"
  unfolding kprint_mem_hex_def by (rule hex_loop_prints)

text \<open>The first line of the other two dumps.\<close>

definition header_text :: "u64 \<Rightarrow> u16 \<Rightarrow> u8 list" where
  "header_text ptr n_bytes = str ''(first: 0x'' @ num_text 16 (dump_last ptr n_bytes) @
     str '', last: 0x'' @ num_text 16 ptr @ str '', '' @ num_text 10 (ucast n_bytes) @ str '' bytes):'' @ [10]"

lemma dump_header_prints: "dump_prints buf arr (dump_header buf ptr n_bytes) (header_text ptr n_bytes)"
  unfolding dump_header_def
  using num_text_good_base [of 16 ptr] num_text_good_base [of 16 "dump_last ptr n_bytes"] num_text_good [of "ucast n_bytes"]
    length_num_text [of 16 ptr] length_num_text [of 16 "dump_last ptr n_bytes"]
  by (intro con_prints_dump con_kprintf_prints; simp add: header_text_def str_def good_text_def)

lemma kprint_mem_ascii_text: "dump_prints buf arr (kprint_mem_ascii buf ptr n_bytes) (header_text ptr n_bytes)"
  using dump_bind [OF dump_header_prints dump.skip_prints, of buf arr ptr n_bytes] by (simp add: kprint_mem_ascii_def [abs_def])

text \<open>The binary dump prints the bytes from the last to the first, without leading zeros and without anything between them.\<close>

fun bin_text :: "mem \<Rightarrow> u64 \<Rightarrow> nat \<Rightarrow> u8 list" where
  "bin_text m ptr 0 = []"
| "bin_text m ptr (Suc n) = num_text 2 (ucast (m ptr)) @ bin_text m (ptr - 1) n"

lemma bin_text_cong: "(\<And>i. i < n \<Longrightarrow> m' (ptr - of_nat i) = m (ptr - of_nat i)) \<Longrightarrow> bin_text m' ptr n = bin_text m ptr n"
proof (induction n arbitrary: ptr)
  case (Suc n)
  have "bin_text m' (ptr - 1) n = bin_text m (ptr - 1) n"
    using Suc.prems [of "Suc _"] by (intro Suc.IH) (simp add: diff_diff_eq)
  then show ?case using Suc.prems [of 0] by simp
qed simp

lemma print_array:
  assumes ok: "dump_ok buf arr s" and c: "cstr (snd s) arr t" and t: "good_text t" "length t < 16"
  shows "\<exists>s'. print_str arr s = Some s' \<and> dump_ok buf arr s' \<and> pos_of s' = fold text_pos t (pos_of s) \<and> dump_keeps buf arr s s'"
proof -
  let ?fb = "con_fb (fst s)"
  have con: "con_ok (fst s)" and d: "span arr 16 \<inter> (fb_span ?fb \<union> front_span ?fb) = {}" using ok by (simp_all add: dump_ok_def kcon_ok_def)
  have "span arr (Suc (length t)) \<inter> (fb_span ?fb \<union> front_span ?fb) = {}" using d span_mono [of "Suc (length t)" 16 arr] t by auto
  then obtain con' m' where p: "print_loop arr s = Some (con', m')" "con_ok con'"
      "cursor_pos (con_cursor con') = fold text_pos t (pos_of s)" "con_keeps s (con', m')"
    using print_loop_spec [of s t arr] con c t text_ok_good unfolding good_text_def by fastforce
  have fb: "con_fb con' = ?fb" "con_font con' = con_font (fst s)" "kept_outside ?fb (snd s) m'"
    using p(4) by (simp_all add: con_keeps_def)
  have scr: "screen_ok (con_font (fst s)) ?fb" using con by (simp add: con_ok_def)
  have kept: "kept_outside ?fb (snd s) (draw ?fb m')"
    using fb(3) draw_kept(1) [OF screen_buffers(1,2) [OF scr]] by (rule kept_outside_trans)
  have col: "colours (con', m') = colours s" using print_loop_colours [OF p(1)] .
  have "print_str arr s = Some (con', draw ?fb m')" using p(1) fb(1) by (simp add: print_str_def)
  moreover have "dump_ok buf arr (con', draw ?fb m')"
    using p(2) fb(1) ok draw_shown [OF screen_buffers(1,2) [OF scr]] by (simp add: dump_ok_def kcon_ok_def)
  moreover have "dump_keeps buf arr s (con', draw ?fb m')"
    using fb kept col by (simp add: dump_keeps_def kept_outside_def colours_def)
  ultimately show ?thesis using p(3) by auto
qed

text \<open>The addresses a dump of the state \<open>s\<close> may change.\<close>

definition dump_touched :: "u64 \<Rightarrow> u64 \<Rightarrow> Console \<times> mem \<Rightarrow> u64 set" where
  "dump_touched buf arr s = fb_span (con_fb (fst s)) \<union> front_span (con_fb (fst s)) \<union> span buf 4096 \<union> span arr 16"

lemma bin_loop_prints:
  assumes "dump_ok buf arr s" and "\<And>i. i < unat n_bytes \<Longrightarrow> ptr - of_nat i \<notin> dump_touched buf arr s"
  shows "\<exists>s'. bin_loop arr ptr n_bytes s = Inr s' \<and> dump_ok buf arr s' \<and>
    pos_of s' = fold text_pos (bin_text (snd s) ptr (unat n_bytes)) (pos_of s) \<and> dump_keeps buf arr s s'"
  using assms
proof (induction "unat n_bytes" arbitrary: ptr n_bytes s)
  case 0
  then have "n_bytes = 0" by (simp add: unat_eq_0)
  then show ?case using 0 dump.keeps_refl by (subst bin_loop.simps) simp
next
  case (Suc n)
  have "n_bytes \<noteq> 0" using Suc.hyps(2) by auto
  then have n: "n_bytes > 0" "unat (n_bytes - 1) = n"
    using Suc.hyps(2) by (simp_all add: word_neq_0_conv [symmetric] unat_minus_one)
  have "ptr \<notin> span arr 16" using Suc.prems(2) [of 0] Suc.hyps(2) by (simp add: dump_touched_def)
  then obtain len m where c: "dump_convert arr 16 2 ptr s = Inr (len, fst s, m)" "cstr m arr (num_text 2 (ucast (snd s ptr)))"
      "dump_ok buf arr (fst s, m)" "dump_keeps buf arr s (fst s, m)"
    using dump_convert_spec [OF Suc.prems(1), of 2 16 ptr] by auto
  obtain s1 where p: "print_str arr (fst s, m) = Some s1" "dump_ok buf arr s1"
      "pos_of s1 = fold text_pos (num_text 2 (ucast (snd s ptr))) (pos_of s)" "dump_keeps buf arr (fst s, m) s1"
    using print_array [OF c(3), of "num_text 2 (ucast (snd s ptr))"] c(2) num_text_good_base [of 2] byte_text [of 2 "snd s ptr"] by fastforce
  have k1: "dump_keeps buf arr s s1" using c(4) p(4) by (rule dump.keeps_trans)
  then have tch: "dump_touched buf arr s1 = dump_touched buf arr s" by (simp add: dump_touched_def dump_keeps_def)
  have out: "ptr - 1 - of_nat i \<notin> dump_touched buf arr s" if "i < n" for i
    using Suc.prems(2) [of "Suc i"] that Suc.hyps(2) by (simp add: diff_diff_eq)
  have "snd s1 (ptr - 1 - of_nat i) = snd s (ptr - 1 - of_nat i)" if "i < n" for i
    using k1 out [OF that] by (simp add: dump_keeps_def dump_touched_def)
  then have bt: "bin_text (snd s1) (ptr - 1) n = bin_text (snd s) (ptr - 1) n" by (rule bin_text_cong)
  obtain s2 where r: "bin_loop arr (ptr - 1) (n_bytes - 1) s1 = Inr s2" "dump_ok buf arr s2"
      "pos_of s2 = fold text_pos (bin_text (snd s1) (ptr - 1) n) (pos_of s1)" "dump_keeps buf arr s1 s2"
    using Suc.hyps(1) [of "n_bytes - 1" s1 "ptr - 1"] n(2) p(2) out tch by auto
  have "bin_loop arr ptr n_bytes s = Inr s2" using n c(1) p(1) r(1) by (subst bin_loop.simps) simp
  then show ?case using r p(3) bt dump.keeps_trans [OF k1 r(4)] Suc.hyps(2) [symmetric] by auto
qed

text \<open>
  The binary dump of memory it does not itself change: the first line, then the binary digits of the bytes, from the last to the first.
\<close>

lemma kprint_mem_bin_text:
  assumes "dump_ok buf arr s"
    and "\<And>i. i < unat n_bytes \<Longrightarrow> dump_last ptr n_bytes - of_nat i \<notin> dump_touched buf arr s"
  shows "\<exists>s'. kprint_mem_bin buf arr ptr n_bytes s = Inr s' \<and> dump_ok buf arr s' \<and> pos_of s' =
    fold text_pos (header_text ptr n_bytes @ bin_text (snd s) (dump_last ptr n_bytes) (unat n_bytes)) (pos_of s)"
proof -
  obtain s1 where 1: "dump_header buf ptr n_bytes s = Inr s1" "dump_ok buf arr s1" "dump_keeps buf arr s s1"
      "pos_of s1 = fold text_pos (header_text ptr n_bytes) (pos_of s)"
    using dump_header_prints assms(1) unfolding prints_def by blast
  have "dump_touched buf arr s1 = dump_touched buf arr s" using 1(3) by (simp add: dump_touched_def dump_keeps_def)
  moreover have "bin_text (snd s1) (dump_last ptr n_bytes) (unat n_bytes) = bin_text (snd s) (dump_last ptr n_bytes) (unat n_bytes)"
    using 1(3) assms(2) by (intro bin_text_cong) (simp add: dump_keeps_def dump_touched_def)
  ultimately show ?thesis
    using bin_loop_prints [OF 1(2), of n_bytes "dump_last ptr n_bytes"] assms(2) 1 by (auto simp: kprint_mem_bin_def)
qed

end
