(* ===== verification/PageEntries.thy ===== *)
theory PageEntries
  imports Paging BitStruct
begin

text \<open>
  The four entry structures of \<^verbatim>\<open>memory/paging.hpp\<close> as packed bit-fields: each is a \<open>packed_struct\<close>, and the operations on
  entries in \<open>Paging\<close> are the accesses to the members the source names, in all four structures.
\<close>

section \<open>Structures\<close>

definition PT_Entry :: bit_struct where
  "PT_Entry = [(''present'', 1), (''rw'', 1), (''us'', 1), (''pwt'', 1), (''pcd'', 1), (''a'', 1), (''d'', 1), (''pat'', 1), (''g'', 1),
     (''ignored1'', 3), (''page_addr'', 32), (''reserved1'', 8), (''ignored3'', 7), (''protection_key'', 4), (''xd'', 1)]"

definition PD_Entry :: bit_struct where
  "PD_Entry = [(''present'', 1), (''rw'', 1), (''us'', 1), (''pwt'', 1), (''pcd'', 1), (''a'', 1), (''ignored1'', 1), (''ps'', 1),
     (''ignored2'', 4), (''pt_addr'', 32), (''reserved1'', 8), (''ignored3'', 11), (''xd'', 1)]"

definition PDPT_Entry :: bit_struct where
  "PDPT_Entry = [(''present'', 1), (''rw'', 1), (''us'', 1), (''pwt'', 1), (''pcd'', 1), (''a'', 1), (''ignored1'', 1), (''ps'', 1),
     (''ignored2'', 4), (''pd_addr'', 32), (''reserved1'', 8), (''ignored3'', 11), (''xd'', 1)]"

definition PML4_Entry :: bit_struct where
  "PML4_Entry = [(''present'', 1), (''rw'', 1), (''us'', 1), (''pwt'', 1), (''pcd'', 1), (''a'', 1), (''ignored1'', 1), (''ps'', 1),
     (''ignored2'', 4), (''pdpt_addr'', 32), (''reserved1'', 8), (''ignored3'', 11), (''xd'', 1)]"

section \<open>The four structures\<close>

definition entry_structs :: "(bit_struct \<times> string) list" where
  "entry_structs = [(PT_Entry, ''page_addr''), (PD_Entry, ''pt_addr''), (PDPT_Entry, ''pd_addr''), (PML4_Entry, ''pdpt_addr'')]"

interpretation pt_entry: packed_struct PT_Entry
  by unfold_locales (simp_all add: PT_Entry_def total_width_def)

interpretation pd_entry: packed_struct PD_Entry
  by unfold_locales (simp_all add: PD_Entry_def total_width_def)

interpretation pdpt_entry: packed_struct PDPT_Entry
  by unfold_locales (simp_all add: PDPT_Entry_def total_width_def)

interpretation pml4_entry: packed_struct PML4_Entry
  by unfold_locales (simp_all add: PML4_Entry_def total_width_def)

text \<open>The operations of the pager are accesses to these members, the same in each structure.\<close>

lemma entry_members:
  assumes "(L, addr) \<in> set entry_structs"
  shows "entry_present e \<longleftrightarrow> get_member L ''present'' e \<noteq> 0"
    and "entry_set_present e = set_member L ''present'' 1 e"
    and "entry_set_rw e = set_member L ''rw'' 1 e"
    and "entry_set_addr a e = set_member L addr a e"
    and "entry_table e = ucast (push_bit PAGE_OFFSET_BITS (ucast (get_member L addr e) :: u32))"
proof -
  have m: "struct_member L 0 ''present'' = Some (0, 1)" "struct_member L 0 ''rw'' = Some (1, 1)" "struct_member L 0 addr = Some (12, 32)"
    using assms by (auto simp: entry_structs_def PT_Entry_def PD_Entry_def PDPT_Entry_def PML4_Entry_def)
  show "entry_present e \<longleftrightarrow> get_member L ''present'' e \<noteq> 0" "entry_set_present e = set_member L ''present'' 1 e"
    "entry_set_rw e = set_member L ''rw'' 1 e" "entry_set_addr a e = set_member L addr a e"
    "entry_table e = ucast (push_bit PAGE_OFFSET_BITS (ucast (get_member L addr e) :: u32))"
    by (simp_all add: entry_present_def entry_set_present_def entry_set_rw_def entry_set_addr_def entry_table_def
        get_member_def set_member_def m)
qed

text \<open>Filling an entry sets these three members and no other.\<close>

lemma set_entry_members:
  assumes "(L, addr) \<in> set entry_structs" and "n \<noteq> ''present''" "n \<noteq> ''rw''" "n \<noteq> addr"
  shows "get_member L n (read64 (set_entry entry a m) entry) = get_member L n (read64 m entry)"
proof -
  have "packed_struct L"
    using assms(1) pt_entry.packed_struct_axioms pd_entry.packed_struct_axioms pdpt_entry.packed_struct_axioms pml4_entry.packed_struct_axioms
    by (auto simp: entry_structs_def)
  then show ?thesis
    by (simp add: set_entry_def Let_def entry_members(2,3,4) [OF assms(1)] packed_struct.get_set_other assms(2-4))
qed

end
