(* ===== verification/Asm.thy ===== *)
theory Asm
  imports Paging Descriptors
begin

text \<open>
  The assembly routines of the kernel: \<^verbatim>\<open>cpu/cpu.asm\<close>, \<^verbatim>\<open>gdt/gdt.asm\<close>, \<^verbatim>\<open>pic/pic.asm\<close> and \<^verbatim>\<open>memory/paging.asm\<close>. A routine is
  the list of its instructions and labels as the file has them, run by an interpreter of the instructions they
  use over the registers, the memory with the stack, the control and model-specific registers and the ports.

  The other theories use the routines as functions (\<open>read_msr\<close>, \<open>write_msr\<close>, \<open>pic_disable\<close>, \<open>load_gdt\<close>,
  \<open>enable_cpu_4_level_paging\<close>, the result of \<^verbatim>\<open>cpuid\<close>). The theorems show that the instructions implement them, that every routine
  returns to its caller with the stack as it was, and which registers of the caller \<^verbatim>\<open>get_cpuid\<close> overwrites.
\<close>

section \<open>Instructions\<close>

datatype reg = RAX | RBX | RCX | RDX | RSI | RDI | RSP | R8 | R10 | R11 | R12 | R13

datatype seg = DS | ES | FS | GS | SS

datatype creg = CR0 | CR4

datatype instr =
    Label string
  | Mov reg reg         \<comment> \<open>\<^verbatim>\<open>mov r64, r64\<close>\<close>
  | Mov32 reg reg       \<comment> \<open>\<^verbatim>\<open>mov r32, r32\<close>: the upper half of the destination is cleared\<close>
  | MovI reg u64
  | MovAX u16           \<comment> \<open>the rest of \<^verbatim>\<open>rax\<close> is kept\<close>
  | MovAL u8
  | MovSeg seg          \<comment> \<open>\<^verbatim>\<open>mov seg, ax\<close>\<close>
  | Store32 reg reg     \<comment> \<open>\<^verbatim>\<open>mov dword [r64], r32\<close>\<close>
  | FromCr reg creg
  | ToCr creg reg
  | CmpI reg u64
  | Jne string
  | Jmp string
  | Shl reg nat
  | Shr reg nat
  | Or reg reg
  | OrI reg u64
  | AndI reg u64
  | Xor reg reg
  | Push reg
  | Pop reg
  | Cpuid
  | Rdmsr
  | Wrmsr
  | Lgdt reg
  | OutAL u8            \<comment> \<open>\<^verbatim>\<open>out imm8, al\<close>\<close>
  | Ret
  | Retfq

text \<open>The state of the processor, the memory and the devices behind the ports.\<close>

record 'd core =
  gpr :: "reg \<Rightarrow> u64"
  zf :: bool
  cmem :: mem
  cregs :: cpu_regs
  cmsrs :: msrs
  csegs :: seg_regs
  cdev :: 'd

definition set_gpr :: "reg \<Rightarrow> u64 \<Rightarrow> 'd core \<Rightarrow> 'd core" where
  "set_gpr r v c = c\<lparr>gpr := (gpr c)(r := v)\<rparr>"

text \<open>A result that also sets the zero flag.\<close>

definition set_alu :: "reg \<Rightarrow> u64 \<Rightarrow> 'd core \<Rightarrow> 'd core" where
  "set_alu r v c = (set_gpr r v c)\<lparr>zf := (v = 0)\<rparr>"

fun set_seg :: "seg \<Rightarrow> u16 \<Rightarrow> seg_regs \<Rightarrow> seg_regs" where
  "set_seg DS v s = s\<lparr>ds := v\<rparr>"
| "set_seg ES v s = s\<lparr>es := v\<rparr>"
| "set_seg FS v s = s\<lparr>fs := v\<rparr>"
| "set_seg GS v s = s\<lparr>gs := v\<rparr>"
| "set_seg SS v s = s\<lparr>ss := v\<rparr>"

fun get_cr :: "creg \<Rightarrow> cpu_regs \<Rightarrow> u64" where
  "get_cr CR0 r = cr0 r"
| "get_cr CR4 r = cr4 r"

fun set_cr :: "creg \<Rightarrow> u64 \<Rightarrow> cpu_regs \<Rightarrow> cpu_regs" where
  "set_cr CR0 v r = r\<lparr>cr0 := v\<rparr>"
| "set_cr CR4 v r = r\<lparr>cr4 := v\<rparr>"

definition lo32 :: "u64 \<Rightarrow> u32" where "lo32 v = ucast v"

definition GDTR_at :: "mem \<Rightarrow> u64 \<Rightarrow> GDTR" where
  "GDTR_at m p = \<lparr>gdtr_size = read16 m p, gdtr_offset = read64 m (p + 2)\<rparr>"

text \<open>The instructions that go on to the next one.\<close>

fun exec :: "'d bus \<Rightarrow> cpuid \<Rightarrow> instr \<Rightarrow> 'd core \<Rightarrow> 'd core" where
  "exec hw q (Mov d s) c = set_gpr d (gpr c s) c"
| "exec hw q (Mov32 d s) c = set_gpr d (ucast (lo32 (gpr c s))) c"
| "exec hw q (MovI d v) c = set_gpr d v c"
| "exec hw q (MovAX v) c = set_gpr RAX (bf_set 0 16 (ucast v) (gpr c RAX)) c"
| "exec hw q (MovAL v) c = set_gpr RAX (bf_set 0 8 (ucast v) (gpr c RAX)) c"
| "exec hw q (MovSeg s) c = c\<lparr>csegs := set_seg s (ucast (gpr c RAX)) (csegs c)\<rparr>"
| "exec hw q (Store32 p s) c = c\<lparr>cmem := write32 (cmem c) (gpr c p) (lo32 (gpr c s))\<rparr>"
| "exec hw q (FromCr d r) c = set_gpr d (get_cr r (cregs c)) c"
| "exec hw q (ToCr r s) c = c\<lparr>cregs := set_cr r (gpr c s) (cregs c)\<rparr>"
| "exec hw q (CmpI r v) c = c\<lparr>zf := (gpr c r = v)\<rparr>"
| "exec hw q (Shl r n) c = set_alu r (push_bit n (gpr c r)) c"
| "exec hw q (Shr r n) c = set_alu r (drop_bit n (gpr c r)) c"
| "exec hw q (Or d s) c = set_alu d (gpr c d OR gpr c s) c"
| "exec hw q (OrI d v) c = set_alu d (gpr c d OR imm32 v) c"
| "exec hw q (AndI d v) c = set_alu d (gpr c d AND imm32 v) c"
| "exec hw q (Xor d s) c = set_alu d (gpr c d XOR gpr c s) c"
| "exec hw q (Push s) c =
     (let p = gpr c RSP - 8 in set_gpr RSP p (c\<lparr>cmem := write64 (cmem c) p (gpr c s)\<rparr>))"
| "exec hw q (Pop d) c =
     (let v = read64 (cmem c) (gpr c RSP) in set_gpr d v (set_gpr RSP (gpr c RSP + 8) c))"
| "exec hw q Cpuid c =
     (let (a, b, x, d) = q (lo32 (gpr c RAX))
      in set_gpr RAX (ucast a) (set_gpr RBX (ucast b) (set_gpr RCX (ucast x) (set_gpr RDX (ucast d) c))))"
| "exec hw q Rdmsr c =
     (let v = cmsrs c (lo32 (gpr c RCX))
      in set_gpr RAX (ucast (lo32 v)) (set_gpr RDX (drop_bit 32 v) c))"
| "exec hw q Wrmsr c =
     c\<lparr>cmsrs := (cmsrs c)(lo32 (gpr c RCX) := ucast (lo32 (gpr c RAX)) OR push_bit 32 (gpr c RDX))\<rparr>"
| "exec hw q (Lgdt p) c = c\<lparr>csegs := (csegs c)\<lparr>reg_gdtr := GDTR_at (cmem c) (gpr c p)\<rparr>\<rparr>"
| "exec hw q (OutAL p) c = c\<lparr>cdev := outb hw (ucast p) (ucast (gpr c RAX)) (cdev c)\<rparr>"
| "exec hw q _ c = c"

definition target :: "instr list \<Rightarrow> string \<Rightarrow> nat" where
  "target p l = length (takeWhile (\<lambda>i. i \<noteq> Label l) p)"

fun next_pos :: "instr list \<Rightarrow> nat \<Rightarrow> instr \<Rightarrow> bool \<Rightarrow> nat" where
  "next_pos p i (Jmp l) z = target p l"
| "next_pos p i (Jne l) z = (if z then Suc i else target p l)"
| "next_pos p i _ z = Suc i"

text \<open>The return address and the state after a return; \<^verbatim>\<open>retfq\<close> also takes the code segment from the stack.\<close>

fun leave :: "instr \<Rightarrow> 'd core \<Rightarrow> (u64 \<times> 'd core) option" where
  "leave Ret c = Some (read64 (cmem c) (gpr c RSP), set_gpr RSP (gpr c RSP + 8) c)"
| "leave Retfq c = Some (read64 (cmem c) (gpr c RSP),
     set_gpr RSP (gpr c RSP + 16) (c\<lparr>csegs := (csegs c)\<lparr>cs := ucast (read64 (cmem c) (gpr c RSP + 8))\<rparr>\<rparr>))"
| "leave _ c = None"

text \<open>
  Run from a position to the return. \<open>None\<close> is a run that goes past the end of the routine or never returns.
\<close>

partial_function (option) run ::
  "'d bus \<Rightarrow> cpuid \<Rightarrow> instr list \<Rightarrow> nat \<Rightarrow> 'd core \<Rightarrow> (u64 \<times> 'd core) option" where
  "run hw q p i c =
     (if length p \<le> i then None
      else if p ! i = Ret \<or> p ! i = Retfq then leave (p ! i) c
      else run hw q p (next_pos p i (p ! i) (zf c)) (exec hw q (p ! i) c))"

section \<open>The routines\<close>

definition get_cpuid_code :: "instr list" where
  "get_cpuid_code =
    [Mov R10 RSI, Mov R11 RDX, Mov R12 RCX, Mov R13 R8,
     Mov32 RAX RDI, Cpuid,
     Label ''.check_eax_param'', CmpI R10 0, Jne ''.ret_eax_param'',
     Label ''.check_ebx_param'', CmpI R11 0, Jne ''.ret_ebx_param'',
     Label ''.check_ecx_param'', CmpI R12 0, Jne ''.ret_ecx_param'',
     Label ''.check_edx_param'', CmpI R13 0, Jne ''.ret_edx_param'',
     Label ''.return'', Ret,
     Label ''.ret_eax_param'', Store32 R10 RAX, Jmp ''.check_ebx_param'',
     Label ''.ret_ebx_param'', Store32 R11 RBX, Jmp ''.check_ecx_param'',
     Label ''.ret_ecx_param'', Store32 R12 RCX, Jmp ''.check_edx_param'',
     Label ''.ret_edx_param'', Store32 R13 RDX, Jmp ''.return'']"

definition write_msr_code :: "instr list" where
  "write_msr_code = [Mov32 RCX RDI, Mov32 RAX RSI, Mov RDX RSI, Shr RDX 32, Wrmsr, Ret]"

definition read_msr_code :: "instr list" where
  "read_msr_code = [Mov32 RCX RDI, Rdmsr, Shl RDX 32, Or RAX RDX, Ret]"

definition disable_pic_code :: "instr list" where
  "disable_pic_code = [MovAL 0xff, OutAL 0xa1, OutAL 0x21, Ret]"

definition load_gdt_code :: "instr list" where
  "load_gdt_code =
    [Lgdt RDI, MovAX 0x10, MovSeg DS, MovSeg ES, MovSeg FS, MovSeg GS, MovSeg SS,
     Pop RDI, MovI RAX 0x08, Push RAX, Push RDI, Retfq]"

definition enable_paging_code :: "instr list" where
  "enable_paging_code =
    [FromCr RAX CR0, OrI RAX (push_bit 31 1), ToCr CR0 RAX,
     FromCr RAX CR4, OrI RAX (push_bit 5 1), ToCr CR4 RAX,
     FromCr RAX CR4, AndI RAX (NOT (push_bit 57 1)), ToCr CR4 RAX,
     Xor RAX RAX, Ret]"

text \<open>A call: the return address is pushed and the routine runs from its first instruction.\<close>

definition call_asm :: "'d bus \<Rightarrow> cpuid \<Rightarrow> instr list \<Rightarrow> u64 \<Rightarrow> 'd core \<Rightarrow> (u64 \<times> 'd core) option" where
  "call_asm hw q p ra c =
     run hw q p 0 (set_gpr RSP (gpr c RSP - 8) (c\<lparr>cmem := write64 (cmem c) (gpr c RSP - 8) ra\<rparr>))"

text \<open>A processor to try the routines on: the image of a table register at \<open>0x1000\<close>, the stack below \<open>0x9000\<close>.\<close>

definition core_example :: "u8 list core" where
  "core_example = \<lparr>gpr = (\<lambda>_. 0)(RDI := 0x1000, RDX := 0x2000, RCX := 0x2004, R8 := 0x2008, RSP := 0x9000), zf = False,
     cmem = (\<lambda>_. 0)(0x1000 := 0xFF, 0x1001 := 0x0F, 0x1004 := 5), cregs = \<lparr>cr0 = 0, cr3 = 0, cr4 = 0, efer = 0\<rparr>, cmsrs = (\<lambda>_. 0),
     csegs = \<lparr>reg_gdtr = \<lparr>gdtr_size = 0, gdtr_offset = 0\<rparr>, cs = 0, ds = 0, es = 0, fs = 0, gs = 0, ss = 0\<rparr>, cdev = []\<rparr>"

section \<open>Symbolic execution\<close>

fun straight :: "instr \<Rightarrow> bool" where
  "straight Ret = False"
| "straight Retfq = False"
| "straight (Jmp _) = False"
| "straight (Jne _) = False"
| "straight _ = True"

lemma run_straight:
  assumes "i < length p" and "straight (p ! i)"
  shows "run hw q p i c = run hw q p (Suc i) (exec hw q (p ! i) c)"
proof -
  have "next_pos p i (p ! i) (zf c) = Suc i" "p ! i \<noteq> Ret" "p ! i \<noteq> Retfq" using assms(2) by (cases "p ! i"; simp)+
  then show ?thesis using assms(1) by (subst run.simps) simp
qed

lemma run_block:
  assumes "drop i p = xs @ ys" and "list_all straight xs" and "xs \<noteq> []"
  shows "run hw q p i c = run hw q p (i + length xs) (fold (exec hw q) xs c)"
  using assms
proof (induction xs arbitrary: i c)
  case (Cons x xs)
  have i: "i < length p" using Cons.prems(1) by (metis append_Cons drop_eq_Nil2 list.distinct(1) not_le)
  then have x: "p ! i = x" "drop (Suc i) p = xs @ ys" using Cons.prems(1) by (simp_all add: Cons_nth_drop_Suc [symmetric])
  have "run hw q p i c = run hw q p (Suc i) (exec hw q x c)" using run_straight [OF i] Cons.prems(2) x(1) by simp
  then show ?case using Cons.IH [OF x(2)] Cons.prems(2) by (cases "xs = []") auto
qed simp

lemma run_leave: "i < length p \<Longrightarrow> p ! i = Ret \<or> p ! i = Retfq \<Longrightarrow> run hw q p i c = leave (p ! i) c"
  by (subst run.simps) auto

lemma run_jump:
  assumes "i < length p"
  shows "p ! i = Jmp l \<Longrightarrow> run hw q p i c = run hw q p (target p l) c"
    and "p ! i = Jne l \<Longrightarrow> run hw q p i c = run hw q p (if zf c then Suc i else target p l) c"
  using assms by (subst run.simps; simp)+

text \<open>A routine without jumps.\<close>

lemma run_linear:
  assumes "list_all straight (butlast p)" and "2 \<le> length p" and "last p = Ret \<or> last p = Retfq"
  shows "run hw q p 0 c = leave (last p) (fold (exec hw q) (butlast p) c)"
proof -
  have "p \<noteq> []" "butlast p \<noteq> []" using assms(2) by (auto simp: butlast_conv_take)
  then have p: "p = butlast p @ [last p]" "length (butlast p) = length p - 1" "butlast p \<noteq> []" by auto
  show ?thesis
    using run_block [of 0 p "butlast p" "[last p]" hw q c] run_leave [of "length p - 1" p hw q] p assms
      last_conv_nth [OF \<open>p \<noteq> []\<close>] \<open>p \<noteq> []\<close> by (metis (no_types, lifting) add_0 diff_less drop0 length_greater_0_conv less_numeral_extra(1))
qed



section \<open>The calling convention\<close>

text \<open>The state in which a routine starts after the call instruction.\<close>

definition entered :: "u64 \<Rightarrow> 'd core \<Rightarrow> 'd core" where
  "entered ra c = set_gpr RSP (gpr c RSP - 8) (c\<lparr>cmem := write64 (cmem c) (gpr c RSP - 8) ra\<rparr>)"

text \<open>A routine that, started in a state with \<open>pre\<close>, returns through the address on top of the stack, pops it, and
  relates the state it starts in and the state it returns in by \<open>spec\<close>.\<close>

locale routine =
  fixes hw :: "'d bus" and q :: cpuid and code :: "instr list" and pre :: "'d core \<Rightarrow> bool" and spec :: "'d core \<Rightarrow> 'd core \<Rightarrow> bool"
  assumes runs: "pre c \<Longrightarrow> \<exists>c'. run hw q code 0 c = Some (read64 (cmem c) (gpr c RSP), c') \<and> gpr c' RSP = gpr c RSP + 8 \<and> spec c c'"
begin

lemma returns:
  assumes "pre (entered ra c)"
  shows "\<exists>c'. call_asm hw q code ra c = Some (ra, c') \<and> gpr c' RSP = gpr c RSP \<and> spec (entered ra c) c'"
  using runs [OF assms] by (simp add: call_asm_def entered_def set_gpr_def)

end

text \<open>What the routines do, in terms of the functions the other theories use. The parts of the state that are not
  named are as before; \<open>kept\<close> has the memory and the registers
  a callee has to preserve (of those that occur; \<^verbatim>\<open>rsp\<close> is part of the convention).\<close>

definition callee_saved :: "reg list" where
  "callee_saved = [RBX, R12, R13]"

definition kept :: "'d core \<Rightarrow> 'd core \<Rightarrow> bool" where
  "kept c c' \<longleftrightarrow> cmem c' = cmem c \<and> map (gpr c') callee_saved = map (gpr c) callee_saved"

definition writes_msr :: "'d core \<Rightarrow> 'd core \<Rightarrow> bool" where
  "writes_msr c c' \<longleftrightarrow> kept c c' \<and> cmsrs c' = write_msr (lo32 (gpr c RDI)) (gpr c RSI) (cmsrs c) \<and>
     cregs c' = cregs c \<and> csegs c' = csegs c \<and> cdev c' = cdev c"

definition reads_msr :: "'d core \<Rightarrow> 'd core \<Rightarrow> bool" where
  "reads_msr c c' \<longleftrightarrow> kept c c' \<and> gpr c' RAX = read_msr (lo32 (gpr c RDI)) (cmsrs c) \<and>
     cmsrs c' = cmsrs c \<and> cregs c' = cregs c \<and> csegs c' = csegs c \<and> cdev c' = cdev c"

definition disables_pic :: "'d bus \<Rightarrow> 'd core \<Rightarrow> 'd core \<Rightarrow> bool" where
  "disables_pic hw c c' \<longleftrightarrow> kept c c' \<and> cdev c' = pic_disable hw (cdev c) \<and>
     cmsrs c' = cmsrs c \<and> cregs c' = cregs c \<and> csegs c' = csegs c"

definition enables_paging :: "'d core \<Rightarrow> 'd core \<Rightarrow> bool" where
  "enables_paging c c' \<longleftrightarrow> kept c c' \<and> cregs c' = enable_cpu_4_level_paging (cregs c) \<and> gpr c' RAX = 0 \<and>
     cmsrs c' = cmsrs c \<and> csegs c' = csegs c \<and> cdev c' = cdev c"

text \<open>The far return needs a second word of stack.\<close>

definition loads_gdt :: "'d core \<Rightarrow> 'd core \<Rightarrow> bool" where
  "loads_gdt c c' \<longleftrightarrow> csegs c' = load_gdt (GDTR_at (cmem c) (gpr c RDI)) (csegs c) \<and>
     map (gpr c') callee_saved = map (gpr c) callee_saved \<and> (\<forall>x. x \<notin> span (gpr c RSP - 8) 16 \<longrightarrow> cmem c' x = cmem c x) \<and>
     cmsrs c' = cmsrs c \<and> cregs c' = cregs c \<and> cdev c' = cdev c"

text \<open>A result is stored through a pointer that is not null; the pointers have to miss the return address.\<close>

definition out_misses :: "u64 \<Rightarrow> u64 \<Rightarrow> bool" where
  "out_misses sp p \<longleftrightarrow> p = 0 \<or> apart sp 8 p 4"

definition outs_ok :: "'d core \<Rightarrow> bool" where
  "outs_ok c \<longleftrightarrow> list_all (\<lambda>r. out_misses (gpr c RSP) (gpr c r)) [RSI, RDX, RCX, R8]"

definition store_out :: "u64 \<Rightarrow> u32 \<Rightarrow> mem \<Rightarrow> mem" where
  "store_out p v m = (if p = 0 then m else write32 m p v)"

definition stores_cpuid :: "cpuid \<Rightarrow> 'd core \<Rightarrow> 'd core \<Rightarrow> bool" where
  "stores_cpuid q c c' \<longleftrightarrow>
     (case q (lo32 (gpr c RDI)) of (a, b, x, d) \<Rightarrow>
        cmem c' = store_out (gpr c R8) d (store_out (gpr c RCX) x (store_out (gpr c RDX) b (store_out (gpr c RSI) a (cmem c)))) \<and>
        gpr c' RBX = ucast b \<and> gpr c' R12 = gpr c RCX \<and> gpr c' R13 = gpr c R8) \<and>
     cmsrs c' = cmsrs c \<and> cregs c' = cregs c \<and> csegs c' = csegs c \<and> cdev c' = cdev c"

section \<open>The routines meet their specifications\<close>

lemma halves: "ucast (ucast v :: u32) OR push_bit 32 (drop_bit 32 v) = (v :: u64)"
  by (rule bit_word_eqI) (auto simp: bit_simps, metis add_diff_inverse_nat)

lemma low_part: "ucast (bf_set 0 8 (ucast (v :: u8)) w) = v" "ucast (bf_set 0 16 (ucast (x :: u16)) w) = x"
  by (rule bit_word_eqI; auto simp: bit_simps bit_bf_set)+

text \<open>Two words pushed next to each other.\<close>

lemma pushed_pair:
  "read64 (write64 (write64 m p v) (p - 8) w) p = v"
  "x \<notin> span (p - 8) 16 \<Longrightarrow> write64 (write64 m p v) (p - 8) w x = m x"
proof -
  have "apart p 8 (p - 8) 8" by (simp add: apart_def)
  then show "read64 (write64 (write64 m p v) (p - 8) w) p = v" by (rule c64.wr_wr_other_cell)
  assume x: "x \<notin> span (p - 8) 16"
  have "span (p - 8) 8 \<subseteq> span (p - 8) 16" by (rule span_mono) simp
  moreover have "span p 8 \<subseteq> span (p - 8) 16" using span_add_subset [of 8 8 16 "p - 8"] by simp
  ultimately have "x \<notin> span p 8" "x \<notin> span (p - 8) 8" using x by blast+
  then show "write64 (write64 m p v) (p - 8) w x = m x" by (simp add: c64.wr_outside)
qed

lemmas routine_simps = run_linear set_gpr_def set_alu_def lo32_def kept_def callee_saved_def

interpretation write_msr: routine hw q write_msr_code "\<lambda>_. True" writes_msr for hw q
  by unfold_locales (simp add: write_msr_code_def routine_simps writes_msr_def write_msr_def halves)

interpretation read_msr: routine hw q read_msr_code "\<lambda>_. True" reads_msr for hw q
  by unfold_locales (simp add: read_msr_code_def routine_simps reads_msr_def read_msr_def halves Let_def)

interpretation disable_pic: routine hw q disable_pic_code "\<lambda>_. True" "disables_pic hw" for hw q
  by unfold_locales (simp add: disable_pic_code_def routine_simps disables_pic_def pic_disable_def low_part(1) [of "0xff", simplified])

interpretation enable_paging: routine hw q enable_paging_code "\<lambda>_. True" enables_paging for hw q
  by unfold_locales (simp add: enable_paging_code_def routine_simps enables_paging_def enable_cpu_4_level_paging_def Let_def)

interpretation load_gdt: routine hw q load_gdt_code "\<lambda>_. True" loads_gdt for hw q
  by unfold_locales (simp add: load_gdt_code_def routine_simps loads_gdt_def load_gdt_def Let_def
      low_part(2) [of "0x10", simplified] pushed_pair)


subsection \<open>get_cpuid\<close>

lemma get_cpuid_targets:
  "target get_cpuid_code ''.check_ebx_param'' = 9" "target get_cpuid_code ''.check_ecx_param'' = 12"
  "target get_cpuid_code ''.check_edx_param'' = 15" "target get_cpuid_code ''.return'' = 18"
  "target get_cpuid_code ''.ret_eax_param'' = 20" "target get_cpuid_code ''.ret_ebx_param'' = 23"
  "target get_cpuid_code ''.ret_ecx_param'' = 26" "target get_cpuid_code ''.ret_edx_param'' = 29"
  by (simp_all add: target_def get_cpuid_code_def)

text \<open>One check: a label, the comparison, and for a pointer that is not null the store behind the jump.\<close>

lemma nth_of_drop: "drop i p = xs \<Longrightarrow> n < length xs \<Longrightarrow> i + n < length p \<and> p ! (i + n) = xs ! n"
  by auto

lemma run_check:
  assumes "drop i p = [Label l, CmpI r 0] @ Jne k # xs" and "target p k = j"
    and "drop j p = [Label k, Store32 r s] @ Jmp n # ys" and "target p n = i + 3"
  shows "run hw q p i c = run hw q p (i + 3) (c\<lparr>zf := (gpr c r = 0), cmem := store_out (gpr c r) (lo32 (gpr c s)) (cmem c)\<rparr>)"
proof -
  note i = nth_of_drop [OF assms(1), of 2] and j = nth_of_drop [OF assms(3), of 2]
  let ?c = "c\<lparr>zf := (gpr c r = 0)\<rparr>"
  have "run hw q p i c = run hw q p (i + 2) ?c" using run_block [OF assms(1)] by simp
  also have "\<dots> = run hw q p (if gpr c r = 0 then i + 3 else j) ?c"
    using run_jump(2) [of "i + 2" p k hw q ?c] i assms(2) by (simp add: eval_nat_numeral split: if_splits)
  finally have start: "run hw q p i c = run hw q p (if gpr c r = 0 then i + 3 else j) ?c" .
  show ?thesis
  proof (cases "gpr c r = 0")
    case False
    have "run hw q p j ?c = run hw q p (i + 3) (exec hw q (Store32 r s) ?c)"
      using run_block [OF assms(3), of hw q ?c] run_jump(1) [of "j + 2" p n] j assms(4) by simp
    then show ?thesis using start False by (simp add: store_out_def)
  qed (simp add: start store_out_def)
qed

lemma get_cpuid_blocks:
  "drop 0 get_cpuid_code = [Mov R10 RSI, Mov R11 RDX, Mov R12 RCX, Mov R13 R8, Mov32 RAX RDI, Cpuid] @ drop 6 get_cpuid_code"
  "drop 6 get_cpuid_code = [Label ''.check_eax_param'', CmpI R10 0] @ Jne ''.ret_eax_param'' # drop 9 get_cpuid_code"
  "drop 9 get_cpuid_code = [Label ''.check_ebx_param'', CmpI R11 0] @ Jne ''.ret_ebx_param'' # drop 12 get_cpuid_code"
  "drop 12 get_cpuid_code = [Label ''.check_ecx_param'', CmpI R12 0] @ Jne ''.ret_ecx_param'' # drop 15 get_cpuid_code"
  "drop 15 get_cpuid_code = [Label ''.check_edx_param'', CmpI R13 0] @ Jne ''.ret_edx_param'' # drop 18 get_cpuid_code"
  "drop 18 get_cpuid_code = [Label ''.return''] @ Ret # drop 20 get_cpuid_code"
  "drop 20 get_cpuid_code = [Label ''.ret_eax_param'', Store32 R10 RAX] @ Jmp ''.check_ebx_param'' # drop 23 get_cpuid_code"
  "drop 23 get_cpuid_code = [Label ''.ret_ebx_param'', Store32 R11 RBX] @ Jmp ''.check_ecx_param'' # drop 26 get_cpuid_code"
  "drop 26 get_cpuid_code = [Label ''.ret_ecx_param'', Store32 R12 RCX] @ Jmp ''.check_edx_param'' # drop 29 get_cpuid_code"
  "drop 29 get_cpuid_code = [Label ''.ret_edx_param'', Store32 R13 RDX] @ Jmp ''.return'' # []"
  by (simp_all add: get_cpuid_code_def)

lemma get_cpuid_run:
  "run hw q get_cpuid_code 0 c = run hw q get_cpuid_code 6 (fold (exec hw q) [Mov R10 RSI, Mov R11 RDX, Mov R12 RCX, Mov R13 R8, Mov32 RAX RDI, Cpuid] c)"
  "run hw q get_cpuid_code 6 c = run hw q get_cpuid_code 9 (c\<lparr>zf := (gpr c R10 = 0), cmem := store_out (gpr c R10) (lo32 (gpr c RAX)) (cmem c)\<rparr>)"
  "run hw q get_cpuid_code 9 c = run hw q get_cpuid_code 12 (c\<lparr>zf := (gpr c R11 = 0), cmem := store_out (gpr c R11) (lo32 (gpr c RBX)) (cmem c)\<rparr>)"
  "run hw q get_cpuid_code 12 c = run hw q get_cpuid_code 15 (c\<lparr>zf := (gpr c R12 = 0), cmem := store_out (gpr c R12) (lo32 (gpr c RCX)) (cmem c)\<rparr>)"
  "run hw q get_cpuid_code 15 c = run hw q get_cpuid_code 18 (c\<lparr>zf := (gpr c R13 = 0), cmem := store_out (gpr c R13) (lo32 (gpr c RDX)) (cmem c)\<rparr>)"
  "run hw q get_cpuid_code 18 c = leave Ret c"
proof -
  note T = get_cpuid_targets and B = get_cpuid_blocks
  show "run hw q get_cpuid_code 0 c = run hw q get_cpuid_code 6 (fold (exec hw q) [Mov R10 RSI, Mov R11 RDX, Mov R12 RCX, Mov R13 R8, Mov32 RAX RDI, Cpuid] c)"
    by (subst run_block [OF B(1)]) (simp_all add: eval_nat_numeral)
  show "run hw q get_cpuid_code 6 c = run hw q get_cpuid_code 9 (c\<lparr>zf := (gpr c R10 = 0), cmem := store_out (gpr c R10) (lo32 (gpr c RAX)) (cmem c)\<rparr>)"
    using run_check [OF B(2) T(5) B(7), of hw q c] T(1) by simp
  show "run hw q get_cpuid_code 9 c = run hw q get_cpuid_code 12 (c\<lparr>zf := (gpr c R11 = 0), cmem := store_out (gpr c R11) (lo32 (gpr c RBX)) (cmem c)\<rparr>)"
    using run_check [OF B(3) T(6) B(8), of hw q c] T(2) by simp
  show "run hw q get_cpuid_code 12 c = run hw q get_cpuid_code 15 (c\<lparr>zf := (gpr c R12 = 0), cmem := store_out (gpr c R12) (lo32 (gpr c RCX)) (cmem c)\<rparr>)"
    using run_check [OF B(4) T(7) B(9), of hw q c] T(3) by simp
  show "run hw q get_cpuid_code 15 c = run hw q get_cpuid_code 18 (c\<lparr>zf := (gpr c R13 = 0), cmem := store_out (gpr c R13) (lo32 (gpr c RDX)) (cmem c)\<rparr>)"
    using run_check [OF B(5) T(8) B(10), of hw q c] T(4) by simp
  show "run hw q get_cpuid_code 18 c = leave Ret c"
    using run_block [OF B(6), of hw q c] run_leave [of 19 get_cpuid_code hw q c] nth_of_drop [OF B(6), of 1] by simp
qed

lemma read64_store_out: "out_misses sp p \<Longrightarrow> read64 (store_out p v m) sp = read64 m sp"
  unfolding store_out_def out_misses_def
  by (auto intro!: c64.rd_outside [where S = "span p 4"] simp: c32.wr_outside dest: span_disjoint)

interpretation get_cpuid: routine hw q get_cpuid_code outs_ok "stores_cpuid q" for hw q
proof
  fix c :: "'a core"
  assume "outs_ok c"
  moreover obtain a b x d where "q (lo32 (gpr c RDI)) = (a, b, x, d)" by (cases "q (lo32 (gpr c RDI))")
  ultimately show "\<exists>c'. run hw q get_cpuid_code 0 c = Some (read64 (cmem c) (gpr c RSP), c') \<and> gpr c' RSP = gpr c RSP + 8 \<and> stores_cpuid q c c'"
    by (simp add: get_cpuid_run set_gpr_def stores_cpuid_def lo32_def outs_ok_def read64_store_out)
qed

section \<open>Theorems\<close>

lemma entered_simps [simp]:
  "r \<noteq> RSP \<Longrightarrow> gpr (entered ra c) r = gpr c r" "gpr (entered ra c) RSP = gpr c RSP - 8"
  "cmem (entered ra c) = write64 (cmem c) (gpr c RSP - 8) ra" "cregs (entered ra c) = cregs c"
  "cmsrs (entered ra c) = cmsrs c" "csegs (entered ra c) = csegs c" "cdev (entered ra c) = cdev c"
  by (simp_all add: entered_def set_gpr_def)


text \<open>
  C22: \<^verbatim>\<open>__load_gdt\<close> implements the loading of the segment registers: called with a pointer to the register image of the table, it returns
  through the far return to its caller, with the stack pointer and the saved registers as before, all six segment registers
  and the table register set, and nothing of memory changed but the 16 bytes below the stack pointer.\<close>

theorem load_gdt_code_loads:
  assumes "GDTR_at (cmem c) (gpr c RDI) = gdtr gdt_addr" and "apart (gpr c RDI) 10 (gpr c RSP - 8) 8"
  shows "\<exists>c'. call_asm hw q load_gdt_code ra c = Some (ra, c') \<and> gpr c' RSP = gpr c RSP \<and>
    map (gpr c') callee_saved = map (gpr c) callee_saved \<and> (gdt_addr, csegs c') = gdt_init gdt_addr (csegs c) \<and>
    (\<forall>x. x \<notin> span (gpr c RSP - 16) 16 \<longrightarrow> cmem c' x = cmem c x)"
proof -
  let ?p = "gpr c RDI" and ?sp = "gpr c RSP - 8"
  have "span ?p 10 \<inter> span ?sp 8 = {}" using assms(2) by (rule span_disjoint)
  moreover have "span ?p 2 \<subseteq> span ?p 10" "span (?p + 2) 8 \<subseteq> span ?p 10"
    using span_add_subset [of 2 8 10 ?p] by (simp_all add: span_mono)
  ultimately have "GDTR_at (write64 (cmem c) ?sp ra) ?p = GDTR_at (cmem c) ?p"
    unfolding GDTR_at_def
    by (subst c16.rd_outside [where S = "span ?sp 8"] c64.rd_outside [where S = "span ?sp 8"]; auto simp: c64.wr_outside)+
  moreover obtain c' where c': "call_asm hw q load_gdt_code ra c = Some (ra, c')" "gpr c' RSP = gpr c RSP" "loads_gdt (entered ra c) c'"
    using load_gdt.returns [of hw q ra c] by blast
  moreover have "cmem c' x = cmem c x" if x: "x \<notin> span (gpr c RSP - 16) 16" for x
  proof -
    have "span ?sp 8 \<subseteq> span (gpr c RSP - 16) 16" using span_add_subset [of 8 8 16 "gpr c RSP - 16"] by simp
    then show ?thesis using c'(3) x c64.wr_outside [of x ?sp] by (auto simp: loads_gdt_def)
  qed
  ultimately show ?thesis using assms(1) by (auto simp: loads_gdt_def callee_saved_def gdt_init_def)
qed

theorem load_gdt_code_loads_witness:
  "\<exists>c'. call_asm queue_bus (\<lambda>_. (1, 2, 3, 4)) load_gdt_code 0x7777 core_example = Some (0x7777, c') \<and>
     (0x50000, csegs c') = gdt_init 0x50000 (csegs core_example)"
proof -
  have "GDTR_at (cmem core_example) (gpr core_example RDI) = gdtr 0x50000"
    by (simp add: GDTR_at_def gdtr_def core_example_def read16_def read64_def load_steps load_two)
  moreover have "apart (gpr core_example RDI) 10 (gpr core_example RSP - 8) 8" by (simp add: core_example_def apart_def)
  ultimately show ?thesis using load_gdt_code_loads [of core_example "0x50000" queue_bus] by blast
qed

text \<open>Stores through four pointers that are null or do not overlap.\<close>

definition outs_apart :: "u64 list \<Rightarrow> bool" where
  "outs_apart ps \<longleftrightarrow> sorted_wrt (\<lambda>p p'. p = 0 \<or> p' = 0 \<or> apart p 4 p' 4) ps"

lemma read32_store_out:
  "p \<noteq> 0 \<Longrightarrow> read32 (store_out p v m) p = v"
  "p \<noteq> 0 \<Longrightarrow> p = 0 \<or> p' = 0 \<or> apart p 4 p' 4 \<Longrightarrow> read32 (store_out p' v m) p = read32 m p"
  by (auto simp: store_out_def c32.rd_wr_apart)

lemma store_out_outside: "x \<notin> span p 4 \<Longrightarrow> store_out p v m x = m x"
  by (simp add: store_out_def c32.wr_outside)

text \<open>
  C30: \<^verbatim>\<open>get_cpuid\<close> ends and returns to its caller with each result of \<^verbatim>\<open>cpuid\<close> stored through its pointer, null pointers skipped, and no
  other memory changed but the return address. It does not keep the calling convention: the registers \<^verbatim>\<open>rbx\<close>, \<^verbatim>\<open>r12\<close> and \<^verbatim>\<open>r13\<close>,
  which a callee has to preserve, hold the result \<^verbatim>\<open>ebx\<close> and the last two pointers.\<close>

theorem get_cpuid_code_stores:
  assumes "q (lo32 (gpr c RDI)) = (a, b, x, d)"
    and "outs_apart [gpr c RSI, gpr c RDX, gpr c RCX, gpr c R8]" and "outs_ok (entered ra c)"
  shows "\<exists>c'. call_asm hw q get_cpuid_code ra c = Some (ra, c') \<and> gpr c' RSP = gpr c RSP \<and>
    (gpr c RSI \<noteq> 0 \<longrightarrow> read32 (cmem c') (gpr c RSI) = a) \<and> (gpr c RDX \<noteq> 0 \<longrightarrow> read32 (cmem c') (gpr c RDX) = b) \<and>
    (gpr c RCX \<noteq> 0 \<longrightarrow> read32 (cmem c') (gpr c RCX) = x) \<and> (gpr c R8 \<noteq> 0 \<longrightarrow> read32 (cmem c') (gpr c R8) = d) \<and>
    (\<forall>z. z \<notin> span (gpr c RSI) 4 \<union> span (gpr c RDX) 4 \<union> span (gpr c RCX) 4 \<union> span (gpr c R8) 4 \<union> span (gpr c RSP - 8) 8 \<longrightarrow> cmem c' z = cmem c z) \<and>
    map (gpr c') callee_saved = [ucast b, gpr c RCX, gpr c R8]"
proof -
  obtain c' where "call_asm hw q get_cpuid_code ra c = Some (ra, c')" "gpr c' RSP = gpr c RSP" "stores_cpuid q (entered ra c) c'"
    using get_cpuid.returns [OF assms(3)] by blast
  then show ?thesis
    using assms(1,2) unfolding outs_apart_def
    by (auto simp: stores_cpuid_def callee_saved_def read32_store_out store_out_outside c64.wr_outside)
qed

theorem get_cpuid_code_stores_witness:
  "\<exists>c'. call_asm queue_bus (\<lambda>_. (1, 2, 3, 4)) get_cpuid_code 0x7777 core_example = Some (0x7777, c') \<and>
     read32 (cmem c') 0x2000 = 2 \<and> read32 (cmem c') 0x2008 = 4 \<and> gpr c' RBX = 2"
proof -
  have "outs_apart [gpr core_example RSI, gpr core_example RDX, gpr core_example RCX, gpr core_example R8]"
    by (simp add: outs_apart_def core_example_def apart_def)
  moreover have "outs_ok (entered 0x7777 core_example)"
    by (simp add: outs_ok_def out_misses_def) (simp add: core_example_def apart_def)
  ultimately show ?thesis
    using get_cpuid_code_stores [of "\<lambda>_. (1, 2, 3, 4)" core_example 1 2 3 4 "0x7777" queue_bus]
    by (auto simp: core_example_def callee_saved_def)
qed

end
