(* ===== verification/Spec2Isabelle.thy ===== *)
theory Spec2Isabelle
  imports KernelHeap EarlyBoot Devices BootRun Debug PageEntries Asm
begin

text \<open>
  Verification of the printOS kernel and its boot loader.

  printOS is a 64-bit kernel in C++ (\<^verbatim>\<open>src/kernel\<close>) started by a UEFI bootloader in C
  (\<^verbatim>\<open>src/bootloader\<close>). The bootloader loads the kernel, a PSF font and the framebuffer, collects the memory
  map and the ACPI root pointer, and calls \<^verbatim>\<open>_start\<close>. The kernel then builds, in this order: the memory map
  object, framebuffer and console; the physical memory manager (one bit per frame); GDT and IDT; the ACPI
  tables; four-level paging; the interrupt controllers; and the heap. From then on it runs on interrupts
  from the timer and the keyboard.

  \<^bold>\<open>How the program is modelled.\<close> Machine integers are words of their width and wrap. Memory is a function
  from 64-bit addresses to bytes, and the structures the code reaches through pointers (block headers,
  page tables, bitmap, ACPI tables, gates, pixels, strings) are read and written there at the offsets of the
  source's packed layout. Objects the kernel holds (\<^verbatim>\<open>Bitmap\<close>, \<^verbatim>\<open>PMem\<close>, \<^verbatim>\<open>Console\<close>, \<^verbatim>\<open>Keyboard\<close>, ...) are records
  that the operations take and return. A failed \<^verbatim>\<open>ASSERT\<close>, a null dereference, an overrun buffer and a loop
  that does not end are values of \<open>kerror\<close>; loops whose end depends on memory are partial functions, so
  that not returning is a value too, and the theorems about them say that they return. Counting loops
  are \<open>for_up\<close> of theory \<open>Memory\<close>, which runs until the bound and needs no fuel.

  The kernel's entry works on one record of the whole machine; the boot loader on the same byte memory and a
  firmware, the record \<open>uefi\<close> of the services it calls over a state of any type. Hardware is a parameter with its state threaded through: the I/O ports (\<open>bus\<close>), memory-mapped registers
  (\<open>mmio\<close>), the \<^verbatim>\<open>cpuid\<close> instruction and the model-specific registers. What a theorem needs of a device is a
  hypothesis from its data sheet (\<open>hpet_hw\<close>, \<open>lapic_hw\<close>, \<open>ioapic_hw\<close>) or from the UEFI specification (\<open>fw_ok\<close>, \<open>fs_ok\<close>), and each is shown to hold of a concrete
  device in the theorem's witness. Places the compiler chooses (the address of the buffer of \<^verbatim>\<open>__printf\<close>, of
  static objects and of handlers) are parameters.

  \<^bold>\<open>The theories\<close>, each with the sources it models:

  \<^item> \<open>Memory\<close>: integer types (\<^verbatim>\<open>libc/stdint.hpp\<close>), \<^verbatim>\<open>kutils/bits.hpp\<close>, \<^verbatim>\<open>cpu/mmio.h\<close>, assertions; spans of addresses,
    loads and stores, the locale \<open>cell_store\<close> of a typed cell, rules for counting loops.
  \<^item> \<open>BitStruct\<close>: packed structures of bit-fields; the locale \<open>packed_struct\<close> is interpreted for the page table entries, the registers of the
    HPET and its comparators and the redirection entries of the I/O APIC.
  \<^item> \<open>Libc\<close>: \<^verbatim>\<open>libc/stdlib.cpp\<close>. Each routine against its meaning on lists of bytes.
  \<^item> \<open>Printf\<close>: \<^verbatim>\<open>__printf\<close> and the one-line printers of \<^verbatim>\<open>kutils/console.cpp\<close>, with the text as an output log; equal to
    a rendering function up to the size of the buffer.
  \<^item> \<open>Bitmap\<close>, \<open>Mmap\<close>, \<open>PMem\<close>: \<^verbatim>\<open>kutils/bitmap.cpp\<close>, \<^verbatim>\<open>memory/mmap.cpp\<close>, \<^verbatim>\<open>memory/pmem.cpp\<close>. The invariant \<open>pm_inv\<close> ties the
    counters to the bits; which frames are free after construction; what requests return and lock.
  \<^item> \<open>Paging\<close>: \<^verbatim>\<open>memory/paging.cpp\<close> against the processor's walk of the page tables. The invariant \<open>pt_inv\<close> says that
    the tables form a tree of frames of their own; mapping a page changes its translation and no other.
  \<^item> \<open>Heap\<close>: \<^verbatim>\<open>memory/heap.cpp\<close>. The invariant \<open>heap_inv\<close> relates the linked headers in memory to a list of blocks;
    \<^verbatim>\<open>malloc\<close> and \<^verbatim>\<open>free\<close> refine first-fit allocation and release with merging on that list.
  \<^item> \<open>PageEntries\<close>: the entry structures of \<^verbatim>\<open>memory/paging.hpp\<close> as lists of bit-fields, to which the accessors of \<open>Paging\<close> are
    shown equal.
  \<^item> \<open>HeapGrow\<close>, \<open>HeapInit\<close>: the heap together with frames and paging. \<^verbatim>\<open>malloc\<close> that has to grow the heap takes a run of frames,
    maps them and links a new block; the constructor takes its page; the data of the blocks is kept.
  \<^item> \<open>Framebuffer\<close>, \<open>Console\<close>: \<^verbatim>\<open>framebuffer/framebuffer.cpp\<close>, \<^verbatim>\<open>console/console.cpp\<close>. Pixels, glyphs, scrolling; the
    cursor refines a counter over text positions.
  \<^item> \<open>Kprint\<close>: the second half of \<^verbatim>\<open>kutils/console.cpp\<close> and \<^verbatim>\<open>kutils/assertions.cpp\<close> on the real console. The locale
    \<open>text_sink\<close> is the contract of a device for text, interpreted by the console and by the output log.
  \<^item> \<open>Keyboard\<close>: \<^verbatim>\<open>drivers/ps2.cpp\<close>, \<^verbatim>\<open>drivers/keyboard.cpp\<close>. Characters by modifiers; modifiers against held keys.
  \<^item> \<open>Acpi\<close>, \<open>Hpet\<close>, \<open>Cpu\<close>, \<open>Apic\<close>: \<^verbatim>\<open>acpi/\<close>, \<^verbatim>\<open>cpu/cpu.cpp\<close>, \<^verbatim>\<open>pic/\<close>. Searches of the tables, programming of timer and
    interrupt controllers, features of the processor.
  \<^item> \<open>Descriptors\<close>: \<^verbatim>\<open>gdt/gdt.cpp\<close>, \<^verbatim>\<open>idt/idt.cpp\<close>. What the processor decodes from the tables.
  \<^item> \<open>Asm\<close>: the assembly routines (\<^verbatim>\<open>cpu/cpu.asm\<close>, \<^verbatim>\<open>gdt/gdt.asm\<close>, \<^verbatim>\<open>pic/pic.asm\<close>, \<^verbatim>\<open>memory/paging.asm\<close>) as lists of instructions with an
    interpreter. The locale \<open>routine\<close> is the calling convention; each routine implements the function the other theories use.
  \<^item> \<open>Interrupts\<close>: \<^verbatim>\<open>idt/interrupts.cpp\<close>. The handlers compose keyboard, console, clock and local APIC; arriving
    interrupts are a step relation with an invariant over every interleaving.
  \<^item> \<open>Kernel\<close>, \<open>EarlyBoot\<close>, \<open>Devices\<close>, \<open>KernelHeap\<close>: \<^verbatim>\<open>kernel.cpp\<close>. The stages of \<^verbatim>\<open>_start\<close> composed as in the source: the objects built from the boot
    loader's data are well-formed; the stages from the frame manager to the ACPI tables always succeed together and do not disturb
    each other; the search for the devices succeeds or stops at a named assertion; the last stage before the
    heap sets the interrupt flag, routes timer and keyboard and enables the local APIC; and the exercise of the heap always
    ends in a null dereference.
  \<^item> \<open>Boot\<close>, \<open>BootKernel\<close>, \<open>BootRun\<close>: the boot loader (\<^verbatim>\<open>src/bootloader\<close>): files, font, framebuffer, the kernel's ELF file, the memory
    map, \<^verbatim>\<open>efi_main\<close>. The relation \<open>extends\<close> says that a step leaves the memory in use alone; from it follows what the kernel
    finds when it is called. A concrete firmware on which the boot succeeds shows that the hypotheses can be met.
    The theorem below this header joins boot loader and kernel: what \<^verbatim>\<open>efi_main\<close> hands over is what \<^verbatim>\<open>_start\<close> needs to open the console.
  \<^item> \<open>Debug\<close>: the dumps of \<^verbatim>\<open>debug/print.cpp\<close>, a third device of the locale \<open>text_sink\<close>.

  \<^bold>\<open>Bounds.\<close> The partial loops need no fuel; the loop over the program headers ends because their number has 16 bits; where a theorem bounds a size (a page, the 4096 bytes of the
  print buffer, 15 structures of the MADT, 100 columns and 37 rows) the bound is the source's own.

  \<^bold>\<open>Where the code departs from its intention\<close>, theorems state what it does: a request for one frame through
  \<^verbatim>\<open>request_frames\<close> always panics, the frame of the bitmap is left free, releasing the last block can
  dereference a null pointer, identity paging can miss the last page, table pointers survive only
  below 4 GiB, a backspace at the origin takes the cursor off the screen, the search of the MADT knows
  no end, pixels are written eight bytes wide, growing the heap forgets the size of a header, the boot loader
  counts pages in 16 bits and leaves no slack for the memory map, the hexadecimal dump shows no byte,
  \<^verbatim>\<open>get_cpuid\<close> overwrites registers of its caller, and enabling paging writes the reserved half of \<^verbatim>\<open>cr0\<close>.

  \<^bold>\<open>Not modelled\<close>: the UEFI firmware and its library, which are parameters; the instructions \<^verbatim>\<open>sti\<close>, \<^verbatim>\<open>lidt\<close> and \<^verbatim>\<open>int\<close>
  beyond the values they are given; what the kernel does to the boot loader's stack, on which it runs; timing,
  caches and the translation look-aside buffer; the faults of the processor on reserved bits of its registers; \<^verbatim>\<open>klog\<close> and \<^verbatim>\<open>cmath\<close>, which are empty.
\<close>

section \<open>From the firmware to the console\<close>

text \<open>
  A graphics mode the console can use, and pool memory that is clear of the screen. The mode has lines without padding
  that fit into 16 bits and room for 100 by 37 glyphs of 8 by 16 pixels; the memory map has an entry. The kernel writes four bytes past the second buffer, so
  the pool has to keep that distance from the screen.
\<close>

definition mode_ok :: "gop_mode \<Rightarrow> bool" where
  "mode_ok mode \<longleftrightarrow> FrameBufferBase mode \<noteq> 0 \<and> PixelsPerScanLine mode = HorizontalResolution mode \<and>
     800 \<le> unat (HorizontalResolution mode) \<and> unat (HorizontalResolution mode) < 65536 \<and>
     592 \<le> unat (VerticalResolution mode) \<and> unat (VerticalResolution mode) < 65536 \<and>
     unat (FrameBufferSize mode) = 4 * (unat (VerticalResolution mode) * unat (HorizontalResolution mode)) \<and>
     unat (FrameBufferSize mode) < 2 ^ 32"

definition pool_off_screen :: "'f uefi \<Rightarrow> gop_mode \<Rightarrow> bool" where
  "pool_off_screen fw mode \<longleftrightarrow> (\<forall>n f p f'. AllocatePool fw n f = (EFI_SUCCESS, p, f') \<longrightarrow>
     unat (out_ptr p) + unat n + 8 \<le> 2 ^ 64 \<and>
     span (out_ptr p) (unat n + 4) \<inter> span (FrameBufferBase mode) (unat (FrameBufferSize mode)) = {})"

definition map_has_entries :: "'f uefi \<Rightarrow> bool" where
  "map_has_entries fw \<longleftrightarrow> (\<forall>n f i f'. GetMemoryMap fw n f = (EFI_SUCCESS, i, f') \<longrightarrow>
     map_desc_size i \<noteq> 0 \<and> map_desc_size i \<le> map_size i)"

definition ex_mode :: gop_mode where
  "ex_mode = \<lparr>FrameBufferBase = 0xC0000000, FrameBufferSize = 0x1D4C00, HorizontalResolution = 800,
     VerticalResolution = 600, PixelsPerScanLine = 800\<rparr>"

lemma unat_ucast_16: "unat w < 65536 \<Longrightarrow> unat (ucast (w :: u32) :: u16) = unat w"
  by (simp add: unsigned_ucast_eq take_bit_nat_eq_self)

text \<open>The framebuffer the kernel makes of such a mode.\<close>

lemma mode_screen:
  assumes mode: "mode_ok mode" and off: "pool_off_screen fw mode" and p: "pool_of fw (FrameBufferSize mode) buf"
    and font: "glyph_height font = 16" "glyph_width font = 8"
  shows "\<exists>fb. Framebuffer_init (mode_data mode buf) = Inr fb \<and> screen_ok font fb \<and> width fb = px_per_scan fb \<and> 2 \<le> unat (width fb) \<and>
    fb_addr fb = FrameBufferBase mode \<and> double_fb_addr fb = buf"
proof -
  let ?W = "unat (HorizontalResolution mode)" and ?H = "unat (VerticalResolution mode)"
  define fb where "fb = \<lparr>fb_addr = FrameBufferBase mode, double_fb_addr = buf, b_size = FrameBufferSize mode,
      width = ucast (HorizontalResolution mode), height = ucast (VerticalResolution mode),
      px_per_scan = ucast (PixelsPerScanLine mode), b_per_px = 4\<rparr>"
  have i: "Framebuffer_init (mode_data mode buf) = Inr fb"
    using mode by (simp add: Framebuffer_init_def mode_data_def fb_def mode_ok_def)
  have w: "unat (width fb) = ?W" "unat (px_per_scan fb) = ?W" "unat (height fb) = ?H" "width fb = px_per_scan fb"
    using mode by (simp_all add: fb_def mode_ok_def unat_ucast_16)
  have px: "4 * pixel_count fb = unat (FrameBufferSize mode)" using mode w by (simp add: pixel_count_def mode_ok_def)
  have b: "unat buf + unat (FrameBufferSize mode) + 8 \<le> 2 ^ 64"
    "span buf (unat (FrameBufferSize mode) + 4) \<inter> span (FrameBufferBase mode) (unat (FrameBufferSize mode)) = {}"
    using off p unfolding pool_off_screen_def pool_of_def by blast+
  have "front_span fb \<inter> fb_span fb = {}" using b(2) px by (auto simp: front_span_def fb_span_def) (simp add: fb_def disjoint_iff)
  moreover have "fb_ok fb"
  proof -
    have "b_per_px fb = 4" "double_fb_addr fb = buf" by (simp_all add: fb_def)
    moreover have "unat (height fb) * unat (px_per_scan fb) * 4 = unat (FrameBufferSize mode)" using px by (simp add: pixel_count_def)
    moreover have "unat (FrameBufferSize mode) < 2 ^ 32" using mode unfolding mode_ok_def by blast
    ultimately show ?thesis using b(1) w(4) by (simp add: fb_ok_def)
  qed
  moreover have "0 < width fb" "0 < height fb" "800 \<le> unat (width fb)" "592 \<le> unat (height fb)"
    using w mode by (simp_all add: mode_ok_def word_less_nat_alt)
  moreover have "unat (b_size fb) = 4 * pixel_count fb" unfolding px by (simp add: fb_def)
  ultimately have "screen_ok font fb" using font by (simp add: screen_ok_def)
  moreover have "fb_addr fb = FrameBufferBase mode" "double_fb_addr fb = buf" by (simp_all add: fb_def)
  moreover have "2 \<le> unat (width fb)" using w(1) mode unfolding mode_ok_def by linarith
  ultimately show ?thesis using i w(4) by blast
qed


lemma ex_pool_off_screen: "pool_off_screen ex_uefi ex_mode"
  unfolding pool_off_screen_def
proof (intro allI impI)
  fix n f p f'
  assume "AllocatePool ex_uefi n f = (EFI_SUCCESS, p, f')"
  moreover obtain q g pos where "f = (q, g, pos)" by (metis prod_cases3)
  ultimately have q: "out_ptr p = q" "q \<le> POOL_END" "n \<le> POOL_END - q"
    by (auto simp: ex_uefi_def ex_pool_def out_ptr_def EFI_SUCCESS_def EFI_ERR_def split: if_splits)
  have s: "unat q + unat n \<le> 0x1000000" using q(2,3) by (rule pool_room)
  have "x \<notin> span 0xC0000000 0x1D4C00" if "x \<in> span q (unat n + 4)" for x
  proof
    assume "x \<in> span 0xC0000000 0x1D4C00"
    then have "0xC0000000 \<le> unat x" using span_bounds(1) [of x "0xC0000000" "0x1D4C00"] by simp
    moreover have "unat x < unat q + (unat n + 4)" using span_bounds(2) [OF that] s by simp
    ultimately show False using s by simp
  qed
  then show "unat (out_ptr p) + unat n + 8 \<le> 2 ^ 64 \<and>
      span (out_ptr p) (unat n + 4) \<inter> span (FrameBufferBase ex_mode) (unat (FrameBufferSize ex_mode)) = {}"
    using s by (auto simp: q(1) ex_mode_def)
qed


end
